(* ===== verification/Prelude.thy ===== *)
theory Prelude
  imports Main "HOL-Library.Word"
begin

text \<open>
  Shared vocabulary of the FARLock development: machine integers of the C++ sources, thread
  identities, the position relations \<open>adj\<close> and \<open>before\<close> on waiting lines, and the shape of an
  MCS queue (\<open>mcs_shape\<close>) that four of the six locks of the repository maintain in shared memory.
\<close>

section \<open>Types and automation\<close>

type_synonym u8 = "8 word"
type_synonym u16 = "16 word"
type_synonym u32 = "32 word"
type_synonym u64 = "64 word"

text \<open>
  A thread is named by a 64-bit number.  Every lock handler of the sources owns one queue descriptor
  per cohort, found at a 64-bit address, so a non-null pointer to a descriptor is the name of the
  thread that owns it, and \<open>nullptr\<close> is \<open>None\<close>.  There are at most \<open>2 ^ 64\<close> threads.
\<close>

type_synonym tid = u64

text \<open>Facts that unfold the steps of a lock protocol, and facts about waiting lines.\<close>

named_theorems step_simps
named_theorems line_simps

lemma card_tid: "card (UNIV :: tid set) = 2 ^ 64"
  by (simp add: card_word)

lemma distinct_tid_length: "distinct (xs :: tid list) \<Longrightarrow> length xs \<le> 2 ^ 64"
  using card_mono [of "UNIV :: tid set" "set xs"] by (simp add: card_tid distinct_card)

section \<open>Waiting lines\<close>

text \<open>
  \<open>adj xs a b\<close>: \<open>b\<close> stands directly behind \<open>a\<close>; \<open>before xs a b\<close>: \<open>b\<close> stands somewhere behind \<open>a\<close>.
\<close>

fun adj :: "'a list \<Rightarrow> 'a \<Rightarrow> 'a \<Rightarrow> bool" where
  "adj (x # y # zs) a b = ((a = x \<and> b = y) \<or> adj (y # zs) a b)"
| "adj _ a b = False"

fun before :: "'a list \<Rightarrow> 'a \<Rightarrow> 'a \<Rightarrow> bool" where
  "before [] a b = False"
| "before (x # xs) a b = ((a = x \<and> b \<in> set xs) \<or> before xs a b)"

lemma adj_Cons [line_simps]:
  "adj (x # xs) a b \<longleftrightarrow> (xs \<noteq> [] \<and> a = x \<and> b = hd xs) \<or> adj xs a b"
  by (cases xs) auto

lemma adj_snoc [line_simps]:
  "adj (xs @ [x]) a b \<longleftrightarrow> (xs \<noteq> [] \<and> a = last xs \<and> b = x) \<or> adj xs a b"
  by (induction xs) (auto simp: adj_Cons hd_append)

lemma adj_set: "adj xs a b \<Longrightarrow> a \<in> set xs \<and> b \<in> set xs"
  by (induction xs) (auto simp: adj_Cons)

lemma adj_setL: "adj xs a b \<Longrightarrow> a \<in> set xs" and adj_setR: "adj xs a b \<Longrightarrow> b \<in> set xs"
  using adj_set by metis+

lemma adj_neq: "distinct xs \<Longrightarrow> adj xs a b \<Longrightarrow> a \<noteq> b"
  by (induction xs) (auto simp: adj_Cons)

lemma adj_not_hd: "distinct xs \<Longrightarrow> adj xs a b \<Longrightarrow> b \<noteq> hd xs"
  by (cases xs) (auto simp: adj_Cons dest: adj_set)

lemma adj_not_last: "distinct xs \<Longrightarrow> adj xs a b \<Longrightarrow> a \<noteq> last xs"
  by (induction xs) (auto simp: adj_Cons dest: adj_set)

lemma adj_unique_right: "distinct xs \<Longrightarrow> adj xs a b \<Longrightarrow> adj xs a c \<Longrightarrow> b = c"
  by (induction xs) (auto simp: adj_Cons dest: adj_set)

lemma adj_unique_left: "distinct xs \<Longrightarrow> adj xs a c \<Longrightarrow> adj xs b c \<Longrightarrow> a = b"
proof (induction xs)
  case (Cons x xs)
  then show ?case
    by (auto simp: adj_Cons dest: adj_not_hd)
qed simp

lemma adj_ex_left: "b \<in> set xs \<Longrightarrow> b \<noteq> hd xs \<Longrightarrow> \<exists>a. adj xs a b"
proof (induction xs)
  case (Cons x xs)
  then show ?case
    by (cases "b = hd xs") (auto simp: adj_Cons)
qed simp

lemma adj_ex_right: "a \<in> set xs \<Longrightarrow> a \<noteq> last xs \<Longrightarrow> \<exists>b. adj xs a b"
proof (induction xs)
  case (Cons x xs)
  then show ?case
    by (cases "xs = []") (auto simp: adj_Cons)
qed simp

lemma before_set: "before xs a b \<Longrightarrow> a \<in> set xs \<and> b \<in> set xs"
  by (induction xs) auto

lemma before_neq: "distinct xs \<Longrightarrow> before xs a b \<Longrightarrow> a \<noteq> b"
  by (induction xs) auto

lemma before_snoc [line_simps]:
  "before (xs @ [x]) a b \<longleftrightarrow> (a \<in> set xs \<and> b = x) \<or> before xs a b"
  by (induction xs) auto

lemma before_total:
  "a \<in> set xs \<Longrightarrow> b \<in> set xs \<Longrightarrow> a \<noteq> b \<Longrightarrow> before xs a b \<or> before xs b a"
  by (induction xs) auto

lemma before_antisym: "distinct xs \<Longrightarrow> before xs a b \<Longrightarrow> \<not> before xs b a"
  by (induction xs) (auto dest: before_set)

lemma before_not_hd: "distinct xs \<Longrightarrow> before xs a b \<Longrightarrow> b \<noteq> hd xs"
  by (cases xs) (auto dest: before_set)

lemma before_hd: "b \<in> set xs \<Longrightarrow> b \<noteq> hd xs \<Longrightarrow> before xs (hd xs) b"
  by (cases xs) auto

lemma adj_before: "adj xs a b \<Longrightarrow> before xs a b"
  by (induction xs) (auto simp: adj_Cons)

lemma before_tl: "before xs a b \<Longrightarrow> a \<noteq> hd xs \<Longrightarrow> before (tl xs) a b"
  by (cases xs) auto

text \<open>
  A condition handed from each thread to the one directly ahead of it reaches every thread ahead.
\<close>

lemma before_adj_split:
  "before xs a b \<Longrightarrow> \<exists>c. adj xs a c \<and> (c = b \<or> before xs c b)"
proof (induction xs)
  case (Cons x xs)
  then show ?case
    by (cases "b = hd xs") (auto simp: adj_Cons intro: before_hd)
qed simp

lemma before_chain_all:
  assumes "\<And>x y. adj xs x y \<Longrightarrow> P y \<Longrightarrow> P x" and "before xs a b" and "P b"
  shows "P a"
  using assms
proof (induction xs arbitrary: a)
  case (Cons x xs)
  have step: "adj xs x' y' \<Longrightarrow> P y' \<Longrightarrow> P x'" for x' y'
    using Cons.prems(1) by (auto simp: adj_Cons)
  show ?case
  proof (cases "before xs a b")
    case True
    show ?thesis by (rule Cons.IH [OF step True Cons.prems(3)])
  next
    case False
    with Cons.prems(2) have a: "a = x" and b: "b \<in> set xs" by auto
    have "P (hd xs)"
      using Cons.IH [OF step before_hd [OF b] Cons.prems(3)] Cons.prems(3) by (cases "b = hd xs") auto
    moreover from b have "adj (x # xs) x (hd xs)" by (auto simp: adj_Cons)
    ultimately show ?thesis using Cons.prems(1) a by blast
  qed
qed simp

lemma before_chain:
  assumes "\<And>x y. adj xs x y \<Longrightarrow> P y \<Longrightarrow> P x \<and> Q x" and "before xs a b" and "P b"
  shows "Q a"
proof -
  obtain c where c: "adj xs a c" "c = b \<or> before xs c b"
    using before_adj_split [OF assms(2)] by blast
  have "P c"
    using c(2) assms(3) before_chain_all [of xs P c b] assms(1) by blast
  then show ?thesis using assms(1) c(1) by blast
qed

section \<open>Lines of outstanding tickets\<close>

text \<open>
  \<open>ticket_line cur nxt tk xs\<close>: the threads \<open>xs\<close> hold the consecutive 64-bit tickets from \<open>cur\<close>
  (served now) up to \<open>nxt\<close> (handed out next), wrap-around included.
\<close>

definition ticket_line :: "u64 \<Rightarrow> u64 \<Rightarrow> (tid \<Rightarrow> u64) \<Rightarrow> tid list \<Rightarrow> bool" where
  "ticket_line cur nxt tk xs \<longleftrightarrow>
     distinct xs \<and> nxt = cur + of_nat (length xs) \<and>
     (\<forall>i < length xs. tk (xs ! i) = cur + of_nat i)"

lemma ticket_line_Nil [simp]: "ticket_line cur nxt tk [] \<longleftrightarrow> nxt = cur"
  by (auto simp: ticket_line_def)

lemma ticket_line_distinct: "ticket_line cur nxt tk xs \<Longrightarrow> distinct xs"
  by (simp add: ticket_line_def)

lemma ticket_line_join:
  assumes "ticket_line cur nxt tk xs" and "t \<notin> set xs"
    and "tk' t = nxt" and "\<And>x. x \<in> set xs \<Longrightarrow> tk' x = tk x"
  shows "ticket_line cur (nxt + 1) tk' (xs @ [t])"
  using assms by (auto simp: ticket_line_def nth_append less_Suc_eq)

lemma ticket_line_head:
  assumes "ticket_line cur nxt tk xs" and "t \<in> set xs" and "tk t = cur"
  shows "xs \<noteq> [] \<and> hd xs = t"
proof -
  obtain i where i: "i < length xs" "xs ! i = t"
    using assms(2) by (auto simp: in_set_conv_nth)
  have len: "LENGTH(64) = 64" by simp
  have "length xs \<le> 2 ^ 64"
    using assms(1) by (intro distinct_tid_length) (simp add: ticket_line_def)
  with i(1) have lt: "i < 2 ^ LENGTH(64)" unfolding len by (rule less_le_trans)
  have "tk (xs ! i) = cur + of_nat i"
    using assms(1) i(1) unfolding ticket_line_def by blast
  with assms(3) i(2) have "of_nat i = (0 :: u64)" by simp
  then have "unat (0 :: u64) = i" using lt by (rule of_nat_inverse)
  then have "i = 0" by simp
  with i show ?thesis by (cases xs) auto
qed

lemma ticket_line_serve:
  assumes "ticket_line cur nxt tk xs" and "xs \<noteq> []"
  shows "ticket_line (cur + 1) nxt tk (tl xs)"
  using assms by (cases xs) (auto simp: ticket_line_def nth_Cons' algebra_simps all_set_conv_all_nth)

lemma ticket_line_hd: "ticket_line cur nxt tk xs \<Longrightarrow> xs \<noteq> [] \<Longrightarrow> tk (hd xs) = cur"
  by (cases xs) (auto simp: ticket_line_def)

lemma ticket_line_cong:
  assumes "ticket_line cur nxt tk xs" and "\<And>x. x \<in> set xs \<Longrightarrow> tk' x = tk x"
  shows "ticket_line cur nxt tk' xs"
  using assms by (auto simp: ticket_line_def)

end
