(* ===== verification/Interleaving.thy ===== *)
theory Interleaving
  imports Prelude "HOL-Library.Sublist"
begin

text \<open>
  Interleaving semantics shared by the six lock protocols, and the two contracts a lock handler of
  \<^verbatim>\<open>include/locks/common.h\<close> (\<^verbatim>\<open>class RdmaLockHandler\<close> with \<^verbatim>\<open>Lock\<close> and \<^verbatim>\<open>Unlock\<close>) is held to:
  \<open>lock_protocol\<close> (mutual exclusion) and \<open>fifo_protocol\<close> (the critical section is entered in the
  order of arrival).  A protocol is a step function \<open>step t s\<close>, the effect of the next shared-memory
  access of thread \<open>t\<close>; a spinning thread's step leaves the state as it is.  The ghost state \<open>'g\<close>
  records queue contents that the code keeps only implicitly; it never influences a step.
\<close>

section \<open>Runs\<close>

inductive reachable :: "('t \<Rightarrow> 's \<Rightarrow> 's) \<Rightarrow> 't set \<Rightarrow> 's \<Rightarrow> 's \<Rightarrow> bool" for step T s0 where
  start: "reachable step T s0 s0"
| move: "reachable step T s0 s \<Longrightarrow> t \<in> T \<Longrightarrow> reachable step T s0 (step t s)"

definition run :: "('t \<Rightarrow> 's \<Rightarrow> 's) \<Rightarrow> 't list \<Rightarrow> 's \<Rightarrow> 's" where
  "run step sched s = fold step sched s"

lemma run_simps [simp]:
  "run step [] s = s"
  "run step (t # ts) s = run step ts (step t s)"
  "run step (us @ ts) s = run step ts (run step us s)"
  by (simp_all add: run_def)

lemma reachable_run:
  assumes "set sched \<subseteq> T" and "reachable step T s0 s"
  shows "reachable step T s0 (run step sched s)"
  using assms by (induction sched arbitrary: s) (auto intro: reachable.move)

lemma reachable_iff_run:
  "reachable step T s0 s \<longleftrightarrow> (\<exists>sched. set sched \<subseteq> T \<and> s = run step sched s0)"
proof
  assume "reachable step T s0 s"
  then show "\<exists>sched. set sched \<subseteq> T \<and> s = run step sched s0"
  proof (induction rule: reachable.induct)
    case start
    show ?case by (intro exI [of _ "[]"]) simp
  next
    case (move s t)
    then obtain sched where "set sched \<subseteq> T" "s = run step sched s0" by blast
    with move.hyps(2) show ?case by (intro exI [of _ "sched @ [t]"]) simp
  qed
next
  assume "\<exists>sched. set sched \<subseteq> T \<and> s = run step sched s0"
  then show "reachable step T s0 s"
    using reachable_run reachable.start by fastforce
qed

text \<open>The threads that performed a step of the given kind, in the order in which they did.\<close>

fun events :: "('s \<Rightarrow> 't \<Rightarrow> bool) \<Rightarrow> ('t \<Rightarrow> 's \<Rightarrow> 's) \<Rightarrow> 't list \<Rightarrow> 's \<Rightarrow> 't list" where
  "events ev step [] s = []"
| "events ev step (t # ts) s = (if ev s t then [t] else []) @ events ev step ts (step t s)"

lemma events_filter: "filter P (events ev step sched s) = events (\<lambda>s t. P t \<and> ev s t) step sched s"
  by (induction sched arbitrary: s) auto

text \<open>A step of a thread enters (leaves) when it starts (stops) to hold the lock.\<close>

definition enters :: "('s \<Rightarrow> 't \<Rightarrow> bool) \<Rightarrow> ('t \<Rightarrow> 's \<Rightarrow> 's) \<Rightarrow> 's \<Rightarrow> 't \<Rightarrow> bool" where
  "enters hold step s t \<longleftrightarrow> \<not> hold s t \<and> hold (step t s) t"

definition leaves :: "('s \<Rightarrow> 't \<Rightarrow> bool) \<Rightarrow> ('t \<Rightarrow> 's \<Rightarrow> 's) \<Rightarrow> 's \<Rightarrow> 't \<Rightarrow> bool" where
  "leaves hold step s t \<longleftrightarrow> hold s t \<and> \<not> hold (step t s) t"

section \<open>Contract: mutual exclusion\<close>

locale lock_protocol =
  fixes T :: "'t set"
    and step :: "'t \<Rightarrow> 's \<Rightarrow> 's"
    and init :: "'s"
    and gstep :: "'t \<Rightarrow> 's \<Rightarrow> 'g \<Rightarrow> 'g"
    and ginit :: "'g"
    and inv :: "'s \<Rightarrow> 'g \<Rightarrow> bool"
    and hold :: "'s \<Rightarrow> 't \<Rightarrow> bool"
  assumes inv_init: "inv init ginit"
    and inv_step: "inv s g \<Longrightarrow> t \<in> T \<Longrightarrow> inv (step t s) (gstep t s g)"
    and inv_mutex: "inv s g \<Longrightarrow> hold s a \<Longrightarrow> hold s b \<Longrightarrow> a = b"
begin

lemma reachable_inv: "reachable step T init s \<Longrightarrow> \<exists>g. inv s g"
proof (induction rule: reachable.induct)
  case start
  show ?case using inv_init by blast
next
  case (move s t)
  then show ?case using inv_step by blast
qed

lemma mutual_exclusion:
  "reachable step T init s \<Longrightarrow> hold s a \<Longrightarrow> hold s b \<Longrightarrow> a = b"
  using reachable_inv inv_mutex by blast

end

section \<open>Contract: first come, first served\<close>

text \<open>
  \<open>line\<close> reads the waiting line off the ghost state.  Threads join at the end with an \<open>arrive\<close> step,
  only the head may hold the lock, and the head leaves the line when it stops holding it.
\<close>

locale fifo_protocol =
  fixes T :: "'t set"
    and step :: "'t \<Rightarrow> 's \<Rightarrow> 's"
    and init :: "'s"
    and gstep :: "'t \<Rightarrow> 's \<Rightarrow> 'g \<Rightarrow> 'g"
    and ginit :: "'g"
    and inv :: "'s \<Rightarrow> 'g \<Rightarrow> bool"
    and hold :: "'s \<Rightarrow> 't \<Rightarrow> bool"
    and arrive :: "'s \<Rightarrow> 't \<Rightarrow> bool"
    and line :: "'g \<Rightarrow> 't list"
  assumes fifo_inv_init: "inv init ginit"
    and fifo_inv_step: "inv s g \<Longrightarrow> t \<in> T \<Longrightarrow> inv (step t s) (gstep t s g)"
    and hold_init: "\<not> hold init t"
    and hold_other: "inv s g \<Longrightarrow> t \<noteq> u \<Longrightarrow> hold (step t s) u \<Longrightarrow> hold s u"
    and hold_keep: "inv s g \<Longrightarrow> t \<noteq> u \<Longrightarrow> hold s u \<Longrightarrow> hold (step t s) u"
    and hold_head: "inv s g \<Longrightarrow> hold s t \<Longrightarrow> line g \<noteq> [] \<and> hd (line g) = t"
    and line_init: "line ginit = []"
    and line_step: "inv s g \<Longrightarrow> t \<in> T \<Longrightarrow>
      line (gstep t s g) =
        (if leaves hold step s t then tl (line g)
         else if arrive s t then line g @ [t] else line g)"
    and arrive_not_leave: "inv s g \<Longrightarrow> arrive s t \<Longrightarrow> \<not> hold s t"

sublocale fifo_protocol \<subseteq> lock_protocol T step init gstep ginit inv hold
proof unfold_locales
  show "inv init ginit" by (rule fifo_inv_init)
  show "inv (step t s) (gstep t s g)" if "inv s g" "t \<in> T" for s g t
    using that by (rule fifo_inv_step)
  show "a = b" if "inv s g" "hold s a" "hold s b" for s g a b
    using hold_head [OF that(1,2)] hold_head [OF that(1,3)] by simp
qed

context fifo_protocol
begin

definition busy :: "'s \<Rightarrow> 'g \<Rightarrow> 't list" where
  "busy s g = (if \<exists>t. hold s t then [hd (line g)] else [])"

text \<open>
  What is still to be entered, after the current holder, are the threads of the line and then the
  threads that arrive later.
\<close>

lemma events_from:
  assumes "inv s g" and "set sched \<subseteq> T"
  shows "prefix (busy s g @ events (enters hold step) step sched s)
           (line g @ events arrive step sched s)"
  using assms
proof (induction sched arbitrary: s g)
  case Nil
  then show ?case
    using hold_head [OF Nil.prems(1)] by (cases "line g") (auto simp: busy_def)
next
  case (Cons t ts)
  let ?s = "step t s" and ?g = "gstep t s g"
  have inv': "inv ?s ?g" using Cons.prems by (auto intro: fifo_inv_step)
  note IH = Cons.IH [OF inv'] and t = Cons.prems(1)
  have tT: "t \<in> T" and tsT: "set ts \<subseteq> T" using Cons.prems(2) by auto
  note ls = line_step [OF t tT]
  note IH = IH [OF tsT]
  consider (leave) "leaves hold step s t" | (enter) "enters hold step s t"
    | (hold) "hold s t" "hold ?s t" | (idle) "\<not> hold s t" "\<not> hold ?s t"
    by (auto simp: leaves_def enters_def)
  then show ?case
  proof cases
    case leave
    then have h: "hold s t" "\<not> hold ?s t" by (auto simp: leaves_def)
    have l: "line g \<noteq> []" "hd (line g) = t" using hold_head [OF t h(1)] by auto
    have no: "\<not> hold ?s u" for u
      using h hold_other [OF t, of t u] inv_mutex [OF t h(1), of u] by blast
    have "\<not> arrive s t" using arrive_not_leave [OF t] h(1) by blast
    with h l no IH ls leave show ?thesis
      by (cases "line g") (auto simp: busy_def enters_def)
  next
    case enter
    then have h: "\<not> hold s t" "hold ?s t" by (auto simp: enters_def)
    have no: "\<not> hold s u" for u
      using h hold_keep [OF t, of t u] inv_mutex [OF inv' h(2), of u] by blast
    have l: "line ?g \<noteq> []" "hd (line ?g) = t" using hold_head [OF inv' h(2)] by auto
    have "\<not> leaves hold step s t" using h by (simp add: leaves_def)
    with h l no IH ls enter show ?thesis
      by (auto simp: busy_def split: if_splits)
  next
    case hold
    have l: "line g \<noteq> []" "hd (line g) = t" using hold_head [OF t hold(1)] by auto
    have "\<not> leaves hold step s t" "\<not> enters hold step s t" using hold by (auto simp: leaves_def enters_def)
    moreover have "\<not> arrive s t" using arrive_not_leave [OF t] hold(1) by blast
    ultimately show ?thesis using IH ls hold l by (auto simp: busy_def split: if_splits)
  next
    case idle
    have same: "(\<exists>u. hold ?s u) \<longleftrightarrow> (\<exists>u. hold s u)"
      using idle hold_other [OF t, of t] hold_keep [OF t, of t] by metis
    have "\<not> leaves hold step s t" "\<not> enters hold step s t" using idle by (auto simp: leaves_def enters_def)
    moreover have "hd (line g @ xs) = hd (line g)" if "\<exists>u. hold s u" for xs
      using hold_head [OF t] that by auto
    ultimately show ?thesis using IH ls same by (cases "\<exists>u. hold s u") (auto simp: busy_def split: if_splits)
  qed
qed

lemma first_come_first_served:
  assumes "set sched \<subseteq> T"
  shows "prefix (events (enters hold step) step sched init) (events arrive step sched init)"
  using events_from [OF fifo_inv_init assms] hold_init by (simp add: busy_def line_init)

end

end
