(* ===== verification/McsQueue.thy ===== *)
theory McsQueue
  imports Interleaving
begin

text \<open>
  The linked queue of descriptors that the MCS lock, ALock, FARLock and FARLockG build in shared
  memory.  A thread enqueues itself by swapping its descriptor into the tail word (which tells it its
  predecessor), later writes itself into its predecessor's \<open>next\<close> field, and the head leaves either
  by resetting the tail with a compare-and-swap or by signalling its successor.  \<open>mcs_shape\<close> relates
  the shared words to the abstract queue contents; its lemmas are the only facts about linked lists
  the lock proofs use.
\<close>

section \<open>Shape of the queue\<close>

text \<open>
  \<open>linked b\<close>: thread \<open>b\<close> has written itself into the \<open>next\<close> field of its predecessor.
\<close>

definition mcs_shape ::
  "tid list \<Rightarrow> tid option \<Rightarrow> (tid \<Rightarrow> tid option) \<Rightarrow> (tid \<Rightarrow> tid option) \<Rightarrow> (tid \<Rightarrow> bool) \<Rightarrow> bool" where
  "mcs_shape q tail prev nxt linked \<longleftrightarrow>
     distinct q \<and>
     tail = (if q = [] then None else Some (last q)) \<and>
     (q \<noteq> [] \<longrightarrow> nxt (last q) = None) \<and>
     (\<forall>a b. adj q a b \<longrightarrow> prev b = Some a \<and> nxt a = (if linked b then Some b else None))"

lemma mcs_shape_Nil [simp]: "mcs_shape [] tail prev nxt linked \<longleftrightarrow> tail = None"
  by (auto simp: mcs_shape_def)

lemma mcs_shape_distinct: "mcs_shape q tail prev nxt linked \<Longrightarrow> distinct q"
  by (simp add: mcs_shape_def)

lemma mcs_shape_tail_in: "mcs_shape q (Some t) prev nxt linked \<Longrightarrow> q \<noteq> [] \<and> last q = t"
  by (auto simp: mcs_shape_def split: if_splits)

lemma mcs_shape_prev: "mcs_shape q tail prev nxt linked \<Longrightarrow> adj q a b \<Longrightarrow> prev b = Some a"
  by (simp add: mcs_shape_def)

lemma mcs_shape_next:
  "mcs_shape q tail prev nxt linked \<Longrightarrow> adj q a b \<Longrightarrow> nxt a = (if linked b then Some b else None)"
  by (simp add: mcs_shape_def)

lemma mcs_shape_last: "mcs_shape q tail prev nxt linked \<Longrightarrow> q \<noteq> [] \<Longrightarrow> nxt (last q) = None"
  by (simp add: mcs_shape_def)

lemma mcs_shape_next_Some:
  assumes "mcs_shape q tail prev nxt linked" and "a \<in> set q" and "nxt a = Some b"
  shows "adj q a b \<and> linked b"
proof -
  have "a \<noteq> last q" using assms mcs_shape_last by fastforce
  then obtain c where c: "adj q a c" using assms(2) adj_ex_right by metis
  with mcs_shape_next [OF assms(1) c] assms(3) show ?thesis by (auto split: if_splits)
qed

lemma mcs_shape_not_head:
  assumes "mcs_shape q tail prev nxt linked" and "b \<in> set q" and "b \<noteq> hd q" and "prev b = Some a"
  shows "adj q a b"
  using assms adj_ex_left [of b q] mcs_shape_prev by fastforce

text \<open>Only the words of enqueued threads matter.\<close>

lemma mcs_shape_cong:
  assumes "mcs_shape q tail prev nxt linked"
    and "\<And>x. x \<in> set q \<Longrightarrow> prev' x = prev x"
    and "\<And>x. x \<in> set q \<Longrightarrow> nxt' x = nxt x"
    and "\<And>x. x \<in> set q \<Longrightarrow> linked' x = linked x"
  shows "mcs_shape q tail prev' nxt' linked'"
  using assms adj_setL [of q] adj_setR [of q] unfolding mcs_shape_def by auto

section \<open>Operations\<close>

lemma mcs_shape_enqueue:
  assumes "mcs_shape q tail prev nxt linked" and "t \<notin> set q"
    and "prev' t = tail" and "nxt' t = None" and "\<not> linked' t"
    and "\<And>x. x \<in> set q \<Longrightarrow> prev' x = prev x"
    and "\<And>x. x \<in> set q \<Longrightarrow> nxt' x = nxt x"
    and "\<And>x. x \<in> set q \<Longrightarrow> linked' x = linked x"
  shows "mcs_shape (q @ [t]) (Some t) prev' nxt' linked'"
proof -
  have s: "mcs_shape q tail prev' nxt' linked'"
    using assms(1,6,7,8) by (rule mcs_shape_cong)
  show ?thesis
    using s assms(2-5) by (auto simp: mcs_shape_def adj_snoc)
qed

lemma mcs_shape_link:
  assumes "mcs_shape q tail prev nxt linked" and "adj q a t"
    and "nxt' a = Some t" and "\<And>x. x \<in> set q \<Longrightarrow> x \<noteq> a \<Longrightarrow> nxt' x = nxt x"
    and "linked' t" and "\<And>x. x \<in> set q \<Longrightarrow> x \<noteq> t \<Longrightarrow> linked' x = linked x"
    and "\<And>x. x \<in> set q \<Longrightarrow> prev' x = prev x"
  shows "mcs_shape q tail prev' nxt' linked'"
proof -
  note d = mcs_shape_distinct [OF assms(1)]
  have q: "q \<noteq> []" using assms(2) by auto
  have "nxt' (last q) = None"
    using adj_not_last [OF d assms(2)] assms(4) [of "last q"] mcs_shape_last [OF assms(1) q] q by auto
  moreover have "prev' y = Some x \<and> nxt' x = (if linked' y then Some y else None)" if xy: "adj q x y" for x y
  proof (cases "x = a")
    case True
    then have "y = t" using adj_unique_right [OF d assms(2)] xy by auto
    with True show ?thesis
      using assms(3,5,7) adj_set [OF xy] mcs_shape_prev [OF assms(1) xy] by auto
  next
    case False
    then have "y \<noteq> t" using adj_unique_left [OF d xy] assms(2) by auto
    with False show ?thesis
      using assms(4,6,7) adj_set [OF xy] mcs_shape_prev [OF assms(1) xy] mcs_shape_next [OF assms(1) xy]
      by auto
  qed
  ultimately show ?thesis using assms(1) by (auto simp: mcs_shape_def)
qed

lemma mcs_shape_handover:
  assumes "mcs_shape q tail prev nxt linked" and "adj q (hd q) b"
  shows "mcs_shape (tl q) tail prev nxt linked" and "tl q \<noteq> []" and "hd (tl q) = b"
proof -
  obtain h r where q: "q = h # r" using assms(2) by (cases q) auto
  have d: "distinct q" using mcs_shape_distinct [OF assms(1)] .
  have r: "r \<noteq> []" "hd r = b"
    using assms(2) d q adj_unique_right [OF d assms(2)] by (cases r; auto)+
  show "mcs_shape (tl q) tail prev nxt linked"
    using assms(1) r q by (auto simp: mcs_shape_def adj_Cons)
  show "tl q \<noteq> []" "hd (tl q) = b" using q r by auto
qed

lemma mcs_shape_single:
  assumes "mcs_shape q (Some t) prev nxt linked" and "t = hd q"
  shows "q = [t]"
proof (cases q)
  case (Cons x xs)
  with assms show ?thesis
    by (cases "xs = []") (auto simp: mcs_shape_def)
qed (use assms mcs_shape_tail_in in fastforce)

text \<open>The threads behind the head, once it has left.\<close>

lemma tl_line: "distinct q \<Longrightarrow> u \<in> set (tl q) \<longleftrightarrow> u \<in> set q \<and> u \<noteq> hd q"
  by (cases q) auto

lemma adj_tl: "distinct q \<Longrightarrow> adj (tl q) a b \<longleftrightarrow> adj q a b \<and> a \<noteq> hd q"
  by (cases q) (auto simp: adj_Cons dest: adj_set)

lemma hd_in_line: "q \<noteq> [] \<Longrightarrow> hd q \<in> set q" and last_in_line: "q \<noteq> [] \<Longrightarrow> last q \<in> set q"
  by auto

end
