(* ===== verification/LockCommon.thy ===== *)
theory LockCommon
  imports McsQueue
begin

text \<open>
  Constants and configuration of \<^verbatim>\<open>include/locks/common.h\<close>, shared by FARLock and FARLockG.  A handler
  sees a lock as local or remote according to \<^verbatim>\<open>MemoryPool::IsLocal\<close>; the threads of one lock thus
  form two cohorts, here the two values of \<open>side\<close>.
\<close>

definition kTrue :: u64 where "kTrue = 1"
definition kFalse :: u64 where "kFalse = 0"
definition kLocked :: u64 where "kLocked = 1"
definition kUnlocked :: u64 where "kUnlocked = 0"
definition kLocalVictim :: u64 where "kLocalVictim = 1"
definition kRemoteVictim :: u64 where "kRemoteVictim = 2"

lemmas lock_consts = kTrue_def kFalse_def kLocked_def kUnlocked_def kLocalVictim_def kRemoteVictim_def

lemma lock_consts_distinct [simp]:
  "kTrue \<noteq> kFalse" "kFalse \<noteq> kTrue" "kLocalVictim \<noteq> kRemoteVictim" "kRemoteVictim \<noteq> kLocalVictim"
  by (simp_all add: lock_consts)

record LockConfig =
  local_budget :: u32
  remote_budget :: u32

datatype side = Local | Remote

lemma side_neq [simp]: "d \<noteq> Local \<longleftrightarrow> d = Remote" "d \<noteq> Remote \<longleftrightarrow> d = Local"
  by (cases d; simp)+

end
