(* ===== verification/Peterson.thy ===== *)
theory Peterson
  imports LockCommon
begin

text \<open>
  Peterson's two-party algorithm as FARLock and FARLockG use it between the head of the local cohort
  and the head of the remote cohort (\<^verbatim>\<open>LockPetersonsLocal\<close>, \<^verbatim>\<open>LockPetersonsRemote\<close> and their unlock
  functions).  The local side reads \<^verbatim>\<open>remote_flag_\<close> and then \<^verbatim>\<open>victim_\<close> with separate loads.  The remote
  side writes \<^verbatim>\<open>remote_flag_\<close> and \<^verbatim>\<open>victim_\<close> with one 16-byte RDMA write and polls \<^verbatim>\<open>victim_\<close> and
  \<^verbatim>\<open>local_flag_\<close> with one 16-byte RDMA read; neither is atomic, so both are two steps in address order,
  and the remote side decides on a \<^verbatim>\<open>victim_\<close> value that may be out of date.  This theory holds the
  invariant over abstract phases; the lock theories map their program counters to phases.
\<close>

datatype pet_phase =
    Out      \<comment> \<open>not taking part\<close>
  | Flagged  \<comment> \<open>own flag is set, own victim mark not written yet\<close>
  | ReadA    \<comment> \<open>about to perform the first read of a polling round\<close>
  | ReadB    \<comment> \<open>about to perform the second read of a polling round\<close>
  | In       \<comment> \<open>past the algorithm, flag still set\<close>

section \<open>Two parties\<close>

text \<open>
  The invariant of the two parties: \<open>pl\<close> and \<open>pr\<close> are the phases of the local and of the remote
  party, \<open>b\<close> is the victim value in the remote party's buffer.
\<close>

definition pet_core :: "pet_phase \<Rightarrow> pet_phase \<Rightarrow> u64 \<Rightarrow> u64 \<Rightarrow> u64 \<Rightarrow> u64 \<Rightarrow> bool" where
  "pet_core pl pr b lf rf v \<longleftrightarrow>
     lf = (if pl = Out then kFalse else kTrue) \<and>
     rf = (if pr = Out then kFalse else kTrue) \<and>
     (pl = In \<longrightarrow> pr \<noteq> In) \<and>
     (pl = In \<longrightarrow> pr = ReadA \<longrightarrow> v = kRemoteVictim) \<and>
     (pl = In \<longrightarrow> pr = ReadB \<longrightarrow> v = kRemoteVictim \<and> b = kRemoteVictim) \<and>
     (pl = ReadA \<or> pl = ReadB \<longrightarrow> pr = In \<or> pr = ReadB \<and> b \<noteq> kRemoteVictim \<longrightarrow> v = kLocalVictim) \<and>
     (pl \<notin> {Out, Flagged} \<or> pr \<notin> {Out, Flagged} \<longrightarrow> v = kLocalVictim \<or> v = kRemoteVictim)"

lemma core_flags: "pet_core pl pr b lf rf v \<Longrightarrow> lf = (if pl = Out then kFalse else kTrue)"
    "pet_core pl pr b lf rf v \<Longrightarrow> rf = (if pr = Out then kFalse else kTrue)"
  by (simp_all add: pet_core_def)

lemma core_init: "pet_core Out Out b kFalse kFalse v"
  by (simp add: pet_core_def)

lemma core_flag_local: "pet_core Out pr b lf rf v \<Longrightarrow> pet_core Flagged pr b kTrue rf v"
  by (simp add: pet_core_def)

lemma core_flag_remote: "pet_core pl Out b lf rf v \<Longrightarrow> pet_core pl Flagged b' lf kTrue v"
  by (auto simp: pet_core_def)

lemma core_victim_local: "pet_core Flagged pr b lf rf v \<Longrightarrow> pet_core ReadA pr b lf rf kLocalVictim"
  by (auto simp: pet_core_def)

lemma core_victim_remote: "pet_core pl Flagged b lf rf v \<Longrightarrow> pet_core pl ReadA b lf rf kRemoteVictim"
  by (auto simp: pet_core_def)

lemma core_local_A_in: "pet_core ReadA pr b lf rf v \<Longrightarrow> rf \<noteq> kTrue \<Longrightarrow> pet_core In pr b lf rf v"
  by (auto simp: pet_core_def split: if_splits)

lemma core_local_A_B: "pet_core ReadA pr b lf rf v \<Longrightarrow> pet_core ReadB pr b lf rf v"
  by (auto simp: pet_core_def)

lemma core_local_B_in: "pet_core ReadB pr b lf rf v \<Longrightarrow> v \<noteq> kLocalVictim \<Longrightarrow> pet_core In pr b lf rf v"
  by (auto simp: pet_core_def)

lemma core_local_B_A: "pet_core ReadB pr b lf rf v \<Longrightarrow> pet_core ReadA pr b lf rf v"
  by (auto simp: pet_core_def)

lemma core_remote_A_B: "pet_core pl ReadA b lf rf v \<Longrightarrow> pet_core pl ReadB v lf rf v"
  by (auto simp: pet_core_def)

lemma core_remote_B_in:
  "pet_core pl ReadB b lf rf v \<Longrightarrow> lf \<noteq> kTrue \<or> b \<noteq> kRemoteVictim \<Longrightarrow> pet_core pl In b lf rf v"
  by (cases pl) (auto simp: pet_core_def)

lemma core_remote_B_A: "pet_core pl ReadB b lf rf v \<Longrightarrow> pet_core pl ReadA b lf rf v"
  by (auto simp: pet_core_def)

lemma core_out_local: "pet_core pl pr b lf rf v \<Longrightarrow> pet_core Out pr b kFalse rf v"
  by (auto simp: pet_core_def)

lemma core_out_remote: "pet_core pl pr b lf rf v \<Longrightarrow> pet_core pl Out b lf kFalse v"
  by (auto simp: pet_core_def)

text \<open>The buffered value matters only between the two reads of the remote party.\<close>

lemma core_buf: "pet_core pl pr b lf rf v \<Longrightarrow> pr \<noteq> ReadB \<Longrightarrow> pet_core pl pr b' lf rf v"
  by (auto simp: pet_core_def)

section \<open>Cohorts\<close>

text \<open>At most one thread of a cohort takes part; \<open>p\<close> is its phase, or \<open>Out\<close>.\<close>

definition side_phase :: "(tid \<Rightarrow> side) \<Rightarrow> (tid \<Rightarrow> pet_phase) \<Rightarrow> side \<Rightarrow> pet_phase \<Rightarrow> bool" where
  "side_phase sd ph d p \<longleftrightarrow>
     (if p = Out then \<forall>t. sd t = d \<longrightarrow> ph t = Out
      else \<exists>t. sd t = d \<and> ph t = p \<and> (\<forall>u. sd u = d \<longrightarrow> u \<noteq> t \<longrightarrow> ph u = Out))"

lemma side_phase_eq: "side_phase sd ph d p \<Longrightarrow> sd t = d \<Longrightarrow> ph t \<noteq> Out \<Longrightarrow> ph t = p"
  by (auto simp: side_phase_def split: if_splits)

lemma side_phase_unique:
  "side_phase sd ph d p \<Longrightarrow> sd a = d \<Longrightarrow> sd b = d \<Longrightarrow> ph a \<noteq> Out \<Longrightarrow> ph b \<noteq> Out \<Longrightarrow> a = b"
  by (auto simp: side_phase_def split: if_splits)

lemma side_phase_other: "sd t \<noteq> d \<Longrightarrow> side_phase sd (ph(t := p')) d p \<longleftrightarrow> side_phase sd ph d p"
  by (auto simp: side_phase_def)

lemma side_phase_move:
  assumes "side_phase sd ph d p" and "sd t = d" and "ph t \<noteq> Out \<or> p = Out"
  shows "side_phase sd (ph(t := p')) d p'"
  using assms by (auto simp: side_phase_def split: if_splits)

lemma side_phase_transfer:
  assumes "side_phase sd ph d p" and "sd a = d" and "sd b = d" and "a \<noteq> b" and "ph a \<noteq> Out"
  shows "side_phase sd (ph(a := Out, b := ph a)) d p"
proof -
  have p: "ph a = p" "p \<noteq> Out" using side_phase_eq [OF assms(1,2,5)] assms(5) by auto
  moreover have "ph u = Out" if "sd u = d" "u \<noteq> a" for u
    using side_phase_unique [OF assms(1) assms(2) that(1)] assms(5) that(2) by blast
  ultimately show ?thesis
    using assms(3,4) by (auto simp: side_phase_def intro!: exI [of _ b])
qed

lemma side_phase_Out_iff:
  "side_phase sd ph d p \<Longrightarrow> p = Out \<longleftrightarrow> (\<forall>t. sd t = d \<longrightarrow> ph t = Out)"
  by (auto simp: side_phase_def split: if_splits)

definition pet_ok :: "(tid \<Rightarrow> side) \<Rightarrow> (tid \<Rightarrow> pet_phase) \<Rightarrow> (tid \<Rightarrow> u64) \<Rightarrow> u64 \<Rightarrow> u64 \<Rightarrow> u64 \<Rightarrow> bool" where
  "pet_ok sd ph buf lf rf v \<longleftrightarrow>
     (\<exists>pl pr b. side_phase sd ph Local pl \<and> side_phase sd ph Remote pr \<and>
        (\<forall>t. sd t = Remote \<longrightarrow> ph t \<noteq> Out \<longrightarrow> buf t = b) \<and> pet_core pl pr b lf rf v)"

lemma pet_init: "pet_ok sd (\<lambda>_. Out) buf kFalse kFalse v"
  using core_init unfolding pet_ok_def by (intro exI [of _ Out]) (auto simp: side_phase_def)

lemma pet_unique:
  "pet_ok sd ph buf lf rf v \<Longrightarrow> sd a = sd b \<Longrightarrow> ph a \<noteq> Out \<Longrightarrow> ph b \<noteq> Out \<Longrightarrow> a = b"
  unfolding pet_ok_def by (metis (full_types) side.exhaust side_phase_unique)

lemma pet_exclusion:
  assumes "pet_ok sd ph buf lf rf v" and "ph a = In" and "ph b = In"
  shows "a = b"
proof (cases "sd a = sd b")
  case True
  with assms show ?thesis by (auto intro: pet_unique)
next
  case False
  obtain pl pr c where p: "side_phase sd ph Local pl" "side_phase sd ph Remote pr"
      "pet_core pl pr c lf rf v"
    using assms(1) by (auto simp: pet_ok_def)
  have "pl = In \<and> pr = In"
    using False side_phase_eq [OF p(1), of a] side_phase_eq [OF p(1), of b]
      side_phase_eq [OF p(2), of a] side_phase_eq [OF p(2), of b] assms(2,3)
    by (cases "sd a"; cases "sd b"; simp)
  with p(3) show ?thesis by (simp add: pet_core_def)
qed

text \<open>One step of a participant, local or remote, given the corresponding step of the two parties.\<close>

lemma pet_step_local:
  assumes "pet_ok sd ph buf lf rf v" and t: "sd t = Local"
    and "ph t \<noteq> Out \<or> (\<forall>u. sd u = Local \<longrightarrow> ph u = Out)"
    and step: "\<And>pr b. pet_core (ph t) pr b lf rf v \<Longrightarrow> pet_core p' pr b lf' rf v'"
  shows "pet_ok sd (ph(t := p')) buf lf' rf v'"
proof -
  obtain pl pr b where p: "side_phase sd ph Local pl" "side_phase sd ph Remote pr"
      "\<forall>u. sd u = Remote \<longrightarrow> ph u \<noteq> Out \<longrightarrow> buf u = b" "pet_core pl pr b lf rf v"
    using assms(1) by (auto simp: pet_ok_def)
  have "pl = ph t"
    using assms(3) side_phase_eq [OF p(1) t] side_phase_Out_iff [OF p(1)] t by auto
  then have "pet_core p' pr b lf' rf v'" using p(4) step by simp
  moreover have "side_phase sd (ph(t := p')) Local p'"
    using p(1) t assms(3) side_phase_Out_iff [OF p(1)] by (intro side_phase_move) auto
  moreover have "side_phase sd (ph(t := p')) Remote pr"
    using p(2) t by (simp add: side_phase_other)
  ultimately show ?thesis using p(3) t unfolding pet_ok_def by fastforce
qed

lemma pet_step_remote:
  assumes "pet_ok sd ph buf lf rf v" and t: "sd t = Remote"
    and "ph t \<noteq> Out \<or> (\<forall>u. sd u = Remote \<longrightarrow> ph u = Out)"
    and "\<And>u. u \<noteq> t \<Longrightarrow> buf' u = buf u"
    and step: "\<And>pl b. pet_core pl (ph t) b lf rf v \<Longrightarrow> (ph t \<noteq> Out \<Longrightarrow> b = buf t) \<Longrightarrow>
      pet_core pl p' (buf' t) lf rf' v'"
  shows "pet_ok sd (ph(t := p')) buf' lf rf' v'"
proof -
  obtain pl pr b where p: "side_phase sd ph Local pl" "side_phase sd ph Remote pr"
      "\<forall>u. sd u = Remote \<longrightarrow> ph u \<noteq> Out \<longrightarrow> buf u = b" "pet_core pl pr b lf rf v"
    using assms(1) by (auto simp: pet_ok_def)
  have "pr = ph t"
    using assms(3) side_phase_eq [OF p(2) t] side_phase_Out_iff [OF p(2)] t by auto
  then have "pet_core pl p' (buf' t) lf rf' v'" using p(3,4) step t by auto
  moreover have s: "side_phase sd (ph(t := p')) Remote p'"
    using p(2) t assms(3) side_phase_Out_iff [OF p(2)] by (intro side_phase_move) auto
  moreover have "side_phase sd (ph(t := p')) Local pl"
    using p(1) t by (simp add: side_phase_other)
  moreover have "buf' u = buf' t" if "sd u = Remote" "(ph(t := p')) u \<noteq> Out" for u
    using that assms(3) side_phase_unique [OF p(2), of u t] t by (cases "u = t") auto
  ultimately show ?thesis unfolding pet_ok_def by blast
qed

text \<open>A participant hands its place over to another thread of its cohort.\<close>

lemma pet_transfer:
  assumes "pet_ok sd ph buf lf rf v" and "sd a = sd b" and "a \<noteq> b" and "ph a = In"
  shows "pet_ok sd (ph(a := Out, b := In)) (buf(b := buf a)) lf rf v"
proof -
  obtain pl pr c where p: "side_phase sd ph Local pl" "side_phase sd ph Remote pr"
      "\<forall>u. sd u = Remote \<longrightarrow> ph u \<noteq> Out \<longrightarrow> buf u = c" "pet_core pl pr c lf rf v"
    using assms(1) by (auto simp: pet_ok_def)
  have "side_phase sd (ph(a := Out, b := In)) Local pl"
    using p(1) assms side_phase_transfer [OF p(1), of a b] by (cases "sd a") (simp_all add: side_phase_other)
  moreover have "side_phase sd (ph(a := Out, b := In)) Remote pr"
    using p(2) assms side_phase_transfer [OF p(2), of a b] by (cases "sd a") (simp_all add: side_phase_other)
  ultimately show ?thesis using p(3,4) assms unfolding pet_ok_def by fastforce
qed

lemma pet_cong:
  assumes "pet_ok sd ph buf lf rf v" and "\<And>u. sd u = Remote \<Longrightarrow> ph u \<noteq> Out \<Longrightarrow> buf' u = buf u"
  shows "pet_ok sd ph buf' lf rf v"
  using assms unfolding pet_ok_def by fastforce

end
