(* ===== verification/FARLock.thy ===== *)
theory FARLock
  imports Peterson
begin

text \<open>
  The FARLock protocol of \<^verbatim>\<open>include/locks/farlock.h\<close> (\<^verbatim>\<open>class FARLockHandler\<close>): two MCS queues, one
  for the threads on the lock's node and one for the threads that reach it by RDMA, order the threads
  of a cohort; the heads of the cohorts compete with Peterson's algorithm for the right to draw a
  ticket; the critical section is entered in ticket order.

  A step of a thread is its next access to shared memory, or to its own descriptor where another
  thread may access it.  Accesses of the owning CPU and RDMA accesses of other nodes interleave in any
  way.  CPU atomics and RDMA atomics are not atomic with respect to each other, so the remote
  \<^verbatim>\<open>FetchAndAdd(next_ticket_)\<close> is two steps, a read and a write, while the local one is a single step;
  a multi-word RDMA transfer is one step per word.  Memory is sequentially consistent (the fences and
  acquire/release orders of the source are not modelled further).
\<close>

section \<open>Data\<close>

definition kInvalidTicket :: u64 where "kInvalidTicket = -1"

record RemoteDescriptor =
  d_next :: "tid option"
  d_ticket :: u64
  d_to_get_ticket :: u64
  d_granted :: u64
  d_releasable :: u64

text \<open>The local descriptor has the same fields; only its \<^verbatim>\<open>next_\<close> is a plain pointer.\<close>

type_synonym LocalDescriptor = RemoteDescriptor

record FARLock =
  remote_tail :: "tid option"
  local_tail :: "tid option"
  remote_flag :: u64
  victim :: u64
  local_flag :: u64
  next_ticket :: u64
  current_ticket :: u64

datatype far_pc = FIdle | FSwap | FSetNext | FLoadTicket | FSetReleasable | FWaitToGet
  | FPetFlag | FPetVictim | FPetReadA | FPetReadB | FTake | FPut | FPetUnlock | FStore
  | FLoadNext | FPass | FAwaitPred | FAwaitTicket | FCritical
  | FCheckNext | FCasTail | FWaitReleasable | FGrant

text \<open>
  A handler: its program counter, the local variables \<^verbatim>\<open>prev\<close> and \<^verbatim>\<open>ticket\<close>, the value
  \<^verbatim>\<open>Exchange\<close> compares with, and the fields of \<^verbatim>\<open>lock_buffer_\<close> that RDMA reads fill.
\<close>

record far_handler =
  h_pc :: far_pc
  h_prev :: "tid option"
  h_ticket :: u64
  h_hint :: "tid option"
  h_buf_victim :: u64

record far_state =
  f_lock :: FARLock
  f_desc :: "tid \<Rightarrow> RemoteDescriptor"
  f_thr :: "tid \<Rightarrow> far_handler"

definition far_desc0 :: RemoteDescriptor where
  "far_desc0 = \<lparr>d_next = None, d_ticket = kInvalidTicket, d_to_get_ticket = kFalse,
     d_granted = kFalse, d_releasable = kFalse\<rparr>"

text \<open>The lock's chunk is zeroed before use (\<^verbatim>\<open>Benchmark::AllocateLocalLocks\<close>).\<close>

definition far_init :: far_state where
  "far_init = \<lparr>f_lock = \<lparr>remote_tail = None, local_tail = None, remote_flag = 0, victim = 0,
       local_flag = 0, next_ticket = 0, current_ticket = 0\<rparr>,
     f_desc = (\<lambda>_. far_desc0),
     f_thr = (\<lambda>_. \<lparr>h_pc = FIdle, h_prev = None, h_ticket = 0, h_hint = None, h_buf_victim = 0\<rparr>)\<rparr>"

abbreviation f_at :: "far_state \<Rightarrow> tid \<Rightarrow> far_pc" where
  "f_at s t \<equiv> h_pc (f_thr s t)"

definition f_upd :: "tid \<Rightarrow> (far_handler \<Rightarrow> far_handler) \<Rightarrow> far_state \<Rightarrow> far_state" where
  [simp]: "f_upd t f s = s\<lparr>f_thr := (f_thr s)(t := f (f_thr s t))\<rparr>"

definition f_goto :: "far_pc \<Rightarrow> tid \<Rightarrow> far_state \<Rightarrow> far_state" where
  [simp]: "f_goto p t s = s\<lparr>f_thr := (f_thr s)(t := (f_thr s t)\<lparr>h_pc := p\<rparr>)\<rparr>"

definition f_write :: "tid \<Rightarrow> (RemoteDescriptor \<Rightarrow> RemoteDescriptor) \<Rightarrow> far_state \<Rightarrow> far_state" where
  [simp]: "f_write d f s = s\<lparr>f_desc := (f_desc s)(d := f (f_desc s d))\<rparr>"

definition f_lockw :: "(FARLock \<Rightarrow> FARLock) \<Rightarrow> far_state \<Rightarrow> far_state" where
  [simp]: "f_lockw f s = s\<lparr>f_lock := f (f_lock s)\<rparr>"

section \<open>The local cohort\<close>

definition LockPetersonsLocal :: "tid \<Rightarrow> far_state \<Rightarrow> far_state" where
  "LockPetersonsLocal t s = (case f_at s t of
     FPetFlag \<Rightarrow> f_goto FPetVictim t (f_lockw (\<lambda>l. l\<lparr>local_flag := kTrue\<rparr>) s)
   | FPetVictim \<Rightarrow> f_goto FPetReadA t (f_lockw (\<lambda>l. l\<lparr>victim := kLocalVictim\<rparr>) s)
   | FPetReadA \<Rightarrow> if remote_flag (f_lock s) = kTrue then f_goto FPetReadB t s else f_goto FTake t s
   | FPetReadB \<Rightarrow> if victim (f_lock s) = kLocalVictim then f_goto FPetReadA t s else f_goto FTake t s
   | _ \<Rightarrow> s)"

definition UnlockPetersonsLocal :: "far_state \<Rightarrow> far_state" where
  "UnlockPetersonsLocal s = f_lockw (\<lambda>l. l\<lparr>local_flag := kFalse\<rparr>) s"

definition WaitToGetTicketLocal :: "tid \<Rightarrow> far_state \<Rightarrow> far_state" where
  "WaitToGetTicketLocal t s =
     (if d_to_get_ticket (f_desc s t) \<noteq> kTrue then s else f_goto FPetFlag t s)"

definition AwaitPredecessorLocal :: "tid \<Rightarrow> far_state \<Rightarrow> far_state" where
  "AwaitPredecessorLocal t s =
     (if d_granted (f_desc s t) \<noteq> kTrue then s else f_goto FAwaitTicket t s)"

definition AwaitTicketLocal :: "tid \<Rightarrow> far_state \<Rightarrow> far_state" where
  "AwaitTicketLocal t s =
     (if d_ticket (f_desc s t) \<noteq> current_ticket (f_lock s) then s else f_goto FCritical t s)"

definition LockLocal :: "tid \<Rightarrow> far_state \<Rightarrow> far_state" where
  "LockLocal t s = (case f_at s t of
     FIdle \<Rightarrow> f_goto FSwap t (f_write t (\<lambda>d. d\<lparr>d_next := None, d_ticket := kInvalidTicket,
         d_to_get_ticket := kFalse, d_granted := kFalse, d_releasable := kFalse\<rparr>) s)
   | FSwap \<Rightarrow> f_upd t (\<lambda>h. h\<lparr>h_prev := local_tail (f_lock s),
         h_pc := (if local_tail (f_lock s) \<noteq> None then FSetNext else FPetFlag)\<rparr>)
       (f_lockw (\<lambda>l. l\<lparr>local_tail := Some t\<rparr>) s)
   | FSetNext \<Rightarrow> f_goto FLoadTicket t (f_write (the (h_prev (f_thr s t))) (\<lambda>d. d\<lparr>d_next := Some t\<rparr>) s)
   | FLoadTicket \<Rightarrow> f_upd t (\<lambda>h. h\<lparr>h_ticket := d_ticket (f_desc s (the (h_prev h))),
         h_pc := FSetReleasable\<rparr>) s
   | FSetReleasable \<Rightarrow> f_goto (if h_ticket (f_thr s t) = kInvalidTicket then FWaitToGet else FPetFlag) t
       (f_write (the (h_prev (f_thr s t))) (\<lambda>d. d\<lparr>d_releasable := kTrue\<rparr>) s)
   | FWaitToGet \<Rightarrow> WaitToGetTicketLocal t s
   | FTake \<Rightarrow> f_upd t (\<lambda>h. h\<lparr>h_ticket := next_ticket (f_lock s), h_pc := FPetUnlock\<rparr>)
       (f_lockw (\<lambda>l. l\<lparr>next_ticket := next_ticket l + 1\<rparr>) s)
   | FPetUnlock \<Rightarrow> f_goto FStore t (UnlockPetersonsLocal s)
   | FStore \<Rightarrow> f_goto FLoadNext t (f_write t (\<lambda>d. d\<lparr>d_ticket := h_ticket (f_thr s t)\<rparr>) s)
   | FLoadNext \<Rightarrow> f_goto (if d_next (f_desc s t) \<noteq> None then FPass
         else if h_prev (f_thr s t) \<noteq> None then FAwaitPred else FAwaitTicket) t s
   | FPass \<Rightarrow> f_goto (if h_prev (f_thr s t) \<noteq> None then FAwaitPred else FAwaitTicket) t
       (f_write (the (d_next (f_desc s t))) (\<lambda>d. d\<lparr>d_to_get_ticket := kTrue\<rparr>) s)
   | FAwaitPred \<Rightarrow> AwaitPredecessorLocal t s
   | FAwaitTicket \<Rightarrow> AwaitTicketLocal t s
   | _ \<Rightarrow> LockPetersonsLocal t s)"

definition UnlockLocal :: "tid \<Rightarrow> far_state \<Rightarrow> far_state" where
  "UnlockLocal t s = (case f_at s t of
     FCritical \<Rightarrow> f_goto FCheckNext t (f_lockw (\<lambda>l. l\<lparr>current_ticket := current_ticket l + 1\<rparr>) s)
   | FCheckNext \<Rightarrow> f_goto (if d_next (f_desc s t) = None then FCasTail else FWaitReleasable) t s
   | FCasTail \<Rightarrow> if local_tail (f_lock s) = Some t
       then f_goto FIdle t (f_lockw (\<lambda>l. l\<lparr>local_tail := None\<rparr>) s)
       else f_goto FWaitReleasable t s
   | FWaitReleasable \<Rightarrow> if d_releasable (f_desc s t) \<noteq> kTrue then s else f_goto FGrant t s
   | FGrant \<Rightarrow> f_goto FIdle t
       (f_write (the (d_next (f_desc s t))) (\<lambda>d. d\<lparr>d_granted := kTrue\<rparr>) s)
   | _ \<Rightarrow> s)"

section \<open>The remote cohort\<close>

definition LockPetersonsRemote :: "tid \<Rightarrow> far_state \<Rightarrow> far_state" where
  "LockPetersonsRemote t s = (case f_at s t of
     FPetFlag \<Rightarrow> f_goto FPetVictim t (f_lockw (\<lambda>l. l\<lparr>remote_flag := kTrue\<rparr>) s)
   | FPetVictim \<Rightarrow> f_goto FPetReadA t (f_lockw (\<lambda>l. l\<lparr>victim := kRemoteVictim\<rparr>) s)
   | FPetReadA \<Rightarrow> f_upd t (\<lambda>h. h\<lparr>h_buf_victim := victim (f_lock s), h_pc := FPetReadB\<rparr>) s
   | FPetReadB \<Rightarrow>
       if local_flag (f_lock s) \<noteq> kTrue \<or> h_buf_victim (f_thr s t) \<noteq> kRemoteVictim
       then f_goto FTake t s else f_goto FPetReadA t s
   | _ \<Rightarrow> s)"

definition UnlockPetersonsRemote :: "far_state \<Rightarrow> far_state" where
  "UnlockPetersonsRemote s = f_lockw (\<lambda>l. l\<lparr>remote_flag := kFalse\<rparr>) s"

definition WaitToGetTicketRemote :: "tid \<Rightarrow> far_state \<Rightarrow> far_state" where
  "WaitToGetTicketRemote t s =
     (if d_to_get_ticket (f_desc s t) \<noteq> kTrue then s else f_goto FPetFlag t s)"

definition AwaitPredecessorRemote :: "tid \<Rightarrow> far_state \<Rightarrow> far_state" where
  "AwaitPredecessorRemote t s =
     (if d_granted (f_desc s t) \<noteq> kTrue then s else f_goto FAwaitTicket t s)"

definition AwaitTicketRemote :: "tid \<Rightarrow> far_state \<Rightarrow> far_state" where
  "AwaitTicketRemote t s =
     (if d_ticket (f_desc s t) \<noteq> current_ticket (f_lock s) then s else f_goto FCritical t s)"

definition LockRemote :: "tid \<Rightarrow> far_state \<Rightarrow> far_state" where
  "LockRemote t s = (case f_at s t of
     FIdle \<Rightarrow> f_upd t (\<lambda>h. h\<lparr>h_pc := FSwap, h_hint := None\<rparr>)
       (f_write t (\<lambda>d. d\<lparr>d_next := None, d_ticket := kInvalidTicket,
         d_to_get_ticket := kFalse, d_granted := kFalse, d_releasable := kFalse\<rparr>) s)
   | FSwap \<Rightarrow>
       if remote_tail (f_lock s) = h_hint (f_thr s t) then
         f_upd t (\<lambda>h. h\<lparr>h_prev := h_hint h,
             h_pc := (if h_hint h \<noteq> None then FSetNext else FPetFlag)\<rparr>)
           (f_lockw (\<lambda>l. l\<lparr>remote_tail := Some t\<rparr>) s)
       else f_upd t (\<lambda>h. h\<lparr>h_hint := remote_tail (f_lock s)\<rparr>) s
   | FSetNext \<Rightarrow> f_goto FLoadTicket t (f_write (the (h_prev (f_thr s t))) (\<lambda>d. d\<lparr>d_next := Some t\<rparr>) s)
   | FLoadTicket \<Rightarrow> f_upd t (\<lambda>h. h\<lparr>h_ticket := d_ticket (f_desc s (the (h_prev h))),
         h_pc := FSetReleasable\<rparr>) s
   | FSetReleasable \<Rightarrow> f_goto (if h_ticket (f_thr s t) = kInvalidTicket then FWaitToGet else FPetFlag) t
       (f_write (the (h_prev (f_thr s t))) (\<lambda>d. d\<lparr>d_releasable := kTrue\<rparr>) s)
   | FWaitToGet \<Rightarrow> WaitToGetTicketRemote t s
   | FTake \<Rightarrow> f_upd t (\<lambda>h. h\<lparr>h_ticket := next_ticket (f_lock s), h_pc := FPut\<rparr>) s
   | FPut \<Rightarrow> f_goto FPetUnlock t (f_lockw (\<lambda>l. l\<lparr>next_ticket := h_ticket (f_thr s t) + 1\<rparr>) s)
   | FPetUnlock \<Rightarrow> f_goto FStore t (UnlockPetersonsRemote s)
   | FStore \<Rightarrow> f_goto FLoadNext t (f_write t (\<lambda>d. d\<lparr>d_ticket := h_ticket (f_thr s t)\<rparr>) s)
   | FLoadNext \<Rightarrow> f_goto (if d_next (f_desc s t) \<noteq> None then FPass
         else if h_prev (f_thr s t) \<noteq> None then FAwaitPred else FAwaitTicket) t s
   | FPass \<Rightarrow> f_goto (if h_prev (f_thr s t) \<noteq> None then FAwaitPred else FAwaitTicket) t
       (f_write (the (d_next (f_desc s t))) (\<lambda>d. d\<lparr>d_to_get_ticket := kTrue\<rparr>) s)
   | FAwaitPred \<Rightarrow> AwaitPredecessorRemote t s
   | FAwaitTicket \<Rightarrow> AwaitTicketRemote t s
   | _ \<Rightarrow> LockPetersonsRemote t s)"

definition UnlockRemote :: "tid \<Rightarrow> far_state \<Rightarrow> far_state" where
  "UnlockRemote t s = (case f_at s t of
     FCritical \<Rightarrow> f_goto FCheckNext t (f_lockw (\<lambda>l. l\<lparr>current_ticket := d_ticket (f_desc s t) + 1\<rparr>) s)
   | FCheckNext \<Rightarrow> f_goto (if d_next (f_desc s t) = None then FCasTail else FWaitReleasable) t s
   | FCasTail \<Rightarrow> if remote_tail (f_lock s) = Some t
       then f_goto FIdle t (f_lockw (\<lambda>l. l\<lparr>remote_tail := None\<rparr>) s)
       else f_goto FWaitReleasable t s
   | FWaitReleasable \<Rightarrow> if d_releasable (f_desc s t) \<noteq> kTrue then s else f_goto FGrant t s
   | FGrant \<Rightarrow> f_goto FIdle t
       (f_write (the (d_next (f_desc s t))) (\<lambda>d. d\<lparr>d_granted := kTrue\<rparr>) s)
   | _ \<Rightarrow> s)"

section \<open>The handler\<close>

text \<open>
  \<open>sd t\<close> is the cohort of thread \<open>t\<close>, the outcome of \<^verbatim>\<open>pool_->IsLocal(lock)\<close>.  A thread alternates
  \<open>Lock\<close> and \<open>Unlock\<close> forever.
\<close>

definition far_Lock :: "(tid \<Rightarrow> side) \<Rightarrow> tid \<Rightarrow> far_state \<Rightarrow> far_state" where
  "far_Lock sd t s = (if sd t = Local then LockLocal t s else LockRemote t s)"

definition far_Unlock :: "(tid \<Rightarrow> side) \<Rightarrow> tid \<Rightarrow> far_state \<Rightarrow> far_state" where
  "far_Unlock sd t s = (if sd t = Local then UnlockLocal t s else UnlockRemote t s)"

definition far_step :: "(tid \<Rightarrow> side) \<Rightarrow> tid \<Rightarrow> far_state \<Rightarrow> far_state" where
  "far_step sd t s =
     (if f_at s t \<in> {FCritical, FCheckNext, FCasTail, FWaitReleasable, FGrant}
      then far_Unlock sd t s else far_Lock sd t s)"

text \<open>
  \<^verbatim>\<open>IsLocked\<close> compares the raw words of the two tail pointers; \<open>raw t\<close> is the raw value under which
  the descriptor of \<open>t\<close> is stored there.  The words are read one after the other, by two loads or by a
  multi-word RDMA read, and other threads may take steps in between: \<open>s\<close> is the state in which
  \<^verbatim>\<open>remote_tail_\<close> is read, \<open>s'\<close> the one in which \<^verbatim>\<open>local_tail_\<close> is read.
\<close>

definition far_raw :: "(tid \<Rightarrow> u64) \<Rightarrow> tid option \<Rightarrow> u64" where
  "far_raw raw p = (case p of None \<Rightarrow> 0 | Some t \<Rightarrow> raw t)"

definition far_IsLocked :: "(tid \<Rightarrow> u64) \<Rightarrow> far_state \<Rightarrow> far_state \<Rightarrow> bool" where
  "far_IsLocked raw s s' \<longleftrightarrow>
     far_raw raw (remote_tail (f_lock s)) \<noteq> far_raw raw (local_tail (f_lock s'))"

text \<open>The lock is held from the read of the own ticket number to the write that serves the next one.\<close>

definition far_hold :: "far_state \<Rightarrow> tid \<Rightarrow> bool" where
  "far_hold s t \<longleftrightarrow> f_at s t = FCritical"

end
