(* ===== verification/FARLockInv.thy ===== *)
theory FARLockInv
  imports FARLock
begin

text \<open>
  The invariant of the FARLock protocol and its preservation by every step.  The ghost state records
  the contents of the two MCS queues, the line of outstanding tickets and the number of tickets drawn.
\<close>

section \<open>Ghost state and program positions\<close>

record far_ghost =
  g_queue :: "side \<Rightarrow> tid list"
  g_line :: "tid list"
  g_issued :: nat

definition far_ginit :: far_ghost where
  "far_ginit = \<lparr>g_queue = (\<lambda>_. []), g_line = [], g_issued = 0\<rparr>"

fun far_tail :: "side \<Rightarrow> FARLock \<Rightarrow> tid option" where
  "far_tail Local l = local_tail l"
| "far_tail Remote l = remote_tail l"

lemma far_tail_frame [simp]:
  "far_tail d (l\<lparr>local_flag := x\<rparr>) = far_tail d l" "far_tail d (l\<lparr>remote_flag := x\<rparr>) = far_tail d l"
  "far_tail d (l\<lparr>victim := x\<rparr>) = far_tail d l" "far_tail d (l\<lparr>next_ticket := x\<rparr>) = far_tail d l"
  "far_tail d (l\<lparr>current_ticket := x\<rparr>) = far_tail d l"
  by (cases d; simp)+

text \<open>The swap of the tail succeeds (a local swap always does).\<close>

definition far_enqueues :: "(tid \<Rightarrow> side) \<Rightarrow> far_state \<Rightarrow> tid \<Rightarrow> bool" where
  "far_enqueues sd s t \<longleftrightarrow> f_at s t = FSwap \<and>
     (sd t = Local \<or> remote_tail (f_lock s) = h_hint (f_thr s t))"

text \<open>A ticket is drawn: by the local fetch-and-add, or by the write of the remote one.\<close>

definition far_draws :: "(tid \<Rightarrow> side) \<Rightarrow> far_state \<Rightarrow> tid \<Rightarrow> bool" where
  "far_draws sd s t \<longleftrightarrow> (if sd t = Local then f_at s t = FTake else f_at s t = FPut)"

definition far_dequeues :: "(tid \<Rightarrow> side) \<Rightarrow> far_state \<Rightarrow> tid \<Rightarrow> bool" where
  "far_dequeues sd s t \<longleftrightarrow>
     f_at s t = FGrant \<or> f_at s t = FCasTail \<and> far_tail (sd t) (f_lock s) = Some t"

definition far_gstep :: "(tid \<Rightarrow> side) \<Rightarrow> tid \<Rightarrow> far_state \<Rightarrow> far_ghost \<Rightarrow> far_ghost" where
  "far_gstep sd t s g = \<lparr>
     g_queue = (if far_enqueues sd s t then (g_queue g)(sd t := g_queue g (sd t) @ [t])
       else if far_dequeues sd s t then (g_queue g)(sd t := tl (g_queue g (sd t)))
       else g_queue g),
     g_line = (if far_draws sd s t then g_line g @ [t]
       else if f_at s t = FCritical then tl (g_line g) else g_line g),
     g_issued = (if far_draws sd s t then Suc (g_issued g) else g_issued g)\<rparr>"

fun far_rank :: "far_pc \<Rightarrow> nat" where
  "far_rank FIdle = 0" | "far_rank FSwap = 1" | "far_rank FSetNext = 2"
| "far_rank FLoadTicket = 3" | "far_rank FSetReleasable = 4" | "far_rank FWaitToGet = 5"
| "far_rank FPetFlag = 6" | "far_rank FPetVictim = 7" | "far_rank FPetReadA = 8"
| "far_rank FPetReadB = 9" | "far_rank FTake = 10" | "far_rank FPut = 11"
| "far_rank FPetUnlock = 12" | "far_rank FStore = 13" | "far_rank FLoadNext = 14"
| "far_rank FPass = 15" | "far_rank FAwaitPred = 16" | "far_rank FAwaitTicket = 17"
| "far_rank FCritical = 18" | "far_rank FCheckNext = 19" | "far_rank FCasTail = 20"
| "far_rank FWaitReleasable = 21" | "far_rank FGrant = 22"

fun far_phase :: "far_pc \<Rightarrow> pet_phase" where
  "far_phase FPetVictim = Flagged"
| "far_phase FPetReadA = ReadA"
| "far_phase FPetReadB = ReadB"
| "far_phase FTake = In"
| "far_phase FPut = In"
| "far_phase FPetUnlock = In"
| "far_phase _ = Out"

lemma far_phase_rank: "far_phase p \<noteq> Out \<Longrightarrow> 7 \<le> far_rank p \<and> far_rank p \<le> 12"
  by (cases p) auto

abbreviation fR :: "far_state \<Rightarrow> tid \<Rightarrow> nat" where "fR s t \<equiv> far_rank (f_at s t)"
abbreviation f_prev :: "far_state \<Rightarrow> tid \<Rightarrow> tid option" where "f_prev s t \<equiv> h_prev (f_thr s t)"
abbreviation f_tk :: "far_state \<Rightarrow> tid \<Rightarrow> u64" where "f_tk s t \<equiv> h_ticket (f_thr s t)"
abbreviation f_next :: "far_state \<Rightarrow> tid \<Rightarrow> tid option" where "f_next s t \<equiv> d_next (f_desc s t)"
abbreviation f_rel :: "far_state \<Rightarrow> tid \<Rightarrow> u64" where "f_rel s t \<equiv> d_releasable (f_desc s t)"
abbreviation f_granted :: "far_state \<Rightarrow> tid \<Rightarrow> u64" where "f_granted s t \<equiv> d_granted (f_desc s t)"
abbreviation f_toget :: "far_state \<Rightarrow> tid \<Rightarrow> u64" where "f_toget s t \<equiv> d_to_get_ticket (f_desc s t)"
abbreviation f_dtk :: "far_state \<Rightarrow> tid \<Rightarrow> u64" where "f_dtk s t \<equiv> d_ticket (f_desc s t)"

section \<open>Invariant\<close>

text \<open>The two queues: links, the \<^verbatim>\<open>releasable_\<close> and \<^verbatim>\<open>granted_\<close> flags, and who is at the head.\<close>

definition far_q :: "(tid \<Rightarrow> side) \<Rightarrow> far_state \<Rightarrow> (side \<Rightarrow> tid list) \<Rightarrow> bool" where
  "far_q sd s Q \<longleftrightarrow>
     (\<forall>d. mcs_shape (Q d) (far_tail d (f_lock s)) (f_prev s) (f_next s) (\<lambda>t. 3 \<le> fR s t)) \<and>
     (\<forall>d t. t \<in> set (Q d) \<longleftrightarrow> sd t = d \<and> 2 \<le> fR s t) \<and>
     (\<forall>t. fR s t = 1 \<longrightarrow> f_desc s t = far_desc0) \<and>
     (\<forall>d a b. adj (Q d) a b \<longrightarrow> f_rel s a = (if 5 \<le> fR s b then kTrue else kFalse)) \<and>
     (\<forall>d. Q d \<noteq> [] \<longrightarrow> f_rel s (last (Q d)) = kFalse) \<and>
     (\<forall>t. 2 \<le> fR s t \<longrightarrow>
        f_granted s t = (if t = hd (Q (sd t)) \<and> f_prev s t \<noteq> None then kTrue else kFalse)) \<and>
     (\<forall>t. 17 \<le> fR s t \<longrightarrow> t = hd (Q (sd t))) \<and>
     (\<forall>t. 2 \<le> fR s t \<longrightarrow> fR s t \<le> 5 \<longrightarrow> f_prev s t \<noteq> None) \<and>
     (\<forall>t. 2 \<le> fR s t \<longrightarrow> fR s t \<le> 4 \<longrightarrow> t \<noteq> hd (Q (sd t))) \<and>
     (\<forall>t. 21 \<le> fR s t \<longrightarrow> t \<noteq> last (Q (sd t))) \<and>
     (\<forall>t. fR s t = 22 \<longrightarrow> f_rel s t = kTrue) \<and>
     (\<forall>t. fR s t = 15 \<longrightarrow> f_next s t \<noteq> None)"

text \<open>
  Passing the right to draw a ticket down a queue: a thread gets past \<^verbatim>\<open>WaitToGetTicket\<close> only when
  its predecessor has stored its own ticket.
\<close>

definition far_pass :: "far_state \<Rightarrow> (side \<Rightarrow> tid list) \<Rightarrow> bool" where
  "far_pass s Q \<longleftrightarrow>
     (\<forall>t. 1 \<le> fR s t \<longrightarrow> f_dtk s t = (if fR s t \<le> 13 then kInvalidTicket else f_tk s t)) \<and>
     (\<forall>d a b. adj (Q d) a b \<longrightarrow> 6 \<le> fR s b \<longrightarrow> 14 \<le> fR s a) \<and>
     (\<forall>d a b. adj (Q d) a b \<longrightarrow> fR s b = 4 \<longrightarrow> f_tk s b \<noteq> kInvalidTicket \<longrightarrow> 14 \<le> fR s a) \<and>
     (\<forall>d a b. adj (Q d) a b \<longrightarrow> f_toget s b \<noteq> kFalse \<longrightarrow> 16 \<le> fR s a)"

definition far_pet :: "(tid \<Rightarrow> side) \<Rightarrow> far_state \<Rightarrow> bool" where
  "far_pet sd s \<longleftrightarrow> pet_ok sd (\<lambda>t. far_phase (f_at s t)) (\<lambda>t. h_buf_victim (f_thr s t))
     (local_flag (f_lock s)) (remote_flag (f_lock s)) (victim (f_lock s))"

text \<open>The outstanding tickets; a remote thread between the halves of its fetch-and-add is alone.\<close>

definition far_tickets :: "(tid \<Rightarrow> side) \<Rightarrow> far_state \<Rightarrow> tid list \<Rightarrow> bool" where
  "far_tickets sd s line \<longleftrightarrow>
     ticket_line (current_ticket (f_lock s)) (next_ticket (f_lock s)) (f_tk s) line \<and>
     (\<forall>t. t \<in> set line \<longleftrightarrow> 12 \<le> fR s t \<and> fR s t \<le> 18) \<and>
     (\<forall>t. fR s t = 11 \<longrightarrow> sd t = Remote \<and> f_tk s t = next_ticket (f_lock s)) \<and>
     (\<forall>t. fR s t = 18 \<longrightarrow> f_tk s t = current_ticket (f_lock s))"

definition far_inv :: "(tid \<Rightarrow> side) \<Rightarrow> far_state \<Rightarrow> far_ghost \<Rightarrow> bool" where
  "far_inv sd s g \<longleftrightarrow> far_q sd s (g_queue g) \<and> far_pass s (g_queue g) \<and> far_pet sd s \<and>
     far_tickets sd s (g_line g)"

section \<open>Effect of a step\<close>

lemmas far_defs = far_step_def far_Lock_def far_Unlock_def LockLocal_def LockRemote_def
  UnlockLocal_def UnlockRemote_def LockPetersonsLocal_def LockPetersonsRemote_def
  UnlockPetersonsLocal_def UnlockPetersonsRemote_def WaitToGetTicketLocal_def WaitToGetTicketRemote_def
  AwaitPredecessorLocal_def AwaitPredecessorRemote_def AwaitTicketLocal_def AwaitTicketRemote_def

lemmas far_gdefs = far_gstep_def far_enqueues_def far_dequeues_def far_draws_def

lemma far_thr_other: "u \<noteq> t \<Longrightarrow> f_thr (far_step sd t s) u = f_thr s u"
  by (cases "f_at s t") (simp_all add: far_defs)

lemma far_desc0_fields [simp]:
  "d_next far_desc0 = None" "d_ticket far_desc0 = kInvalidTicket" "d_to_get_ticket far_desc0 = kFalse"
  "d_granted far_desc0 = kFalse" "d_releasable far_desc0 = kFalse"
  by (simp_all add: far_desc0_def)

lemma far_desc_reset [simp]:
  "d\<lparr>d_next := None, d_ticket := kInvalidTicket, d_to_get_ticket := kFalse, d_granted := kFalse,
     d_releasable := kFalse\<rparr> = far_desc0"
  by (rule RemoteDescriptor.equality) simp_all

lemma eff_Idle:
  assumes "f_at s t = FIdle"
  shows "f_lock (far_step sd t s) = f_lock s"
    and "f_desc (far_step sd t s) = (f_desc s)(t := far_desc0)"
    and "f_thr (far_step sd t s) = (f_thr s)(t := (f_thr s t)\<lparr>h_pc := FSwap,
      h_hint := (if sd t = Local then h_hint (f_thr s t) else None)\<rparr>)"
    and "far_gstep sd t s g = g"
  using assms by (simp_all add: far_defs far_gdefs)

lemma eff_Swap:
  assumes "f_at s t = FSwap" and "far_enqueues sd s t"
  shows "far_tail (sd t) (f_lock (far_step sd t s)) = Some t"
    and "d \<noteq> sd t \<Longrightarrow> far_tail d (f_lock (far_step sd t s)) = far_tail d (f_lock s)"
    and "f_desc (far_step sd t s) = f_desc s"
    and "f_thr (far_step sd t s) = (f_thr s)(t := (f_thr s t)\<lparr>h_prev := far_tail (sd t) (f_lock s),
      h_pc := (if far_tail (sd t) (f_lock s) \<noteq> None then FSetNext else FPetFlag)\<rparr>)"
    and "far_gstep sd t s g = g\<lparr>g_queue := (g_queue g)(sd t := g_queue g (sd t) @ [t])\<rparr>"
  using assms by (cases "sd t"; cases d; simp add: far_defs far_gdefs)+

lemma eff_Swap_lock:
  assumes "f_at s t = FSwap"
  shows "next_ticket (f_lock (far_step sd t s)) = next_ticket (f_lock s)"
    and "current_ticket (f_lock (far_step sd t s)) = current_ticket (f_lock s)"
    and "local_flag (f_lock (far_step sd t s)) = local_flag (f_lock s)"
    and "remote_flag (f_lock (far_step sd t s)) = remote_flag (f_lock s)"
    and "victim (f_lock (far_step sd t s)) = victim (f_lock s)"
  using assms by (cases "sd t"; simp add: far_defs)+

lemma eff_Swap_retry:
  assumes "f_at s t = FSwap" and "\<not> far_enqueues sd s t"
  shows "f_lock (far_step sd t s) = f_lock s" and "f_desc (far_step sd t s) = f_desc s"
    and "f_thr (far_step sd t s) = (f_thr s)(t := (f_thr s t)\<lparr>h_hint := remote_tail (f_lock s)\<rparr>)"
    and "far_gstep sd t s g = g"
  using assms by (cases "sd t"; simp add: far_defs far_gdefs)+

text \<open>
  The effect of every other step, for both cohorts: on the lock, on the descriptors, on the thread's
  own variables and on the ghost state.
\<close>

lemma eff_SetNext:
  assumes "f_at s t = FSetNext" and "f_prev s t = Some p"
  shows "f_lock (far_step sd t s) = f_lock s"
    and "f_desc (far_step sd t s) = (f_desc s)(p := (f_desc s p)\<lparr>d_next := Some t\<rparr>)"
    and "f_thr (far_step sd t s) = (f_thr s)(t := (f_thr s t)\<lparr>h_pc := FLoadTicket\<rparr>)"
    and "far_gstep sd t s g = g"
  using assms by (simp_all add: far_defs far_gdefs)

lemma eff_LoadTicket:
  assumes "f_at s t = FLoadTicket" and "f_prev s t = Some p"
  shows "f_lock (far_step sd t s) = f_lock s" and "f_desc (far_step sd t s) = f_desc s"
    and "f_thr (far_step sd t s) = (f_thr s)(t := (f_thr s t)\<lparr>h_ticket := f_dtk s p, h_pc := FSetReleasable\<rparr>)"
    and "far_gstep sd t s g = g"
  using assms by (simp_all add: far_defs far_gdefs)

lemma eff_SetReleasable:
  assumes "f_at s t = FSetReleasable" and "f_prev s t = Some p"
  shows "f_lock (far_step sd t s) = f_lock s"
    and "f_desc (far_step sd t s) = (f_desc s)(p := (f_desc s p)\<lparr>d_releasable := kTrue\<rparr>)"
    and "f_thr (far_step sd t s) = (f_thr s)(t := (f_thr s t)\<lparr>h_pc :=
      (if f_tk s t = kInvalidTicket then FWaitToGet else FPetFlag)\<rparr>)"
    and "far_gstep sd t s g = g"
  using assms by (simp_all add: far_defs far_gdefs)

lemma eff_WaitToGet:
  assumes "f_at s t = FWaitToGet" and "f_toget s t = kTrue"
  shows "f_lock (far_step sd t s) = f_lock s" and "f_desc (far_step sd t s) = f_desc s"
    and "f_thr (far_step sd t s) = (f_thr s)(t := (f_thr s t)\<lparr>h_pc := FPetFlag\<rparr>)"
    and "far_gstep sd t s g = g"
  using assms by (simp_all add: far_defs far_gdefs)

lemma eff_PetFlag:
  assumes "f_at s t = FPetFlag"
  shows "f_lock (far_step sd t s) = (if sd t = Local then (f_lock s)\<lparr>local_flag := kTrue\<rparr>
      else (f_lock s)\<lparr>remote_flag := kTrue\<rparr>)"
    and "f_desc (far_step sd t s) = f_desc s"
    and "f_thr (far_step sd t s) = (f_thr s)(t := (f_thr s t)\<lparr>h_pc := FPetVictim\<rparr>)"
    and "far_gstep sd t s g = g"
  using assms by (simp_all add: far_defs far_gdefs)

lemma eff_PetVictim:
  assumes "f_at s t = FPetVictim"
  shows "f_lock (far_step sd t s) =
      (f_lock s)\<lparr>victim := (if sd t = Local then kLocalVictim else kRemoteVictim)\<rparr>"
    and "f_desc (far_step sd t s) = f_desc s"
    and "f_thr (far_step sd t s) = (f_thr s)(t := (f_thr s t)\<lparr>h_pc := FPetReadA\<rparr>)"
    and "far_gstep sd t s g = g"
  using assms by (simp_all add: far_defs far_gdefs)

lemma eff_PetReadA:
  assumes "f_at s t = FPetReadA"
  shows "f_lock (far_step sd t s) = f_lock s" and "f_desc (far_step sd t s) = f_desc s"
    and "sd t = Local \<Longrightarrow> f_thr (far_step sd t s) = (f_thr s)(t := (f_thr s t)\<lparr>h_pc :=
      (if remote_flag (f_lock s) = kTrue then FPetReadB else FTake)\<rparr>)"
    and "sd t = Remote \<Longrightarrow> f_thr (far_step sd t s) = (f_thr s)(t := (f_thr s t)\<lparr>
      h_buf_victim := victim (f_lock s), h_pc := FPetReadB\<rparr>)"
    and "far_gstep sd t s g = g"
  using assms by (simp_all add: far_defs far_gdefs)

lemma eff_PetReadB:
  assumes "f_at s t = FPetReadB"
  shows "f_lock (far_step sd t s) = f_lock s" and "f_desc (far_step sd t s) = f_desc s"
    and "sd t = Local \<Longrightarrow> f_thr (far_step sd t s) = (f_thr s)(t := (f_thr s t)\<lparr>h_pc :=
      (if victim (f_lock s) = kLocalVictim then FPetReadA else FTake)\<rparr>)"
    and "sd t = Remote \<Longrightarrow> f_thr (far_step sd t s) = (f_thr s)(t := (f_thr s t)\<lparr>h_pc :=
      (if local_flag (f_lock s) \<noteq> kTrue \<or> h_buf_victim (f_thr s t) \<noteq> kRemoteVictim then FTake
       else FPetReadA)\<rparr>)"
    and "far_gstep sd t s g = g"
  using assms by (simp_all add: far_defs far_gdefs)

lemma eff_Take_local:
  assumes "f_at s t = FTake" and "sd t = Local"
  shows "f_lock (far_step sd t s) = (f_lock s)\<lparr>next_ticket := next_ticket (f_lock s) + 1\<rparr>"
    and "f_desc (far_step sd t s) = f_desc s"
    and "f_thr (far_step sd t s) = (f_thr s)(t := (f_thr s t)\<lparr>h_ticket := next_ticket (f_lock s),
      h_pc := FPetUnlock\<rparr>)"
    and "far_gstep sd t s g = g\<lparr>g_line := g_line g @ [t], g_issued := Suc (g_issued g)\<rparr>"
  using assms by (simp_all add: far_defs far_gdefs)

lemma eff_Take_remote:
  assumes "f_at s t = FTake" and "sd t = Remote"
  shows "f_lock (far_step sd t s) = f_lock s" and "f_desc (far_step sd t s) = f_desc s"
    and "f_thr (far_step sd t s) = (f_thr s)(t := (f_thr s t)\<lparr>h_ticket := next_ticket (f_lock s),
      h_pc := FPut\<rparr>)"
    and "far_gstep sd t s g = g"
  using assms by (simp_all add: far_defs far_gdefs)

lemma eff_Put:
  assumes "f_at s t = FPut" and "sd t = Remote"
  shows "f_lock (far_step sd t s) = (f_lock s)\<lparr>next_ticket := f_tk s t + 1\<rparr>"
    and "f_desc (far_step sd t s) = f_desc s"
    and "f_thr (far_step sd t s) = (f_thr s)(t := (f_thr s t)\<lparr>h_pc := FPetUnlock\<rparr>)"
    and "far_gstep sd t s g = g\<lparr>g_line := g_line g @ [t], g_issued := Suc (g_issued g)\<rparr>"
  using assms by (simp_all add: far_defs far_gdefs)

lemma eff_PetUnlock:
  assumes "f_at s t = FPetUnlock"
  shows "f_lock (far_step sd t s) = (if sd t = Local then (f_lock s)\<lparr>local_flag := kFalse\<rparr>
      else (f_lock s)\<lparr>remote_flag := kFalse\<rparr>)"
    and "f_desc (far_step sd t s) = f_desc s"
    and "f_thr (far_step sd t s) = (f_thr s)(t := (f_thr s t)\<lparr>h_pc := FStore\<rparr>)"
    and "far_gstep sd t s g = g"
  using assms by (simp_all add: far_defs far_gdefs)

lemma eff_Store:
  assumes "f_at s t = FStore"
  shows "f_lock (far_step sd t s) = f_lock s"
    and "f_desc (far_step sd t s) = (f_desc s)(t := (f_desc s t)\<lparr>d_ticket := f_tk s t\<rparr>)"
    and "f_thr (far_step sd t s) = (f_thr s)(t := (f_thr s t)\<lparr>h_pc := FLoadNext\<rparr>)"
    and "far_gstep sd t s g = g"
  using assms by (simp_all add: far_defs far_gdefs)

lemma eff_LoadNext:
  assumes "f_at s t = FLoadNext"
  shows "f_lock (far_step sd t s) = f_lock s" and "f_desc (far_step sd t s) = f_desc s"
    and "f_thr (far_step sd t s) = (f_thr s)(t := (f_thr s t)\<lparr>h_pc :=
      (if f_next s t \<noteq> None then FPass else if f_prev s t \<noteq> None then FAwaitPred else FAwaitTicket)\<rparr>)"
    and "far_gstep sd t s g = g"
  using assms by (simp_all add: far_defs far_gdefs)

lemma eff_Pass:
  assumes "f_at s t = FPass" and "f_next s t = Some n"
  shows "f_lock (far_step sd t s) = f_lock s"
    and "f_desc (far_step sd t s) = (f_desc s)(n := (f_desc s n)\<lparr>d_to_get_ticket := kTrue\<rparr>)"
    and "f_thr (far_step sd t s) = (f_thr s)(t := (f_thr s t)\<lparr>h_pc :=
      (if f_prev s t \<noteq> None then FAwaitPred else FAwaitTicket)\<rparr>)"
    and "far_gstep sd t s g = g"
  using assms by (simp_all add: far_defs far_gdefs)

lemma eff_AwaitPred:
  assumes "f_at s t = FAwaitPred" and "f_granted s t = kTrue"
  shows "f_lock (far_step sd t s) = f_lock s" and "f_desc (far_step sd t s) = f_desc s"
    and "f_thr (far_step sd t s) = (f_thr s)(t := (f_thr s t)\<lparr>h_pc := FAwaitTicket\<rparr>)"
    and "far_gstep sd t s g = g"
  using assms by (simp_all add: far_defs far_gdefs)

lemma eff_AwaitTicket:
  assumes "f_at s t = FAwaitTicket" and "f_dtk s t = current_ticket (f_lock s)"
  shows "f_lock (far_step sd t s) = f_lock s" and "f_desc (far_step sd t s) = f_desc s"
    and "f_thr (far_step sd t s) = (f_thr s)(t := (f_thr s t)\<lparr>h_pc := FCritical\<rparr>)"
    and "far_gstep sd t s g = g"
  using assms by (simp_all add: far_defs far_gdefs)

lemma eff_Critical:
  assumes "f_at s t = FCritical" and "f_dtk s t = current_ticket (f_lock s)"
  shows "f_lock (far_step sd t s) = (f_lock s)\<lparr>current_ticket := current_ticket (f_lock s) + 1\<rparr>"
    and "f_desc (far_step sd t s) = f_desc s"
    and "f_thr (far_step sd t s) = (f_thr s)(t := (f_thr s t)\<lparr>h_pc := FCheckNext\<rparr>)"
    and "far_gstep sd t s g = g\<lparr>g_line := tl (g_line g)\<rparr>"
  using assms by (simp_all add: far_defs far_gdefs)

lemma eff_CheckNext:
  assumes "f_at s t = FCheckNext"
  shows "f_lock (far_step sd t s) = f_lock s" and "f_desc (far_step sd t s) = f_desc s"
    and "f_thr (far_step sd t s) = (f_thr s)(t := (f_thr s t)\<lparr>h_pc :=
      (if f_next s t = None then FCasTail else FWaitReleasable)\<rparr>)"
    and "far_gstep sd t s g = g"
  using assms by (simp_all add: far_defs far_gdefs)

lemma eff_CasTail_fail:
  assumes "f_at s t = FCasTail" and "far_tail (sd t) (f_lock s) \<noteq> Some t"
  shows "f_lock (far_step sd t s) = f_lock s" and "f_desc (far_step sd t s) = f_desc s"
    and "f_thr (far_step sd t s) = (f_thr s)(t := (f_thr s t)\<lparr>h_pc := FWaitReleasable\<rparr>)"
    and "far_gstep sd t s g = g"
  using assms by (cases "sd t"; simp add: far_defs far_gdefs)+

lemma eff_CasTail_ok:
  assumes "f_at s t = FCasTail" and "far_tail (sd t) (f_lock s) = Some t"
  shows "far_tail (sd t) (f_lock (far_step sd t s)) = None"
    and "d \<noteq> sd t \<Longrightarrow> far_tail d (f_lock (far_step sd t s)) = far_tail d (f_lock s)"
    and "f_desc (far_step sd t s) = f_desc s"
    and "f_thr (far_step sd t s) = (f_thr s)(t := (f_thr s t)\<lparr>h_pc := FIdle\<rparr>)"
    and "far_gstep sd t s g = g\<lparr>g_queue := (g_queue g)(sd t := tl (g_queue g (sd t)))\<rparr>"
  using assms by (cases "sd t"; cases d; simp add: far_defs far_gdefs)+

lemma eff_CasTail_lock:
  assumes "f_at s t = FCasTail"
  shows "next_ticket (f_lock (far_step sd t s)) = next_ticket (f_lock s)"
    and "current_ticket (f_lock (far_step sd t s)) = current_ticket (f_lock s)"
    and "local_flag (f_lock (far_step sd t s)) = local_flag (f_lock s)"
    and "remote_flag (f_lock (far_step sd t s)) = remote_flag (f_lock s)"
    and "victim (f_lock (far_step sd t s)) = victim (f_lock s)"
  using assms by (cases "sd t"; simp add: far_defs)+

lemma eff_WaitReleasable:
  assumes "f_at s t = FWaitReleasable" and "f_rel s t = kTrue"
  shows "f_lock (far_step sd t s) = f_lock s" and "f_desc (far_step sd t s) = f_desc s"
    and "f_thr (far_step sd t s) = (f_thr s)(t := (f_thr s t)\<lparr>h_pc := FGrant\<rparr>)"
    and "far_gstep sd t s g = g"
  using assms by (simp_all add: far_defs far_gdefs)

lemma eff_Grant:
  assumes "f_at s t = FGrant" and "f_next s t = Some n"
  shows "f_lock (far_step sd t s) = f_lock s"
    and "f_desc (far_step sd t s) = (f_desc s)(n := (f_desc s n)\<lparr>d_granted := kTrue\<rparr>)"
    and "f_thr (far_step sd t s) = (f_thr s)(t := (f_thr s t)\<lparr>h_pc := FIdle\<rparr>)"
    and "far_gstep sd t s g = g\<lparr>g_queue := (g_queue g)(sd t := tl (g_queue g (sd t)))\<rparr>"
  using assms by (simp_all add: far_defs far_gdefs)

text \<open>A thread whose wait condition does not hold yet leaves everything as it is.\<close>

definition far_spins :: "far_state \<Rightarrow> tid \<Rightarrow> bool" where
  "far_spins s t \<longleftrightarrow>
     f_at s t = FWaitToGet \<and> f_toget s t \<noteq> kTrue \<or>
     f_at s t = FAwaitPred \<and> f_granted s t \<noteq> kTrue \<or>
     f_at s t = FAwaitTicket \<and> f_dtk s t \<noteq> current_ticket (f_lock s) \<or>
     f_at s t = FWaitReleasable \<and> f_rel s t \<noteq> kTrue"

lemma eff_spin:
  assumes "far_spins s t"
  shows "far_step sd t s = s" and "far_gstep sd t s g = g"
  using assms unfolding far_spins_def by (elim disjE conjE; simp add: far_defs far_gdefs)+

section \<open>Steps that do not matter\<close>

text \<open>
  Each group of the invariant is insensitive to most steps; these lemmas say to which.
\<close>

lemma far_q_quiet:
  assumes q: "far_q sd s Q"
    and tail: "\<And>d. far_tail d (f_lock s') = far_tail d (f_lock s)"
    and thr: "\<And>u. u \<noteq> t \<Longrightarrow> f_thr s' u = f_thr s u" and prev: "f_prev s' t = f_prev s t"
    and nxt: "\<And>u. f_next s' u = f_next s u" and rel: "\<And>u. f_rel s' u = f_rel s u"
    and grant: "\<And>u. f_granted s' u = f_granted s u"
    and desc0: "\<And>u. fR s u = 1 \<Longrightarrow> f_desc s' u = f_desc s u"
    and R: "2 \<le> fR s t" "2 \<le> fR s' t" "3 \<le> fR s t \<longleftrightarrow> 3 \<le> fR s' t" "5 \<le> fR s t \<longleftrightarrow> 5 \<le> fR s' t"
      "fR s' t \<le> 5 \<Longrightarrow> fR s t \<le> 5"
    and hd: "17 \<le> fR s' t \<Longrightarrow> t = hd (Q (sd t))"
    and last: "21 \<le> fR s' t \<Longrightarrow> t \<noteq> last (Q (sd t))"
    and r22: "fR s' t = 22 \<Longrightarrow> f_rel s t = kTrue" and r15: "fR s' t = 15 \<Longrightarrow> f_next s t \<noteq> None"
  shows "far_q sd s' Q"
proof -
  have prv: "f_prev s' u = f_prev s u" for u using thr prev by (cases "u = t") auto
  have Ru: "u \<noteq> t \<Longrightarrow> fR s' u = fR s u" for u using thr by simp
  have thresh: "2 \<le> fR s' u \<longleftrightarrow> 2 \<le> fR s u" "3 \<le> fR s' u \<longleftrightarrow> 3 \<le> fR s u" "5 \<le> fR s' u \<longleftrightarrow> 5 \<le> fR s u" for u
    using R Ru by (cases "u = t"; simp)+
  have one: "fR s' u = 1 \<longleftrightarrow> fR s u = 1" for u using R Ru by (cases "u = t") auto
  have le: "fR s' u \<le> 4 \<longleftrightarrow> fR s u \<le> 4" for u using thresh(3) [of u] by auto
  have le5: "fR s' u \<le> 5 \<Longrightarrow> fR s u \<le> 5" for u using R Ru by (cases "u = t") auto
  show ?thesis
    unfolding far_q_def tail prv nxt rel grant
  proof (intro conjI allI impI)
    show "u = hd (Q (sd u))" if "17 \<le> fR s' u" for u
      using q hd that Ru unfolding far_q_def by (cases "u = t") auto
    show "u \<noteq> last (Q (sd u))" if "21 \<le> fR s' u" for u
      using q last that Ru unfolding far_q_def by (cases "u = t") auto
    show "f_rel s u = kTrue" if "fR s' u = 22" for u
      using q r22 that Ru unfolding far_q_def by (cases "u = t") auto
    show "f_next s u \<noteq> None" if "fR s' u = 15" for u
      using q r15 that Ru unfolding far_q_def by (cases "u = t") auto
    show "f_prev s u \<noteq> None" if "2 \<le> fR s' u" "fR s' u \<le> 5" for u
      using q that le5 thresh unfolding far_q_def by simp
    show "f_desc s' u = far_desc0" if "fR s' u = 1" for u
      using q that desc0 one unfolding far_q_def by simp
  qed (use q in \<open>simp_all add: far_q_def thresh le\<close>)
qed

lemma far_pass_quiet:
  assumes p: "far_pass s Q"
    and thr: "\<And>u. u \<noteq> t \<Longrightarrow> f_thr s' u = f_thr s u"
    and dtk: "\<And>u. f_dtk s' u = f_dtk s u" and tg: "\<And>u. f_toget s' u = f_toget s u"
    and R: "1 \<le> fR s t" "1 \<le> fR s' t" "14 \<le> fR s t \<longleftrightarrow> 14 \<le> fR s' t"
      "16 \<le> fR s t \<Longrightarrow> 16 \<le> fR s' t"
    and R6: "6 \<le> fR s' t \<Longrightarrow> 6 \<le> fR s t \<or> (\<forall>d a. adj (Q d) a t \<longrightarrow> 14 \<le> fR s a)"
    and R4: "fR s' t = 4 \<Longrightarrow> f_tk s' t \<noteq> kInvalidTicket \<Longrightarrow> (\<forall>d a. adj (Q d) a t \<longrightarrow> 14 \<le> fR s a)"
    and tk: "14 \<le> fR s' t \<Longrightarrow> f_tk s' t = f_tk s t"
  shows "far_pass s' Q"
proof -
  have Ru: "u \<noteq> t \<Longrightarrow> fR s' u = fR s u" for u using thr by simp
  have le13: "fR s u \<le> 13 \<longleftrightarrow> \<not> 14 \<le> fR s u" for s u by auto
  have R14: "14 \<le> fR s' u \<longleftrightarrow> 14 \<le> fR s u" for u using R Ru by (cases "u = t") auto
  have R16: "16 \<le> fR s u \<Longrightarrow> 16 \<le> fR s' u" for u using R Ru by (cases "u = t") auto
  have R1: "1 \<le> fR s' u \<longleftrightarrow> 1 \<le> fR s u" for u using R Ru by (cases "u = t") auto
  have tk': "14 \<le> fR s u \<Longrightarrow> f_tk s' u = f_tk s u" for u using tk thr R14 by (cases "u = t") auto
  show ?thesis
    unfolding far_pass_def dtk tg R14 R1 le13
  proof (intro conjI allI impI)
    show "f_dtk s u = (if \<not> 14 \<le> fR s u then kInvalidTicket else f_tk s' u)" if "1 \<le> fR s u" for u
      using p that tk' by (simp add: far_pass_def le13)
    show "14 \<le> fR s a" if "adj (Q d) a b" "6 \<le> fR s' b" for d a b
      using p that R6 Ru [of b] by (cases "b = t") (auto simp: far_pass_def)
    show "14 \<le> fR s a" if "adj (Q d) a b" "fR s' b = 4" "f_tk s' b \<noteq> kInvalidTicket" for d a b
      using p that R4 thr [of b] by (cases "b = t") (auto simp: far_pass_def)
    show "16 \<le> fR s' a" if "adj (Q d) a b" "f_toget s b \<noteq> kFalse" for d a b
      using p that R16 by (auto simp: far_pass_def)
  qed
qed

lemma far_pet_quiet:
  assumes "far_pet sd s"
    and "\<And>u. u \<noteq> t \<Longrightarrow> f_thr s' u = f_thr s u"
    and "far_phase (f_at s' t) = far_phase (f_at s t)"
    and "h_buf_victim (f_thr s' t) = h_buf_victim (f_thr s t)"
    and "local_flag (f_lock s') = local_flag (f_lock s)"
    and "remote_flag (f_lock s') = remote_flag (f_lock s)"
    and "victim (f_lock s') = victim (f_lock s)"
  shows "far_pet sd s'"
proof -
  have "far_phase (f_at s' u) = far_phase (f_at s u)"
    "h_buf_victim (f_thr s' u) = h_buf_victim (f_thr s u)" for u
    using assms(2-4) by (cases "u = t"; simp)+
  then show ?thesis using assms(1,5-7) by (simp add: far_pet_def)
qed

lemma far_tickets_quiet:
  assumes l: "far_tickets sd s line"
    and thr: "\<And>u. u \<noteq> t \<Longrightarrow> f_thr s' u = f_thr s u"
    and "current_ticket (f_lock s') = current_ticket (f_lock s)"
    and "next_ticket (f_lock s') = next_ticket (f_lock s)"
    and R: "12 \<le> fR s t \<and> fR s t \<le> 18 \<longleftrightarrow> 12 \<le> fR s' t \<and> fR s' t \<le> 18" "fR s' t \<noteq> 11"
    and tk: "12 \<le> fR s' t \<Longrightarrow> fR s' t \<le> 18 \<Longrightarrow> f_tk s' t = f_tk s t"
    and cur: "fR s' t = 18 \<Longrightarrow> f_tk s t = current_ticket (f_lock s)"
  shows "far_tickets sd s' line"
proof -
  have mem: "u \<in> set line \<longleftrightarrow> 12 \<le> fR s' u \<and> fR s' u \<le> 18" for u
    using l R thr unfolding far_tickets_def by (cases "u = t") auto
  have tk': "u \<in> set line \<Longrightarrow> f_tk s' u = f_tk s u" for u
    using mem [of u] tk thr by (cases "u = t") auto
  have line: "ticket_line (current_ticket (f_lock s)) (next_ticket (f_lock s)) (f_tk s') line"
    using l tk' unfolding far_tickets_def by (blast intro: ticket_line_cong)
  show ?thesis
    unfolding far_tickets_def assms(3,4)
  proof (intro conjI allI impI)
    show "f_tk s' u = current_ticket (f_lock s)" if "fR s' u = 18" for u
      using l tk cur that thr unfolding far_tickets_def by (cases "u = t") auto
    show "sd u = Remote" "f_tk s' u = next_ticket (f_lock s)" if "fR s' u = 11" for u
      using l R that thr unfolding far_tickets_def by (cases "u = t"; auto)+
  qed (use line mem in auto)
qed

text \<open>The invariant does not mention \<^verbatim>\<open>Exchange\<close>'s comparison value.\<close>

lemma far_inv_hint:
  assumes "far_inv sd s g" and "f_lock s' = f_lock s" and "f_desc s' = f_desc s"
    and "f_thr s' = (f_thr s)(t := (f_thr s t)\<lparr>h_hint := x\<rparr>)"
  shows "far_inv sd s' g"
proof -
  have "f_at s' u = f_at s u" "f_prev s' u = f_prev s u" "f_tk s' u = f_tk s u"
    "h_buf_victim (f_thr s' u) = h_buf_victim (f_thr s u)" for u
    using assms(4) by simp_all
  with assms(1-3) show ?thesis
    by (simp add: far_inv_def far_q_def far_pass_def far_pet_def far_tickets_def)
qed

section \<open>Consequences of the invariant\<close>

lemma far_invD:
  assumes "far_inv sd s g"
  shows "far_q sd s (g_queue g)" and "far_pass s (g_queue g)" and "far_pet sd s"
    and "far_tickets sd s (g_line g)"
  using assms by (simp_all add: far_inv_def)

lemma far_q_shape:
  "far_q sd s Q \<Longrightarrow> mcs_shape (Q d) (far_tail d (f_lock s)) (f_prev s) (f_next s) (\<lambda>t. 3 \<le> fR s t)"
  by (simp add: far_q_def)

lemma far_q_mem: "far_q sd s Q \<Longrightarrow> t \<in> set (Q d) \<longleftrightarrow> sd t = d \<and> 2 \<le> fR s t"
  by (simp add: far_q_def)

lemma far_q_fresh: "far_q sd s Q \<Longrightarrow> fR s t = 1 \<Longrightarrow> f_desc s t = far_desc0"
  and far_q_rel: "far_q sd s Q \<Longrightarrow> adj (Q d) a b \<Longrightarrow> f_rel s a = (if 5 \<le> fR s b then kTrue else kFalse)"
  and far_q_rel_last: "far_q sd s Q \<Longrightarrow> Q d \<noteq> [] \<Longrightarrow> f_rel s (last (Q d)) = kFalse"
  and far_q_granted: "far_q sd s Q \<Longrightarrow> 2 \<le> fR s t \<Longrightarrow>
    f_granted s t = (if t = hd (Q (sd t)) \<and> f_prev s t \<noteq> None then kTrue else kFalse)"
  and far_q_head: "far_q sd s Q \<Longrightarrow> 17 \<le> fR s t \<Longrightarrow> t = hd (Q (sd t))"
  and far_q_has_prev: "far_q sd s Q \<Longrightarrow> 2 \<le> fR s t \<Longrightarrow> fR s t \<le> 5 \<Longrightarrow> f_prev s t \<noteq> None"
  and far_q_not_head: "far_q sd s Q \<Longrightarrow> 2 \<le> fR s t \<Longrightarrow> fR s t \<le> 4 \<Longrightarrow> t \<noteq> hd (Q (sd t))"
  and far_q_not_last: "far_q sd s Q \<Longrightarrow> 21 \<le> fR s t \<Longrightarrow> t \<noteq> last (Q (sd t))"
  and far_q_rel22: "far_q sd s Q \<Longrightarrow> fR s t = 22 \<Longrightarrow> f_rel s t = kTrue"
  and far_q_next15: "far_q sd s Q \<Longrightarrow> fR s t = 15 \<Longrightarrow> f_next s t \<noteq> None"
  by (simp_all add: far_q_def)

lemma far_pass_dtk: "far_pass s Q \<Longrightarrow> 1 \<le> fR s t \<Longrightarrow>
    f_dtk s t = (if fR s t \<le> 13 then kInvalidTicket else f_tk s t)"
  and far_pass_6: "far_pass s Q \<Longrightarrow> adj (Q d) a b \<Longrightarrow> 6 \<le> fR s b \<Longrightarrow> 14 \<le> fR s a"
  and far_pass_4: "far_pass s Q \<Longrightarrow> adj (Q d) a b \<Longrightarrow> fR s b = 4 \<Longrightarrow> f_tk s b \<noteq> kInvalidTicket \<Longrightarrow> 14 \<le> fR s a"
  and far_pass_toget: "far_pass s Q \<Longrightarrow> adj (Q d) a b \<Longrightarrow> f_toget s b \<noteq> kFalse \<Longrightarrow> 16 \<le> fR s a"
  unfolding far_pass_def by metis+

lemma far_q_distinct: "far_q sd s Q \<Longrightarrow> distinct (Q d)"
  using far_q_shape mcs_shape_distinct by blast

lemma far_q_adj_side: "far_q sd s Q \<Longrightarrow> adj (Q d) a b \<Longrightarrow> sd a = d \<and> sd b = d \<and> 2 \<le> fR s a \<and> 2 \<le> fR s b"
  using far_q_mem adj_set by metis

lemma far_q_prev: "far_q sd s Q \<Longrightarrow> adj (Q d) a b \<Longrightarrow> f_prev s b = Some a"
  using far_q_shape mcs_shape_prev by blast

text \<open>A thread that has not released its predecessor yet still has it directly ahead.\<close>

lemma far_q_waiting:
  assumes "far_q sd s Q" and "2 \<le> fR s t" and "fR s t \<le> 4"
  obtains p where "adj (Q (sd t)) p t" and "f_prev s t = Some p" and "p \<noteq> t"
proof -
  have "t \<in> set (Q (sd t))" using assms by (simp add: far_q_mem)
  moreover have "t \<noteq> hd (Q (sd t))" using assms by (simp add: far_q_def)
  ultimately obtain p where "adj (Q (sd t)) p t" using adj_ex_left by metis
  with that far_q_prev [OF assms(1)] adj_neq far_q_distinct [OF assms(1)] show ?thesis by metis
qed

lemma far_q_next:
  assumes "far_q sd s Q" and "2 \<le> fR s t" and "f_next s t = Some n"
  shows "adj (Q (sd t)) t n" and "3 \<le> fR s n" and "n \<noteq> t"
proof -
  have t: "t \<in> set (Q (sd t))" using assms by (simp add: far_q_mem)
  show "adj (Q (sd t)) t n" "3 \<le> fR s n"
    using mcs_shape_next_Some [OF far_q_shape [OF assms(1)] t assms(3)] by auto
  then show "n \<noteq> t" using adj_neq far_q_distinct [OF assms(1)] by metis
qed

text \<open>At most one thread of a cohort is between \<^verbatim>\<open>WaitToGetTicket\<close> and the store of its ticket.\<close>

lemma far_alone:
  assumes "far_q sd s Q" and "far_pass s Q" and "sd u = sd t"
    and "6 \<le> fR s t" "fR s t \<le> 13" and "6 \<le> fR s u" "fR s u \<le> 13"
  shows "u = t"
proof (rule ccontr)
  assume "u \<noteq> t"
  moreover have "u \<in> set (Q (sd t))" "t \<in> set (Q (sd t))"
    using assms by (simp_all add: far_q_mem)
  ultimately have "before (Q (sd t)) u t \<or> before (Q (sd t)) t u" using before_total by metis
  moreover have chain: "6 \<le> fR s x \<and> 14 \<le> fR s x" if "adj (Q (sd t)) x y" "6 \<le> fR s y" for x y
  proof -
    have "14 \<le> fR s x" using assms(2) that by (auto simp: far_pass_def)
    then show ?thesis by simp
  qed
  ultimately have "14 \<le> fR s u \<or> 14 \<le> fR s t"
    using before_chain [of "Q (sd t)" "\<lambda>x. 6 \<le> fR s x" "\<lambda>x. 14 \<le> fR s x"] assms(4,6) by metis
  with assms(5,7) show False by simp
qed

end
