(* ===== verification/FARLockStep.thy ===== *)
theory FARLockStep
  imports FARLockInv
begin

text \<open>
  Every step of the FARLock protocol keeps the invariant: one lemma per program point, each discharging
  the four groups of the invariant, most of them by the frame lemmas of \<open>FARLockInv\<close>.
\<close>

section \<open>Entering the queue\<close>

lemma inv_Idle:
  assumes inv: "far_inv sd s g" and at: "f_at s t = FIdle"
  shows "far_inv sd (far_step sd t s) (far_gstep sd t s g)"
proof -
  note I = far_invD [OF inv] and E = eff_Idle [OF at]
  let ?s = "far_step sd t s" and ?Q = "g_queue g"
  have tQ: "t \<notin> set (?Q d)" for d using far_q_mem [OF I(1)] at by simp
  have R: "fR ?s u = (if u = t then 1 else fR s u)" for u by (simp add: E)
  have D: "f_desc ?s u = (if u = t then far_desc0 else f_desc s u)" for u by (simp add: E)
  have P: "f_prev ?s u = f_prev s u" "f_tk ?s u = f_tk s u" for u by (simp_all add: E)
  have ne: "a \<noteq> t" "b \<noteq> t" if "adj (?Q d) a b" for d a b using adj_set [OF that] tQ by auto
  have last: "?Q d \<noteq> [] \<Longrightarrow> last (?Q d) \<noteq> t" for d using tQ by (metis last_in_line)
  have "far_q sd ?s ?Q"
    unfolding far_q_def E(1)
  proof (intro conjI allI impI)
    show "mcs_shape (?Q d) (far_tail d (f_lock s)) (f_prev ?s) (f_next ?s) (\<lambda>t. 3 \<le> fR ?s t)" for d
      by (rule mcs_shape_cong [OF far_q_shape [OF I(1)]]) (use tQ [of d] in \<open>auto simp: R D P\<close>)
    show "u \<in> set (?Q d) \<longleftrightarrow> sd u = d \<and> 2 \<le> fR ?s u" for d u
      using far_q_mem [OF I(1), of u d] at by (simp add: R)
    show "f_rel ?s a = (if 5 \<le> fR ?s b then kTrue else kFalse)" if "adj (?Q d) a b" for d a b
      using I(1) that ne [OF that] by (simp add: R D far_q_def)
    show "f_rel ?s (last (?Q d)) = kFalse" if "?Q d \<noteq> []" for d
      using I(1) that last by (simp add: D far_q_def)
    show "f_desc ?s u = far_desc0" if "fR ?s u = 1" for u
      using far_q_fresh [OF I(1), of u] that by (cases "u = t") (simp_all add: R D)
    show "f_granted ?s u = (if u = hd (?Q (sd u)) \<and> f_prev ?s u \<noteq> None then kTrue else kFalse)"
      if "2 \<le> fR ?s u" for u
      using far_q_granted [OF I(1), of u] that by (simp add: R D P split: if_splits)
    show "u = hd (?Q (sd u))" if "17 \<le> fR ?s u" for u
      using far_q_head [OF I(1), of u] that by (simp add: R split: if_splits)
    show "f_prev ?s u \<noteq> None" if "2 \<le> fR ?s u" "fR ?s u \<le> 5" for u
      using far_q_has_prev [OF I(1), of u] that by (simp add: R P split: if_splits)
    show "u \<noteq> hd (?Q (sd u))" if "2 \<le> fR ?s u" "fR ?s u \<le> 4" for u
      using far_q_not_head [OF I(1), of u] that by (simp add: R split: if_splits)
    show "u \<noteq> last (?Q (sd u))" if "21 \<le> fR ?s u" for u
      using far_q_not_last [OF I(1), of u] that by (simp add: R split: if_splits)
    show "f_rel ?s u = kTrue" if "fR ?s u = 22" for u
      using far_q_rel22 [OF I(1), of u] that by (simp add: R D split: if_splits)
    show "f_next ?s u \<noteq> None" if "fR ?s u = 15" for u
      using far_q_next15 [OF I(1), of u] that by (simp add: R D split: if_splits)
  qed
  moreover have "far_pass ?s ?Q"
    unfolding far_pass_def
  proof (intro conjI allI impI)
    show "f_dtk ?s u = (if fR ?s u \<le> 13 then kInvalidTicket else f_tk ?s u)" if "1 \<le> fR ?s u" for u
      using far_pass_dtk [OF I(2), of u] that by (simp add: R D P split: if_splits)
    show "14 \<le> fR ?s a" if "adj (?Q d) a b" "6 \<le> fR ?s b" for d a b
      using far_pass_6 [OF I(2) that(1)] that ne [OF that(1)] by (simp add: R)
    show "14 \<le> fR ?s a" if "adj (?Q d) a b" "fR ?s b = 4" "f_tk ?s b \<noteq> kInvalidTicket" for d a b
      using far_pass_4 [OF I(2) that(1)] that ne [OF that(1)] by (simp add: R P)
    show "16 \<le> fR ?s a" if "adj (?Q d) a b" "f_toget ?s b \<noteq> kFalse" for d a b
      using far_pass_toget [OF I(2) that(1)] that ne [OF that(1)] by (simp add: R D)
  qed
  moreover have "far_pet sd ?s"
    by (rule far_pet_quiet [OF I(3), where t = t]) (simp_all add: E at)
  moreover have "far_tickets sd ?s (g_line g)"
    by (rule far_tickets_quiet [OF I(4), where t = t]) (simp_all add: E at)
  ultimately show ?thesis by (simp add: far_inv_def E)
qed

lemma inv_Swap_retry:
  assumes inv: "far_inv sd s g" and at: "f_at s t = FSwap" and "\<not> far_enqueues sd s t"
  shows "far_inv sd (far_step sd t s) (far_gstep sd t s g)"
  using far_inv_hint [OF inv eff_Swap_retry(1-3) [OF assms(2,3)]] eff_Swap_retry(4) [OF assms(2,3)]
  by simp

lemma inv_Swap:
  assumes inv: "far_inv sd s g" and at: "f_at s t = FSwap" and enq: "far_enqueues sd s t"
  shows "far_inv sd (far_step sd t s) (far_gstep sd t s g)"
proof -
  note I = far_invD [OF inv] and E = eff_Swap [OF at enq] and EL = eff_Swap_lock [OF at, of sd]
  let ?s = "far_step sd t s" and ?Q = "g_queue g" and ?tl = "far_tail (sd t) (f_lock s)"
  let ?n = "if ?tl \<noteq> None then 2 else 6 :: nat"
  let ?Q' = "?Q(sd t := ?Q (sd t) @ [t])"
  have tQ: "t \<notin> set (?Q d)" for d using far_q_mem [OF I(1)] at by simp
  have tl: "?tl = (if ?Q (sd t) = [] then None else Some (last (?Q (sd t))))"
    using far_q_shape [OF I(1), of "sd t"] by (simp add: mcs_shape_def)
  have d0: "f_desc s t = far_desc0" using I(1) at by (simp add: far_q_def)
  have R: "fR ?s u = (if u = t then ?n else fR s u)" for u by (simp add: E)
  have P: "f_prev ?s u = (if u = t then ?tl else f_prev s u)" "f_tk ?s u = f_tk s u" for u
    by (simp_all add: E)
  have ne: "a \<noteq> t" "b \<noteq> t" if "adj (?Q d) a b" for d a b using adj_set [OF that] tQ by auto
  have adj': "adj (?Q' d) a b \<longleftrightarrow> adj (?Q d) a b \<or> d = sd t \<and> ?Q (sd t) \<noteq> [] \<and> a = last (?Q (sd t)) \<and> b = t" for d a b
    by (auto simp: adj_snoc)
  have hd': "hd (?Q' d) = (if d = sd t \<and> ?Q d = [] then t else hd (?Q d))" for d by simp
  have last': "last (?Q' d) = (if d = sd t then t else last (?Q d))" for d by simp
  have hdne: "?Q d \<noteq> [] \<Longrightarrow> hd (?Q d) \<noteq> t" "?Q d \<noteq> [] \<Longrightarrow> last (?Q d) \<noteq> t" for d
    using tQ hd_in_line last_in_line by metis+
  have mem: "u \<in> set (?Q d) \<longleftrightarrow> sd u = d \<and> 2 \<le> fR s u" for u d by (rule far_q_mem [OF I(1)])
  have nonempty: "?Q (sd u) \<noteq> []" if "2 \<le> fR s u" for u using mem [of u "sd u"] that by auto
  have ne17: "17 \<le> fR s u \<Longrightarrow> ?Q (sd u) \<noteq> []" for u using nonempty by simp
  have sh: "mcs_shape (?Q' d) (far_tail d (f_lock ?s)) (f_prev ?s) (f_next ?s) (\<lambda>t. 3 \<le> fR ?s t)" for d
  proof (cases "d = sd t")
    case True
    show ?thesis
    proof (cases "?Q (sd t) = []")
      case emp: True
      then show ?thesis using True E(1) d0 by (simp add: mcs_shape_def E(3))
    next
      case False
      have "mcs_shape (?Q (sd t) @ [t]) (Some t) (f_prev ?s) (f_next ?s) (\<lambda>t. 3 \<le> fR ?s t)"
        by (rule mcs_shape_enqueue [OF far_q_shape [OF I(1), of "sd t"]])
           (use False tl d0 tQ [of "sd t"] in \<open>auto simp: R P E(3)\<close>)
      with True E(1) show ?thesis by simp
    qed
  next
    case False
    have "mcs_shape (?Q d) (far_tail d (f_lock s)) (f_prev ?s) (f_next ?s) (\<lambda>t. 3 \<le> fR ?s t)"
      by (rule mcs_shape_cong [OF far_q_shape [OF I(1), of d]]) (use tQ [of d] in \<open>auto simp: R P E(3)\<close>)
    with False E(2) [of d] show ?thesis by simp
  qed
  have "far_q sd ?s ?Q'"
    unfolding far_q_def adj' hd' last' E(3)
  proof (intro conjI allI impI)
    show "mcs_shape (?Q' d) (far_tail d (f_lock ?s)) (f_prev ?s) (f_next s) (\<lambda>t. 3 \<le> fR ?s t)" for d
      using sh [of d] by (simp add: E(3))
    show "u \<in> set (?Q' d) \<longleftrightarrow> sd u = d \<and> 2 \<le> fR ?s u" for d u using mem at by (auto simp: R)
    show "f_rel s a = (if 5 \<le> fR ?s b then kTrue else kFalse)"
      if "adj (?Q d) a b \<or> d = sd t \<and> ?Q (sd t) \<noteq> [] \<and> a = last (?Q (sd t)) \<and> b = t" for d a b
      using that
    proof
      assume adj: "adj (?Q d) a b"
      then show ?thesis using I(1) ne(2) [OF adj] by (simp add: R far_q_def)
    next
      assume "d = sd t \<and> ?Q (sd t) \<noteq> [] \<and> a = last (?Q (sd t)) \<and> b = t"
      then show ?thesis using I(1) tl by (simp add: R far_q_def)
    qed
    show "f_rel s (if d = sd t then t else last (?Q d)) = kFalse" if "?Q' d \<noteq> []" for d
      using far_q_rel_last [OF I(1), of d] that d0 by (simp split: if_splits)
    show "f_desc s u = far_desc0" if "fR ?s u = 1" for u
      using far_q_fresh [OF I(1), of u] that d0 by (cases "u = t") (simp_all add: R)
    show "f_granted s u =
        (if u = (if sd u = sd t \<and> ?Q (sd u) = [] then t else hd (?Q (sd u))) \<and> f_prev ?s u \<noteq> None
         then kTrue else kFalse)" if "2 \<le> fR ?s u" for u
    proof (cases "u = t")
      case True
      then show ?thesis using d0 tl hdne(1) [of "sd t"] by (auto simp: P)
    next
      case False
      with that have "2 \<le> fR s u" by (simp add: R)
      then show ?thesis
        using far_q_granted [OF I(1), of u] nonempty [of u] False by (simp add: P)
    qed
    show "u = (if sd u = sd t \<and> ?Q (sd u) = [] then t else hd (?Q (sd u)))" if "17 \<le> fR ?s u" for u
      using far_q_head [OF I(1), of u] that ne17 [of u] by (simp add: R split: if_splits)
    show "f_prev ?s u \<noteq> None" if "2 \<le> fR ?s u" "fR ?s u \<le> 5" for u
      using far_q_has_prev [OF I(1), of u] that by (simp add: R P split: if_splits)
    show "u \<noteq> (if sd u = sd t \<and> ?Q (sd u) = [] then t else hd (?Q (sd u)))"
      if "2 \<le> fR ?s u" "fR ?s u \<le> 4" for u
    proof (cases "u = t")
      case True
      then show ?thesis using that tl hdne(1) [of "sd t"] by (auto simp: R split: if_splits)
    next
      case False
      with that show ?thesis
        using far_q_not_head [OF I(1), of u] nonempty [of u] by (simp add: R)
    qed
    show "u \<noteq> (if sd u = sd t then t else last (?Q (sd u)))" if "21 \<le> fR ?s u" for u
      using far_q_not_last [OF I(1), of u] that by (simp add: R split: if_splits)
    show "f_rel s u = kTrue" if "fR ?s u = 22" for u
      using far_q_rel22 [OF I(1), of u] that by (simp add: R split: if_splits)
    show "f_next s u \<noteq> None" if "fR ?s u = 15" for u
      using far_q_next15 [OF I(1), of u] that by (simp add: R split: if_splits)
  qed
  moreover have "far_pass ?s ?Q'"
    unfolding far_pass_def E(3)
  proof (intro conjI allI impI)
    have new: "adj (?Q d) a b \<and> a \<noteq> t \<and> b \<noteq> t \<or> b = t \<and> ?tl \<noteq> None" if "adj (?Q' d) a b" for d a b
      using that adj' [of d a b] tl ne [of d a b] by auto
    show "f_dtk s u = (if fR ?s u \<le> 13 then kInvalidTicket else f_tk ?s u)" if "1 \<le> fR ?s u" for u
      using far_pass_dtk [OF I(2), of u] that d0 by (cases "u = t") (simp_all add: R P)
    show "14 \<le> fR ?s a" if "adj (?Q' d) a b" "6 \<le> fR ?s b" for d a b
      using new [OF that(1)] that(2) far_pass_6 [OF I(2), of d a b] by (auto simp: R split: if_splits)
    show "14 \<le> fR ?s a" if "adj (?Q' d) a b" "fR ?s b = 4" "f_tk ?s b \<noteq> kInvalidTicket" for d a b
      using new [OF that(1)] that(2,3) far_pass_4 [OF I(2), of d a b] by (auto simp: R P split: if_splits)
    show "16 \<le> fR ?s a" if "adj (?Q' d) a b" "f_toget s b \<noteq> kFalse" for d a b
      using new [OF that(1)] that(2) d0 far_pass_toget [OF I(2), of d a b] by (auto simp: R split: if_splits)
  qed
  moreover have "far_pet sd ?s"
    by (rule far_pet_quiet [OF I(3), where t = t]) (simp_all add: E EL at split: if_splits)
  moreover have "far_tickets sd ?s (g_line g)"
    by (rule far_tickets_quiet [OF I(4), where t = t]) (simp_all add: E EL at split: if_splits)
  ultimately show ?thesis by (simp add: far_inv_def E(5))
qed

section \<open>Linking behind the predecessor\<close>

lemma inv_SetNext:
  assumes inv: "far_inv sd s g" and at: "f_at s t = FSetNext"
  shows "far_inv sd (far_step sd t s) (far_gstep sd t s g)"
proof -
  note I = far_invD [OF inv]
  obtain p where adj: "adj (g_queue g (sd t)) p t" and prev: "f_prev s t = Some p" and pt: "p \<noteq> t"
    using far_q_waiting [OF I(1), of t] at by auto
  note E = eff_SetNext [OF at prev]
  let ?s = "far_step sd t s" and ?Q = "g_queue g"
  have side: "sd p = sd t" "2 \<le> fR s p" using far_q_adj_side [OF I(1) adj] by auto
  have R: "fR ?s u = (if u = t then 3 else fR s u)" for u by (simp add: E)
  have D: "f_rel ?s u = f_rel s u" "f_granted ?s u = f_granted s u" "f_toget ?s u = f_toget s u"
    "f_dtk ?s u = f_dtk s u" "f_next ?s u = (if u = p then Some t else f_next s u)" for u
    by (simp_all add: E)
  have P: "f_prev ?s u = f_prev s u" "f_tk ?s u = f_tk s u" for u by (simp_all add: E)
  have thresh: "2 \<le> fR ?s u \<longleftrightarrow> 2 \<le> fR s u" "5 \<le> fR ?s u \<longleftrightarrow> 5 \<le> fR s u" for u
    using at by (simp_all add: R)
  have other: "sd u = sd t" if "u \<in> {p, t}" for u using side that by auto
  have "far_q sd ?s ?Q"
    unfolding far_q_def E(1) D(1,2) P thresh
  proof (intro conjI allI impI)
    show "mcs_shape (?Q d) (far_tail d (f_lock s)) (f_prev s) (f_next ?s) (\<lambda>t. 3 \<le> fR ?s t)" for d
    proof (cases "d = sd t")
      case True
      show ?thesis
        by (rule mcs_shape_link [OF far_q_shape [OF I(1)] adj [folded True]])
           (use at pt in \<open>auto simp: R D\<close>)
    next
      case False
      then have "u \<notin> set (?Q d)" if "u \<in> {p, t}" for u
        using far_q_mem [OF I(1), of u d] other [OF that] by auto
      then show ?thesis
        by (intro mcs_shape_cong [OF far_q_shape [OF I(1)]]) (auto simp: R D)
    qed
    show "f_desc ?s u = far_desc0" if "fR ?s u = 1" for u
      using far_q_fresh [OF I(1), of u] that side by (cases "u = t"; cases "u = p") (simp_all add: R E)
    show "u = hd (?Q (sd u))" if "17 \<le> fR ?s u" for u
      using far_q_head [OF I(1), of u] that by (simp add: R split: if_splits)
    show "f_prev s u \<noteq> None" if "2 \<le> fR s u" "fR ?s u \<le> 5" for u
      using far_q_has_prev [OF I(1), of u] that prev by (cases "u = t") (simp_all add: R)
    show "u \<noteq> hd (?Q (sd u))" if "2 \<le> fR s u" "fR ?s u \<le> 4" for u
      using far_q_not_head [OF I(1), of u] that at by (cases "u = t") (simp_all add: R)
    show "u \<noteq> last (?Q (sd u))" if "21 \<le> fR ?s u" for u
      using far_q_not_last [OF I(1), of u] that by (simp add: R split: if_splits)
    show "f_rel s u = kTrue" if "fR ?s u = 22" for u
      using far_q_rel22 [OF I(1), of u] that by (simp add: R split: if_splits)
    show "f_next ?s u \<noteq> None" if "fR ?s u = 15" for u
      using far_q_next15 [OF I(1), of u] that by (cases "u = t"; cases "u = p") (simp_all add: R D)
  qed (use far_q_mem [OF I(1)] far_q_rel [OF I(1)] far_q_rel_last [OF I(1)] far_q_granted [OF I(1)] in auto)
  moreover have "far_pass ?s ?Q"
    by (rule far_pass_quiet [OF I(2), where t = t]) (use at in \<open>simp_all add: R D P far_thr_other\<close>)
  moreover have "far_pet sd ?s"
    by (rule far_pet_quiet [OF I(3), where t = t]) (simp_all add: E at)
  moreover have "far_tickets sd ?s (g_line g)"
    by (rule far_tickets_quiet [OF I(4), where t = t]) (simp_all add: E at)
  ultimately show ?thesis by (simp add: far_inv_def E)
qed

lemma inv_LoadTicket:
  assumes inv: "far_inv sd s g" and at: "f_at s t = FLoadTicket"
  shows "far_inv sd (far_step sd t s) (far_gstep sd t s g)"
proof -
  note I = far_invD [OF inv]
  obtain p where adj: "adj (g_queue g (sd t)) p t" and prev: "f_prev s t = Some p"
    using far_q_waiting [OF I(1), of t] at by auto
  note E = eff_LoadTicket [OF at prev]
  let ?s = "far_step sd t s" and ?Q = "g_queue g"
  have uniq: "d = sd t \<and> a = p" if "adj (?Q d) a t" for d a
    using far_q_adj_side [OF I(1) that] far_q_prev [OF I(1) that] prev by auto
  have stored: "14 \<le> fR s p" if "f_dtk s p \<noteq> kInvalidTicket"
    using far_pass_dtk [OF I(2), of p] far_q_adj_side [OF I(1) adj] that by (auto split: if_splits)
  have "far_q sd ?s ?Q"
    by (rule far_q_quiet [OF I(1), where t = t]) (use at in \<open>simp_all add: E\<close>)
  moreover have "far_pass ?s ?Q"
    by (rule far_pass_quiet [OF I(2), where t = t]) (use at uniq stored in \<open>auto simp: E\<close>)
  moreover have "far_pet sd ?s"
    by (rule far_pet_quiet [OF I(3), where t = t]) (simp_all add: E at)
  moreover have "far_tickets sd ?s (g_line g)"
    by (rule far_tickets_quiet [OF I(4), where t = t]) (simp_all add: E at)
  ultimately show ?thesis by (simp add: far_inv_def E)
qed

lemma inv_SetReleasable:
  assumes inv: "far_inv sd s g" and at: "f_at s t = FSetReleasable"
  shows "far_inv sd (far_step sd t s) (far_gstep sd t s g)"
proof -
  note I = far_invD [OF inv]
  obtain p where adj: "adj (g_queue g (sd t)) p t" and prev: "f_prev s t = Some p" and pt: "p \<noteq> t"
    using far_q_waiting [OF I(1), of t] at by auto
  note E = eff_SetReleasable [OF at prev]
  let ?s = "far_step sd t s" and ?Q = "g_queue g"
  let ?n = "if f_tk s t = kInvalidTicket then 5 else 6 :: nat"
  have side: "sd p = sd t" "2 \<le> fR s p" using far_q_adj_side [OF I(1) adj] by auto
  have uniq: "d = sd t \<and> a = p" if "adj (?Q d) a t" for d a
    using far_q_adj_side [OF I(1) that] far_q_prev [OF I(1) that] prev by auto
  have uniqR: "b = t" if "adj (?Q d) p b" for d b
    using far_q_adj_side [OF I(1) that] side adj_unique_right [OF far_q_distinct [OF I(1)] adj] that by auto
  have plast: "last (?Q d) \<noteq> p" if "?Q d \<noteq> []" for d
    using adj_not_last [OF far_q_distinct [OF I(1)] adj] far_q_mem [OF I(1), of p d] side that last_in_line by metis
  have R: "fR ?s u = (if u = t then ?n else fR s u)" for u by (simp add: E)
  have D: "f_next ?s u = f_next s u" "f_granted ?s u = f_granted s u" "f_toget ?s u = f_toget s u"
    "f_dtk ?s u = f_dtk s u" "f_rel ?s u = (if u = p then kTrue else f_rel s u)" for u
    by (simp_all add: E)
  have P: "f_prev ?s u = f_prev s u" "f_tk ?s u = f_tk s u" for u by (simp_all add: E)
  have thresh: "2 \<le> fR ?s u \<longleftrightarrow> 2 \<le> fR s u" "3 \<le> fR ?s u \<longleftrightarrow> 3 \<le> fR s u" for u
    using at by (simp_all add: R)
  have "far_q sd ?s ?Q"
    unfolding far_q_def E(1) D(1,2) P thresh
  proof (intro conjI allI impI)
    show "mcs_shape (?Q d) (far_tail d (f_lock s)) (f_prev s) (f_next s) (\<lambda>t. 3 \<le> fR s t)" for d
      by (rule far_q_shape [OF I(1)])
    show "f_rel ?s a = (if 5 \<le> fR ?s b then kTrue else kFalse)" if "adj (?Q d) a b" for d a b
    proof (cases "b = t")
      case True
      then show ?thesis using uniq that by (simp add: R D)
    next
      case False
      then have "a \<noteq> p" using uniqR that by blast
      with False show ?thesis using far_q_rel [OF I(1) that] by (simp add: R D)
    qed
    show "f_rel ?s (last (?Q d)) = kFalse" if "?Q d \<noteq> []" for d
      using far_q_rel_last [OF I(1) that] plast [OF that] by (simp add: D)
    show "f_desc ?s u = far_desc0" if "fR ?s u = 1" for u
      using far_q_fresh [OF I(1), of u] that side by (cases "u = t"; cases "u = p") (simp_all add: R E split: if_splits)
    show "u = hd (?Q (sd u))" if "17 \<le> fR ?s u" for u
      using far_q_head [OF I(1), of u] that by (simp add: R split: if_splits)
    show "f_prev s u \<noteq> None" if "2 \<le> fR s u" "fR ?s u \<le> 5" for u
      using far_q_has_prev [OF I(1), of u] that prev by (cases "u = t") (simp_all add: R)
    show "u \<noteq> hd (?Q (sd u))" if "2 \<le> fR s u" "fR ?s u \<le> 4" for u
      using far_q_not_head [OF I(1), of u] that at by (cases "u = t") (simp_all add: R split: if_splits)
    show "u \<noteq> last (?Q (sd u))" if "21 \<le> fR ?s u" for u
      using far_q_not_last [OF I(1), of u] that by (simp add: R split: if_splits)
    show "f_rel ?s u = kTrue" if "fR ?s u = 22" for u
      using far_q_rel22 [OF I(1), of u] that by (simp add: R D split: if_splits)
    show "f_next s u \<noteq> None" if "fR ?s u = 15" for u
      using far_q_next15 [OF I(1), of u] that by (simp add: R split: if_splits)
  qed (use far_q_mem [OF I(1)] far_q_granted [OF I(1)] in auto)
  moreover have "far_pass ?s ?Q"
    by (rule far_pass_quiet [OF I(2), where t = t])
       (use at uniq far_pass_4 [OF I(2) adj] in \<open>auto simp: R D P far_thr_other split: if_splits\<close>)
  moreover have "far_pet sd ?s"
    by (rule far_pet_quiet [OF I(3), where t = t]) (simp_all add: E at)
  moreover have "far_tickets sd ?s (g_line g)"
    by (rule far_tickets_quiet [OF I(4), where t = t]) (simp_all add: E at split: if_splits)
  ultimately show ?thesis by (simp add: far_inv_def E)
qed

lemma inv_WaitToGet:
  assumes inv: "far_inv sd s g" and at: "f_at s t = FWaitToGet" and tg: "f_toget s t = kTrue"
  shows "far_inv sd (far_step sd t s) (far_gstep sd t s g)"
proof -
  note I = far_invD [OF inv] and E = eff_WaitToGet [OF at tg]
  let ?s = "far_step sd t s" and ?Q = "g_queue g"
  have "14 \<le> fR s a" if "adj (?Q d) a t" for d a
    using far_pass_toget [OF I(2) that] tg by simp
  then have "far_pass ?s ?Q"
    by (intro far_pass_quiet [OF I(2), where t = t]) (use at in \<open>auto simp: E\<close>)
  moreover have "far_q sd ?s ?Q"
    by (rule far_q_quiet [OF I(1), where t = t]) (use at in \<open>simp_all add: E\<close>)
  moreover have "far_pet sd ?s"
    by (rule far_pet_quiet [OF I(3), where t = t]) (simp_all add: E at)
  moreover have "far_tickets sd ?s (g_line g)"
    by (rule far_tickets_quiet [OF I(4), where t = t]) (simp_all add: E at)
  ultimately show ?thesis by (simp add: far_inv_def E)
qed

section \<open>Peterson's algorithm\<close>

text \<open>
  During Peterson's algorithm only the program counter, the remote buffer and the flags change: the
  queues, the passing of the right and the tickets are untouched.
\<close>

lemma inv_pet_frame:
  assumes inv: "far_inv sd s g" and R: "6 \<le> fR s t" "fR s t \<le> 9"
    and s': "f_desc s' = f_desc s" "\<And>d. far_tail d (f_lock s') = far_tail d (f_lock s)"
      "current_ticket (f_lock s') = current_ticket (f_lock s)"
      "next_ticket (f_lock s') = next_ticket (f_lock s)"
      "\<And>u. u \<noteq> t \<Longrightarrow> f_thr s' u = f_thr s u" "f_prev s' t = f_prev s t" "f_tk s' t = f_tk s t"
    and R': "7 \<le> fR s' t" "fR s' t \<le> 10"
    and pet: "far_pet sd s'"
  shows "far_inv sd s' g"
proof -
  note I = far_invD [OF inv]
  have "far_q sd s' (g_queue g)"
    by (rule far_q_quiet [OF I(1), where t = t]) (use R R' s' in \<open>simp_all add: s'\<close>)
  moreover have "far_pass s' (g_queue g)"
    by (rule far_pass_quiet [OF I(2), where t = t]) (use R R' s' in \<open>simp_all add: s'\<close>)
  moreover have "far_tickets sd s' (g_line g)"
    by (rule far_tickets_quiet [OF I(4), where t = t]) (use R R' s' in \<open>simp_all add: s'\<close>)
  ultimately show ?thesis using pet by (simp add: far_inv_def)
qed

lemma far_phase_upd:
  "f_thr s' = (f_thr s)(t := h) \<Longrightarrow>
    (\<lambda>u. far_phase (f_at s' u)) = (\<lambda>u. far_phase (f_at s u))(t := far_phase (h_pc h))"
  by (simp add: fun_eq_iff)

lemma far_buf_upd:
  "f_thr s' = (f_thr s)(t := h) \<Longrightarrow> h_buf_victim h = h_buf_victim (f_thr s t) \<Longrightarrow>
    (\<lambda>u. h_buf_victim (f_thr s' u)) = (\<lambda>u. h_buf_victim (f_thr s u))"
  by (simp add: fun_eq_iff)

text \<open>One step of a local or of a remote participant.\<close>

lemma far_pet_local:
  assumes "far_pet sd s" and "sd t = Local" and "f_thr s' = (f_thr s)(t := h)"
    and "h_buf_victim h = h_buf_victim (f_thr s t)"
    and "far_phase (f_at s t) \<noteq> Out \<or> (\<forall>u. sd u = Local \<longrightarrow> far_phase (f_at s u) = Out)"
    and "remote_flag (f_lock s') = remote_flag (f_lock s)"
    and "\<And>pr b. pet_core (far_phase (f_at s t)) pr b (local_flag (f_lock s)) (remote_flag (f_lock s))
      (victim (f_lock s)) \<Longrightarrow>
      pet_core (far_phase (h_pc h)) pr b (local_flag (f_lock s')) (remote_flag (f_lock s)) (victim (f_lock s'))"
  shows "far_pet sd s'"
  unfolding far_pet_def far_phase_upd [OF assms(3)] far_buf_upd [OF assms(3,4)] assms(6)
  by (rule pet_step_local [OF assms(1) [unfolded far_pet_def] assms(2,5,7)])

lemma far_pet_remote:
  assumes "far_pet sd s" and "sd t = Remote" and "f_thr s' = (f_thr s)(t := h)"
    and "far_phase (f_at s t) \<noteq> Out \<or> (\<forall>u. sd u = Remote \<longrightarrow> far_phase (f_at s u) = Out)"
    and "local_flag (f_lock s') = local_flag (f_lock s)"
    and "\<And>pl b. pet_core pl (far_phase (f_at s t)) b (local_flag (f_lock s)) (remote_flag (f_lock s))
      (victim (f_lock s)) \<Longrightarrow> (far_phase (f_at s t) \<noteq> Out \<Longrightarrow> b = h_buf_victim (f_thr s t)) \<Longrightarrow>
      pet_core pl (far_phase (h_pc h)) (h_buf_victim h) (local_flag (f_lock s)) (remote_flag (f_lock s'))
        (victim (f_lock s'))"
  shows "far_pet sd s'"
  unfolding far_pet_def far_phase_upd [OF assms(3)] assms(5)
  by (rule pet_step_remote [OF assms(1) [unfolded far_pet_def] assms(2,4)])
     (use assms(3,6) in \<open>simp_all\<close>)

lemma inv_PetFlag:
  assumes inv: "far_inv sd s g" and at: "f_at s t = FPetFlag"
  shows "far_inv sd (far_step sd t s) (far_gstep sd t s g)"
proof -
  note I = far_invD [OF inv] and E = eff_PetFlag [OF at, of sd]
  have out: "far_phase (f_at s u) = Out" if "sd u = sd t" for u
  proof (rule ccontr)
    assume "far_phase (f_at s u) \<noteq> Out"
    then have r: "7 \<le> fR s u \<and> fR s u \<le> 12" by (rule far_phase_rank)
    then have "u = t" using far_alone [OF I(1,2) that] at by simp
    with r at show False by simp
  qed
  have "far_pet sd (far_step sd t s)"
  proof (cases "sd t")
    case Local
    show ?thesis
      by (rule far_pet_local [OF I(3) Local E(3)])
         (use out Local at in \<open>auto simp: E(1) intro: core_flag_local\<close>)
  next
    case Remote
    show ?thesis
      by (rule far_pet_remote [OF I(3) Remote E(3)])
         (use out Remote at in \<open>auto simp: E(1) intro: core_flag_remote\<close>)
  qed
  then show ?thesis
    unfolding E(4) by (intro inv_pet_frame [OF inv, where t = t])
      (simp_all add: E at)
qed

lemma inv_PetVictim:
  assumes inv: "far_inv sd s g" and at: "f_at s t = FPetVictim"
  shows "far_inv sd (far_step sd t s) (far_gstep sd t s g)"
proof -
  note I = far_invD [OF inv] and E = eff_PetVictim [OF at, of sd]
  have "far_pet sd (far_step sd t s)"
  proof (cases "sd t")
    case Local
    show ?thesis
      by (rule far_pet_local [OF I(3) Local E(3)])
         (use Local at in \<open>auto simp: E(1) intro: core_victim_local\<close>)
  next
    case Remote
    show ?thesis
      by (rule far_pet_remote [OF I(3) Remote E(3)])
         (use Remote at in \<open>auto simp: E(1) intro: core_victim_remote\<close>)
  qed
  then show ?thesis
    unfolding E(4) by (intro inv_pet_frame [OF inv, where t = t]) (simp_all add: E at)
qed

lemma inv_PetReadA:
  assumes inv: "far_inv sd s g" and at: "f_at s t = FPetReadA"
  shows "far_inv sd (far_step sd t s) (far_gstep sd t s g)"
proof -
  note I = far_invD [OF inv] and E = eff_PetReadA [OF at, where sd = sd]
  have "far_pet sd (far_step sd t s)"
  proof (cases "sd t")
    case Local
    show ?thesis
      by (rule far_pet_local [OF I(3) Local E(3) [OF Local]])
         (use Local at in \<open>auto simp: E(1) intro: core_local_A_in core_local_A_B\<close>)
  next
    case Remote
    show ?thesis
      by (rule far_pet_remote [OF I(3) Remote E(4) [OF Remote]])
         (use Remote at in \<open>auto simp: E(1) intro: core_remote_A_B\<close>)
  qed
  then show ?thesis
    unfolding E(5) by (cases "sd t"; intro inv_pet_frame [OF inv, where t = t]) (simp_all add: E at)
qed

lemma inv_PetReadB:
  assumes inv: "far_inv sd s g" and at: "f_at s t = FPetReadB"
  shows "far_inv sd (far_step sd t s) (far_gstep sd t s g)"
proof -
  note I = far_invD [OF inv] and E = eff_PetReadB [OF at, where sd = sd]
  have "far_pet sd (far_step sd t s)"
  proof (cases "sd t")
    case Local
    show ?thesis
      by (rule far_pet_local [OF I(3) Local E(3) [OF Local]])
         (use Local at in \<open>auto simp: E(1) intro: core_local_B_in core_local_B_A\<close>)
  next
    case Remote
    show ?thesis
      by (rule far_pet_remote [OF I(3) Remote E(4) [OF Remote]])
         (use Remote at in \<open>auto simp: E(1) intro: core_remote_B_in core_remote_B_A\<close>)
  qed
  then show ?thesis
    unfolding E(5) by (cases "sd t"; intro inv_pet_frame [OF inv, where t = t]) (simp_all add: E at)
qed

end
