(* ===== verification/FARLockTicket.thy ===== *)
theory FARLockTicket
  imports FARLockStep
begin

text \<open>
  The second half of the FARLock steps keeps the invariant as well: drawing a ticket inside Peterson's
  algorithm, publishing it to the successor, waiting for the turn, and \<^verbatim>\<open>Unlock\<close>.
\<close>

section \<open>Drawing a ticket\<close>

lemma far_tickets_line: "far_tickets sd s line \<Longrightarrow>
    ticket_line (current_ticket (f_lock s)) (next_ticket (f_lock s)) (f_tk s) line"
  and far_tickets_mem: "far_tickets sd s line \<Longrightarrow> t \<in> set line \<longleftrightarrow> 12 \<le> fR s t \<and> fR s t \<le> 18"
  and far_tickets_11: "far_tickets sd s line \<Longrightarrow> fR s t = 11 \<Longrightarrow>
    sd t = Remote \<and> f_tk s t = next_ticket (f_lock s)"
  and far_tickets_18: "far_tickets sd s line \<Longrightarrow> fR s t = 18 \<Longrightarrow> f_tk s t = current_ticket (f_lock s)"
  by (simp_all add: far_tickets_def)

lemma far_rank_phase_In: "10 \<le> far_rank p \<Longrightarrow> far_rank p \<le> 12 \<Longrightarrow> far_phase p = In"
  by (cases p) auto

lemma far_pet_exclusion:
  assumes "far_pet sd s" and "10 \<le> fR s t" "fR s t \<le> 12" and "10 \<le> fR s u" "fR s u \<le> 12"
  shows "u = t"
  by (rule pet_exclusion [OF assms(1) [unfolded far_pet_def]])
     (use assms(2-5) in \<open>auto intro: far_rank_phase_In\<close>)

text \<open>The step that hands out the next ticket, by either kind of fetch-and-add.\<close>

lemma far_tickets_draw:
  assumes l: "far_tickets sd s line" and p: "far_pet sd s"
    and R: "10 \<le> fR s t" "fR s t \<le> 11" and R': "fR s' t = 12" and tk: "f_tk s' t = next_ticket (f_lock s)"
    and thr: "\<And>u. u \<noteq> t \<Longrightarrow> f_thr s' u = f_thr s u"
    and "current_ticket (f_lock s') = current_ticket (f_lock s)"
    and "next_ticket (f_lock s') = next_ticket (f_lock s) + 1"
  shows "far_tickets sd s' (line @ [t])"
  unfolding far_tickets_def assms(8,9)
proof (intro conjI allI impI)
  have t: "t \<notin> set line" using far_tickets_mem [OF l, of t] R by simp
  show "ticket_line (current_ticket (f_lock s)) (next_ticket (f_lock s) + 1) (f_tk s') (line @ [t])"
    by (rule ticket_line_join [OF far_tickets_line [OF l] t]) (use tk thr t in \<open>auto, metis\<close>)
  show "u \<in> set (line @ [t]) \<longleftrightarrow> 12 \<le> fR s' u \<and> fR s' u \<le> 18" for u
    using far_tickets_mem [OF l, of u] R' thr [of u] by (cases "u = t") auto
  show "f_tk s' u = current_ticket (f_lock s)" if "fR s' u = 18" for u
    using far_tickets_18 [OF l, of u] that R' thr [of u] by (cases "u = t") auto
  have no: "fR s' u \<noteq> 11" for u
    using far_pet_exclusion [OF p, of t u] R R' thr [of u] by (cases "u = t") auto
  show "sd u = Remote" "f_tk s' u = next_ticket (f_lock s) + 1" if "fR s' u = 11" for u
    using no [of u] that by auto
qed

lemma inv_Take:
  assumes inv: "far_inv sd s g" and at: "f_at s t = FTake"
  shows "far_inv sd (far_step sd t s) (far_gstep sd t s g)"
proof (cases "sd t")
  case Local
  note I = far_invD [OF inv] and E = eff_Take_local [where sd = sd, OF at Local]
  let ?s = "far_step sd t s" and ?Q = "g_queue g"
  have "far_q sd ?s ?Q"
    by (rule far_q_quiet [OF I(1), where t = t]) (use at in \<open>simp_all add: E\<close>)
  moreover have "far_pass ?s ?Q"
    by (rule far_pass_quiet [OF I(2), where t = t]) (use at in \<open>simp_all add: E\<close>)
  moreover have "far_pet sd ?s"
    by (rule far_pet_quiet [OF I(3), where t = t]) (simp_all add: E at)
  moreover have "far_tickets sd ?s (g_line g @ [t])"
    by (rule far_tickets_draw [OF I(4,3)]) (simp_all add: E at)
  ultimately show ?thesis by (simp add: far_inv_def E)
next
  case Remote
  note I = far_invD [OF inv] and E = eff_Take_remote [where sd = sd, OF at Remote]
  let ?s = "far_step sd t s" and ?Q = "g_queue g"
  have "far_q sd ?s ?Q"
    by (rule far_q_quiet [OF I(1), where t = t]) (use at in \<open>simp_all add: E\<close>)
  moreover have "far_pass ?s ?Q"
    by (rule far_pass_quiet [OF I(2), where t = t]) (use at in \<open>simp_all add: E\<close>)
  moreover have "far_pet sd ?s"
    by (rule far_pet_quiet [OF I(3), where t = t]) (simp_all add: E at)
  moreover have "far_tickets sd ?s (g_line g)"
    unfolding far_tickets_def E(1)
  proof (intro conjI allI impI)
    have t: "t \<notin> set (g_line g)" using far_tickets_mem [OF I(4), of t] at by simp
    show "ticket_line (current_ticket (f_lock s)) (next_ticket (f_lock s)) (f_tk ?s) (g_line g)"
      by (rule ticket_line_cong [OF far_tickets_line [OF I(4)]]) (use t in \<open>auto simp: E\<close>)
    show "u \<in> set (g_line g) \<longleftrightarrow> 12 \<le> fR ?s u \<and> fR ?s u \<le> 18" for u
      using far_tickets_mem [OF I(4), of u] at by (cases "u = t") (simp_all add: E)
    show "f_tk ?s u = current_ticket (f_lock s)" if "fR ?s u = 18" for u
      using far_tickets_18 [OF I(4), of u] that by (cases "u = t") (simp_all add: E)
    show "sd u = Remote" "f_tk ?s u = next_ticket (f_lock s)" if "fR ?s u = 11" for u
      using far_tickets_11 [OF I(4), of u] that Remote by (cases "u = t"; simp add: E)+
  qed
  ultimately show ?thesis by (simp add: far_inv_def E)
qed

lemma inv_Put:
  assumes inv: "far_inv sd s g" and at: "f_at s t = FPut"
  shows "far_inv sd (far_step sd t s) (far_gstep sd t s g)"
proof -
  note I = far_invD [OF inv]
  have r: "sd t = Remote" "f_tk s t = next_ticket (f_lock s)"
    using far_tickets_11 [OF I(4), of t] at by auto
  note E = eff_Put [where sd = sd, OF at r(1)]
  let ?s = "far_step sd t s" and ?Q = "g_queue g"
  have "far_q sd ?s ?Q"
    by (rule far_q_quiet [OF I(1), where t = t]) (use at in \<open>simp_all add: E\<close>)
  moreover have "far_pass ?s ?Q"
    by (rule far_pass_quiet [OF I(2), where t = t]) (use at in \<open>simp_all add: E\<close>)
  moreover have "far_pet sd ?s"
    by (rule far_pet_quiet [OF I(3), where t = t]) (simp_all add: E at)
  moreover have "far_tickets sd ?s (g_line g @ [t])"
    by (rule far_tickets_draw [OF I(4,3)]) (simp_all add: E at r(2))
  ultimately show ?thesis by (simp add: far_inv_def E)
qed

lemma inv_PetUnlock:
  assumes inv: "far_inv sd s g" and at: "f_at s t = FPetUnlock"
  shows "far_inv sd (far_step sd t s) (far_gstep sd t s g)"
proof -
  note I = far_invD [OF inv] and E = eff_PetUnlock [OF at, of sd]
  let ?s = "far_step sd t s" and ?Q = "g_queue g"
  have "far_pet sd ?s"
  proof (cases "sd t")
    case Local
    show ?thesis
      by (rule far_pet_local [OF I(3) Local E(3)]) (use Local at in \<open>auto simp: E(1) intro: core_out_local\<close>)
  next
    case Remote
    show ?thesis
      by (rule far_pet_remote [OF I(3) Remote E(3)])
         (use Remote at in \<open>auto simp: E(1) intro: core_out_remote\<close>)
  qed
  moreover have "far_q sd ?s ?Q"
    by (rule far_q_quiet [OF I(1), where t = t]) (use at in \<open>simp_all add: E\<close>)
  moreover have "far_pass ?s ?Q"
    by (rule far_pass_quiet [OF I(2), where t = t]) (use at in \<open>simp_all add: E\<close>)
  moreover have "far_tickets sd ?s (g_line g)"
    by (rule far_tickets_quiet [OF I(4), where t = t]) (simp_all add: E at)
  ultimately show ?thesis by (simp add: far_inv_def E)
qed

section \<open>Publishing the ticket\<close>

lemma inv_Store:
  assumes inv: "far_inv sd s g" and at: "f_at s t = FStore"
  shows "far_inv sd (far_step sd t s) (far_gstep sd t s g)"
proof -
  note I = far_invD [OF inv] and E = eff_Store [OF at, of sd]
  let ?s = "far_step sd t s" and ?Q = "g_queue g"
  have R: "fR ?s u = (if u = t then 14 else fR s u)" for u by (simp add: E)
  have "far_q sd ?s ?Q"
    by (rule far_q_quiet [OF I(1), where t = t]) (use at in \<open>auto simp: E\<close>)
  moreover have "far_pass ?s ?Q"
    unfolding far_pass_def
  proof (intro conjI allI impI)
    show "f_dtk ?s u = (if fR ?s u \<le> 13 then kInvalidTicket else f_tk ?s u)" if "1 \<le> fR ?s u" for u
      using far_pass_dtk [OF I(2), of u] that by (cases "u = t") (simp_all add: E)
    show "14 \<le> fR ?s a" if "adj (?Q d) a b" "6 \<le> fR ?s b" for d a b
      using far_pass_6 [OF I(2) that(1)] that at by (cases "b = t") (simp_all add: R)
    show "14 \<le> fR ?s a" if "adj (?Q d) a b" "fR ?s b = 4" "f_tk ?s b \<noteq> kInvalidTicket" for d a b
      using far_pass_4 [OF I(2) that(1)] that by (cases "b = t") (simp_all add: R E)
    show "16 \<le> fR ?s a" if "adj (?Q d) a b" "f_toget ?s b \<noteq> kFalse" for d a b
      using far_pass_toget [OF I(2) that(1)] that at by (cases "a = t"; cases "b = t") (simp_all add: R E)
  qed
  moreover have "far_pet sd ?s"
    by (rule far_pet_quiet [OF I(3), where t = t]) (simp_all add: E at)
  moreover have "far_tickets sd ?s (g_line g)"
    by (rule far_tickets_quiet [OF I(4), where t = t]) (simp_all add: E at)
  ultimately show ?thesis by (simp add: far_inv_def E)
qed

text \<open>The head of a queue has no predecessor left, or has been granted the lock by it.\<close>

lemma far_no_prev_head:
  assumes "far_q sd s Q" and "2 \<le> fR s t" and "f_prev s t = None"
  shows "t = hd (Q (sd t))"
proof (rule ccontr)
  assume "t \<noteq> hd (Q (sd t))"
  moreover have "t \<in> set (Q (sd t))" using assms by (simp add: far_q_mem)
  ultimately obtain p where "adj (Q (sd t)) p t" using adj_ex_left by metis
  with far_q_prev [OF assms(1)] assms(3) show False by fastforce
qed

lemma inv_LoadNext:
  assumes inv: "far_inv sd s g" and at: "f_at s t = FLoadNext"
  shows "far_inv sd (far_step sd t s) (far_gstep sd t s g)"
proof -
  note I = far_invD [OF inv] and E = eff_LoadNext [OF at, of sd]
  let ?s = "far_step sd t s" and ?Q = "g_queue g"
  have "far_q sd ?s ?Q"
    by (rule far_q_quiet [OF I(1), where t = t])
       (use at far_no_prev_head [OF I(1), of t] in \<open>simp_all add: E split: if_splits\<close>)
  moreover have "far_pass ?s ?Q"
    by (rule far_pass_quiet [OF I(2), where t = t]) (use at in \<open>simp_all add: E split: if_splits\<close>)
  moreover have "far_pet sd ?s"
    by (rule far_pet_quiet [OF I(3), where t = t]) (simp_all add: E at)
  moreover have "far_tickets sd ?s (g_line g)"
    by (rule far_tickets_quiet [OF I(4), where t = t]) (simp_all add: E at split: if_splits)
  ultimately show ?thesis by (simp add: far_inv_def E)
qed

lemma inv_Pass:
  assumes inv: "far_inv sd s g" and at: "f_at s t = FPass"
  shows "far_inv sd (far_step sd t s) (far_gstep sd t s g)"
proof -
  note I = far_invD [OF inv]
  obtain n where n: "f_next s t = Some n" using far_q_next15 [OF I(1), of t] at by auto
  note E = eff_Pass [OF at n]
  let ?s = "far_step sd t s" and ?Q = "g_queue g"
  have q: "adj (?Q (sd t)) t n" "3 \<le> fR s n" "n \<noteq> t" using far_q_next [OF I(1) _ n] at by auto
  have uniq: "a = t" if "adj (?Q d) a n" for d a
    using far_q_prev [OF I(1) that] far_q_prev [OF I(1) q(1)] by simp
  have R: "fR ?s u = (if u = t then if f_prev s t \<noteq> None then 16 else 17 else fR s u)" for u
    by (simp add: E)
  have D: "f_dtk ?s u = f_dtk s u" "f_toget ?s u = (if u = n then kTrue else f_toget s u)" for u
    by (simp_all add: E)
  have T: "f_tk ?s u = f_tk s u" for u by (simp add: E)
  have "far_q sd ?s ?Q"
    by (rule far_q_quiet [OF I(1), where t = t])
       (use at q far_no_prev_head [OF I(1), of t] in \<open>auto simp: E split: if_splits\<close>)
  moreover have "far_pass ?s ?Q"
    unfolding far_pass_def D(1) T
  proof (intro conjI allI impI)
    show "f_dtk s u = (if fR ?s u \<le> 13 then kInvalidTicket else f_tk s u)" if "1 \<le> fR ?s u" for u
      using far_pass_dtk [OF I(2), of u] that at by (cases "u = t") (simp_all add: R)
    show "14 \<le> fR ?s a" if "adj (?Q d) a b" "6 \<le> fR ?s b" for d a b
      using far_pass_6 [OF I(2) that(1)] that at by (cases "b = t") (simp_all add: R)
    show "14 \<le> fR ?s a" if "adj (?Q d) a b" "fR ?s b = 4" "f_tk s b \<noteq> kInvalidTicket" for d a b
      using far_pass_4 [OF I(2) that(1)] that by (cases "b = t") (simp_all add: R split: if_splits)
    show "16 \<le> fR ?s a" if "adj (?Q d) a b" "f_toget ?s b \<noteq> kFalse" for d a b
    proof (cases "b = n")
      case True
      then have "a = t" using uniq that(1) by simp
      then show ?thesis using R [of a] by simp
    next
      case False
      then have "16 \<le> fR s a" using far_pass_toget [OF I(2) that(1)] that(2) D(2) [of b] by simp
      then show ?thesis using R [of a] by simp
    qed
  qed
  moreover have "far_pet sd ?s"
    by (rule far_pet_quiet [OF I(3), where t = t]) (simp_all add: E at)
  moreover have "far_tickets sd ?s (g_line g)"
    by (rule far_tickets_quiet [OF I(4), where t = t]) (simp_all add: E at split: if_splits)
  ultimately show ?thesis by (simp add: far_inv_def E)
qed

section \<open>Waiting for the turn\<close>

lemma inv_AwaitPred:
  assumes inv: "far_inv sd s g" and at: "f_at s t = FAwaitPred" and gr: "f_granted s t = kTrue"
  shows "far_inv sd (far_step sd t s) (far_gstep sd t s g)"
proof -
  note I = far_invD [OF inv] and E = eff_AwaitPred [OF at gr]
  let ?s = "far_step sd t s" and ?Q = "g_queue g"
  have "t = hd (?Q (sd t))" using far_q_granted [OF I(1), of t] at gr by (simp split: if_splits)
  then have "far_q sd ?s ?Q"
    by (intro far_q_quiet [OF I(1), where t = t]) (use at in \<open>simp_all add: E\<close>)
  moreover have "far_pass ?s ?Q"
    by (rule far_pass_quiet [OF I(2), where t = t]) (use at in \<open>simp_all add: E\<close>)
  moreover have "far_pet sd ?s"
    by (rule far_pet_quiet [OF I(3), where t = t]) (simp_all add: E at)
  moreover have "far_tickets sd ?s (g_line g)"
    by (rule far_tickets_quiet [OF I(4), where t = t]) (simp_all add: E at)
  ultimately show ?thesis by (simp add: far_inv_def E)
qed

text \<open>From here on the thread's ticket and the one in its descriptor agree.\<close>

lemma far_dtk_own: "far_pass s Q \<Longrightarrow> 14 \<le> fR s t \<Longrightarrow> f_dtk s t = f_tk s t"
  using far_pass_dtk [of s Q t] by simp

lemma inv_AwaitTicket:
  assumes inv: "far_inv sd s g" and at: "f_at s t = FAwaitTicket"
    and cur: "f_dtk s t = current_ticket (f_lock s)"
  shows "far_inv sd (far_step sd t s) (far_gstep sd t s g)"
proof -
  note I = far_invD [OF inv] and E = eff_AwaitTicket [OF at cur]
  let ?s = "far_step sd t s" and ?Q = "g_queue g"
  have hd: "t = hd (?Q (sd t))" using far_q_head [OF I(1), of t] at by simp
  have tk: "f_tk s t = current_ticket (f_lock s)" using far_dtk_own [OF I(2), of t] at cur by simp
  have "far_q sd ?s ?Q"
    by (rule far_q_quiet [OF I(1), where t = t]) (use at hd in \<open>simp_all add: E\<close>)
  moreover have "far_pass ?s ?Q"
    by (rule far_pass_quiet [OF I(2), where t = t]) (use at in \<open>simp_all add: E\<close>)
  moreover have "far_pet sd ?s"
    by (rule far_pet_quiet [OF I(3), where t = t]) (simp_all add: E at)
  moreover have "far_tickets sd ?s (g_line g)"
    by (rule far_tickets_quiet [OF I(4), where t = t]) (simp_all add: E at tk)
  ultimately show ?thesis by (simp add: far_inv_def E)
qed

section \<open>Unlock\<close>

lemma far_hold_head:
  assumes "far_tickets sd s line" and "fR s t = 18"
  shows "line \<noteq> [] \<and> hd line = t"
  by (rule ticket_line_head [OF far_tickets_line [OF assms(1)]])
     (use far_tickets_mem [OF assms(1), of t] far_tickets_18 [OF assms(1), of t] assms(2) in auto)

lemma inv_Critical:
  assumes inv: "far_inv sd s g" and at: "f_at s t = FCritical"
  shows "far_inv sd (far_step sd t s) (far_gstep sd t s g)"
proof -
  note I = far_invD [OF inv]
  have tk: "f_tk s t = current_ticket (f_lock s)" using far_tickets_18 [OF I(4), of t] at by simp
  have dtk: "f_dtk s t = current_ticket (f_lock s)" using far_dtk_own [OF I(2), of t] at tk by simp
  note E = eff_Critical [OF at dtk]
  let ?s = "far_step sd t s" and ?Q = "g_queue g"
  have h: "g_line g \<noteq> []" "hd (g_line g) = t" using far_hold_head [OF I(4), of t] at by auto
  have T: "f_tk ?s = f_tk s" by (simp add: E fun_eq_iff)
  have d: "distinct (g_line g)" using far_tickets_line [OF I(4)] by (rule ticket_line_distinct)
  have hd: "t = hd (?Q (sd t))" using far_q_head [OF I(1), of t] at by simp
  have "far_q sd ?s ?Q"
    by (rule far_q_quiet [OF I(1), where t = t]) (use at hd in \<open>simp_all add: E\<close>)
  moreover have "far_pass ?s ?Q"
    by (rule far_pass_quiet [OF I(2), where t = t]) (use at in \<open>simp_all add: E\<close>)
  moreover have "far_pet sd ?s"
    by (rule far_pet_quiet [OF I(3), where t = t]) (simp_all add: E at)
  moreover have "far_tickets sd ?s (tl (g_line g))"
    unfolding far_tickets_def
  proof (intro conjI allI impI)
    have "ticket_line (current_ticket (f_lock s) + 1) (next_ticket (f_lock s)) (f_tk s) (tl (g_line g))"
      by (rule ticket_line_serve [OF far_tickets_line [OF I(4)] h(1)])
    then show "ticket_line (current_ticket (f_lock ?s)) (next_ticket (f_lock ?s)) (f_tk ?s) (tl (g_line g))"
      using T by (simp add: E(1))
    show "u \<in> set (tl (g_line g)) \<longleftrightarrow> 12 \<le> fR ?s u \<and> fR ?s u \<le> 18" for u
      using far_tickets_mem [OF I(4), of u] tl_line [OF d, of u] h(2) by (cases "u = t") (auto simp: E)
    show "f_tk ?s u = current_ticket (f_lock ?s)" if "fR ?s u = 18" for u
      using far_hold_head [OF I(4), of u] h(2) that by (cases "u = t") (simp_all add: E)
    show "sd u = Remote" "f_tk ?s u = next_ticket (f_lock ?s)" if "fR ?s u = 11" for u
      using far_tickets_11 [OF I(4), of u] that by (cases "u = t"; simp add: E)+
  qed
  ultimately show ?thesis by (simp add: far_inv_def E)
qed

text \<open>A thread with a linked successor is not the last of its queue.\<close>

lemma far_linked_not_last:
  assumes "far_q sd s Q" and "2 \<le> fR s t" and "f_next s t \<noteq> None"
  shows "t \<noteq> last (Q (sd t))"
proof -
  obtain n where "f_next s t = Some n" using assms(3) by blast
  then show ?thesis
    by (rule adj_not_last [OF far_q_distinct [OF assms(1)] far_q_next(1) [OF assms(1,2)]])
qed

lemma far_tail_last:
  assumes "far_q sd s Q" and "2 \<le> fR s t" and "far_tail (sd t) (f_lock s) \<noteq> Some t"
  shows "t \<noteq> last (Q (sd t))"
proof -
  have "t \<in> set (Q (sd t))" using assms by (simp add: far_q_mem)
  then have "Q (sd t) \<noteq> []" by auto
  then have "far_tail (sd t) (f_lock s) = Some (last (Q (sd t)))"
    using far_q_shape [OF assms(1), of "sd t"] by (simp add: mcs_shape_def)
  with assms(3) show ?thesis by metis
qed

lemma inv_release_frame:
  assumes inv: "far_inv sd s g" and R: "19 \<le> fR s t" "fR s t \<le> 21"
    and E: "f_lock s' = f_lock s" "f_desc s' = f_desc s" "f_thr s' = (f_thr s)(t := (f_thr s t)\<lparr>h_pc := pc\<rparr>)"
    and R': "19 \<le> far_rank pc" "far_rank pc \<le> 22"
    and last: "21 \<le> far_rank pc \<Longrightarrow> t \<noteq> last (g_queue g (sd t))"
    and rel: "far_rank pc = 22 \<Longrightarrow> f_rel s t = kTrue"
  shows "far_inv sd s' g"
proof -
  note I = far_invD [OF inv]
  have ph: "far_phase (f_at s t) = Out" "far_phase pc = Out"
    using far_phase_rank [of "f_at s t"] far_phase_rank [of pc] R R' by auto
  have hd: "t = hd (g_queue g (sd t))" using far_q_head [OF I(1), of t] R by simp
  have "far_q sd s' (g_queue g)"
    by (rule far_q_quiet [OF I(1), where t = t]) (use R R' hd last rel in \<open>simp_all add: E\<close>)
  moreover have "far_pass s' (g_queue g)"
    by (rule far_pass_quiet [OF I(2), where t = t]) (use R R' in \<open>simp_all add: E\<close>)
  moreover have "far_pet sd s'"
    by (rule far_pet_quiet [OF I(3), where t = t]) (simp_all add: E ph)
  moreover have "far_tickets sd s' (g_line g)"
    by (rule far_tickets_quiet [OF I(4), where t = t]) (use R R' in \<open>simp_all add: E\<close>)
  ultimately show ?thesis by (simp add: far_inv_def)
qed

lemma inv_CheckNext:
  assumes inv: "far_inv sd s g" and at: "f_at s t = FCheckNext"
  shows "far_inv sd (far_step sd t s) (far_gstep sd t s g)"
  unfolding eff_CheckNext(4) [OF at]
  by (rule inv_release_frame [OF inv _ _ eff_CheckNext(1-3) [OF at]])
     (use at far_linked_not_last [OF far_invD(1) [OF inv], of t] in \<open>simp_all split: if_splits\<close>)

lemma inv_CasTail_fail:
  assumes inv: "far_inv sd s g" and at: "f_at s t = FCasTail"
    and fail: "far_tail (sd t) (f_lock s) \<noteq> Some t"
  shows "far_inv sd (far_step sd t s) (far_gstep sd t s g)"
  unfolding eff_CasTail_fail(4) [where sd = sd, OF at fail]
  by (rule inv_release_frame [OF inv _ _ eff_CasTail_fail(1-3) [where sd = sd, OF at fail]])
     (use at far_tail_last [OF far_invD(1) [OF inv] _ fail] in simp_all)

lemma inv_WaitReleasable:
  assumes inv: "far_inv sd s g" and at: "f_at s t = FWaitReleasable" and rel: "f_rel s t = kTrue"
  shows "far_inv sd (far_step sd t s) (far_gstep sd t s g)"
  unfolding eff_WaitReleasable(4) [OF at rel]
  by (rule inv_release_frame [OF inv _ _ eff_WaitReleasable(1-3) [OF at rel]])
     (use at rel far_q_not_last [OF far_invD(1) [OF inv], of t] in simp_all)

section \<open>Leaving the queue\<close>

text \<open>The head leaves its queue and grants the lock to the new head, when there is one.\<close>

lemma inv_dequeue:
  fixes sd t g
  defines "q' \<equiv> tl (g_queue g (sd t))"
  assumes inv: "far_inv sd s g" and R: "19 \<le> fR s t"
    and thr: "f_thr s' = (f_thr s)(t := (f_thr s t)\<lparr>h_pc := FIdle\<rparr>)"
    and lock: "next_ticket (f_lock s') = next_ticket (f_lock s)"
      "current_ticket (f_lock s') = current_ticket (f_lock s)"
      "local_flag (f_lock s') = local_flag (f_lock s)" "remote_flag (f_lock s') = remote_flag (f_lock s)"
      "victim (f_lock s') = victim (f_lock s)"
      "\<And>d. d \<noteq> sd t \<Longrightarrow> far_tail d (f_lock s') = far_tail d (f_lock s)"
    and shape: "mcs_shape q' (far_tail (sd t) (f_lock s')) (f_prev s) (f_next s) (\<lambda>u. 3 \<le> fR s u)"
    and desc: "\<And>u. f_next s' u = f_next s u" "\<And>u. f_rel s' u = f_rel s u"
      "\<And>u. f_toget s' u = f_toget s u" "\<And>u. f_dtk s' u = f_dtk s u"
      "\<And>u. f_granted s' u = (if q' \<noteq> [] \<and> u = hd q' then kTrue else f_granted s u)"
      "\<And>u. fR s u = 1 \<Longrightarrow> f_desc s' u = f_desc s u"
    and succ: "q' \<noteq> [] \<Longrightarrow> 5 \<le> fR s (hd q') \<and> f_prev s (hd q') \<noteq> None"
  shows "far_inv sd s' (g\<lparr>g_queue := (g_queue g)(sd t := q')\<rparr>)"
proof -
  note I = far_invD [OF inv]
  let ?Q = "g_queue g" and ?Q' = "(g_queue g)(sd t := q')"
  have dist: "distinct (?Q d)" for d by (rule far_q_distinct [OF I(1)])
  have hd: "t = hd (?Q (sd t))" using far_q_head [OF I(1), of t] R by simp
  have tQ: "t \<in> set (?Q (sd t))" using far_q_mem [OF I(1), of t "sd t"] R by simp
  have R1: "fR s' u = (if u = t then 0 else fR s u)" for u by (simp add: thr)
  have P: "f_prev s' u = f_prev s u" "f_tk s' u = f_tk s u" for u by (simp_all add: thr)
  have mem: "u \<in> set (?Q' d) \<longleftrightarrow> u \<in> set (?Q d) \<and> u \<noteq> t" for d u
    using tl_line [OF dist [of "sd t"], of u] hd far_q_mem [OF I(1), of t d] by (auto simp: q'_def)
  have adj: "adj (?Q d) a b \<and> a \<noteq> t \<and> b \<noteq> t" if "adj (?Q' d) a b" for d a b
  proof -
    have "a \<noteq> t" "b \<noteq> t" using adj_set [OF that] mem [of a d] mem [of b d] by auto
    moreover have "adj (?Q d) a b"
      using adj_tl [OF dist [of "sd t"], of a b] that by (cases "d = sd t") (auto simp: q'_def)
    ultimately show ?thesis by blast
  qed
  have last: "last (?Q' d) = last (?Q d)" if "?Q' d \<noteq> []" for d
    using that by (cases "d = sd t") (auto simp: q'_def last_tl)
  have hd': "u = hd (?Q' (sd u)) \<longleftrightarrow> (if sd u = sd t then u = hd q' else u = hd (?Q (sd u)))" for u
    by simp
  have ne: "?Q' (sd u) \<noteq> []" if "u \<noteq> t" "2 \<le> fR s u" for u
    using mem [of u "sd u"] far_q_mem [OF I(1), of u "sd u"] that by auto
  have q': "q' \<noteq> []" if "u \<noteq> t" "2 \<le> fR s u" "sd u = sd t" for u using ne [OF that(1,2)] that(3) by simp
  have "far_q sd s' ?Q'"
    unfolding far_q_def desc(1,2) P hd'
  proof (intro conjI allI impI)
    show "mcs_shape (?Q' d) (far_tail d (f_lock s')) (f_prev s) (f_next s) (\<lambda>u. 3 \<le> fR s' u)" for d
    proof -
      have "mcs_shape (?Q' d) (far_tail d (f_lock s')) (f_prev s) (f_next s) (\<lambda>u. 3 \<le> fR s u)"
        using shape far_q_shape [OF I(1), of d] lock(6) [of d] by (cases "d = sd t") auto
      then show ?thesis by (rule mcs_shape_cong) (use mem [of _ d] R1 in auto)
    qed
    show "u \<in> set (?Q' d) \<longleftrightarrow> sd u = d \<and> 2 \<le> fR s' u" for d u
      unfolding mem R1 using far_q_mem [OF I(1), of u d] by auto
    show "f_desc s' u = far_desc0" if "fR s' u = 1" for u
      using far_q_fresh [OF I(1), of u] desc(6) [of u] that by (cases "u = t") (simp_all add: R1)
    show "f_rel s a = (if 5 \<le> fR s' b then kTrue else kFalse)" if "adj (?Q' d) a b" for d a b
      using adj [OF that] far_q_rel [OF I(1), of d a b] R1 [of b] by simp
    show "f_rel s (last (?Q' d)) = kFalse" if "?Q' d \<noteq> []" for d
    proof -
      have "?Q d \<noteq> []" using that by (cases "d = sd t") (auto simp: q'_def)
      then show ?thesis using last [OF that] far_q_rel_last [OF I(1), of d] by simp
    qed
    show "f_granted s' u = (if (if sd u = sd t then u = hd q' else u = hd (?Q (sd u))) \<and> f_prev s u \<noteq> None
        then kTrue else kFalse)" if "2 \<le> fR s' u" for u
    proof -
      have u: "u \<noteq> t" "2 \<le> fR s u" using that R1 [of u] by (auto split: if_splits)
      show ?thesis
      proof (cases "sd u = sd t")
        case True
        then show ?thesis
          using far_q_granted [OF I(1) u(2)] hd u(1) q' [OF u True] desc(5) [of u] succ by auto
      next
        case False
        then have "\<not> (q' \<noteq> [] \<and> u = hd q')"
          using mem [of u "sd t"] far_q_mem [OF I(1), of u "sd t"] by auto
        then have "f_granted s' u = f_granted s u" using desc(5) [of u] by (simp only: if_False)
        then show ?thesis using far_q_granted [OF I(1) u(2)] False by simp
      qed
    qed
    show "if sd u = sd t then u = hd q' else u = hd (?Q (sd u))" if "17 \<le> fR s' u" for u
    proof -
      have u: "u \<noteq> t" "17 \<le> fR s u" using that R1 [of u] by (auto split: if_splits)
      have "u = hd (?Q (sd u))" using far_q_head [OF I(1) u(2)] .
      with hd u(1) show ?thesis by auto
    qed
    show "f_prev s u \<noteq> None" if "2 \<le> fR s' u" "fR s' u \<le> 5" for u
      using far_q_has_prev [OF I(1), of u] that by (cases "u = t") (simp_all add: R1)
    show "\<not> (if sd u = sd t then u = hd q' else u = hd (?Q (sd u)))" if "2 \<le> fR s' u" "fR s' u \<le> 4" for u
    proof -
      have u: "u \<noteq> t" "2 \<le> fR s u" "fR s u \<le> 4" using that R1 [of u] by (auto split: if_splits)
      then show ?thesis using far_q_not_head [OF I(1) u(2,3)] succ q' [OF u(1,2)] by (auto split: if_splits)
    qed
    show "u \<noteq> last (?Q' (sd u))" if "21 \<le> fR s' u" for u
    proof -
      have u: "u \<noteq> t" "21 \<le> fR s u" using that R1 [of u] by (auto split: if_splits)
      then show ?thesis using far_q_not_last [OF I(1) u(2)] last [OF ne [OF u(1)]] by simp
    qed
    show "f_rel s u = kTrue" if "fR s' u = 22" for u
      using far_q_rel22 [OF I(1), of u] that by (cases "u = t") (simp_all add: R1)
    show "f_next s u \<noteq> None" if "fR s' u = 15" for u
      using far_q_next15 [OF I(1), of u] that by (cases "u = t") (simp_all add: R1)
  qed
  moreover have "far_pass s' ?Q'"
    unfolding far_pass_def desc(3,4) P
  proof (intro conjI allI impI)
    show "f_dtk s u = (if fR s' u \<le> 13 then kInvalidTicket else f_tk s u)" if "1 \<le> fR s' u" for u
      using far_pass_dtk [OF I(2), of u] that by (cases "u = t") (simp_all add: R1)
    show "14 \<le> fR s' a" if "adj (?Q' d) a b" "6 \<le> fR s' b" for d a b
      using far_pass_6 [OF I(2), of d a b] adj [OF that(1)] that(2) by (simp add: R1)
    show "14 \<le> fR s' a" if "adj (?Q' d) a b" "fR s' b = 4" "f_tk s b \<noteq> kInvalidTicket" for d a b
      using far_pass_4 [OF I(2), of d a b] adj [OF that(1)] that(2,3) by (simp add: R1)
    show "16 \<le> fR s' a" if "adj (?Q' d) a b" "f_toget s b \<noteq> kFalse" for d a b
      using far_pass_toget [OF I(2), of d a b] adj [OF that(1)] that(2) by (simp add: R1)
  qed
  moreover have "far_phase (f_at s t) = Out" using far_phase_rank [of "f_at s t"] R by auto
  then have "far_pet sd s'"
    by (intro far_pet_quiet [OF I(3), where t = t]) (simp_all add: thr lock)
  moreover have "far_tickets sd s' (g_line g)"
    by (rule far_tickets_quiet [OF I(4), where t = t]) (use R in \<open>simp_all add: thr lock\<close>)
  ultimately show ?thesis by (simp add: far_inv_def)
qed

lemma inv_CasTail_ok:
  assumes inv: "far_inv sd s g" and at: "f_at s t = FCasTail"
    and ok: "far_tail (sd t) (f_lock s) = Some t"
  shows "far_inv sd (far_step sd t s) (far_gstep sd t s g)"
proof -
  note I = far_invD [OF inv] and E = eff_CasTail_ok [where sd = sd, OF at ok]
  have "t = hd (g_queue g (sd t))" using far_q_head [OF I(1), of t] at by simp
  then have "g_queue g (sd t) = [t]"
    by (rule mcs_shape_single [OF far_q_shape [OF I(1), of "sd t", unfolded ok]])
  then show ?thesis
    unfolding E(5)
    by (intro inv_dequeue [OF inv _ E(4)]) (simp_all add: eff_CasTail_lock [OF at] E(1-3) at)
qed

lemma inv_Grant:
  assumes inv: "far_inv sd s g" and at: "f_at s t = FGrant"
  shows "far_inv sd (far_step sd t s) (far_gstep sd t s g)"
proof -
  note I = far_invD [OF inv]
  let ?Q = "g_queue g (sd t)"
  have hd: "t = hd ?Q" and tQ: "t \<in> set ?Q" and nl: "t \<noteq> last ?Q" and rel: "f_rel s t = kTrue"
    using far_q_head [OF I(1), of t] far_q_mem [OF I(1), of t "sd t"] far_q_not_last [OF I(1), of t]
      far_q_rel22 [OF I(1), of t] at by simp_all
  obtain n where adj: "adj ?Q t n" using adj_ex_right [OF tQ nl] by blast
  have n5: "5 \<le> fR s n" using far_q_rel [OF I(1) adj] rel by (simp split: if_splits)
  have nx: "f_next s t = Some n" using mcs_shape_next [OF far_q_shape [OF I(1)] adj] n5 by simp
  note E = eff_Grant [OF at nx]
  have adj': "adj ?Q (hd ?Q) n" using adj hd by simp
  note H = mcs_shape_handover [OF far_q_shape [OF I(1)] adj']
  show ?thesis
    unfolding E(4)
    by (intro inv_dequeue [OF inv _ E(3)])
       (use H n5 far_q_prev [OF I(1) adj] at in \<open>auto simp: E(1,2)\<close>)
qed

section \<open>All steps\<close>

lemma far_inv_init: "far_inv sd far_init far_ginit"
proof -
  have "far_tail d (f_lock far_init) = None" for d by (cases d) (simp_all add: far_init_def)
  moreover have "far_pet sd far_init"
    using pet_init [of sd "\<lambda>_. 0" 0] by (simp add: far_pet_def far_init_def kFalse_def)
  ultimately show ?thesis
    by (simp add: far_inv_def far_q_def far_pass_def far_tickets_def far_ginit_def)
       (simp add: far_init_def far_desc0_def)
qed

lemma far_inv_step:
  assumes "far_inv sd s g"
  shows "far_inv sd (far_step sd t s) (far_gstep sd t s g)"
proof (cases "far_spins s t")
  case True
  then show ?thesis using assms by (simp add: eff_spin)
next
  case False
  then show ?thesis
    using assms inv_Idle inv_Swap inv_Swap_retry inv_SetNext inv_LoadTicket inv_SetReleasable inv_WaitToGet
      inv_PetFlag inv_PetVictim inv_PetReadA inv_PetReadB inv_Take inv_Put inv_PetUnlock inv_Store
      inv_LoadNext inv_Pass inv_AwaitPred inv_AwaitTicket inv_Critical inv_CheckNext inv_CasTail_fail
      inv_CasTail_ok inv_WaitReleasable inv_Grant
    unfolding far_spins_def by (cases "f_at s t") metis+
qed

end
