(* ===== verification/FARLockThms.thy ===== *)
theory FARLockThms
  imports FARLockTicket
begin

text \<open>
  What FARLock promises: mutual exclusion, entry into the critical section in ticket order, and inside
  a cohort in the order of enqueueing.  The contracts come from \<open>Interleaving\<close>, interpreted here on the
  FARLock model for an arbitrary assignment \<open>sd\<close> of threads to cohorts.
\<close>

section \<open>Contracts\<close>

lemma far_pc_other: "u \<noteq> t \<Longrightarrow> f_at (far_step sd t s) u = f_at s u"
  by (simp add: far_thr_other)

lemma far_hold_step: "f_at s t = FCritical \<Longrightarrow> f_at (far_step sd t s) t = FCheckNext"
  by (simp add: far_defs)

lemma far_hold_leaves: "leaves far_hold (far_step sd) s t \<longleftrightarrow> f_at s t = FCritical"
  by (auto simp: leaves_def far_hold_def far_hold_step)

lemma far_hold_line:
  assumes "far_inv sd s g" and "far_hold s t"
  shows "g_line g \<noteq> [] \<and> hd (g_line g) = t"
  using far_hold_head [OF far_invD(4) [OF assms(1)], of t] assms(2) by (simp add: far_hold_def)

interpretation far: fifo_protocol UNIV "far_step sd" far_init "far_gstep sd" far_ginit "far_inv sd"
  far_hold "far_draws sd" g_line for sd
proof unfold_locales
  show "far_inv sd far_init far_ginit" by (rule far_inv_init)
  show "far_inv sd (far_step sd t s) (far_gstep sd t s g)" if "far_inv sd s g" for s g t
    using that by (rule far_inv_step)
  show "\<not> far_hold far_init t" for t by (simp add: far_hold_def far_init_def)
  show "g_line g \<noteq> [] \<and> hd (g_line g) = t" if "far_inv sd s g" "far_hold s t" for s g t
    using that by (rule far_hold_line)
  show "g_line (far_gstep sd t s g) = (if leaves far_hold (far_step sd) s t then tl (g_line g)
      else if far_draws sd s t then g_line g @ [t] else g_line g)" for s g t
    unfolding far_hold_leaves by (auto simp: far_gstep_def far_draws_def)
qed (auto simp: far_hold_def far_pc_other far_ginit_def far_draws_def split: if_splits)

text \<open>
  Within cohort \<open>d\<close> the queue itself is a line: the first thread stays in it from its critical section
  until it has handed the queue over.
\<close>

definition far_owner :: "(tid \<Rightarrow> side) \<Rightarrow> side \<Rightarrow> far_state \<Rightarrow> tid \<Rightarrow> bool" where
  "far_owner sd d s t \<longleftrightarrow> sd t = d \<and> 18 \<le> fR s t"

definition far_joins :: "(tid \<Rightarrow> side) \<Rightarrow> side \<Rightarrow> far_state \<Rightarrow> tid \<Rightarrow> bool" where
  "far_joins sd d s t \<longleftrightarrow> sd t = d \<and> far_enqueues sd s t"

lemma far_rank_18: "18 \<le> far_rank p \<longleftrightarrow> p \<in> {FCritical, FCheckNext, FCasTail, FWaitReleasable, FGrant}"
  by (cases p) auto

lemma far_owner_leaves: "leaves (far_owner sd d) (far_step sd) s t \<longleftrightarrow> sd t = d \<and> far_dequeues sd s t"
  by (cases "f_at s t"; cases "sd t"; cases d)
     (auto simp: leaves_def far_owner_def far_dequeues_def far_defs)

interpretation cohort: fifo_protocol UNIV "far_step sd" far_init "far_gstep sd" far_ginit "far_inv sd"
  "far_owner sd d" "far_joins sd d" "\<lambda>g. g_queue g d" for sd d
proof unfold_locales
  show "far_inv sd far_init far_ginit" by (rule far_inv_init)
  show "far_inv sd (far_step sd t s) (far_gstep sd t s g)" if "far_inv sd s g" for s g t
    using that by (rule far_inv_step)
  show "\<not> far_owner sd d far_init t" for t by (simp add: far_owner_def far_init_def)
  show "g_queue g d \<noteq> [] \<and> hd (g_queue g d) = t" if "far_inv sd s g" "far_owner sd d s t" for s g t
    using far_q_head [OF far_invD(1) [OF that(1)], of t] far_q_mem [OF far_invD(1) [OF that(1)], of t d] that(2)
    by (auto simp: far_owner_def)
  show "g_queue (far_gstep sd t s g) d = (if leaves (far_owner sd d) (far_step sd) s t then tl (g_queue g d)
      else if far_joins sd d s t then g_queue g d @ [t] else g_queue g d)" for s g t
    unfolding far_owner_leaves
    by (auto simp: far_gstep_def far_joins_def far_enqueues_def far_dequeues_def)
qed (auto simp: far_owner_def far_pc_other far_ginit_def far_joins_def far_enqueues_def)

lemma far_owner_enters:
  "enters (far_owner sd d) (far_step sd) s t \<longleftrightarrow> sd t = d \<and> enters far_hold (far_step sd) s t"
  by (cases "f_at s t"; cases "sd t"; cases d)
     (auto simp: enters_def far_owner_def far_hold_def far_defs)

section \<open>Theorems\<close>

text \<open>
  C1: Mutual exclusion of FARLock, for any number of threads, any division of them into local and
  remote ones, and any interleaving of their memory accesses.
\<close>

theorem far_mutual_exclusion:
  assumes "reachable (far_step sd) UNIV far_init s" and "far_hold s a" and "far_hold s b"
  shows "a = b"
  using assms by (rule far.mutual_exclusion)

theorem far_mutual_exclusion_witness:
  defines "sd \<equiv> (\<lambda>t. if t = 1 then Local else Remote)"
    and "s \<equiv> run (far_step (\<lambda>t. if t = 1 then Local else Remote))
      [1, 2, 1, 2, 2, 1, 1, 1, 2, 1, 1, 1, 1, 2, 1, 1] far_init"
  shows "reachable (far_step sd) UNIV far_init s \<and> far_hold s 1 \<and> \<not> far_hold s 2"
proof -
  have r: "reachable (far_step sd) UNIV far_init s"
    unfolding sd_def s_def by (rule reachable_run [OF _ reachable.start]) simp
  have h: "far_hold s 1" unfolding s_def by code_simp
  have "\<not> far_hold s 2" using far_mutual_exclusion [OF r h, of 2] by auto
  with r h show ?thesis by blast
qed

text \<open>
  C2: FARLock is fair between the cohorts: threads, local and remote, enter the critical section in
  the order in which they drew their tickets from \<^verbatim>\<open>next_ticket_\<close>.
\<close>

theorem far_first_come_first_served:
  "prefix (events (enters far_hold (far_step sd)) (far_step sd) sched far_init)
     (events (far_draws sd) (far_step sd) sched far_init)"
  by (rule far.first_come_first_served) simp

text \<open>
  C3: Inside a cohort, threads enter the critical section in the order in which they swapped
  themselves into the cohort's queue.
\<close>

theorem far_cohort_order:
  "prefix (filter (\<lambda>t. sd t = d) (events (enters far_hold (far_step sd)) (far_step sd) sched far_init))
     (filter (\<lambda>t. sd t = d) (events (far_enqueues sd) (far_step sd) sched far_init))"
  using cohort.first_come_first_served [of sched sd d]
  unfolding events_filter far_owner_enters [symmetric] far_joins_def by (simp add: eta_contract_eq)

section \<open>IsLocked\<close>

definition far_enqueued :: "far_state \<Rightarrow> tid \<Rightarrow> bool" where
  "far_enqueued s t \<longleftrightarrow> f_at s t \<noteq> FIdle \<and> f_at s t \<noteq> FSwap"

lemma far_enqueued_rank: "far_enqueued s t \<longleftrightarrow> 2 \<le> fR s t"
  by (cases "f_at s t") (auto simp: far_enqueued_def)

lemma far_tail_enqueued:
  assumes "reachable (far_step sd) UNIV far_init s"
  shows "case far_tail d (f_lock s) of None \<Rightarrow> \<forall>t. sd t = d \<longrightarrow> \<not> far_enqueued s t
    | Some t \<Rightarrow> sd t = d \<and> far_enqueued s t"
proof -
  obtain g where "far_inv sd s g" using far.reachable_inv [OF assms] by blast
  note q = far_invD(1) [OF this]
  show ?thesis
    using far_q_shape [OF q, of d] far_q_mem [OF q, of _ d] last_in_line [of "g_queue g d"]
    by (cases "g_queue g d = []") (auto simp: mcs_shape_def far_enqueued_rank)
qed

text \<open>
  C7: \<^verbatim>\<open>IsLocked\<close> of FARLock, whose two reads may be separated by any steps of other threads, answers whether
  some thread was in the remote queue when \<^verbatim>\<open>remote_tail_\<close> was read or in the local queue when \<^verbatim>\<open>local_tail_\<close> was
  read, provided no local descriptor address equals a remote descriptor's raw pointer.  In particular a thread
  that is queued at both moments is not missed.
\<close>

theorem far_IsLocked_iff:
  assumes "reachable (far_step sd) UNIV far_init s" and "reachable (far_step sd) UNIV far_init s'"
    and "\<And>a. raw a \<noteq> 0" and "\<And>a b. sd a = Local \<Longrightarrow> sd b = Remote \<Longrightarrow> raw a \<noteq> raw b"
  shows "far_IsLocked raw s s' \<longleftrightarrow>
      (\<exists>t. sd t = Remote \<and> far_enqueued s t) \<or> (\<exists>t. sd t = Local \<and> far_enqueued s' t)"
  using far_tail_enqueued [OF assms(2), of Local] far_tail_enqueued [OF assms(1), of Remote] assms(3,4)
  by (auto simp: far_IsLocked_def far_raw_def split: option.splits) metis+

theorem far_IsLocked_iff_witness:
  "far_IsLocked (\<lambda>t. if t = 1 then 64 else 128)
     (run (far_step (\<lambda>t. if t = 1 then Local else Remote)) [1, 1] far_init)
     (run (far_step (\<lambda>t. if t = 1 then Local else Remote)) [1, 1, 2, 2, 1] far_init)"
proof -
  let ?sd = "\<lambda>t :: tid. if t = 1 then Local else Remote"
  let ?raw = "\<lambda>t :: tid. if t = 1 then 64 else 128 :: u64"
  let ?s = "run (far_step ?sd) [1, 1] far_init" and ?s' = "run (far_step ?sd) [1, 1, 2, 2, 1] far_init"
  have r: "reachable (far_step ?sd) UNIV far_init ?s" "reachable (far_step ?sd) UNIV far_init ?s'"
    by (rule reachable_run [OF _ reachable.start]; simp)+
  have "far_enqueued ?s' 1" by code_simp
  moreover have "?raw a \<noteq> 0" for a by simp
  moreover have "?raw a \<noteq> ?raw b" if "?sd a = Local" "?sd b = Remote" for a b
    using that by (simp split: if_splits)
  ultimately show ?thesis using far_IsLocked_iff [OF r, of ?raw] by force
qed

text \<open>
  The two reads are no snapshot: the answer may be no although at every moment between them some thread was
  queued.  A local thread holds the lock at the first read; before the second one a remote thread queues up and
  the local one leaves.
\<close>

lemma far_IsLocked_torn:
  defines "sd \<equiv> \<lambda>t :: tid. if t = 1 then Local else Remote"
  shows "\<not> far_IsLocked (\<lambda>t. if t = 1 then 64 else 128)
      (run (far_step sd) [1, 1, 1, 1, 1, 1, 1, 1, 1, 1] far_init)
      (run (far_step sd) ([1, 1, 1, 1, 1, 1, 1, 1, 1, 1] @ [2, 2, 1, 1, 1]) far_init) \<and>
    (\<forall>k \<in> {0, 1, 2, 3, 4, 5}. \<exists>t \<in> {1, 2}.
      far_enqueued (run (far_step sd) ([1, 1, 1, 1, 1, 1, 1, 1, 1, 1] @ take k [2, 2, 1, 1, 1]) far_init) t)"
  unfolding sd_def by code_simp

text \<open>
  C8: Without that proviso \<^verbatim>\<open>IsLocked\<close> can miss a held lock even if nothing happens between its reads: the raw
  pointer of a descriptor on node 0 is its bare address, which a local descriptor of the lock's node may have
  as well.  Then the two tail words are equal while a thread is in its critical section.
\<close>

theorem far_IsLocked_false_negative:
  "\<exists>sd raw s. reachable (far_step sd) UNIV far_init s \<and> (\<forall>t. raw t \<noteq> 0) \<and>
     far_hold s 1 \<and> far_enqueued s 2 \<and> \<not> far_IsLocked raw s s"
proof -
  let ?sd = "\<lambda>t :: tid. if t = 1 then Local else Remote"
  let ?s = "run (far_step ?sd) [1, 1, 1, 1, 1, 1, 1, 1, 1, 1, 2, 2] far_init"
  have "reachable (far_step ?sd) UNIV far_init ?s" by (rule reachable_run [OF _ reachable.start]) simp
  moreover have "far_hold ?s 1 \<and> far_enqueued ?s 2 \<and> \<not> far_IsLocked (\<lambda>_. 64) ?s ?s" by code_simp
  ultimately show ?thesis by (intro exI [of _ ?sd] exI [of _ "\<lambda>_. 64"] exI [of _ ?s]) simp
qed

end
