(* ===== verification/FARLockLive.thy ===== *)
theory FARLockLive
  imports FARLockThms
begin

text \<open>
  FARLock cannot get stuck: as long as fewer than \<open>2 ^ 64\<close> tickets are ever needed, from every reachable
  state the active threads can all finish.  The bound is needed: ticket number \<open>2 ^ 64 - 1\<close> is the
  sentinel \<open>kInvalidTicket\<close>, and a successor that reads it from its predecessor waits for a signal
  nobody sends.  The argument is a second invariant, \<open>far_live\<close>, and the fact that in every state some
  active thread is not waiting for anybody.
\<close>

section \<open>Invariant\<close>

text \<open>
  No drawn ticket is the sentinel; a thread that waits for \<^verbatim>\<open>to_get_ticket_\<close> has been or will be
  signalled; threads of one queue draw their tickets in queue order; only threads with a predecessor
  await it.
\<close>

definition far_live :: "(tid \<Rightarrow> side) \<Rightarrow> far_state \<Rightarrow> far_ghost \<Rightarrow> bool" where
  "far_live sd s g \<longleftrightarrow>
     next_ticket (f_lock s) = of_nat (g_issued g) \<and>
     (\<forall>t. 12 \<le> fR s t \<longrightarrow> f_tk s t \<noteq> kInvalidTicket) \<and>
     (\<forall>d a b. adj (g_queue g d) a b \<longrightarrow> fR s b = 5 \<or> fR s b = 4 \<and> f_tk s b = kInvalidTicket \<longrightarrow>
        16 \<le> fR s a \<longrightarrow> f_toget s b = kTrue) \<and>
     (\<forall>t. fR s t = 5 \<longrightarrow> t = hd (g_queue g (sd t)) \<longrightarrow> f_toget s t = kTrue) \<and>
     (\<forall>d a b. before (g_queue g d) a b \<longrightarrow> a \<in> set (g_line g) \<longrightarrow> b \<in> set (g_line g) \<longrightarrow>
        before (g_line g) a b) \<and>
     (\<forall>t. fR s t = 16 \<longrightarrow> f_prev s t \<noteq> None)"

lemma far_live_next: "far_live sd s g \<Longrightarrow> next_ticket (f_lock s) = of_nat (g_issued g)"
  and far_live_tk: "far_live sd s g \<Longrightarrow> 12 \<le> fR s t \<Longrightarrow> f_tk s t \<noteq> kInvalidTicket"
  and far_live_told: "far_live sd s g \<Longrightarrow> adj (g_queue g d) a b \<Longrightarrow>
    fR s b = 5 \<or> fR s b = 4 \<and> f_tk s b = kInvalidTicket \<Longrightarrow> 16 \<le> fR s a \<Longrightarrow> f_toget s b = kTrue"
  and far_live_head: "far_live sd s g \<Longrightarrow> fR s t = 5 \<Longrightarrow> t = hd (g_queue g (sd t)) \<Longrightarrow> f_toget s t = kTrue"
  and far_live_order: "far_live sd s g \<Longrightarrow> before (g_queue g d) a b \<Longrightarrow> a \<in> set (g_line g) \<Longrightarrow>
    b \<in> set (g_line g) \<Longrightarrow> before (g_line g) a b"
  and far_live_prev: "far_live sd s g \<Longrightarrow> fR s t = 16 \<Longrightarrow> f_prev s t \<noteq> None"
  unfolding far_live_def by blast+

lemma far_live_init: "far_live sd far_init far_ginit"
  by (simp add: far_live_def far_init_def far_ginit_def)

section \<open>Steps\<close>

text \<open>Steps that change neither the queues nor the line.\<close>

lemma far_live_quiet:
  assumes v: "far_live sd s g"
    and thr: "\<And>u. u \<noteq> t \<Longrightarrow> f_thr s' u = f_thr s u"
    and nx: "next_ticket (f_lock s') = next_ticket (f_lock s)"
    and tg: "\<And>u. 2 \<le> fR s u \<Longrightarrow> f_toget s u = kTrue \<Longrightarrow> f_toget s' u = kTrue"
    and tk: "12 \<le> fR s' t \<Longrightarrow> f_tk s' t \<noteq> kInvalidTicket"
    and wait: "fR s' t = 5 \<or> fR s' t = 4 \<and> f_tk s' t = kInvalidTicket \<Longrightarrow>
      (\<And>d a. adj (g_queue g d) a t \<Longrightarrow> 16 \<le> fR s a \<Longrightarrow> f_toget s' t = kTrue)"
    and pass: "16 \<le> fR s' t \<Longrightarrow> 16 \<le> fR s t \<or> (\<forall>d b. adj (g_queue g d) t b \<longrightarrow>
      fR s b = 5 \<or> fR s b = 4 \<and> f_tk s b = kInvalidTicket \<longrightarrow> f_toget s' b = kTrue)"
    and head: "fR s' t = 5 \<Longrightarrow> t = hd (g_queue g (sd t)) \<Longrightarrow> f_toget s' t = kTrue"
    and prev: "fR s' t = 16 \<Longrightarrow> f_prev s' t \<noteq> None"
    and low: "fR s' t = 4 \<or> fR s' t = 5 \<Longrightarrow> fR s t < 16"
  shows "far_live sd s' g"
  unfolding far_live_def nx
proof (intro conjI allI impI)
  have tg5: "f_toget s' u = kTrue" if "fR s u = 5 \<or> fR s u = 4 \<and> f_tk s u = kInvalidTicket" "f_toget s u = kTrue" for u
    using tg [of u] that by auto
  show "f_tk s' u \<noteq> kInvalidTicket" if "12 \<le> fR s' u" for u
    using far_live_tk [OF v, of u] tk thr that by (cases "u = t") auto
  show "f_toget s' b = kTrue"
    if ab: "adj (g_queue g d) a b" and b: "fR s' b = 5 \<or> fR s' b = 4 \<and> f_tk s' b = kInvalidTicket"
      and a: "16 \<le> fR s' a" for d a b
  proof (cases "b = t")
    case True
    then have "16 \<le> fR s a" using low b a thr [of a] by (cases "a = t") auto
    then show ?thesis using wait b ab True by blast
  next
    case False
    then have b': "fR s b = 5 \<or> fR s b = 4 \<and> f_tk s b = kInvalidTicket" using b thr [of b] by simp
    show ?thesis
    proof (cases "16 \<le> fR s a")
      case True
      then show ?thesis using far_live_told [OF v ab b'] tg5 [OF b'] by blast
    next
      case False
      then have "a = t" using a thr [of a] by (cases "a = t") auto
      then show ?thesis using pass a False ab b' by blast
    qed
  qed
  show "f_toget s' u = kTrue" if "fR s' u = 5" "u = hd (g_queue g (sd u))" for u
    using far_live_head [OF v, of u] tg [of u] head thr that by (cases "u = t") auto
  show "f_prev s' u \<noteq> None" if "fR s' u = 16" for u
    using far_live_prev [OF v, of u] prev thr that by (cases "u = t") auto
qed (use far_live_next [OF v] far_live_order [OF v] in auto)

text \<open>One lemma per step that changes neither queue nor line; Peterson's steps share one.\<close>

lemma live_plain:
  assumes v: "far_live sd s g" and thr: "\<And>u. u \<noteq> t \<Longrightarrow> f_thr s' u = f_thr s u"
    and "next_ticket (f_lock s') = next_ticket (f_lock s)" and "\<And>u. 2 \<le> fR s u \<Longrightarrow> f_toget s' u = f_toget s u"
    and R: "fR s' t \<noteq> 4" "fR s' t \<noteq> 5" "16 \<le> fR s' t \<Longrightarrow> 16 \<le> fR s t" "fR s' t \<noteq> 16"
      "12 \<le> fR s' t \<Longrightarrow> 12 \<le> fR s t \<and> f_tk s' t = f_tk s t"
  shows "far_live sd s' g"
  by (rule far_live_quiet [OF v thr assms(3)]) (use assms(4) R far_live_tk [OF v, of t] in auto)

lemma live_Idle:
  assumes v: "far_live sd s g" and at: "f_at s t = FIdle"
  shows "far_live sd (far_step sd t s) g"
  by (rule live_plain [OF v, where t = t]) (use at in \<open>auto simp: eff_Idle [OF at]\<close>)

lemma live_Swap_retry:
  assumes v: "far_live sd s g" and at: "f_at s t = FSwap" and n: "\<not> far_enqueues sd s t"
  shows "far_live sd (far_step sd t s) g"
  by (rule live_plain [OF v, where t = t])
     (use at in \<open>auto simp: eff_Swap_retry [where sd = sd, OF at n]\<close>)

lemma live_SetNext:
  assumes v: "far_live sd s g" and at: "f_at s t = FSetNext" and p: "f_prev s t = Some p"
  shows "far_live sd (far_step sd t s) g"
  by (rule live_plain [OF v, where t = t]) (use at in \<open>auto simp: eff_SetNext [OF at p]\<close>)

lemma live_LoadTicket:
  assumes inv: "far_inv sd s g" and v: "far_live sd s g" and at: "f_at s t = FLoadTicket" and p: "f_prev s t = Some p"
  shows "far_live sd (far_step sd t s) g"
proof -
  note E = eff_LoadTicket [OF at p] and I = far_invD [OF inv]
  have "f_dtk s p \<noteq> kInvalidTicket" if "adj (g_queue g d) a t" "16 \<le> fR s a" for d a
    using far_q_prev [OF I(1) that(1)] p far_dtk_own [OF I(2), of a] far_live_tk [OF v, of a] that(2) by simp
  then show ?thesis
    by (intro far_live_quiet [OF v, where t = t]) (use at in \<open>auto simp: E\<close>)
qed

lemma live_SetReleasable:
  assumes inv: "far_inv sd s g" and v: "far_live sd s g" and at: "f_at s t = FSetReleasable"
    and p: "f_prev s t = Some p"
  shows "far_live sd (far_step sd t s) g"
proof -
  note E = eff_SetReleasable [OF at p]
  have "t \<noteq> hd (g_queue g (sd t))" using far_q_not_head [OF far_invD(1) [OF inv], of t] at by simp
  then show ?thesis
    by (intro far_live_quiet [OF v, where t = t])
       (use at far_live_told [OF v, of _ _ t] in \<open>auto simp: E split: if_splits\<close>)
qed

lemma live_WaitToGet:
  assumes v: "far_live sd s g" and at: "f_at s t = FWaitToGet" and n: "f_toget s t = kTrue"
  shows "far_live sd (far_step sd t s) g"
  by (rule live_plain [OF v, where t = t]) (use at in \<open>auto simp: eff_WaitToGet [OF at n]\<close>)

lemma live_Pet:
  assumes v: "far_live sd s g" and at: "f_at s t \<in> {FPetFlag, FPetVictim, FPetReadA, FPetReadB}"
  shows "far_live sd (far_step sd t s) g"
proof -
  let ?s = "far_step sd t s"
  have "f_desc ?s = f_desc s" "next_ticket (f_lock ?s) = next_ticket (f_lock s)"
    using at by (elim insertE emptyE; simp add: far_defs)+
  moreover have "7 \<le> fR ?s t \<and> fR ?s t \<le> 10" using at by (elim insertE emptyE; simp add: far_defs)
  ultimately show ?thesis by (intro live_plain [OF v far_thr_other]) auto
qed

lemma live_Take_remote:
  assumes v: "far_live sd s g" and at: "f_at s t = FTake" and r: "sd t = Remote"
  shows "far_live sd (far_step sd t s) g"
  by (rule live_plain [OF v, where t = t])
     (use at in \<open>auto simp: eff_Take_remote [where sd = sd, OF at r]\<close>)

lemma live_PetUnlock:
  assumes v: "far_live sd s g" and at: "f_at s t = FPetUnlock"
  shows "far_live sd (far_step sd t s) g"
  by (rule live_plain [OF v, where t = t]) (use at in \<open>auto simp: eff_PetUnlock [OF at]\<close>)

lemma live_Store:
  assumes v: "far_live sd s g" and at: "f_at s t = FStore"
  shows "far_live sd (far_step sd t s) g"
  by (rule live_plain [OF v, where t = t]) (use at in \<open>auto simp: eff_Store [OF at]\<close>)

lemma live_LoadNext:
  assumes inv: "far_inv sd s g" and v: "far_live sd s g" and at: "f_at s t = FLoadNext"
  shows "far_live sd (far_step sd t s) g"
proof -
  note E = eff_LoadNext [OF at, where sd = sd] and I = far_invD [OF inv]
  have "f_next s t = Some b" if "adj (g_queue g d) t b" "fR s b = 5 \<or> fR s b = 4" for d b
    using mcs_shape_next [OF far_q_shape [OF I(1)] that(1)] that(2) by auto
  then show ?thesis
    by (intro far_live_quiet [OF v, where t = t])
       (use at far_live_tk [OF v, of t] in \<open>auto simp: E split: if_splits\<close>)
qed

lemma live_Pass:
  assumes inv: "far_inv sd s g" and v: "far_live sd s g" and at: "f_at s t = FPass"
  shows "far_live sd (far_step sd t s) g"
proof -
  note I = far_invD [OF inv]
  obtain n where n: "f_next s t = Some n" using far_q_next15 [OF I(1), of t] at by auto
  note E = eff_Pass [OF at n]
  have "b = n" if "adj (g_queue g d) t b" "fR s b = 5 \<or> fR s b = 4" for d b
    using mcs_shape_next [OF far_q_shape [OF I(1)] that(1)] that(2) n by auto
  then show ?thesis
    by (intro far_live_quiet [OF v, where t = t])
       (use at far_live_tk [OF v, of t] in \<open>auto simp: E split: if_splits\<close>)
qed

lemma live_AwaitPred:
  assumes v: "far_live sd s g" and at: "f_at s t = FAwaitPred" and n: "f_granted s t = kTrue"
  shows "far_live sd (far_step sd t s) g"
  by (rule live_plain [OF v, where t = t]) (use at in \<open>auto simp: eff_AwaitPred [OF at n]\<close>)

lemma live_AwaitTicket:
  assumes v: "far_live sd s g" and at: "f_at s t = FAwaitTicket" and n: "f_dtk s t = current_ticket (f_lock s)"
  shows "far_live sd (far_step sd t s) g"
  by (rule live_plain [OF v, where t = t]) (use at in \<open>auto simp: eff_AwaitTicket [OF at n]\<close>)

lemma live_release:
  assumes v: "far_live sd s g" and at: "f_at s t \<in> {FCheckNext, FCasTail, FWaitReleasable}"
    and n: "\<not> far_spins s t" "\<not> far_dequeues sd s t"
  shows "far_live sd (far_step sd t s) g"
proof -
  let ?s = "far_step sd t s"
  have "f_desc ?s = f_desc s" "next_ticket (f_lock ?s) = next_ticket (f_lock s)"
    using at by (elim insertE emptyE; simp add: far_defs)+
  moreover have "20 \<le> fR ?s t" "f_tk ?s t = f_tk s t"
    using at n by (cases "sd t"; elim insertE emptyE; simp add: far_defs far_spins_def far_dequeues_def)+
  moreover have "19 \<le> fR s t" using at by auto
  ultimately show ?thesis by (intro live_plain [OF v far_thr_other]) auto
qed

lemma far_queue_upd: "g_queue (g\<lparr>g_queue := q\<rparr>) = q" "g_line (g\<lparr>g_queue := q\<rparr>) = g_line g"
    "g_issued (g\<lparr>g_queue := q\<rparr>) = g_issued g"
  and far_line_upd: "g_queue (g\<lparr>g_line := l, g_issued := n\<rparr>) = g_queue g"
    "g_line (g\<lparr>g_line := l, g_issued := n\<rparr>) = l" "g_issued (g\<lparr>g_line := l, g_issued := n\<rparr>) = n"
  and far_tl_upd: "g_queue (g\<lparr>g_line := l\<rparr>) = g_queue g" "g_line (g\<lparr>g_line := l\<rparr>) = l"
    "g_issued (g\<lparr>g_line := l\<rparr>) = g_issued g"
  by simp_all

text \<open>Joining a queue.\<close>

lemma live_Swap:
  assumes inv: "far_inv sd s g" and v: "far_live sd s g" and at: "f_at s t = FSwap" and enq: "far_enqueues sd s t"
  shows "far_live sd (far_step sd t s) (far_gstep sd t s g)"
proof -
  note I = far_invD [OF inv] and E = eff_Swap [OF at enq]
  let ?s = "far_step sd t s" and ?Q = "g_queue g" and ?Q' = "(g_queue g)(sd t := g_queue g (sd t) @ [t])"
  have t2: "fR ?s t = 2 \<or> fR ?s t = 6" by (simp add: E)
  have o: "f_thr ?s u = f_thr s u" if "u \<noteq> t" for u using that by (simp add: E)
  have tQ: "t \<notin> set (?Q d)" and tl: "t \<notin> set (g_line g)" for d
    using far_q_mem [OF I(1)] far_tickets_mem [OF I(4)] at by simp_all
  have adj: "adj (?Q d) a b \<and> a \<noteq> t" if "adj (?Q' d) a b" "b \<noteq> t" for d a b
    using that adj_setL [of "?Q d" a b] tQ [of d] by (cases "d = sd t") (auto simp: adj_snoc)
  have bef: "before (?Q d) a b" if "before (?Q' d) a b" "b \<noteq> t" for d a b
    using that by (cases "d = sd t") (auto simp: before_snoc)
  have hd: "u = hd (?Q (sd u))" if "u = hd (?Q' (sd u))" "u \<noteq> t" for u
    using that by (cases "?Q (sd u) = []"; cases "sd u = sd t") auto
  show ?thesis
    unfolding far_live_def E(3,5) far_queue_upd
  proof (intro conjI allI impI)
    show "next_ticket (f_lock ?s) = of_nat (g_issued g)"
      using far_live_next [OF v] by (simp add: eff_Swap_lock [OF at])
    show "f_tk ?s u \<noteq> kInvalidTicket" if "12 \<le> fR ?s u" for u
      using far_live_tk [OF v, of u] o [of u] that t2 by (cases "u = t") auto
    show "f_toget s b = kTrue"
      if "adj (?Q' d) a b" "fR ?s b = 5 \<or> fR ?s b = 4 \<and> f_tk ?s b = kInvalidTicket" "16 \<le> fR ?s a" for d a b
    proof -
      have b: "b \<noteq> t" using that(2) t2 by auto
      with adj [OF that(1)] have "adj (?Q d) a b" "a \<noteq> t" by auto
      then show ?thesis using far_live_told [OF v] that(2,3) o b by auto
    qed
    show "f_toget s u = kTrue" if "fR ?s u = 5" "u = hd (?Q' (sd u))" for u
    proof -
      have "u \<noteq> t" using that(1) t2 by auto
      then show ?thesis using far_live_head [OF v, of u] that hd [of u] o [of u] by simp
    qed
    show "before (g_line g) a b"
      if "before (?Q' d) a b" "a \<in> set (g_line g)" "b \<in> set (g_line g)" for d a b
      using bef [OF that(1)] that(2,3) tl far_live_order [OF v, of d a b] by auto
    show "f_prev ?s u \<noteq> None" if "fR ?s u = 16" for u
      using far_live_prev [OF v, of u] o [of u] that t2 by (cases "u = t") auto
  qed
qed

text \<open>
  Drawing a ticket: nobody behind the thread in its queue can have one yet, so the line keeps the order
  of the queues, and the ticket is not the sentinel while fewer than \<open>2 ^ 64\<close> have been drawn.
\<close>

lemma far_behind_no_ticket:
  assumes "far_inv sd s g" and "before (g_queue g d) t b" and "fR s t \<le> 13"
  shows "fR s b < 6"
proof (rule ccontr)
  note I = far_invD [OF assms(1)]
  assume "\<not> fR s b < 6"
  moreover have "6 \<le> fR s x \<and> 14 \<le> fR s x" if "adj (g_queue g d) x y" "6 \<le> fR s y" for x y
  proof -
    have "14 \<le> fR s x" by (rule far_pass_6 [OF I(2) that])
    then show ?thesis by simp
  qed
  ultimately have "14 \<le> fR s t"
    using before_chain [of "g_queue g d" "\<lambda>x. 6 \<le> fR s x" "\<lambda>x. 14 \<le> fR s x" t b] assms(2) by simp
  with assms(3) show False by simp
qed

lemma ticket_not_sentinel: "n < 2 ^ 64 - 1 \<Longrightarrow> of_nat n \<noteq> kInvalidTicket"
proof
  assume n: "n < 2 ^ 64 - 1" and "of_nat n = kInvalidTicket"
  then have "unat (kInvalidTicket) = n" by (intro of_nat_inverse) simp_all
  moreover have "unat kInvalidTicket = 2 ^ 64 - 1" 
    by (simp add: kInvalidTicket_def unsigned_minus_1_eq_mask mask_eq_exp_minus_1)
  ultimately show False using n by simp
qed

lemma live_draw:
  assumes inv: "far_inv sd s g" and v: "far_live sd s g" and R: "10 \<le> fR s t" "fR s t \<le> 11"
    and thr: "\<And>u. u \<noteq> t \<Longrightarrow> f_thr s' u = f_thr s u" and d: "f_desc s' = f_desc s"
    and nx: "next_ticket (f_lock s') = next_ticket (f_lock s) + 1"
    and R': "fR s' t = 12" and tk: "f_tk s' t = next_ticket (f_lock s)" and few: "g_issued g + 1 < 2 ^ 64"
  shows "far_live sd s' (g\<lparr>g_line := g_line g @ [t], g_issued := Suc (g_issued g)\<rparr>)"
  unfolding far_live_def d far_line_upd
proof (intro conjI allI impI)
  note I = far_invD [OF inv]
  have tk': "f_tk s' t \<noteq> kInvalidTicket"
    unfolding tk far_live_next [OF v] by (rule ticket_not_sentinel) (use few in simp)
  have tl: "t \<notin> set (g_line g)" using far_tickets_mem [OF I(4), of t] R by simp
  show "next_ticket (f_lock s') = of_nat (Suc (g_issued g))" using nx far_live_next [OF v] by simp
  show "f_tk s' u \<noteq> kInvalidTicket" if "12 \<le> fR s' u" for u
    using far_live_tk [OF v, of u] thr [of u] that tk' by (cases "u = t") auto
  show "f_toget s b = kTrue"
    if "adj (g_queue g d) a b" "fR s' b = 5 \<or> fR s' b = 4 \<and> f_tk s' b = kInvalidTicket" "16 \<le> fR s' a" for d a b
  proof -
    have "b \<noteq> t" "a \<noteq> t" using that(2,3) R' by auto
    then show ?thesis using far_live_told [OF v that(1)] that(2,3) thr by simp
  qed
  show "f_toget s u = kTrue" if "fR s' u = 5" "u = hd (g_queue g (sd u))" for u
    using far_live_head [OF v, of u] that thr [of u] R' by (cases "u = t") auto
  show "before (g_line g @ [t]) a b"
    if "before (g_queue g d) a b" "a \<in> set (g_line g @ [t])" "b \<in> set (g_line g @ [t])" for d a b
  proof -
    have "a \<noteq> t"
    proof
      assume a: "a = t"
      then have "fR s b < 6" using far_behind_no_ticket [OF inv, of d t b] that(1) R by simp
      moreover have "b \<noteq> a" using before_neq [OF far_q_distinct [OF I(1)] that(1)] by simp
      ultimately show False using that(3) far_tickets_mem [OF I(4), of b] a by auto
    qed
    then show ?thesis using that far_live_order [OF v that(1)] by (auto simp: before_snoc)
  qed
  show "f_prev s' u \<noteq> None" if "fR s' u = 16" for u
    using far_live_prev [OF v, of u] thr [of u] that R' by (cases "u = t") auto
qed

text \<open>Leaving the line, and leaving a queue.\<close>

lemma live_Critical:
  assumes inv: "far_inv sd s g" and v: "far_live sd s g" and at: "f_at s t = FCritical"
  shows "far_live sd (far_step sd t s) (far_gstep sd t s g)"
proof -
  note I = far_invD [OF inv]
  have dtk: "f_dtk s t = current_ticket (f_lock s)"
    using far_dtk_own [OF I(2), of t] far_tickets_18 [OF I(4), of t] at by simp
  note E = eff_Critical [OF at dtk]
  let ?s = "far_step sd t s"
  have "far_live sd ?s g" by (rule live_plain [OF v, where t = t]) (use at in \<open>auto simp: E\<close>)
  moreover have d: "distinct (g_line g)" using far_tickets_line [OF I(4)] by (rule ticket_line_distinct)
  ultimately show ?thesis
    unfolding far_live_def E(4) far_tl_upd using tl_line [OF d] by (auto intro: before_tl)
qed

lemma live_dequeue:
  assumes inv: "far_inv sd s g" and v: "far_live sd s g" and R: "19 \<le> fR s t"
    and thr: "f_thr s' = (f_thr s)(t := (f_thr s t)\<lparr>h_pc := FIdle\<rparr>)"
    and nx: "next_ticket (f_lock s') = next_ticket (f_lock s)" and tg: "\<And>u. f_toget s' u = f_toget s u"
  shows "far_live sd s' (g\<lparr>g_queue := (g_queue g)(sd t := tl (g_queue g (sd t)))\<rparr>)"
  unfolding far_live_def far_queue_upd nx tg
proof (intro conjI allI impI)
  note I = far_invD [OF inv]
  let ?Q = "g_queue g" and ?Q' = "(g_queue g)(sd t := tl (g_queue g (sd t)))"
  have R': "fR s' u = (if u = t then 0 else fR s u)" and P: "f_tk s' u = f_tk s u" "f_prev s' u = f_prev s u" for u
    by (simp_all add: thr)
  have dist: "distinct (?Q d)" for d by (rule far_q_distinct [OF I(1)])
  have hd: "t = hd (?Q (sd t))" using far_q_head [OF I(1), of t] R by simp
  have ne: "?Q (sd t) \<noteq> []" using far_q_mem [OF I(1), of t "sd t"] R by auto
  have adj: "adj (?Q d) a b" if "adj (?Q' d) a b" for d a b
    using that adj_tl [OF dist [of d], of a b] by (cases "d = sd t") auto
  have bef: "before (?Q d) a b" if "before (?Q' d) a b" for d a b
    using that by (cases "d = sd t"; cases "?Q d") auto
  show "next_ticket (f_lock s) = of_nat (g_issued g)" by (rule far_live_next [OF v])
  show "f_tk s' u \<noteq> kInvalidTicket" if "12 \<le> fR s' u" for u
    using far_live_tk [OF v, of u] that by (simp add: R' P split: if_splits)
  show "f_toget s b = kTrue"
    if "adj (?Q' d) a b" "fR s' b = 5 \<or> fR s' b = 4 \<and> f_tk s' b = kInvalidTicket" "16 \<le> fR s' a" for d a b
    using far_live_told [OF v adj [OF that(1)]] that(2,3) by (auto simp: R' P split: if_splits)
  show "f_toget s u = kTrue" if "fR s' u = 5" "u = hd (?Q' (sd u))" for u
  proof -
    have u: "fR s u = 5" "u \<noteq> t" using that(1) by (auto simp: R' split: if_splits)
    show ?thesis
    proof (cases "sd u = sd t")
      case True
      have "u \<in> set (tl (?Q (sd t)))"
        using tl_line [OF dist, of u "sd t"] far_q_mem [OF I(1), of u "sd t"] u True hd by simp
      then have "tl (?Q (sd t)) \<noteq> []" "u = hd (tl (?Q (sd t)))" using that(2) True by auto
      then have "adj (?Q (sd t)) t u" using hd ne by (cases "?Q (sd t)") (auto simp: adj_Cons)
      then show ?thesis using far_live_told [OF v] u R by auto
    next
      case False
      then show ?thesis using far_live_head [OF v, of u] that(2) u by simp
    qed
  qed
  show "before (g_line g) a b"
    if "before (?Q' d) a b" "a \<in> set (g_line g)" "b \<in> set (g_line g)" for d a b
    using far_live_order [OF v bef [OF that(1)]] that(2,3) by blast
  show "f_prev s' u \<noteq> None" if "fR s' u = 16" for u
    using far_live_prev [OF v, of u] that by (simp add: R' P split: if_splits)
qed

end
