(* ===== verification/Draining.thy ===== *)
theory Draining
  imports Interleaving
begin

text \<open>
  Deadlock freedom as a contract.  \<open>rest s t\<close> bounds the work that thread \<open>t\<close> has still to do and is zero
  when it is outside the lock.  If in every state some active thread can come closer to its end by steps of
  its own, the active threads can be scheduled so that all of them finish, without any thread starting anew.
\<close>

text \<open>Thread \<open>t\<close> runs alone and does not start a new round.\<close>

inductive solo ::
  "(tid \<Rightarrow> 's \<Rightarrow> 's) \<Rightarrow> (tid \<Rightarrow> 's \<Rightarrow> 'g \<Rightarrow> 'g) \<Rightarrow> ('s \<Rightarrow> tid \<Rightarrow> nat) \<Rightarrow> tid \<Rightarrow> 's \<Rightarrow> 'g \<Rightarrow> 's \<Rightarrow> 'g \<Rightarrow> bool"
  for step gstep rest t s g where
  stay: "solo step gstep rest t s g s g"
| go: "solo step gstep rest t s g s' g' \<Longrightarrow> rest s' t \<noteq> 0 \<Longrightarrow>
    solo step gstep rest t s g (step t s') (gstep t s' g')"

lemma solo_once: "rest s t \<noteq> 0 \<Longrightarrow> solo step gstep rest t s g (step t s) (gstep t s g)"
  by (rule solo.go [OF solo.stay])

lemma solo_twice:
  "rest s t \<noteq> 0 \<Longrightarrow> rest (step t s) t \<noteq> 0 \<Longrightarrow>
     solo step gstep rest t s g (step t (step t s)) (gstep t (step t s) (gstep t s g))"
  by (rule solo.go [OF solo_once])

lemma solo_trans:
  "solo step gstep rest t s1 g1 s2 g2 \<Longrightarrow> solo step gstep rest t s g s1 g1 \<Longrightarrow> solo step gstep rest t s g s2 g2"
  by (induction rule: solo.induct) (auto intro: solo.go)

locale draining =
  fixes step :: "tid \<Rightarrow> 's \<Rightarrow> 's"
    and gstep :: "tid \<Rightarrow> 's \<Rightarrow> 'g \<Rightarrow> 'g"
    and ok :: "'s \<Rightarrow> 'g \<Rightarrow> bool"
    and rest :: "'s \<Rightarrow> tid \<Rightarrow> nat"
  assumes ok_step: "ok s g \<Longrightarrow> rest s t \<noteq> 0 \<Longrightarrow> ok (step t s) (gstep t s g)"
    and rest_other: "u \<noteq> t \<Longrightarrow> rest (step t s) u = rest s u"
    and someone_advances: "ok s g \<Longrightarrow> rest s t \<noteq> 0 \<Longrightarrow>
      \<exists>u s' g'. rest s u \<noteq> 0 \<and> solo step gstep rest u s g s' g' \<and> rest s' u < rest s u"
begin

lemma solo_facts:
  assumes "solo step gstep rest t s g s' g'" and "ok s g"
  shows "ok s' g' \<and> (\<forall>u. u \<noteq> t \<longrightarrow> rest s' u = rest s u) \<and> (\<exists>n. s' = run step (replicate n t) s)"
  using assms
proof (induction rule: solo.induct)
  case stay
  have "s = run step (replicate 0 t) s" by simp
  with stay show ?case by blast
next
  case (go s' g')
  then obtain n where n: "s' = run step (replicate n t) s" by blast
  have "run step (replicate (Suc n) t) s = step t (run step (replicate n t) s)"
    by (simp add: run_def fold_replicate funpow_swap1)
  then have "step t s' = run step (replicate (Suc n) t) s" using n by simp
  then show ?case using go ok_step [of s' g' t] rest_other by metis
qed

lemma work_less:
  assumes "\<And>u. u \<noteq> t \<Longrightarrow> rest s' u = rest s u" and "rest s' t < rest s t"
  shows "(\<Sum>t\<in>UNIV. rest s' t) < (\<Sum>t\<in>UNIV. rest s t)"
proof (rule sum_strict_mono_ex1)
  show "\<forall>u\<in>UNIV. rest s' u \<le> rest s u" using assms by (metis less_imp_le order_refl)
qed (use assms(2) in auto)

lemma drain: "ok s g \<Longrightarrow> \<exists>sched. set sched \<subseteq> {t. rest s t \<noteq> 0} \<and> (\<forall>t. rest (run step sched s) t = 0)"
proof (induction "\<Sum>t\<in>UNIV. rest s t" arbitrary: s g rule: less_induct)
  case less
  show ?case
  proof (cases "\<forall>t. rest s t = 0")
    case True
    then show ?thesis by (intro exI [of _ "[]"]) simp
  next
    case False
    then obtain u s' g' where u: "rest s u \<noteq> 0" and a: "solo step gstep rest u s g s' g'" "rest s' u < rest s u"
      using someone_advances [OF less.prems] by blast
    from solo_facts [OF a(1) less.prems] obtain n
      where f: "ok s' g'" "\<And>v. v \<noteq> u \<Longrightarrow> rest s' v = rest s v" "s' = run step (replicate n u) s" by blast
    from less.hyps [OF work_less [OF f(2) a(2)] f(1)] obtain sched
      where sched: "set sched \<subseteq> {t. rest s' t \<noteq> 0}" "\<forall>t. rest (run step sched s') t = 0" by blast
    have "set sched \<subseteq> {t. rest s t \<noteq> 0}"
    proof
      show "v \<in> {t. rest s t \<noteq> 0}" if "v \<in> set sched" for v
        using sched(1) that u f(2) [of v] by (cases "v = u") auto
    qed
    then show ?thesis using sched(2) u f(3) by (intro exI [of _ "replicate n u @ sched"]) auto
  qed
qed

end

end
