(* ===== verification/FARLockProgress.thy ===== *)
theory FARLockProgress
  imports FARLockLive Draining
begin

text \<open>
  Deadlock freedom of FARLock.  In every reachable state with an active thread some active thread can
  advance on its own; hence the active threads can always be scheduled so that all of them finish.
\<close>

section \<open>Every step keeps the liveness invariant\<close>

lemma far_grant_next:
  assumes inv: "far_inv sd s g" and at: "f_at s t = FGrant"
  obtains n where "f_next s t = Some n"
proof -
  note I = far_invD [OF inv]
  have "t \<in> set (g_queue g (sd t))" "t \<noteq> last (g_queue g (sd t))"
    using far_q_mem [OF I(1), of t "sd t"] far_q_not_last [OF I(1), of t] at by simp_all
  then obtain n where adj: "adj (g_queue g (sd t)) t n" using adj_ex_right by metis
  have "5 \<le> fR s n" using far_q_rel [OF I(1) adj] far_q_rel22 [OF I(1), of t] at by (simp split: if_splits)
  then have "f_next s t = Some n" using mcs_shape_next [OF far_q_shape [OF I(1)] adj] by simp
  with that show ?thesis .
qed

lemma live_Take_local:
  assumes inv: "far_inv sd s g" and v: "far_live sd s g" and at: "f_at s t = FTake" and l: "sd t = Local"
    and few: "g_issued (far_gstep sd t s g) < 2 ^ 64"
  shows "far_live sd (far_step sd t s) (far_gstep sd t s g)"
proof -
  note E = eff_Take_local [where sd = sd, OF at l]
  show ?thesis
    unfolding E(4) by (rule live_draw [OF inv v]) (use few in \<open>simp_all add: E at\<close>)
qed

lemma live_Put:
  assumes inv: "far_inv sd s g" and v: "far_live sd s g" and at: "f_at s t = FPut"
    and few: "g_issued (far_gstep sd t s g) < 2 ^ 64"
  shows "far_live sd (far_step sd t s) (far_gstep sd t s g)"
proof -
  have r: "sd t = Remote" "f_tk s t = next_ticket (f_lock s)"
    using far_tickets_11 [OF far_invD(4) [OF inv], of t] at by auto
  note E = eff_Put [where sd = sd, OF at r(1)]
  show ?thesis
    unfolding E(4) by (rule live_draw [OF inv v]) (use few in \<open>simp_all add: E at r(2)\<close>)
qed

lemma live_Grant:
  assumes inv: "far_inv sd s g" and v: "far_live sd s g" and at: "f_at s t = FGrant"
  shows "far_live sd (far_step sd t s) (far_gstep sd t s g)"
proof -
  obtain n where n: "f_next s t = Some n" using far_grant_next [OF inv at] .
  note E = eff_Grant [OF at n]
  show ?thesis
    unfolding E(4) by (rule live_dequeue [OF inv v]) (simp_all add: E at)
qed

lemma live_CasTail_ok:
  assumes inv: "far_inv sd s g" and v: "far_live sd s g" and at: "f_at s t = FCasTail"
    and ok: "far_tail (sd t) (f_lock s) = Some t"
  shows "far_live sd (far_step sd t s) (far_gstep sd t s g)"
proof -
  note E = eff_CasTail_ok [where sd = sd, OF at ok]
  show ?thesis
    unfolding E(5) by (rule live_dequeue [OF inv v]) (simp_all add: E eff_CasTail_lock [OF at] at)
qed

lemma far_gstep_quiet:
  assumes "\<not> far_enqueues sd s t" and "\<not> far_dequeues sd s t" and "\<not> far_draws sd s t" and "f_at s t \<noteq> FCritical"
  shows "far_gstep sd t s g = g"
  using assms by (simp add: far_gstep_def)

lemma live_other:
  assumes inv: "far_inv sd s g" and v: "far_live sd s g" and spin: "\<not> far_spins s t"
    and n: "\<not> far_enqueues sd s t" "\<not> far_dequeues sd s t" "\<not> far_draws sd s t" "f_at s t \<noteq> FCritical"
  shows "far_live sd (far_step sd t s) g"
proof -
  have prev: "\<exists>p. f_prev s t = Some p" if "2 \<le> fR s t" "fR s t \<le> 4"
    using far_q_has_prev [OF far_invD(1) [OF inv], of t] that by auto
  have rem: "sd t = Remote" if "f_at s t = FTake" using n(3) that by (cases "sd t") (auto simp: far_draws_def)
  have put: "f_at s t \<noteq> FPut" using far_tickets_11 [OF far_invD(4) [OF inv], of t] n(3) by (auto simp: far_draws_def)
  show ?thesis
    using live_Idle [OF v] live_Swap_retry [OF v] live_SetNext [OF v] live_LoadTicket [OF inv v]
      live_SetReleasable [OF inv v] live_WaitToGet [OF v] live_Pet [OF v] live_Take_remote [OF v]
      live_PetUnlock [OF v] live_Store [OF v] live_LoadNext [OF inv v] live_Pass [OF inv v]
      live_AwaitPred [OF v] live_AwaitTicket [OF v] live_release [OF v _ spin n(2)] prev rem put spin n
    by (cases "f_at s t") (auto simp: far_spins_def far_dequeues_def)
qed

lemma far_live_step:
  assumes inv: "far_inv sd s g" and v: "far_live sd s g" and few: "g_issued (far_gstep sd t s g) < 2 ^ 64"
  shows "far_live sd (far_step sd t s) (far_gstep sd t s g)"
proof (cases "far_spins s t")
  case True
  then show ?thesis using v by (simp add: eff_spin)
next
  case False
  consider (swap) "far_enqueues sd s t" | (draw) "far_draws sd s t" | (deq) "far_dequeues sd s t"
    | (crit) "f_at s t = FCritical"
    | (quiet) "\<not> far_enqueues sd s t" "\<not> far_dequeues sd s t" "\<not> far_draws sd s t" "f_at s t \<noteq> FCritical"
    by blast
  then show ?thesis
  proof cases
    case swap
    then show ?thesis using live_Swap [OF inv v] by (simp add: far_enqueues_def)
  next
    case draw
    then show ?thesis
      using live_Take_local [OF inv v _ _ few] live_Put [OF inv v _ few]
      by (cases "sd t") (auto simp: far_draws_def)
  next
    case deq
    then show ?thesis using live_Grant [OF inv v] live_CasTail_ok [OF inv v] by (auto simp: far_dequeues_def)
  next
    case crit
    then show ?thesis by (rule live_Critical [OF inv v])
  next
    case quiet
    then show ?thesis using live_other [OF inv v False quiet] far_gstep_quiet [OF quiet] by simp
  qed
qed

section \<open>Some thread is not waiting\<close>

text \<open>The wait of Peterson's algorithm is over for thread \<open>t\<close>.\<close>

definition far_pet_free :: "(tid \<Rightarrow> side) \<Rightarrow> far_state \<Rightarrow> tid \<Rightarrow> bool" where
  "far_pet_free sd s t \<longleftrightarrow> (if sd t = Local
     then remote_flag (f_lock s) \<noteq> kTrue \<or> victim (f_lock s) \<noteq> kLocalVictim
     else local_flag (f_lock s) \<noteq> kTrue \<or> victim (f_lock s) \<noteq> kRemoteVictim)"

definition far_ready :: "(tid \<Rightarrow> side) \<Rightarrow> far_state \<Rightarrow> tid \<Rightarrow> bool" where
  "far_ready sd s t \<longleftrightarrow> f_at s t \<noteq> FIdle \<and> \<not> far_spins s t \<and>
     (f_at s t = FPetReadA \<or> f_at s t = FPetReadB \<longrightarrow> far_pet_free sd s t)"

lemma far_rank_ready:
  assumes "fR s t \<in> {1, 2, 3, 4, 6, 7, 10, 11, 12, 13, 14, 15, 18, 19, 20, 22}"
  shows "far_ready sd s t"
  using assms by (cases "f_at s t") (auto simp: far_ready_def far_spins_def)

text \<open>A thread that waits to release its successor waits for one that is about to do so.\<close>

lemma ready_release:
  assumes inv: "far_inv sd s g" and at: "19 \<le> fR s t"
  shows "\<exists>u. far_ready sd s u"
proof (cases "f_at s t = FWaitReleasable \<and> f_rel s t \<noteq> kTrue")
  case True
  note I = far_invD [OF inv]
  have "t \<in> set (g_queue g (sd t))" "t \<noteq> last (g_queue g (sd t))"
    using far_q_mem [OF I(1), of t "sd t"] far_q_not_last [OF I(1), of t] True by auto
  then obtain b where adj: "adj (g_queue g (sd t)) t b" using adj_ex_right by metis
  have "fR s b < 5" using far_q_rel [OF I(1) adj] True by (auto split: if_splits)
  moreover have "2 \<le> fR s b" using far_q_adj_side [OF I(1) adj] by simp
  ultimately have "fR s b \<in> {2, 3, 4}" by auto
  then show ?thesis using far_rank_ready [of s b sd] by auto
next
  case False
  then have "far_ready sd s t" using at by (cases "f_at s t") (auto simp: far_ready_def far_spins_def)
  then show ?thesis by blast
qed

lemma far_queue_head_rank:
  assumes inv: "far_inv sd s g" and "6 \<le> fR s t" and "t \<noteq> hd (g_queue g (sd t))"
  shows "before (g_queue g (sd t)) (hd (g_queue g (sd t))) t" and "14 \<le> fR s (hd (g_queue g (sd t)))"
proof -
  note I = far_invD [OF inv]
  let ?h = "hd (g_queue g (sd t))"
  have "t \<in> set (g_queue g (sd t))" using far_q_mem [OF I(1), of t "sd t"] assms(2) by simp
  then show b: "before (g_queue g (sd t)) ?h t" using assms(3) by (rule before_hd)
  show "14 \<le> fR s ?h"
  proof (rule ccontr)
    assume "\<not> 14 \<le> fR s ?h"
    then have "fR s t < 6" using far_behind_no_ticket [OF inv b] by simp
    with assms(2) show False by simp
  qed
qed

text \<open>The thread whose ticket is served next, or the head of its queue, can move.\<close>

lemma ready_line:
  assumes inv: "far_inv sd s g" and v: "far_live sd s g" and line: "g_line g \<noteq> []"
  shows "\<exists>u. far_ready sd s u"
proof -
  note I = far_invD [OF inv]
  define h where "h = hd (g_line g)"
  have hl: "h \<in> set (g_line g)" using line by (simp add: h_def)
  then have R: "12 \<le> fR s h" "fR s h \<le> 18" using far_tickets_mem [OF I(4), of h] by auto
  have cur: "f_tk s h = current_ticket (f_lock s)"
    using ticket_line_hd [OF far_tickets_line [OF I(4)] line] by (simp add: h_def)
  have dtk: "f_dtk s h = f_tk s h" if "14 \<le> fR s h" using far_dtk_own [OF I(2) that] .
  consider (a) "fR s h \<in> {12, 13, 14, 15, 18}" | (b) "fR s h = 16" | (c) "fR s h = 17" using R by fastforce
  then show ?thesis
  proof cases
    case a
    then have "far_ready sd s h" using far_rank_ready [of s h sd] by auto
    then show ?thesis by blast
  next
    case c
    then have "far_ready sd s h"
      using cur dtk by (cases "f_at s h") (auto simp: far_ready_def far_spins_def)
    then show ?thesis by blast
  next
    case b
    then have at: "f_at s h = FAwaitPred" by (cases "f_at s h") auto
    show ?thesis
    proof (cases "f_granted s h = kTrue")
      case True
      then have "far_ready sd s h" using at by (auto simp: far_ready_def far_spins_def)
      then show ?thesis by blast
    next
      case False
      then have "h \<noteq> hd (g_queue g (sd h))"
        using far_q_granted [OF I(1), of h] far_live_prev [OF v b] b by auto
      note H = far_queue_head_rank [OF inv _ this]
      let ?p = "hd (g_queue g (sd h))"
      have p: "before (g_queue g (sd h)) ?p h" "14 \<le> fR s ?p" using H b by auto
      have "19 \<le> fR s ?p"
      proof (rule ccontr)
        assume "\<not> 19 \<le> fR s ?p"
        then have "?p \<in> set (g_line g)" using far_tickets_mem [OF I(4), of ?p] p(2) by simp
        then have "before (g_line g) ?p h" using far_live_order [OF v p(1)] hl by blast
        then show False
          using before_not_hd ticket_line_distinct [OF far_tickets_line [OF I(4)]] by (metis h_def)
      qed
      then show ?thesis by (rule ready_release [OF inv])
    qed
  qed
qed

text \<open>Of two threads in Peterson's algorithm one can move: there is only one victim.\<close>

lemma far_flag_other:
  assumes "far_pet sd s" and "if d = Local then local_flag (f_lock s) = kTrue else remote_flag (f_lock s) = kTrue"
  shows "\<exists>u. sd u = d \<and> 7 \<le> fR s u \<and> fR s u \<le> 12"
proof -
  obtain pl pr b where p: "side_phase sd (\<lambda>t. far_phase (f_at s t)) Local pl"
      "side_phase sd (\<lambda>t. far_phase (f_at s t)) Remote pr"
      "pet_core pl pr b (local_flag (f_lock s)) (remote_flag (f_lock s)) (victim (f_lock s))"
    using assms(1) by (auto simp: far_pet_def pet_ok_def)
  have "\<exists>u. sd u = d \<and> far_phase (f_at s u) \<noteq> Out"
  proof (cases d)
    case Local
    then have "pl \<noteq> Out" using core_flags(1) [OF p(3)] assms(2) by auto
    then show ?thesis using side_phase_Out_iff [OF p(1)] Local by auto
  next
    case Remote
    then have "pr \<noteq> Out" using core_flags(2) [OF p(3)] assms(2) by auto
    then show ?thesis using side_phase_Out_iff [OF p(2)] Remote by auto
  qed
  then show ?thesis using far_phase_rank by blast
qed

lemma ready_peterson:
  assumes inv: "far_inv sd s g" and line: "g_line g = []" and t: "fR s t = 8 \<or> fR s t = 9"
  shows "\<exists>u. far_ready sd s u"
proof (cases "far_pet_free sd s t")
  case True
  then have "far_ready sd s t" using t by (cases "f_at s t") (auto simp: far_ready_def far_spins_def)
  then show ?thesis by blast
next
  case False
  note I = far_invD [OF inv]
  let ?d = "if sd t = Local then Remote else Local"
  obtain u where u: "sd u = ?d" "7 \<le> fR s u" "fR s u \<le> 12"
    using far_flag_other [OF I(3), of ?d] False by (auto simp: far_pet_free_def split: if_splits)
  have "fR s u \<noteq> 12" using far_tickets_mem [OF I(4), of u] line by auto
  moreover have "far_pet_free sd s u" using False u(1) by (auto simp: far_pet_free_def split: if_splits)
  ultimately have "far_ready sd s u"
    using u by (cases "f_at s u") (auto simp: far_ready_def far_spins_def)
  then show ?thesis by blast
qed

lemma ready_exists:
  assumes inv: "far_inv sd s g" and v: "far_live sd s g" and act: "f_at s t \<noteq> FIdle"
  shows "\<exists>u. far_ready sd s u"
proof (cases "g_line g = []")
  case False
  then show ?thesis by (rule ready_line [OF inv v])
next
  case line: True
  note I = far_invD [OF inv]
  have no: "\<not> (12 \<le> fR s u \<and> fR s u \<le> 18)" for u using far_tickets_mem [OF I(4), of u] line by simp
  have others: "\<exists>u. far_ready sd s u" if a: "fR s u \<noteq> 0" "fR s u \<noteq> 5" for u
  proof -
    consider "fR s u \<in> {1, 2, 3, 4, 6, 7, 10, 11}" | "fR s u = 8 \<or> fR s u = 9" | "19 \<le> fR s u"
      using no [of u] a by (cases "f_at s u") auto
    then show ?thesis
    proof cases
      case 1
      then show ?thesis using far_rank_ready [of s u sd] by auto
    next
      case 2
      then show ?thesis by (rule ready_peterson [OF inv line])
    next
      case 3
      then show ?thesis by (rule ready_release [OF inv])
    qed
  qed
  show ?thesis
  proof (cases "fR s t = 5")
    case False
    moreover have "fR s t \<noteq> 0" using act by (cases "f_at s t") auto
    ultimately show ?thesis using others by blast
  next
    case True
    let ?h = "hd (g_queue g (sd t))"
    have "t \<in> set (g_queue g (sd t))" using far_q_mem [OF I(1), of t "sd t"] True by simp
    then have "?h \<in> set (g_queue g (sd t))" by (intro hd_in_line) auto
    then have h: "sd ?h = sd t" "2 \<le> fR s ?h" using far_q_mem [OF I(1), of ?h "sd t"] by auto
    show ?thesis
    proof (cases "fR s ?h = 5")
      case True
      then have "f_toget s ?h = kTrue" using far_live_head [OF v True] h(1) by simp
      with True have "far_ready sd s ?h"
        by (cases "f_at s ?h") (auto simp: far_ready_def far_spins_def)
      then show ?thesis by blast
    next
      case False
      then show ?thesis using others [of ?h] h(2) by auto
    qed
  qed
qed

section \<open>Draining the lock\<close>

text \<open>
  \<open>far_ok\<close>: both invariants, and enough ticket numbers left for the threads that still need one.
\<close>

definition far_pending :: "far_state \<Rightarrow> nat" where
  "far_pending s = card {t. 1 \<le> fR s t \<and> fR s t < 12}"

definition far_ok :: "(tid \<Rightarrow> side) \<Rightarrow> far_state \<Rightarrow> far_ghost \<Rightarrow> bool" where
  "far_ok sd s g \<longleftrightarrow> far_inv sd s g \<and> far_live sd s g \<and> g_issued g + far_pending s < 2 ^ 64"

lemma far_rank_late: "12 \<le> fR s t \<Longrightarrow> fR (far_step sd t s) t = 0 \<or> 12 \<le> fR (far_step sd t s) t"
  by (cases "f_at s t"; cases "sd t") (auto simp: far_defs)

lemma far_rank_draw: "far_draws sd s t \<Longrightarrow> fR s t < 12 \<and> 1 \<le> fR s t \<and> fR (far_step sd t s) t = 12"
  by (cases "f_at s t"; cases "sd t") (auto simp: far_defs far_draws_def)

lemma far_pending_step:
  assumes "f_at s t \<noteq> FIdle"
  shows "g_issued (far_gstep sd t s g) + far_pending (far_step sd t s) \<le> g_issued g + far_pending s"
proof -
  let ?s = "far_step sd t s" and ?P = "\<lambda>s. {t. 1 \<le> fR s t \<and> fR s t < 12}"
  have t1: "1 \<le> fR s t" using assms by (cases "f_at s t") auto
  have o: "fR ?s u = fR s u" if "u \<noteq> t" for u using far_thr_other that by simp
  have sub: "?P ?s \<subseteq> ?P s"
  proof
    fix u assume "u \<in> ?P ?s"
    then show "u \<in> ?P s"
      using o [of u] far_rank_late [of s t sd] t1 by (cases "u = t"; cases "12 \<le> fR s t") auto
  qed
  show ?thesis
  proof (cases "far_draws sd s t")
    case True
    have "t \<in> ?P s" "t \<notin> ?P ?s" using far_rank_draw [OF True] by auto
    then have "?P ?s \<subset> ?P s" using sub by blast
    then have "card (?P ?s) < card (?P s)" by (intro psubset_card_mono) simp_all
    then show ?thesis using True by (simp add: far_pending_def far_gstep_def)
  next
    case False
    then show ?thesis using card_mono [OF _ sub] by (simp add: far_pending_def far_gstep_def)
  qed
qed

lemma far_ok_step:
  assumes "far_ok sd s g" and "f_at s t \<noteq> FIdle"
  shows "far_ok sd (far_step sd t s) (far_gstep sd t s g)"
proof -
  have inv: "far_inv sd s g" and v: "far_live sd s g" and few: "g_issued g + far_pending s < 2 ^ 64"
    using assms(1) by (simp_all add: far_ok_def)
  have few': "g_issued (far_gstep sd t s g) + far_pending (far_step sd t s) < 2 ^ 64"
    using far_pending_step [OF assms(2), of sd g] few by simp
  then have "g_issued (far_gstep sd t s g) < 2 ^ 64" by simp
  then show ?thesis
    using few' far_inv_step [OF inv, of t] far_live_step [OF inv v] by (simp add: far_ok_def)
qed

text \<open>What a thread has still to do.\<close>

definition far_rest :: "far_state \<Rightarrow> tid \<Rightarrow> nat" where
  "far_rest s t = (if fR s t = 0 then 0 else 23 - fR s t)"

lemma far_rank_le: "far_rank p \<le> 22"
  by (cases p) auto

lemma far_rest_0 [simp]: "far_rest s t = 0 \<longleftrightarrow> f_at s t = FIdle"
  using far_rank_le [of "f_at s t"] by (cases "f_at s t") (auto simp: far_rest_def)

lemma far_rest_less:
  assumes "f_at s t \<noteq> FIdle" and "fR s t < fR s' t \<or> f_at s' t = FIdle"
  shows "far_rest s' t < far_rest s t"
proof -
  have "fR s t \<noteq> 0" using assms(1) by (cases "f_at s t") auto
  then show ?thesis using assms(2) far_rank_le [of "f_at s t"] far_rank_le [of "f_at s' t"] by (auto simp: far_rest_def)
qed

abbreviation far_solo :: "(tid \<Rightarrow> side) \<Rightarrow> tid \<Rightarrow> far_state \<Rightarrow> far_ghost \<Rightarrow> far_state \<Rightarrow> far_ghost \<Rightarrow> bool" where
  "far_solo sd \<equiv> solo (far_step sd) (far_gstep sd) far_rest"

lemma far_step_up:
  assumes "\<not> far_spins s t" and "f_at s t \<notin> {FIdle, FSwap, FPetReadA, FPetReadB}"
    and "f_at s t = FPut \<Longrightarrow> sd t = Remote"
  shows "fR s t < fR (far_step sd t s) t \<or> f_at (far_step sd t s) t = FIdle"
  using assms by (cases "f_at s t"; cases "sd t") (simp_all add: far_defs far_spins_def)

lemma far_swap_up:
  assumes at: "f_at s t = FSwap"
  shows "\<exists>s' g'. far_solo sd t s g s' g' \<and> fR s t < fR s' t"
proof (cases "far_enqueues sd s t")
  case True
  have "fR s t < fR (far_step sd t s) t" using at by (simp add: eff_Swap [OF at True])
  then show ?thesis using solo_once [of far_rest s t "far_step sd" "far_gstep sd" g] at by auto
next
  case False
  note E = eff_Swap_retry [where sd = sd, OF at False]
  let ?s = "far_step sd t s"
  have at': "f_at ?s t = FSwap" using at by (simp add: E)
  have "far_enqueues sd ?s t" using at' by (simp add: far_enqueues_def E)
  then have "fR s t < fR (far_step sd t ?s) t" using at by (simp add: eff_Swap [OF at'])
  moreover have "far_solo sd t s g (far_step sd t ?s) (far_gstep sd t ?s (far_gstep sd t s g))"
    by (rule solo.go [OF solo_once]) (use at at' in simp_all)
  ultimately show ?thesis by blast
qed

text \<open>A free participant leaves Peterson's algorithm within one polling round of its own.\<close>

lemma far_ReadA_up:
  assumes at: "f_at s t = FPetReadA" and free: "far_pet_free sd s t"
  shows "\<exists>s' g'. far_solo sd t s g s' g' \<and> f_at s' t = FTake"
proof (cases "f_at (far_step sd t s) t = FTake")
  case True
  then show ?thesis using solo_once [of far_rest s t "far_step sd" "far_gstep sd" g] at by auto
next
  case False
  let ?s = "far_step sd t s"
  have at': "f_at ?s t = FPetReadB" using at False by (cases "sd t") (auto simp: eff_PetReadA split: if_splits)
  have "f_at (far_step sd t ?s) t = FTake"
    using at at' free False
    by (cases "sd t") (auto simp: eff_PetReadB [OF at'] eff_PetReadA [OF at] far_pet_free_def split: if_splits)
  moreover have "far_solo sd t s g (far_step sd t ?s) (far_gstep sd t ?s (far_gstep sd t s g))"
    by (rule solo.go [OF solo_once]) (use at at' in simp_all)
  ultimately show ?thesis by blast
qed

lemma far_peterson_up:
  assumes at: "f_at s t = FPetReadA \<or> f_at s t = FPetReadB" and free: "far_pet_free sd s t"
  shows "\<exists>s' g'. far_solo sd t s g s' g' \<and> f_at s' t = FTake"
proof (cases "f_at s t = FPetReadA")
  case True
  then show ?thesis using far_ReadA_up free by blast
next
  case False
  then have B: "f_at s t = FPetReadB" using at by blast
  let ?s = "far_step sd t s" and ?g = "far_gstep sd t s g"
  have one: "far_solo sd t s g ?s ?g" by (rule solo_once) (simp add: B)
  show ?thesis
  proof (cases "f_at ?s t = FTake")
    case True
    then show ?thesis using one by blast
  next
    case False
    then have "f_at ?s t = FPetReadA" using B by (cases "sd t") (auto simp: eff_PetReadB split: if_splits)
    moreover have "far_pet_free sd ?s t" using free unfolding far_pet_free_def eff_PetReadB(1) [OF B] .
    ultimately obtain s' g' where s': "far_solo sd t ?s ?g s' g'" "f_at s' t = FTake" using far_ReadA_up by blast
    show ?thesis using solo_trans [OF s'(1) one] s'(2) by blast
  qed
qed

lemma ready_advance:
  assumes ok: "far_ok sd s g" and r: "far_ready sd s t"
  shows "\<exists>s' g'. far_solo sd t s g s' g' \<and> (fR s t < fR s' t \<or> f_at s' t = FIdle)"
proof -
  have inv: "far_inv sd s g" using ok by (simp add: far_ok_def)
  consider (pet) "f_at s t = FPetReadA \<or> f_at s t = FPetReadB" | (swap) "f_at s t = FSwap"
    | (up) "f_at s t \<notin> {FIdle, FSwap, FPetReadA, FPetReadB}" using r by (auto simp: far_ready_def)
  then show ?thesis
  proof cases
    case pet
    then have "far_pet_free sd s t" using r by (auto simp: far_ready_def)
    with pet obtain s' g' where "far_solo sd t s g s' g'" "f_at s' t = FTake" using far_peterson_up by blast
    moreover have "fR s t < 10" using pet by auto
    ultimately show ?thesis by auto
  next
    case swap
    then show ?thesis using far_swap_up by blast
  next
    case up
    have "f_at s t = FPut \<Longrightarrow> sd t = Remote" using far_tickets_11 [OF far_invD(4) [OF inv], of t] by simp
    with up r have "fR s t < fR (far_step sd t s) t \<or> f_at (far_step sd t s) t = FIdle"
      by (intro far_step_up) (auto simp: far_ready_def)
    moreover have "far_solo sd t s g (far_step sd t s) (far_gstep sd t s g)" by (rule solo_once) (use up in auto)
    ultimately show ?thesis by blast
  qed
qed

interpretation far_drain: draining "far_step sd" "far_gstep sd" "far_ok sd" far_rest for sd
proof unfold_locales
  show "far_ok sd (far_step sd t s) (far_gstep sd t s g)" if "far_ok sd s g" "far_rest s t \<noteq> 0" for s g t
    using far_ok_step [OF that(1)] that(2) by simp
  show "far_rest (far_step sd t s) u = far_rest s u" if "u \<noteq> t" for s t u
    using that by (simp add: far_rest_def far_thr_other)
  show "\<exists>u s' g'. far_rest s u \<noteq> 0 \<and> far_solo sd u s g s' g' \<and> far_rest s' u < far_rest s u"
    if ok: "far_ok sd s g" and t: "far_rest s t \<noteq> 0" for s g t
  proof -
    have i: "far_inv sd s g" "far_live sd s g" using ok by (simp_all add: far_ok_def)
    obtain u where u: "far_ready sd s u" using ready_exists [OF i, of t] t by auto
    then have "f_at s u \<noteq> FIdle" by (simp add: far_ready_def)
    then show ?thesis using ready_advance [OF ok u] far_rest_less by force
  qed
qed

lemma far_live_run:
  assumes "far_inv sd s g" and "far_live sd s g"
    and "g_issued g + length (events (far_draws sd) (far_step sd) sched s) < 2 ^ 64"
  shows "\<exists>g'. far_inv sd (run (far_step sd) sched s) g' \<and> far_live sd (run (far_step sd) sched s) g' \<and>
    g_issued g' = g_issued g + length (events (far_draws sd) (far_step sd) sched s)"
  using assms
proof (induction sched arbitrary: s g)
  case (Cons t ts)
  let ?s = "far_step sd t s" and ?g = "far_gstep sd t s g"
  have n: "g_issued ?g = g_issued g + (if far_draws sd s t then 1 else 0)" by (simp add: far_gstep_def)
  have few: "g_issued ?g + length (events (far_draws sd) (far_step sd) ts ?s) < 2 ^ 64"
    using Cons.prems(3) n by (auto split: if_splits)
  have "far_inv sd ?s ?g" "far_live sd ?s ?g"
    using far_inv_step [OF Cons.prems(1)] far_live_step [OF Cons.prems(1,2)] few by simp_all
  from Cons.IH [OF this few] show ?case using n by (auto split: if_splits)
qed auto

text \<open>
  C4: Deadlock freedom of FARLock: after any schedule, the threads that are inside \<open>Lock\<close>, the critical
  section or \<open>Unlock\<close> can be scheduled, they alone, so that all of them finish, provided fewer than \<open>2 ^ 64\<close> tickets
  are needed altogether.
\<close>

theorem far_deadlock_free:
  assumes "s = run (far_step sd) sched far_init"
    and "length (events (far_draws sd) (far_step sd) sched far_init) + card {t. f_at s t \<noteq> FIdle} < 2 ^ 64"
  shows "\<exists>sched'. set sched' \<subseteq> {t. f_at s t \<noteq> FIdle} \<and> (\<forall>t. f_at (run (far_step sd) sched' s) t = FIdle)"
proof -
  have sub: "{t. 1 \<le> fR s t \<and> fR s t < 12} \<subseteq> {t. f_at s t \<noteq> FIdle}" by auto
  have pend: "far_pending s \<le> card {t. f_at s t \<noteq> FIdle}"
    unfolding far_pending_def by (rule card_mono [OF _ sub]) simp
  obtain g where "far_inv sd s g" "far_live sd s g"
      "g_issued g = length (events (far_draws sd) (far_step sd) sched far_init)"
    using far_live_run [OF far_inv_init far_live_init, of sd sched] assms by (auto simp: far_ginit_def)
  then have "far_ok sd s g" using pend assms(2) by (simp add: far_ok_def)
  from far_drain.drain [OF this] show ?thesis by simp
qed

lemma far_run_other: "t \<notin> set sched \<Longrightarrow> f_at (run (far_step sd) sched s) t = f_at s t"
  by (induction sched arbitrary: s) (auto simp: far_pc_other)

lemma events_length: "length (events ev step sched s) \<le> length sched"
  by (induction sched arbitrary: s) (auto simp: le_SucI)

theorem far_deadlock_free_witness:
  defines "sd \<equiv> (\<lambda>t :: tid. if t = 1 then Local else Remote)" and "w \<equiv> [1, 2, 1, 2, 2, 1, 2, 1, 1] :: tid list"
    and "s \<equiv> run (far_step (\<lambda>t. if t = 1 then Local else Remote)) [1, 2, 1, 2, 2, 1, 2, 1, 1] far_init"
  shows "\<exists>sched'. set sched' \<subseteq> {t. f_at s t \<noteq> FIdle} \<and> (\<forall>t. f_at (run (far_step sd) sched' s) t = FIdle)"
proof (rule far_deadlock_free)
  show s: "s = run (far_step sd) w far_init" unfolding s_def sd_def w_def ..
  have "{t. f_at s t \<noteq> FIdle} \<subseteq> set w"
  proof
    fix t assume t: "t \<in> {t. f_at s t \<noteq> FIdle}"
    have "f_at far_init t = FIdle" by (simp add: far_init_def)
    then show "t \<in> set w" using t far_run_other [of t w sd far_init] s by auto
  qed
  then have "card {t. f_at s t \<noteq> FIdle} \<le> card (set w)" by (rule card_mono [rotated]) simp
  also have "\<dots> \<le> 9" using card_length [of w] by (simp add: w_def)
  finally show "length (events (far_draws sd) (far_step sd) w far_init) + card {t. f_at s t \<noteq> FIdle} < 2 ^ 64"
    using events_length [of "far_draws sd" "far_step sd" w far_init] by (simp add: w_def del: run_simps events.simps)
qed

end
