(* ===== verification/Pointers.thy ===== *)
theory Pointers
  imports Prelude
begin

unbundle bit_operations_syntax

text \<open>
  The two packed pointer classes: \<^verbatim>\<open>rdma::Pointer\<close> (\<^verbatim>\<open>include/rdma/pointer.h\<close>) and \<^verbatim>\<open>rdma_ptr<T>\<close>
  (\<^verbatim>\<open>include/third_party/remus/rdma/rdma_ptr.h\<close>).  Both keep a 16-bit node id in the upper bits of a
  64-bit word and a 48-bit address below; they differ in how they mask, in what arithmetic does at the
  border of the two fields, and in what counts as null.
\<close>

section \<open>\<open>rdma::Pointer\<close>\<close>

record Pointer =
  praw :: u64

definition ptr_null :: Pointer where
  "ptr_null = \<lparr>praw = 0\<rparr>"

definition ptr_of_raw :: "u64 \<Rightarrow> Pointer" where
  "ptr_of_raw raw = \<lparr>praw = raw\<rparr>"

definition ptr_make :: "u16 \<Rightarrow> u64 \<Rightarrow> Pointer" where
  "ptr_make nid addr = \<lparr>praw = push_bit 48 (ucast nid) OR addr\<rparr>"

definition ptr_add :: "Pointer \<Rightarrow> u64 \<Rightarrow> Pointer" where
  "ptr_add p off = ptr_of_raw (praw p + off)"

definition ptr_is_null :: "Pointer \<Rightarrow> bool" where
  "ptr_is_null p \<longleftrightarrow> praw p = 0"

definition ptr_eq :: "Pointer \<Rightarrow> Pointer \<Rightarrow> bool" where
  "ptr_eq p q \<longleftrightarrow> praw p = praw q"

definition ptr_bool :: "Pointer \<Rightarrow> bool" where
  "ptr_bool p \<longleftrightarrow> praw p \<noteq> 0"

definition ptr_id :: "Pointer \<Rightarrow> u16" where
  "ptr_id p = ucast (drop_bit 48 (praw p))"

definition ptr_address :: "Pointer \<Rightarrow> u64" where
  "ptr_address p = praw p AND 0x0000FFFFFFFFFFFF"

section \<open>\<open>rdma_ptr\<close>\<close>

text \<open>
  \<open>sz\<close> is \<^verbatim>\<open>sizeof(element_type)\<close>.  \<^verbatim>\<open>kAddressBits\<close> is \<open>64 - 16\<close>.
\<close>

definition kAddressBits :: nat where "kAddressBits = 8 * 8 - 2 * 8"
definition kAddressBitmask :: u64 where "kAddressBitmask = push_bit kAddressBits 1 - 1"
definition kIdBitmask :: u64 where "kIdBitmask = - 1 XOR kAddressBitmask"

record rdma_ptr =
  rraw :: u64

definition rptr_of_raw :: "u64 \<Rightarrow> rdma_ptr" where
  "rptr_of_raw raw = \<lparr>rraw = raw\<rparr>"

definition rptr_make :: "u16 \<Rightarrow> u64 \<Rightarrow> rdma_ptr" where
  "rptr_make nid addr = \<lparr>rraw = push_bit kAddressBits (ucast nid) OR (addr AND kAddressBitmask)\<rparr>"

definition rptr_id :: "rdma_ptr \<Rightarrow> u64" where
  "rptr_id p = drop_bit kAddressBits (rraw p AND kIdBitmask)"

definition rptr_address :: "rdma_ptr \<Rightarrow> u64" where
  "rptr_address p = rraw p AND kAddressBitmask"

definition rptr_plus_eq :: "u64 \<Rightarrow> rdma_ptr \<Rightarrow> u64 \<Rightarrow> rdma_ptr" where
  "rptr_plus_eq sz p s =
     (let address = (rraw p + sz * s) AND kAddressBitmask
      in \<lparr>rraw = (rraw p AND kIdBitmask) OR address\<rparr>)"

definition rptr_minus_eq :: "u64 \<Rightarrow> rdma_ptr \<Rightarrow> u64 \<Rightarrow> rdma_ptr" where
  "rptr_minus_eq sz p s =
     (let address = (rraw p - sz * s) AND kAddressBitmask
      in \<lparr>rraw = (rraw p AND kIdBitmask) OR address\<rparr>)"

text \<open>Pre-increment returns the new pointer, post-increment the old one beside the new state.\<close>

definition rptr_preinc :: "u64 \<Rightarrow> rdma_ptr \<Rightarrow> rdma_ptr \<times> rdma_ptr" where
  "rptr_preinc sz p = (let p' = rptr_plus_eq sz p 1 in (p', p'))"

definition rptr_postinc :: "u64 \<Rightarrow> rdma_ptr \<Rightarrow> rdma_ptr \<times> rdma_ptr" where
  "rptr_postinc sz p = (p, rptr_plus_eq sz p 1)"

definition rptr_predec :: "u64 \<Rightarrow> rdma_ptr \<Rightarrow> rdma_ptr \<times> rdma_ptr" where
  "rptr_predec sz p = (let p' = rptr_minus_eq sz p 1 in (p', p'))"

definition rptr_postdec :: "u64 \<Rightarrow> rdma_ptr \<Rightarrow> rdma_ptr \<times> rdma_ptr" where
  "rptr_postdec sz p = (p, rptr_minus_eq sz p 1)"

definition rptr_pointer_to :: "u64 \<Rightarrow> rdma_ptr" where
  "rptr_pointer_to addr = rptr_make (- 1) addr"

definition rptr_is_null :: "rdma_ptr \<Rightarrow> bool" where
  "rptr_is_null p \<longleftrightarrow> rptr_address p = 0"

definition rptr_eq :: "rdma_ptr \<Rightarrow> rdma_ptr \<Rightarrow> bool" where
  "rptr_eq p q \<longleftrightarrow> rraw p = rraw q"

definition rptr_less :: "rdma_ptr \<Rightarrow> rdma_ptr \<Rightarrow> bool" where
  "rptr_less p q \<longleftrightarrow> rraw p < rraw q"

section \<open>Masks and fields\<close>

lemma kAddressBits_48 [simp]: "kAddressBits = 48" by (simp add: kAddressBits_def)

lemma kAddressBitmask_mask: "kAddressBitmask = mask 48"
  by (simp add: kAddressBitmask_def mask_eq_exp_minus_1 push_bit_eq_mult)

lemma kIdBitmask_not: "kIdBitmask = NOT kAddressBitmask"
  by (simp add: kIdBitmask_def bit_eq_iff bit_xor_iff bit_not_iff)

lemma addr_literal: "0x0000FFFFFFFFFFFF = (mask 48 :: u64)"
  by (simp add: mask_eq_exp_minus_1)

lemma take_bit_small: "a < 2 ^ 48 \<Longrightarrow> take_bit 48 (a :: u64) = a"
  using less_mask_eq [of a 48] by (simp add: take_bit_eq_mask)

lemma drop_bit_small: "a < 2 ^ 48 \<Longrightarrow> drop_bit 48 (a :: u64) = 0"
  using take_bit_small [of a] by (simp add: take_bit_eq_self_iff_drop_bit_eq_0)

text \<open>The two fields as quotient and remainder of the raw word.\<close>

lemma unat_drop48: "unat (drop_bit 48 (r :: u64)) = unat r div 2 ^ 48"
  unfolding unat_drop_bit_eq by (rule drop_bit_eq_div)

lemma unat_take48: "unat (take_bit 48 (r :: u64)) = unat r mod 2 ^ 48"
  unfolding unsigned_take_bit_eq by (rule take_bit_eq_mod)

lemma unat_u16_less: "unat (i :: u16) < 2 ^ 16"
proof -
  have "unat i < 2 ^ LENGTH(16)" by (rule unsigned_less)
  then show ?thesis by simp
qed

lemma ucast_id_roundtrip: "ucast (ucast (i :: u16) :: u64) = i"
  by (rule ucast_up_ucast_id) (simp add: is_up)

lemma take48_add: "take_bit 48 (take_bit 48 (a :: u64) + b) = take_bit 48 (a + b)"
proof -
  have dv: "(2 :: nat) ^ 48 dvd 2 ^ 64" by (simp add: le_imp_power_dvd)
  have m: "unat (x + b) mod 2 ^ 48 = (unat x + unat b) mod 2 ^ 48" for x :: u64
    unfolding unat_word_ariths using mod_mod_cancel [OF dv] by simp
  have "unat (take_bit 48 (take_bit 48 a + b)) = unat (take_bit 48 (a + b))"
    unfolding unat_take48 m by (rule mod_add_left_eq)
  then show ?thesis by (simp only: word_unat_eq_iff)
qed

lemma take48_diff: "take_bit 48 (take_bit 48 (a :: u64) - b) = take_bit 48 (a - b)"
  using take48_add [of a "- b"] by simp

lemma unat_ptr_id: "unat (ptr_id p) = unat (praw p) div 2 ^ 48"
proof -
  have "unat (praw p) < 2 ^ 64" using unsigned_less [of "praw p"] by simp
  then have "unat (praw p) div 2 ^ 48 < 2 ^ 16" by (simp add: less_mult_imp_div_less)
  then show ?thesis
    unfolding ptr_id_def unsigned_ucast_eq unat_drop48 by (simp add: take_bit_nat_eq_self)
qed

lemma ptr_address_take: "ptr_address p = take_bit 48 (praw p)"
  by (simp add: ptr_address_def addr_literal take_bit_eq_mask)

lemma unat_ptr_address: "unat (ptr_address p) = unat (praw p) mod 2 ^ 48"
  unfolding ptr_address_take by (rule unat_take48)

lemma unat_praw: "unat (praw p) = unat (ptr_id p) * 2 ^ 48 + unat (ptr_address p)"
  by (simp add: unat_ptr_id unat_ptr_address)

lemma ptr_fields_eqI: "ptr_id p = ptr_id q \<Longrightarrow> ptr_address p = ptr_address q \<Longrightarrow> p = q"
  using unat_praw [of p] unat_praw [of q] by (simp add: word_unat_eq_iff)

lemma rptr_address_take: "rptr_address p = take_bit 48 (rraw p)"
  by (simp add: rptr_address_def kAddressBitmask_mask take_bit_eq_mask)

lemma rptr_id_drop: "rptr_id p = drop_bit 48 (rraw p)"
  by (rule bit_word_eqI)
     (auto simp: rptr_id_def kIdBitmask_not kAddressBitmask_mask bit_drop_bit_eq bit_and_iff bit_not_iff bit_mask_iff
       dest: bit_imp_le_length)

lemma rptr_fields_eqI: "rptr_id p = rptr_id q \<Longrightarrow> rptr_address p = rptr_address q \<Longrightarrow> p = q"
proof (rule rdma_ptr.equality)
  assume "rptr_id p = rptr_id q" and "rptr_address p = rptr_address q"
  then have "push_bit 48 (drop_bit 48 (rraw p)) + take_bit 48 (rraw p) =
      push_bit 48 (drop_bit 48 (rraw q)) + take_bit 48 (rraw q)"
    by (simp only: rptr_id_drop rptr_address_take)
  then show "rraw p = rraw q" by (simp only: bits_ident)
qed simp

lemma rptr_id_pack: "rptr_id \<lparr>rraw = (x AND kIdBitmask) OR (y AND kAddressBitmask)\<rparr> = drop_bit 48 x"
  and rptr_address_pack: "rptr_address \<lparr>rraw = (x AND kIdBitmask) OR (y AND kAddressBitmask)\<rparr> = take_bit 48 y"
  by (rule bit_word_eqI; auto simp: rptr_id_drop rptr_address_take kIdBitmask_not kAddressBitmask_mask
      bit_drop_bit_eq bit_take_bit_iff bit_and_iff bit_or_iff bit_not_iff bit_mask_iff dest: bit_imp_le_length)+

lemmas rptr_arith = rptr_plus_eq_def rptr_minus_eq_def Let_def rptr_id_pack rptr_address_pack

section \<open>Properties\<close>

lemma ptr_make_raw:
  assumes "addr < 2 ^ 48"
  shows "take_bit 48 (praw (ptr_make nid addr)) = addr" and "drop_bit 48 (praw (ptr_make nid addr)) = ucast nid"
  using take_bit_small [OF assms] drop_bit_small [OF assms]
  by (auto simp: ptr_make_def bit_eq_iff bit_take_bit_iff bit_drop_bit_eq bit_or_iff bit_push_bit_iff bit_ucast_iff
      dest: bit_imp_le_length)

lemma ptr_make_fields:
  assumes "addr < 2 ^ 48"
  shows "ptr_id (ptr_make nid addr) = nid \<and> ptr_address (ptr_make nid addr) = addr \<and>
    (ptr_is_null (ptr_make nid addr) \<longleftrightarrow> nid = 0 \<and> addr = 0)"
proof -
  let ?p = "ptr_make nid addr"
  have i: "ptr_id ?p = nid" 
    using ptr_make_raw(2) [OF assms, of nid] by (simp add: ptr_id_def ucast_id_roundtrip)
  have a: "ptr_address ?p = addr" using ptr_make_raw(1) [OF assms, of nid] by (simp add: ptr_address_take)
  have "praw ?p = 0 \<longleftrightarrow> unat (praw ?p) = 0" by (simp add: unat_eq_0)
  also have "\<dots> \<longleftrightarrow> unat nid = 0 \<and> unat addr = 0" using unat_praw [of ?p] i a by simp
  finally show ?thesis using i a by (simp add: ptr_is_null_def unat_eq_0)
qed

text \<open>
  C25: A pointer built from a node id and an address below \<open>2 ^ 48\<close> gives both back, and it is null only
  for node 0 and address 0.
\<close>

theorem ptr_roundtrip:
  assumes "addr < 2 ^ 48"
  shows "ptr_id (ptr_make nid addr) = nid \<and> ptr_address (ptr_make nid addr) = addr \<and>
    (ptr_is_null (ptr_make nid addr) \<longleftrightarrow> nid = 0 \<and> addr = 0)"
  using assms by (rule ptr_make_fields)

theorem ptr_roundtrip_witness:
  "ptr_id (ptr_make 3 0x7F0000001040) = 3 \<and> ptr_address (ptr_make 3 0x7F0000001040) = 0x7F0000001040"
  using ptr_roundtrip [of "0x7F0000001040" 3] by simp

lemma ptr_add_fields:
  assumes "off < 2 ^ 48"
  shows "(ptr_id (ptr_add p off) = ptr_id p \<longleftrightarrow> unat (ptr_address p) + unat off < 2 ^ 48) \<and>
    (unat (ptr_address p) + unat off < 2 ^ 48 \<longrightarrow> ptr_address (ptr_add p off) = ptr_address p + off)"
proof -
  have o: "unat off < 2 ^ 48" using unat_mono [OF assms] by simp
  have i: "unat (ptr_id p) < 2 ^ 16" by (rule unat_u16_less)
  have ad: "unat (ptr_address p) < 2 ^ 48" by (simp add: unat_ptr_address)
  define r where "r = unat (ptr_id p) * 2 ^ 48 + unat (ptr_address p) + unat off"
  have sum: "unat (praw (ptr_add p off)) = r mod 2 ^ 64"
    by (simp add: r_def ptr_add_def ptr_of_raw_def unat_word_ariths unat_praw)
  show ?thesis
  proof (cases "unat (ptr_address p) + unat off < 2 ^ 48")
    case True
    then have small: "r mod 2 ^ 64 = r" using i by (simp add: r_def)
    have d: "r div 2 ^ 48 = unat (ptr_id p)" and m: "r mod 2 ^ 48 = unat (ptr_address p) + unat off"
      using True by (simp_all add: r_def add.assoc)
    have "unat (ptr_id (ptr_add p off)) = unat (ptr_id p)" unfolding unat_ptr_id [of "ptr_add p off"] sum small d ..
    moreover have "unat (ptr_address (ptr_add p off)) = unat (ptr_address p + off)"
      unfolding unat_ptr_address [of "ptr_add p off"] sum small m using True by (simp add: unat_word_ariths)
    ultimately show ?thesis using True by (simp add: word_unat_eq_iff)
  next
    case False
    define e where "e = unat (ptr_address p) + unat off - 2 ^ 48"
    have e: "e < 2 ^ 48" "r = (unat (ptr_id p) + 1) * 2 ^ 48 + e"
      using False ad o by (simp_all add: e_def r_def algebra_simps)
    have "r mod 2 ^ 64 div 2 ^ 48 = (unat (ptr_id p) + 1) mod 2 ^ 16"
    proof -
      have "r mod 2 ^ 64 div 2 ^ 48 = r div 2 ^ 48 mod 2 ^ 16"
        using div_exp_mod_exp_eq [of r 48 16] by simp
      also have "r div 2 ^ 48 = unat (ptr_id p) + 1"
        unfolding e(2) div_mult_self3 using e(1) by simp
      finally show ?thesis .
    qed
    then have "unat (ptr_id (ptr_add p off)) = (unat (ptr_id p) + 1) mod 2 ^ 16"
      unfolding unat_ptr_id [of "ptr_add p off"] sum .
    moreover have "(unat (ptr_id p) + 1) mod 2 ^ 16 \<noteq> unat (ptr_id p)" using i by (simp add: mod_Suc)
    ultimately show ?thesis using False by (auto simp: word_unat_eq_iff)
  qed
qed

text \<open>
  Adding an offset below \<open>2 ^ 48\<close> stays on the node exactly when the address does not overflow its
  48 bits, and then it moves the address by the offset.
\<close>

theorem ptr_add_stays:
  assumes "off < 2 ^ 48"
  shows "(ptr_id (ptr_add p off) = ptr_id p \<longleftrightarrow> unat (ptr_address p) + unat off < 2 ^ 48) \<and>
    (unat (ptr_address p) + unat off < 2 ^ 48 \<longrightarrow> ptr_address (ptr_add p off) = ptr_address p + off)"
  using assms by (rule ptr_add_fields)

theorem ptr_add_stays_witness:
  "ptr_id (ptr_add (ptr_make 3 0x7F0000001040) 16) = 3 \<and>
   ptr_address (ptr_add (ptr_make 3 0x7F0000001040) 16) = 0x7F0000001050"
proof -
  have "ptr_id (ptr_make 3 0x7F0000001040) = 3" "ptr_address (ptr_make 3 0x7F0000001040) = 0x7F0000001040"
    by code_simp+
  then show ?thesis using ptr_add_stays [of 16 "ptr_make 3 0x7F0000001040"] by simp
qed

lemma rptr_arith_fields:
  "rptr_id (rptr_plus_eq sz p s) = rptr_id p \<and> rptr_id (rptr_minus_eq sz p s) = rptr_id p \<and>
   rptr_address (rptr_plus_eq sz p s) = take_bit 48 (rptr_address p + sz * s) \<and>
   rptr_minus_eq sz (rptr_plus_eq sz p s) s = p"
proof -
  have id: "rptr_id (rptr_plus_eq sz p s) = rptr_id p" "rptr_id (rptr_minus_eq sz p s) = rptr_id p" for p
    unfolding rptr_arith by (simp_all only: rptr_id_drop)
  have addr: "rptr_address (rptr_plus_eq sz p s) = take_bit 48 (rptr_address p + sz * s)"
    "rptr_address (rptr_minus_eq sz p s) = take_bit 48 (rptr_address p - sz * s)" for p
    unfolding rptr_arith unfolding rptr_address_take by (rule take48_add [symmetric], rule take48_diff [symmetric])
  have "rptr_minus_eq sz (rptr_plus_eq sz p s) s = p"
  proof (rule rptr_fields_eqI)
    show "rptr_id (rptr_minus_eq sz (rptr_plus_eq sz p s) s) = rptr_id p" by (simp add: id)
    have "rptr_address (rptr_minus_eq sz (rptr_plus_eq sz p s) s) = take_bit 48 (rptr_address p + sz * s - sz * s)"
      unfolding addr by (rule take48_diff)
    then show "rptr_address (rptr_minus_eq sz (rptr_plus_eq sz p s) s) = rptr_address p"
      by (simp add: rptr_address_take)
  qed
  with id addr show ?thesis by blast
qed

text \<open>
  Arithmetic on an \<open>rdma_ptr\<close> never leaves the node, whatever the offset: addresses wrap around in
  their 48 bits, and subtraction undoes addition.
\<close>

theorem rptr_arith_stays:
  "rptr_id (rptr_plus_eq sz p s) = rptr_id p \<and> rptr_id (rptr_minus_eq sz p s) = rptr_id p \<and>
   rptr_address (rptr_plus_eq sz p s) = take_bit 48 (rptr_address p + sz * s) \<and>
   rptr_minus_eq sz (rptr_plus_eq sz p s) s = p"
  by (rule rptr_arith_fields)

text \<open>
  The two classes read the same fields from a raw word, and on an offset that does not overflow the
  48 address bits \<^verbatim>\<open>Pointer::operator+\<close> and \<^verbatim>\<open>rdma_ptr<uint8_t>::operator+=\<close> agree.
\<close>

theorem pointers_agree:
  "rptr_id (rptr_of_raw r) = ucast (ptr_id (ptr_of_raw r)) \<and>
   rptr_address (rptr_of_raw r) = ptr_address (ptr_of_raw r) \<and>
   (unat (ptr_address (ptr_of_raw r)) + unat off < 2 ^ 48 \<longrightarrow>
     rraw (rptr_plus_eq 1 (rptr_of_raw r) off) = praw (ptr_add (ptr_of_raw r) off))"
proof -
  have eq: "q = q'" if "ptr_id q = ptr_id q'" "ptr_address q = ptr_address q'" for q q' :: Pointer
  proof -
    have "unat (praw q) = unat (praw q')" using unat_praw [of q] unat_praw [of q'] that by simp
    then show ?thesis by (simp add: word_unat_eq_iff)
  qed
  have id: "rptr_id (rptr_of_raw r) = ucast (ptr_id (ptr_of_raw r))" for r
  proof -
    have "unat (rptr_id (rptr_of_raw r)) = unat (ptr_id (ptr_of_raw r))"
      unfolding unat_ptr_id rptr_id_drop unat_drop48 by (simp add: rptr_of_raw_def ptr_of_raw_def)
    moreover have "unat (ptr_id (ptr_of_raw r)) < 2 ^ 64" using unat_u16_less [of "ptr_id (ptr_of_raw r)"] by simp
    ultimately show ?thesis by (simp add: word_unat_eq_iff unsigned_ucast_eq take_bit_nat_eq_self)
  qed
  have addr: "rptr_address (rptr_of_raw r) = ptr_address (ptr_of_raw r)" for r
    by (simp add: rptr_address_take ptr_address_take rptr_of_raw_def ptr_of_raw_def)
  have "rraw (rptr_plus_eq 1 (rptr_of_raw r) off) = praw (ptr_add (ptr_of_raw r) off)"
    if small: "unat (ptr_address (ptr_of_raw r)) + unat off < 2 ^ 48"
  proof -
    let ?x = "rraw (rptr_plus_eq 1 (rptr_of_raw r) off)"
    have x: "rptr_of_raw ?x = rptr_plus_eq 1 (rptr_of_raw r) off" by (simp add: rptr_of_raw_def)
    have "unat off < 2 ^ 48" using small by simp
    then have off: "off < 2 ^ 48" by (simp add: word_less_nat_alt)
    note A = ptr_add_fields [OF off, of "ptr_of_raw r"] and B = rptr_arith_fields [of 1 "rptr_of_raw r" off]
    have sum: "take_bit 48 (ptr_address (ptr_of_raw r) + off) = ptr_address (ptr_of_raw r) + off"
      by (rule take_bit_small) (use small in \<open>simp add: word_less_nat_alt unat_word_ariths\<close>)
    have "ptr_of_raw ?x = ptr_add (ptr_of_raw r) off"
    proof (rule eq)
      have "ucast (ptr_id (ptr_of_raw ?x)) = (ucast (ptr_id (ptr_of_raw r)) :: u64)"
        using B id [of ?x] id [of r] unfolding x by simp
      then have "ptr_id (ptr_of_raw ?x) = ptr_id (ptr_of_raw r)" using ucast_id_roundtrip by metis
      then show "ptr_id (ptr_of_raw ?x) = ptr_id (ptr_add (ptr_of_raw r) off)" using A small by simp
      show "ptr_address (ptr_of_raw ?x) = ptr_address (ptr_add (ptr_of_raw r) off)"
        using A B small sum addr [of ?x] addr [of r] unfolding x by simp
    qed
    then show ?thesis by (simp add: ptr_of_raw_def Pointer.defs) (metis Pointer.select_convs(1))
  qed
  with id addr show ?thesis by blast
qed

theorem pointers_agree_witness:
  "rraw (rptr_plus_eq 1 (rptr_of_raw 0x00037F0000001040) 16) = praw (ptr_add (ptr_of_raw 0x00037F0000001040) 16)"
proof -
  have "ptr_address (ptr_of_raw 0x00037F0000001040) = 0x7F0000001040" by code_simp
  then show ?thesis using pointers_agree [of "0x00037F0000001040" 16] by simp
qed

text \<open>
  \<open>rdma_ptr\<close>s are ordered by node id first and by address within a node.
\<close>

theorem rptr_less_lex:
  "rptr_less p q \<longleftrightarrow>
     rptr_id p < rptr_id q \<or> rptr_id p = rptr_id q \<and> rptr_address p < rptr_address q"
proof -
  have split: "unat (rraw p) = unat (rptr_id p) * 2 ^ 48 + unat (rptr_address p)" for p
    unfolding rptr_id_drop rptr_address_take unat_drop48 unat_take48 by simp
  have a: "unat (rptr_address p) < 2 ^ 48" for p
    unfolding rptr_address_take unat_take48 by simp
  show ?thesis
    unfolding rptr_less_def word_less_nat_alt word_unat_eq_iff split
    using a [of p] a [of q] by (auto; presburger)
qed

text \<open>
  The two null tests differ: \<open>Pointer\<close> tests the whole word, \<open>rdma_ptr\<close> the address only.  A
  pointer is null for the second test but not for the first exactly when it has address 0 on a node
  other than 0.
\<close>

theorem null_tests_differ:
  "(rptr_is_null (rptr_of_raw r) \<and> \<not> ptr_is_null (ptr_of_raw r)) \<longleftrightarrow>
     ptr_address (ptr_of_raw r) = 0 \<and> ptr_id (ptr_of_raw r) \<noteq> 0"
proof -
  have "praw (ptr_of_raw r) = 0 \<longleftrightarrow> unat (praw (ptr_of_raw r)) = 0" by (simp add: unat_eq_0)
  also have "\<dots> \<longleftrightarrow> ptr_id (ptr_of_raw r) = 0 \<and> ptr_address (ptr_of_raw r) = 0"
    using unat_praw [of "ptr_of_raw r"] by (simp add: unat_eq_0)
  finally show ?thesis
    by (auto simp: rptr_is_null_def ptr_is_null_def rptr_address_take ptr_address_take rptr_of_raw_def ptr_of_raw_def)
qed

end
