(* ===== verification/FreeList.thy ===== *)
theory FreeList
  imports Pointers
begin

text \<open>
  Free lists of fixed-size chunks, threaded through the free chunks themselves
  (\<^verbatim>\<open>union FreeChunk\<close> of \<^verbatim>\<open>include/rdma/utils.h\<close>): the first word of a free chunk is the address of the
  next one.  \<^verbatim>\<open>MemoryPool\<close> and \<^verbatim>\<open>Manager\<close> allocate from such lists; the locale \<open>chunk_allocator\<close> states
  what both promise, and both interpret it.  Memory is a map from addresses of 8-byte words to words.
\<close>

type_synonym memory = "u64 \<Rightarrow> u64"

section \<open>Lists in memory\<close>

primrec chain :: "memory \<Rightarrow> u64 \<Rightarrow> u64 list \<Rightarrow> bool" where
  "chain m p [] \<longleftrightarrow> p = 0"
| "chain m p (x # xs) \<longleftrightarrow> p = x \<and> x \<noteq> 0 \<and> chain m (m x) xs"

lemma chain_update: "chain m p xs \<Longrightarrow> a \<notin> set xs \<Longrightarrow> chain (m(a := v)) p xs"
  by (induction xs arbitrary: p) auto

lemma chain_cong: "chain m p xs \<Longrightarrow> (\<And>x. x \<in> set xs \<Longrightarrow> m' x = m x) \<Longrightarrow> chain m' p xs"
  by (induction xs arbitrary: p) auto

lemma chain_unique: "chain m p xs \<Longrightarrow> chain m p ys \<Longrightarrow> xs = ys"
proof (induction xs arbitrary: p ys)
  case Nil
  then show ?case by (cases ys) auto
next
  case (Cons x xs)
  then show ?case by (cases ys) auto
qed

lemma chain_push:
  assumes "chain m p xs" and "c \<noteq> 0" and "c \<notin> set xs"
  shows "chain (m(c := p)) c (c # xs)"
  using assms chain_update [OF assms(1,3), of p] by simp

section \<open>Contract of an allocator\<close>

text \<open>
  \<open>rep s cs\<close>: the free chunks of state \<open>s\<close> are \<open>cs\<close>, in the order of the list.
\<close>

primrec allocate_many :: "('s \<Rightarrow> Pointer \<times> 's) \<Rightarrow> nat \<Rightarrow> 's \<Rightarrow> Pointer list \<times> 's" where
  "allocate_many alloc 0 s = ([], s)"
| "allocate_many alloc (Suc n) s =
     (let (p, s1) = alloc s; (ps, s2) = allocate_many alloc n s1 in (p # ps, s2))"

locale chunk_allocator =
  fixes rep :: "'s \<Rightarrow> u64 list \<Rightarrow> bool"
    and node :: "'s \<Rightarrow> u16"
    and alloc :: "'s \<Rightarrow> Pointer \<times> 's"
    and free :: "Pointer \<Rightarrow> 's \<Rightarrow> 's"
  assumes alloc_empty: "rep s [] \<Longrightarrow> alloc s = (ptr_null, s)"
    and alloc_some: "rep s (c # cs) \<Longrightarrow>
      \<exists>s'. alloc s = (ptr_make (node s) c, s') \<and> rep s' cs \<and> node s' = node s"
    and free_chunk: "rep s cs \<Longrightarrow> ptr_address p \<noteq> 0 \<Longrightarrow> ptr_address p \<notin> set cs \<Longrightarrow>
      rep (free p s) (ptr_address p # cs) \<and> node (free p s) = node s"
begin

text \<open>Allocation takes the chunks from the front, in order, without touching the rest.\<close>

lemma allocate_many_front:
  "rep s (cs @ rest) \<Longrightarrow>
    \<exists>s'. allocate_many alloc (length cs) s = (map (ptr_make (node s)) cs, s') \<and> rep s' rest \<and> node s' = node s"
proof (induction cs arbitrary: s)
  case (Cons c cs)
  then obtain s1 where s1: "alloc s = (ptr_make (node s) c, s1)" "rep s1 (cs @ rest)" "node s1 = node s"
    using alloc_some [of s c "cs @ rest"] by auto
  from Cons.IH [OF s1(2)] obtain s2 where
    "allocate_many alloc (length cs) s1 = (map (ptr_make (node s1)) cs, s2)" "rep s2 rest" "node s2 = node s1" by blast
  then show ?case using s1 by auto
qed auto

text \<open>Once the list is exhausted every further allocation returns the null pointer.\<close>

lemma allocate_exhausted: "rep s [] \<Longrightarrow> allocate_many alloc n s = (replicate n ptr_null, s)"
  by (induction n) (simp_all add: alloc_empty)

text \<open>A freed chunk is the next one handed out; allocation then restores the list.\<close>

lemma free_then_alloc:
  assumes "rep s cs" and "ptr_address p \<noteq> 0" and "ptr_address p \<notin> set cs"
  shows "\<exists>s'. alloc (free p s) = (ptr_make (node s) (ptr_address p), s') \<and> rep s' cs \<and> node s' = node s"
  using free_chunk [OF assms] alloc_some [of "free p s" "ptr_address p" cs] by simp

end

end
