(* ===== verification/Verbs.thy ===== *)
theory Verbs
  imports FreeList
begin

text \<open>
  The RDMA vocabulary of \<^verbatim>\<open>include/rdma/utils.h\<close>: constants, the connection records, work requests and
  the functions that set up queue pairs.  The verbs library itself (\<^verbatim>\<open>ibv_post_send\<close>, \<^verbatim>\<open>ibv_poll_cq\<close>,
  \<^verbatim>\<open>ibv_modify_qp\<close>, ...) is not part of the repository: it is a parameter, a record of functions on a
  world that consists of the memory of this process and an arbitrary rest.  \<^verbatim>\<open>SPDLOG_FATAL\<close> ends the
  process, so it is an error result here.
\<close>

section \<open>Results\<close>

datatype rdma_error = AssertFailed | PostFailed int | PollFailed | BadCompletion nat | OutOfMemory
  | ModifyFailed | CreateCqFailed | CreateQpFailed | SocketFailed | BindFailed | ListenFailed | SelectFailed
  | AcceptFailed | RecvFailed | BadContext | SendFailed | NoDevices | NoActivePort | NoProtectionDomain | BadRegionSize
  | RegionFailed | RegisterFailed | ShiftOutOfRange | NullTarget | OutOfBounds | BadDistribution

text \<open>\<open>None\<close>: a polling loop that never ends; \<open>Inl\<close>: the process is terminated; \<open>Inr\<close>: value and new state.\<close>

type_synonym ('a, 's) result = "(rdma_error + 'a \<times> 's) option"

definition bnd :: "('a, 's) result \<Rightarrow> ('a \<Rightarrow> 's \<Rightarrow> ('b, 't) result) \<Rightarrow> ('b, 't) result" where
  "bnd r f = (case r of None \<Rightarrow> None | Some (Inl e) \<Rightarrow> Some (Inl e) | Some (Inr (a, s)) \<Rightarrow> f a s)"

lemma bnd_simps [simp]:
  "bnd None f = None" "bnd (Some (Inl e)) f = Some (Inl e)" "bnd (Some (Inr (a, s))) f = f a s"
  by (simp_all add: bnd_def)

lemma bnd_Inr: "bnd r f = Some (Inr (b, s')) \<longleftrightarrow> (\<exists>a s. r = Some (Inr (a, s)) \<and> f a s = Some (Inr (b, s')))"
  by (auto simp: bnd_def split: option.splits sum.splits)

section \<open>Waiting loops\<close>

text \<open>
  \<^verbatim>\<open>while (!cond()) ...;\<close> where evaluating the condition changes the state: the waiting loops of the lock
  handlers and the listener's main loop.
\<close>

partial_function (option) spin_until :: "('s \<Rightarrow> (bool, 's) result) \<Rightarrow> 's \<Rightarrow> (unit, 's) result" where
  "spin_until c s = (case c s of None \<Rightarrow> None
     | Some (Inl e) \<Rightarrow> Some (Inl e)
     | Some (Inr (b, s')) \<Rightarrow> if b then Some (Inr ((), s')) else spin_until c s')"

lemma spin_until_true: "c s = Some (Inr (True, s')) \<Longrightarrow> spin_until c s = Some (Inr ((), s'))"
  by (subst spin_until.simps) simp

lemma spin_until_error: "c s = Some (Inl e) \<Longrightarrow> spin_until c s = Some (Inl e)"
  by (subst spin_until.simps) simp

text \<open>A condition that stays false is waited for forever.\<close>

lemma spin_until_never:
  fixes I :: "'s \<Rightarrow> bool"
  assumes "I s" and stays: "\<And>s. I s \<Longrightarrow> \<exists>s'. c s = Some (Inr (False, s')) \<and> I s'"
  shows "spin_until c s = None"
proof (rule ccontr)
  assume "spin_until c s \<noteq> None"
  then obtain r where r: "spin_until c s = Some r" by blast
  have "(\<forall>s. I s \<longrightarrow> (\<exists>s'. c s = Some (Inr (False, s')) \<and> I s')) \<longrightarrow> \<not> I s"
  proof (rule spin_until.raw_induct [where P = "\<lambda>c s r. (\<forall>s. I s \<longrightarrow> (\<exists>s'. c s = Some (Inr (False, s')) \<and> I s')) \<longrightarrow> \<not> I s",
        OF _ r], intro impI notI)
    fix loop :: "('s \<Rightarrow> (bool, 's) result) \<Rightarrow> 's \<Rightarrow> (unit, 's) result" and c s r
    assume IH: "\<And>c s r. loop c s = Some r \<Longrightarrow> (\<forall>s. I s \<longrightarrow> (\<exists>s'. c s = Some (Inr (False, s')) \<and> I s')) \<longrightarrow> \<not> I s"
      and run: "(case c s of None \<Rightarrow> None | Some (Inl e) \<Rightarrow> Some (Inl e)
        | Some (Inr (b, s')) \<Rightarrow> if b then Some (Inr ((), s')) else loop c s') = Some r"
      and st: "\<forall>s. I s \<longrightarrow> (\<exists>s'. c s = Some (Inr (False, s')) \<and> I s')" and s: "I s"
    from st s obtain s' where "c s = Some (Inr (False, s'))" "I s'" by blast
    then show False using IH [of c s' r] run st by simp
  qed
  with assms show False by blast
qed

text \<open>A loop that returns did so in a state that satisfies every invariant of its rounds.\<close>

lemma spin_until_exit:
  fixes I :: "'s \<Rightarrow> bool"
  assumes "spin_until c s = Some (Inr ((), s'))" and "I s" and keeps: "\<And>s s1. I s \<Longrightarrow> c s = Some (Inr (False, s1)) \<Longrightarrow> I s1"
  shows "\<exists>s0. I s0 \<and> c s0 = Some (Inr (True, s'))"
proof -
  let ?P = "\<lambda>c s r. \<forall>s'. r = Inr ((), s') \<longrightarrow> I s \<longrightarrow> (\<forall>s s1. I s \<longrightarrow> c s = Some (Inr (False, s1)) \<longrightarrow> I s1) \<longrightarrow>
    (\<exists>s0. I s0 \<and> c s0 = Some (Inr (True, s')))"
  have "?P c s r" if run: "spin_until c s = Some r" for r
  proof (rule spin_until.raw_induct [where P = ?P, OF _ run], intro allI impI)
    fix loop :: "('s \<Rightarrow> (bool, 's) result) \<Rightarrow> 's \<Rightarrow> (unit, 's) result" and c s r s'
    assume IH: "\<And>c s r. loop c s = Some r \<Longrightarrow> ?P c s r"
      and run: "(case c s of None \<Rightarrow> None | Some (Inl e) \<Rightarrow> Some (Inl e)
        | Some (Inr (b, s')) \<Rightarrow> if b then Some (Inr ((), s')) else loop c s') = Some r"
      and r: "r = Inr ((), s')" and s: "I s" and k: "\<forall>s s1. I s \<longrightarrow> c s = Some (Inr (False, s1)) \<longrightarrow> I s1"
    from run r obtain b s1 where c: "c s = Some (Inr (b, s1))" by (auto split: option.splits sum.splits)
    show "\<exists>s0. I s0 \<and> c s0 = Some (Inr (True, s'))"
    proof (cases b)
      case True
      then show ?thesis using c run r s by auto
    next
      case False
      then have l: "loop c s1 = Some r" and "I s1" using c run s k by auto
      then show ?thesis using IH [OF l] r k by blast
    qed
  qed
  then show ?thesis using assms(1,2) keeps by blast
qed

section \<open>Constants and records\<close>

definition kCacheLineSize :: u32 where "kCacheLineSize = 64"
definition kDefaultThreadNum :: u32 where "kDefaultThreadNum = 1"
definition kMinChunkSize :: u64 where "kMinChunkSize = push_bit 6 1"
definition kMaxChunkSize :: u64 where "kMaxChunkSize = push_bit 12 1"
definition kDefaultRegionSize :: u64 where "kDefaultRegionSize = push_bit 21 1"
definition kDefaultSharedSize :: u64 where "kDefaultSharedSize = push_bit 20 1"
definition kMaxSge :: int where "kMaxSge = 1"
definition kMaxInlineData :: int where "kMaxInlineData = 0"
definition kMaxRecvBytes :: int where "kMaxRecvBytes = 64"
definition kMaxWr :: int where "kMaxWr = uint kMaxChunkSize div kMaxRecvBytes"
definition kCqSize :: int where "kCqSize = 256"

datatype access_flag = IBV_ACCESS_LOCAL_WRITE | IBV_ACCESS_REMOTE_READ | IBV_ACCESS_REMOTE_WRITE
  | IBV_ACCESS_REMOTE_ATOMIC

definition kDefaultAccessMode :: "access_flag set" where
  "kDefaultAccessMode = {IBV_ACCESS_LOCAL_WRITE, IBV_ACCESS_REMOTE_READ, IBV_ACCESS_REMOTE_WRITE,
     IBV_ACCESS_REMOTE_ATOMIC}"

text \<open>Completion queues, queue pairs, devices and protection domains are handles of the verbs library.\<close>

type_synonym cq = nat
type_synonym qp = nat

record TargetContext =
  t_rkey :: u32
  t_address :: u64
  t_recv_cq :: cq
  t_send_cq :: cq
  t_qp :: qp

record ConnectionContext =
  cc_address :: u64
  cc_id :: u32
  cc_rkey :: u32
  cc_qp_num :: u32
  cc_lid :: u16
  cc_gid :: "u8 list"

record Node =
  n_ip :: string
  n_port :: u16

section \<open>Work requests\<close>

datatype wr_opcode = IBV_WR_RDMA_WRITE | IBV_WR_RDMA_READ | IBV_WR_SEND
  | IBV_WR_ATOMIC_CMP_AND_SWP | IBV_WR_ATOMIC_FETCH_AND_ADD

record ibv_sge =
  sge_addr :: u64
  sge_length :: u32
  sge_lkey :: u32

record ibv_send_wr =
  wr_id :: u64
  wr_sge :: ibv_sge
  wr_opcode :: wr_opcode
  wr_signaled :: bool
  wr_fence :: bool
  wr_remote_addr :: u64
  wr_rkey :: u32
  wr_compare_add :: u64
  wr_swap :: u64

record ibv_recv_wr =
  rwr_id :: u64
  rwr_sge :: ibv_sge

record ibv_wc =
  wc_status :: nat
  wc_wr_id :: u64

definition IBV_WC_SUCCESS :: nat where "IBV_WC_SUCCESS = 0"
definition IBV_MTU_4096 :: nat where "IBV_MTU_4096 = 5"
definition ENOMEM :: int where "ENOMEM = 12"
definition EINVAL :: int where "EINVAL = 22"
definition EFAULT :: int where "EFAULT = 14"

section \<open>Queue pair attributes\<close>

datatype qp_state = IBV_QPS_RESET | IBV_QPS_INIT | IBV_QPS_RTR | IBV_QPS_RTS

datatype qp_flag = IBV_QP_STATE | IBV_QP_PKEY_INDEX | IBV_QP_PORT | IBV_QP_ACCESS_FLAGS | IBV_QP_AV
  | IBV_QP_PATH_MTU | IBV_QP_DEST_QPN | IBV_QP_RQ_PSN | IBV_QP_MAX_DEST_RD_ATOMIC | IBV_QP_MIN_RNR_TIMER
  | IBV_QP_TIMEOUT | IBV_QP_RETRY_CNT | IBV_QP_RNR_RETRY | IBV_QP_SQ_PSN | IBV_QP_MAX_QP_RD_ATOMIC

record ah_attr =
  ah_is_global :: nat
  ah_dlid :: u16
  ah_sl :: nat
  ah_src_path_bits :: nat
  ah_port_num :: u8
  ah_dgid :: "u8 list"
  ah_flow_label :: nat
  ah_hop_limit :: nat
  ah_sgid_index :: u8
  ah_traffic_class :: nat

record qp_attr =
  qa_state :: qp_state
  qa_port_num :: u8
  qa_pkey_index :: nat
  qa_access_flags :: "access_flag set"
  qa_path_mtu :: nat
  qa_dest_qp_num :: u32
  qa_rq_psn :: nat
  qa_max_dest_rd_atomic :: nat
  qa_min_rnr_timer :: nat
  qa_ah :: ah_attr
  qa_timeout :: nat
  qa_retry_cnt :: nat
  qa_rnr_retry :: nat
  qa_sq_psn :: nat
  qa_max_rd_atomic :: nat

datatype qp_type = IBV_QPT_RC | IBV_QPT_UC | IBV_QPT_UD

record qp_init_attr =
  qi_max_send_wr :: int
  qi_max_recv_wr :: int
  qi_max_send_sge :: int
  qi_max_recv_sge :: int
  qi_max_inline_data :: int
  qi_sq_sig_all :: int
  qi_recv_cq :: cq
  qi_send_cq :: cq
  qi_qp_type :: qp_type

definition ah_zero :: ah_attr where
  "ah_zero = \<lparr>ah_is_global = 0, ah_dlid = 0, ah_sl = 0, ah_src_path_bits = 0, ah_port_num = 0,
     ah_dgid = replicate 16 0, ah_flow_label = 0, ah_hop_limit = 0, ah_sgid_index = 0, ah_traffic_class = 0\<rparr>"

text \<open>\<^verbatim>\<open>memset(&attr, 0, sizeof(attr))\<close>; state 0 is \<^verbatim>\<open>IBV_QPS_RESET\<close>.\<close>

definition qp_attr_zero :: qp_attr where
  "qp_attr_zero = \<lparr>qa_state = IBV_QPS_RESET, qa_port_num = 0, qa_pkey_index = 0, qa_access_flags = {},
     qa_path_mtu = 0, qa_dest_qp_num = 0, qa_rq_psn = 0, qa_max_dest_rd_atomic = 0, qa_min_rnr_timer = 0,
     qa_ah = ah_zero, qa_timeout = 0, qa_retry_cnt = 0, qa_rnr_retry = 0, qa_sq_psn = 0, qa_max_rd_atomic = 0\<rparr>"

section \<open>The verbs library\<close>

record 'n world =
  w_mem :: memory
  w_rest :: 'n

record 'n verbs =
  vb_post_send :: "qp \<Rightarrow> ibv_send_wr \<Rightarrow> 'n world \<Rightarrow> int \<times> 'n world"
  vb_post_recv :: "qp \<Rightarrow> ibv_recv_wr \<Rightarrow> 'n world \<Rightarrow> int \<times> 'n world"
  vb_poll_cq :: "cq \<Rightarrow> 'n world \<Rightarrow> int \<times> ibv_wc \<times> 'n world"
  vb_modify_qp :: "qp \<Rightarrow> qp_attr \<Rightarrow> qp_flag set \<Rightarrow> 'n world \<Rightarrow> int \<times> 'n world"
  vb_create_cq :: "int \<Rightarrow> 'n world \<Rightarrow> cq option \<times> 'n world"
  vb_create_qp :: "qp_init_attr \<Rightarrow> 'n world \<Rightarrow> qp option \<times> 'n world"
  vb_qp_num :: "qp \<Rightarrow> u32"

text \<open>A call of the library in a component whose state contains the world.\<close>

definition call ::
  "('s \<Rightarrow> 'n world) \<Rightarrow> ('n world \<Rightarrow> 's \<Rightarrow> 's) \<Rightarrow> ('n world \<Rightarrow> ('a, 'n world) result) \<Rightarrow> 's \<Rightarrow> ('a, 's) result" where
  "call get_w set_w f s = (case f (get_w s) of None \<Rightarrow> None
     | Some (Inl e) \<Rightarrow> Some (Inl e) | Some (Inr (a, w)) \<Rightarrow> Some (Inr (a, set_w w s)))"

lemma call_Inr:
  "call get_w set_w f s = Some (Inr (a, s')) \<longleftrightarrow> (\<exists>w. f (get_w s) = Some (Inr (a, w)) \<and> s' = set_w w s)"
  by (auto simp: call_def split: option.splits sum.splits)

section \<open>Sockets\<close>

text \<open>
  The operating system's sockets, through which the nodes exchange connection contexts: a parameter like
  the verbs library.  \<open>so_select\<close> answers the number of active descriptors, whether a negative answer is an
  interruption, and which descriptors are readable; \<open>so_recv\<close> the number of bytes and the context they form.
\<close>

definition sizeof_ConnectionContext :: int where "sizeof_ConnectionContext = 8 + 4 + 4 + 4 + 2 + 16"

record 'n sockets =
  so_socket :: "'n world \<Rightarrow> int \<times> 'n world"
  so_setsockopt :: "int \<Rightarrow> 'n world \<Rightarrow> int \<times> 'n world"
  so_bind :: "int \<Rightarrow> Node \<Rightarrow> 'n world \<Rightarrow> int \<times> 'n world"
  so_listen :: "int \<Rightarrow> int \<Rightarrow> 'n world \<Rightarrow> int \<times> 'n world"
  so_select :: "int \<Rightarrow> int set \<Rightarrow> 'n world \<Rightarrow> int \<times> bool \<times> int set \<times> 'n world"
  so_accept :: "int \<Rightarrow> 'n world \<Rightarrow> int \<times> 'n world"
  so_connect :: "int \<Rightarrow> Node \<Rightarrow> 'n world \<Rightarrow> int \<times> 'n world"
  so_recv :: "int \<Rightarrow> 'n world \<Rightarrow> int \<times> ConnectionContext \<times> 'n world"
  so_send :: "int \<Rightarrow> ConnectionContext \<Rightarrow> 'n world \<Rightarrow> int \<times> 'n world"
  so_close :: "int \<Rightarrow> 'n world \<Rightarrow> 'n world"

section \<open>Setting up a queue pair\<close>

definition DefaultQpInitAttr :: qp_init_attr where
  "DefaultQpInitAttr = \<lparr>qi_max_send_wr = kCqSize, qi_max_recv_wr = kCqSize, qi_max_send_sge = 1,
     qi_max_recv_sge = 1, qi_max_inline_data = kMaxInlineData, qi_sq_sig_all = 0, qi_recv_cq = 0, qi_send_cq = 0,
     qi_qp_type = IBV_QPT_RC\<rparr>"

definition ModifyQpToInit :: "'n verbs \<Rightarrow> qp \<Rightarrow> int \<Rightarrow> 'n world \<Rightarrow> (unit, 'n world) result" where
  "ModifyQpToInit vb q ib_port w =
     (let attr = qp_attr_zero\<lparr>qa_state := IBV_QPS_INIT, qa_port_num := word_of_int ib_port, qa_pkey_index := 0,
            qa_access_flags := kDefaultAccessMode\<rparr>;
          flags = {IBV_QP_STATE, IBV_QP_PKEY_INDEX, IBV_QP_PORT, IBV_QP_ACCESS_FLAGS};
          (rv, w') = vb_modify_qp vb q attr flags w
      in Some (if rv \<noteq> 0 then Inl ModifyFailed else Inr ((), w')))"

definition rtr_attr :: "u32 \<Rightarrow> u16 \<Rightarrow> u8 list \<Rightarrow> int \<Rightarrow> int \<Rightarrow> qp_attr" where
  "rtr_attr remote_qpn dlid dgid sgid_index ib_port =
     (let ah = ah_zero\<lparr>ah_is_global := 0, ah_dlid := dlid, ah_sl := 0, ah_src_path_bits := 0, ah_port_num := word_of_int ib_port\<rparr>;
          ah = (if 0 \<le> sgid_index
                then ah\<lparr>ah_is_global := 1, ah_port_num := 1, ah_dgid := take 16 dgid, ah_flow_label := 0,
                       ah_hop_limit := 1, ah_sgid_index := word_of_int sgid_index, ah_traffic_class := 0\<rparr>
                else ah)
      in qp_attr_zero\<lparr>qa_state := IBV_QPS_RTR, qa_path_mtu := IBV_MTU_4096, qa_dest_qp_num := remote_qpn, qa_rq_psn := 0,
           qa_max_dest_rd_atomic := 8, qa_min_rnr_timer := 12, qa_ah := ah\<rparr>)"

definition ModifyQpToRtr ::
  "'n verbs \<Rightarrow> qp \<Rightarrow> u32 \<Rightarrow> u16 \<Rightarrow> u8 list \<Rightarrow> int \<Rightarrow> int \<Rightarrow> 'n world \<Rightarrow> (unit, 'n world) result" where
  "ModifyQpToRtr vb q remote_qpn dlid dgid sgid_index ib_port w =
     (let flags = {IBV_QP_STATE, IBV_QP_AV, IBV_QP_PATH_MTU, IBV_QP_DEST_QPN, IBV_QP_RQ_PSN,
            IBV_QP_MAX_DEST_RD_ATOMIC, IBV_QP_MIN_RNR_TIMER};
          (rv, w') = vb_modify_qp vb q (rtr_attr remote_qpn dlid dgid sgid_index ib_port) flags w
      in Some (if rv \<noteq> 0 then Inl ModifyFailed else Inr ((), w')))"

definition ModifyQpToRts :: "'n verbs \<Rightarrow> qp \<Rightarrow> 'n world \<Rightarrow> (unit, 'n world) result" where
  "ModifyQpToRts vb q w =
     (let attr = qp_attr_zero\<lparr>qa_state := IBV_QPS_RTS, qa_timeout := 12, qa_retry_cnt := 7, qa_rnr_retry := 7,
            qa_sq_psn := 0, qa_max_rd_atomic := 8\<rparr>;
          flags = {IBV_QP_STATE, IBV_QP_TIMEOUT, IBV_QP_RETRY_CNT, IBV_QP_RNR_RETRY, IBV_QP_SQ_PSN,
            IBV_QP_MAX_QP_RD_ATOMIC};
          (rv, w') = vb_modify_qp vb q attr flags w
      in Some (if rv \<noteq> 0 then Inl ModifyFailed else Inr ((), w')))"

definition CreateCq :: "'n verbs \<Rightarrow> 'n world \<Rightarrow> (cq, 'n world) result" where
  "CreateCq vb w = (case vb_create_cq vb kCqSize w of
     (None, w') \<Rightarrow> Some (Inl CreateCqFailed) | (Some c, w') \<Rightarrow> Some (Inr (c, w')))"

definition CreateQp :: "'n verbs \<Rightarrow> cq \<Rightarrow> cq \<Rightarrow> 'n world \<Rightarrow> (qp, 'n world) result" where
  "CreateQp vb recv_cq send_cq w =
     (case vb_create_qp vb (DefaultQpInitAttr\<lparr>qi_recv_cq := recv_cq, qi_send_cq := send_cq\<rparr>) w of
       (None, w') \<Rightarrow> Some (Inl CreateQpFailed) | (Some q, w') \<Rightarrow> Some (Inr (q, w')))"

definition ConnectQp ::
  "'n verbs \<Rightarrow> cq \<Rightarrow> cq \<Rightarrow> qp \<Rightarrow> ConnectionContext \<Rightarrow> int \<Rightarrow> int \<Rightarrow> 'n world \<Rightarrow>
   (TargetContext, 'n world) result" where
  "ConnectQp vb rcq scq q ctx sgid_index ib_port w =
     bnd (ModifyQpToInit vb q 1 w) (\<lambda>_ w.
     bnd (ModifyQpToRtr vb q (cc_qp_num ctx) (cc_lid ctx) (cc_gid ctx) sgid_index ib_port w) (\<lambda>_ w.
     bnd (ModifyQpToRts vb q w) (\<lambda>_ w.
       Some (Inr (\<lparr>t_rkey = cc_rkey ctx, t_address = cc_address ctx, t_recv_cq = rcq, t_send_cq = scq, t_qp = q\<rparr>, w)))))"

definition StrError :: "int \<Rightarrow> string" where
  "StrError err =
     (if err = EINVAL then ''Invalid value provided in wr''
      else if err = ENOMEM then ''Send Queue is full or not enough resources to complete this operation''
      else if err = EFAULT then ''Invalid value provided in qp''
      else ''Unknown error'')"

section \<open>Properties\<close>

text \<open>A successful connection records the peer's address and key.\<close>

lemma ConnectQp_target:
  "ConnectQp vb rcq scq q ctx sgid_index ib_port w = Some (Inr (t, w')) \<Longrightarrow>
    t = \<lparr>t_rkey = cc_rkey ctx, t_address = cc_address ctx, t_recv_cq = rcq, t_send_cq = scq, t_qp = q\<rparr>"
  by (auto simp: ConnectQp_def bnd_Inr)

text \<open>
  A queue pair that accepts the three transitions only in their order and with all the attributes the
  verbs documentation requires for each.
\<close>

definition rc_next :: "qp_state \<Rightarrow> qp_attr \<Rightarrow> qp_flag set \<Rightarrow> qp_state option" where
  "rc_next st attr flags =
     (if st = IBV_QPS_RESET \<and> qa_state attr = IBV_QPS_INIT \<and>
         {IBV_QP_STATE, IBV_QP_PKEY_INDEX, IBV_QP_PORT, IBV_QP_ACCESS_FLAGS} \<subseteq> flags then Some IBV_QPS_INIT
      else if st = IBV_QPS_INIT \<and> qa_state attr = IBV_QPS_RTR \<and>
         {IBV_QP_STATE, IBV_QP_AV, IBV_QP_PATH_MTU, IBV_QP_DEST_QPN, IBV_QP_RQ_PSN,
          IBV_QP_MAX_DEST_RD_ATOMIC, IBV_QP_MIN_RNR_TIMER} \<subseteq> flags then Some IBV_QPS_RTR
      else if st = IBV_QPS_RTR \<and> qa_state attr = IBV_QPS_RTS \<and>
         {IBV_QP_STATE, IBV_QP_SQ_PSN, IBV_QP_TIMEOUT, IBV_QP_RETRY_CNT, IBV_QP_RNR_RETRY,
          IBV_QP_MAX_QP_RD_ATOMIC} \<subseteq> flags then Some IBV_QPS_RTS
      else None)"

text \<open>\<open>qp_rc vb st\<close>: \<^verbatim>\<open>ibv_modify_qp\<close> follows that state machine; \<open>st\<close> reads a queue pair's state.\<close>

definition qp_rc :: "'n verbs \<Rightarrow> ('n world \<Rightarrow> qp \<Rightarrow> qp_state) \<Rightarrow> bool" where
  "qp_rc vb st \<longleftrightarrow> (\<forall>q attr flags w. case rc_next (st w q) attr flags of
       Some st' \<Rightarrow> \<exists>w'. vb_modify_qp vb q attr flags w = (0, w') \<and> st w' q = st'
     | None \<Rightarrow> fst (vb_modify_qp vb q attr flags w) \<noteq> 0)"

lemma qp_rc_step:
  assumes "qp_rc vb st" and "rc_next (st w q) attr flags = Some st'"
  shows "\<exists>w'. vb_modify_qp vb q attr flags w = (0, w') \<and> st w' q = st'"
proof -
  have "case rc_next (st w q) attr flags of Some st' \<Rightarrow> \<exists>w'. vb_modify_qp vb q attr flags w = (0, w') \<and> st w' q = st'
     | None \<Rightarrow> fst (vb_modify_qp vb q attr flags w) \<noteq> 0"
    using assms(1) unfolding qp_rc_def by blast
  with assms(2) show ?thesis by simp
qed

text \<open>A verbs library whose queue pairs are nothing but their states; it follows the documented state machine.\<close>

definition qp_only_verbs :: "(qp \<Rightarrow> qp_state) verbs" where
  "qp_only_verbs = \<lparr>vb_post_send = (\<lambda>q wr w. (0, w)), vb_post_recv = (\<lambda>q wr w. (0, w)),
     vb_poll_cq = (\<lambda>c w. (1, \<lparr>wc_status = 0, wc_wr_id = 0\<rparr>, w)),
     vb_modify_qp = (\<lambda>q attr flags w. case rc_next (w_rest w q) attr flags of
        Some st \<Rightarrow> (0, w\<lparr>w_rest := (w_rest w)(q := st)\<rparr>) | None \<Rightarrow> (22, w)),
     vb_create_cq = (\<lambda>n w. (Some 0, w)), vb_create_qp = (\<lambda>a w. (Some 0, w)), vb_qp_num = (\<lambda>q. 0)\<rparr>"

lemma qp_only_verbs_rc: "qp_rc qp_only_verbs w_rest"
  by (auto simp: qp_rc_def qp_only_verbs_def split: option.splits)

text \<open>
  \<^verbatim>\<open>ConnectQp\<close> takes a fresh queue pair through INIT and RTR to RTS with every attribute the
  transitions require, and records the peer's address and key with the queue pair.
\<close>

theorem ConnectQp_reaches_rts:
  assumes "qp_rc vb st" and "st w q = IBV_QPS_RESET"
  shows "\<exists>w'. ConnectQp vb rcq scq q ctx sgid_index ib_port w =
      Some (Inr (\<lparr>t_rkey = cc_rkey ctx, t_address = cc_address ctx, t_recv_cq = rcq, t_send_cq = scq, t_qp = q\<rparr>, w')) \<and>
    st w' q = IBV_QPS_RTS"
proof -
  let ?a1 = "qp_attr_zero\<lparr>qa_state := IBV_QPS_INIT, qa_port_num := 1, qa_pkey_index := 0,
    qa_access_flags := kDefaultAccessMode\<rparr>"
  let ?f1 = "{IBV_QP_STATE, IBV_QP_PKEY_INDEX, IBV_QP_PORT, IBV_QP_ACCESS_FLAGS}"
  let ?a2 = "rtr_attr (cc_qp_num ctx) (cc_lid ctx) (cc_gid ctx) sgid_index ib_port"
  let ?f2 = "{IBV_QP_STATE, IBV_QP_AV, IBV_QP_PATH_MTU, IBV_QP_DEST_QPN, IBV_QP_RQ_PSN,
    IBV_QP_MAX_DEST_RD_ATOMIC, IBV_QP_MIN_RNR_TIMER}"
  let ?a3 = "qp_attr_zero\<lparr>qa_state := IBV_QPS_RTS, qa_timeout := 12, qa_retry_cnt := 7, qa_rnr_retry := 7,
    qa_sq_psn := 0, qa_max_rd_atomic := 8\<rparr>"
  let ?f3 = "{IBV_QP_STATE, IBV_QP_TIMEOUT, IBV_QP_RETRY_CNT, IBV_QP_RNR_RETRY, IBV_QP_SQ_PSN,
    IBV_QP_MAX_QP_RD_ATOMIC}"
  obtain w1 where w1: "vb_modify_qp vb q ?a1 ?f1 w = (0, w1)" "st w1 q = IBV_QPS_INIT"
    using qp_rc_step [OF assms(1), of w q ?a1 ?f1] assms(2) by (auto simp: rc_next_def)
  obtain w2 where w2: "vb_modify_qp vb q ?a2 ?f2 w1 = (0, w2)" "st w2 q = IBV_QPS_RTR"
    using qp_rc_step [OF assms(1), of w1 q ?a2 ?f2] w1(2) by (auto simp: rc_next_def rtr_attr_def Let_def)
  obtain w3 where w3: "vb_modify_qp vb q ?a3 ?f3 w2 = (0, w3)" "st w3 q = IBV_QPS_RTS"
    using qp_rc_step [OF assms(1), of w2 q ?a3 ?f3] w2(2) by (auto simp: rc_next_def)
  show ?thesis
    using w1(1) w2(1) w3 by (simp add: ConnectQp_def ModifyQpToInit_def ModifyQpToRtr_def ModifyQpToRts_def Let_def)
qed

theorem ConnectQp_reaches_rts_witness:
  "\<exists>w'. ConnectQp qp_only_verbs 1 2 3 \<lparr>cc_address = 64, cc_id = 0, cc_rkey = 7, cc_qp_num = 5, cc_lid = 1, cc_gid = []\<rparr> 0 1
      \<lparr>w_mem = (\<lambda>_. 0), w_rest = (\<lambda>_. IBV_QPS_RESET)\<rparr> =
      Some (Inr (\<lparr>t_rkey = 7, t_address = 64, t_recv_cq = 1, t_send_cq = 2, t_qp = 3\<rparr>, w')) \<and>
    w_rest w' 3 = IBV_QPS_RTS"
  using ConnectQp_reaches_rts [OF qp_only_verbs_rc, of "\<lparr>w_mem = (\<lambda>_. 0), w_rest = (\<lambda>_. IBV_QPS_RESET)\<rparr>" 3 1 2
      "\<lparr>cc_address = 64, cc_id = 0, cc_rkey = 7, cc_qp_num = 5, cc_lid = 1, cc_gid = []\<rparr>" 0 1] by simp

text \<open>
  \<^verbatim>\<open>ConnectQp\<close> always initialises the queue pair on port 1, whatever port it was given, because it does
  not pass the port on to \<^verbatim>\<open>ModifyQpToInit\<close>; with a global identifier \<^verbatim>\<open>ModifyQpToRtr\<close> overrides the port with
  1 as well.
\<close>

theorem ConnectQp_ignores_port:
  assumes "0 \<le> sgid_index"
  shows "ConnectQp vb rcq scq q ctx sgid_index ib_port w = ConnectQp vb rcq scq q ctx sgid_index 1 w"
  using assms by (simp add: ConnectQp_def ModifyQpToRtr_def rtr_attr_def Let_def)

theorem ConnectQp_ignores_port_witness:
  "\<forall>ctx w. ConnectQp qp_only_verbs 1 2 3 ctx 0 2 w = ConnectQp qp_only_verbs 1 2 3 ctx 0 1 w"
  using ConnectQp_ignores_port [of 0 qp_only_verbs 1 2 3 _ 2] by simp

end
