(* ===== verification/MemoryPool.thy ===== *)
theory MemoryPool
  imports Verbs
begin

text \<open>
  The per-thread memory pool of \<^verbatim>\<open>include/rdma/memory_pool.h\<close>: a free list of registered chunks, a ring of
  8-byte landing buffers carved out of some of them, and the one-sided and two-sided operations, each of
  which posts one work request and polls the completion queue until it is done.  Polling loops and the
  compare-and-swap loop of \<^verbatim>\<open>Exchange\<close> may run forever (\<open>None\<close>); failed assertions and \<^verbatim>\<open>SPDLOG_FATAL\<close> end
  the process (\<open>Inl\<close>).
\<close>

section \<open>State\<close>

record 'n MemoryPool =
  free_next :: u64
  local_buffer_pointers :: "Pointer list"
  request_id :: u64
  chunk_size :: u64
  node_id :: u16
  lkey :: u32
  target_map :: "TargetContext list"
  buffer_count :: u64
  buffer_index :: u64
  pworld :: "'n world"

type_synonym ('a, 'n) pool_result = "('a, 'n MemoryPool) result"

abbreviation pmem :: "'n MemoryPool \<Rightarrow> memory" where
  "pmem p \<equiv> w_mem (pworld p)"

definition poke :: "u64 \<Rightarrow> u64 \<Rightarrow> 'n MemoryPool \<Rightarrow> 'n MemoryPool" where
  "poke a v p = p\<lparr>pworld := (pworld p)\<lparr>w_mem := (pmem p)(a := v)\<rparr>\<rparr>"

section \<open>Allocation\<close>

definition IsLocal :: "Pointer \<Rightarrow> 'n MemoryPool \<Rightarrow> bool" where
  "IsLocal ptr p \<longleftrightarrow> ptr_id ptr = node_id p"

definition GetNodeId :: "'n MemoryPool \<Rightarrow> u16" where
  "GetNodeId p = node_id p"

definition Allocate :: "'n MemoryPool \<Rightarrow> Pointer \<times> 'n MemoryPool" where
  "Allocate p =
     (if free_next p = 0 then (ptr_null, p)
      else let ptr = free_next p
           in (ptr_make (node_id p) ptr, p\<lparr>free_next := pmem p ptr\<rparr>))"

definition push_chunk :: "Pointer \<Rightarrow> 'n MemoryPool \<Rightarrow> 'n MemoryPool" where
  "push_chunk ptr p = (poke (ptr_address ptr) (free_next p) p)\<lparr>free_next := ptr_address ptr\<rparr>"

definition Free :: "Pointer \<Rightarrow> 'n MemoryPool \<Rightarrow> (unit, 'n) pool_result" where
  "Free ptr p = Some (if \<not> IsLocal ptr p then Inl AssertFailed else Inr ((), push_chunk ptr p))"

section \<open>Construction\<close>

text \<open>
  \<open>n\<close> buffers are still to be placed; a chunk provides \<open>bpc\<close> of them.  With \<open>bpc = 0\<close> the loop would go
  on; the constructor's assertions exclude it.
\<close>

function carve_buffers :: "nat \<Rightarrow> nat \<Rightarrow> 'n MemoryPool \<Rightarrow> (unit, 'n) pool_result" where
  "carve_buffers bpc n p =
     (if n = 0 then Some (Inr ((), p))
      else if bpc = 0 then Some (Inl AssertFailed)
      else let (ptr, p1) = Allocate p
           in if \<not> ptr_bool ptr then Some (Inl OutOfMemory)
              else carve_buffers bpc (n - min bpc n)
                (p1\<lparr>local_buffer_pointers := local_buffer_pointers p1 @
                   map (\<lambda>j. ptr_add ptr (of_nat j * 8)) [0..<min bpc n]\<rparr>))"
  by pat_completeness auto
termination by (relation "measure (\<lambda>(bpc, n, p). n)") auto

declare carve_buffers.simps [simp del]

definition MemoryPool_new ::
  "u64 \<Rightarrow> u64 \<Rightarrow> u16 \<Rightarrow> u32 \<Rightarrow> TargetContext list \<Rightarrow> u64 \<Rightarrow> 'n world \<Rightarrow> (unit, 'n) pool_result" where
  "MemoryPool_new free_list csize nid key targets bcount w =
     (if \<not> kMinChunkSize \<le> csize \<or> \<not> csize \<le> kMaxChunkSize then Some (Inl AssertFailed)
      else carve_buffers (unat (csize div 8)) (unat bcount)
        \<lparr>free_next = free_list, local_buffer_pointers = [], request_id = 0, chunk_size = csize, node_id = nid,
         lkey = key, target_map = targets, buffer_count = bcount, buffer_index = 0, pworld = w\<rparr>)"

text \<open>The default number of buffers.\<close>

definition default_buffer_count :: u64 where "default_buffer_count = 58368"

section \<open>Completions\<close>

partial_function (option) poll_loop :: "'n verbs \<Rightarrow> cq \<Rightarrow> 'n world \<Rightarrow> (int \<times> ibv_wc \<times> 'n world) option" where
  "poll_loop vb c w = (case vb_poll_cq vb c w of (num_comp, wc, w') \<Rightarrow>
     if num_comp = 0 then poll_loop vb c w' else Some (num_comp, wc, w'))"

definition wait_completion :: "'n verbs \<Rightarrow> cq \<Rightarrow> 'n MemoryPool \<Rightarrow> (unit, 'n) pool_result" where
  "wait_completion vb c p = (case poll_loop vb c (pworld p) of None \<Rightarrow> None
     | Some (num_comp, wc, w) \<Rightarrow> Some (
         if num_comp < 0 then Inl PollFailed
         else if wc_status wc \<noteq> IBV_WC_SUCCESS then Inl (BadCompletion (wc_status wc))
         else Inr ((), p\<lparr>pworld := w\<rparr>)))"

text \<open>Post a signalled request and wait for it.\<close>

definition post_wait :: "'n verbs \<Rightarrow> TargetContext \<Rightarrow> ibv_send_wr \<Rightarrow> 'n MemoryPool \<Rightarrow> (unit, 'n) pool_result" where
  "post_wait vb target wr p = (case vb_post_send vb (t_qp target) wr (pworld p) of (rv, w) \<Rightarrow>
     if rv \<noteq> 0 then Some (Inl (PostFailed rv)) else wait_completion vb (t_send_cq target) (p\<lparr>pworld := w\<rparr>))"

definition sge_of :: "Pointer \<Rightarrow> u64 \<Rightarrow> 'n MemoryPool \<Rightarrow> ibv_sge" where
  "sge_of ptr sz p = \<lparr>sge_addr = ptr_address ptr, sge_length = ucast sz, sge_lkey = lkey p\<rparr>"

text \<open>The landing buffer of the next operation, round robin.\<close>

definition next_buffer :: "'n MemoryPool \<Rightarrow> Pointer \<times> 'n MemoryPool" where
  "next_buffer p = (local_buffer_pointers p ! unat (buffer_index p),
     p\<lparr>buffer_index := (buffer_index p + 1) mod buffer_count p\<rparr>)"

definition targets :: "Pointer \<Rightarrow> 'n MemoryPool \<Rightarrow> bool" where
  "targets ptr p \<longleftrightarrow> unat (ptr_id ptr) < length (target_map p)"

definition target_of :: "Pointer \<Rightarrow> 'n MemoryPool \<Rightarrow> TargetContext" where
  "target_of ptr p = target_map p ! unat (ptr_id ptr)"

section \<open>One-sided operations\<close>

definition Read :: "'n verbs \<Rightarrow> Pointer \<Rightarrow> Pointer \<Rightarrow> u64 \<Rightarrow> bool \<Rightarrow> 'n MemoryPool \<Rightarrow> (unit, 'n) pool_result" where
  "Read vb target_ptr local_ptr sz fence p =
     (if \<not> IsLocal local_ptr p \<or> \<not> sz \<le> chunk_size p \<or> \<not> targets target_ptr p then Some (Inl AssertFailed)
      else let target = target_of target_ptr p;
               wr = \<lparr>wr_id = request_id p, wr_sge = sge_of local_ptr sz p, wr_opcode = IBV_WR_RDMA_READ,
                     wr_signaled = True, wr_fence = fence, wr_remote_addr = ptr_address target_ptr,
                     wr_rkey = t_rkey target, wr_compare_add = 0, wr_swap = 0\<rparr>
           in post_wait vb target wr (p\<lparr>request_id := request_id p + 1\<rparr>))"

definition Read64 :: "'n verbs \<Rightarrow> Pointer \<Rightarrow> bool \<Rightarrow> 'n MemoryPool \<Rightarrow> (u64, 'n) pool_result" where
  "Read64 vb target_ptr fence p =
     (if \<not> 8 \<le> chunk_size p \<or> \<not> targets target_ptr p then Some (Inl AssertFailed)
      else let (bptr, p1) = next_buffer p
           in bnd (Read vb target_ptr bptr 8 fence p1) (\<lambda>_ p2. Some (Inr (pmem p2 (ptr_address bptr), p2))))"

text \<open>
  \<open>k\<close> retries are left (at most 1000000); a full send queue (\<^verbatim>\<open>ENOMEM\<close>) makes the request signalled, so that
  completions free the queue.
\<close>

fun post_retry :: "'n verbs \<Rightarrow> TargetContext \<Rightarrow> nat \<Rightarrow> ibv_send_wr \<Rightarrow> 'n MemoryPool \<Rightarrow> (bool, 'n) pool_result" where
  "post_retry vb target k wr p = (case vb_post_send vb (t_qp target) wr (pworld p) of (rv, w) \<Rightarrow>
     if rv = 0 then Some (Inr (wr_signaled wr, p\<lparr>pworld := w\<rparr>))
     else if rv = ENOMEM \<and> 0 < k then (case k of Suc k' \<Rightarrow>
        post_retry vb target k' (wr\<lparr>wr_signaled := True\<rparr>) (p\<lparr>pworld := w\<rparr>))
     else Some (Inl (PostFailed rv)))"

declare post_retry.simps [simp del]

definition Write ::
  "'n verbs \<Rightarrow> Pointer \<Rightarrow> Pointer \<Rightarrow> u64 \<Rightarrow> bool \<Rightarrow> bool \<Rightarrow> 'n MemoryPool \<Rightarrow> (unit, 'n) pool_result" where
  "Write vb target_ptr local_ptr sz fence signaled p =
     (if \<not> IsLocal local_ptr p \<or> \<not> sz \<le> chunk_size p \<or> \<not> targets target_ptr p then Some (Inl AssertFailed)
      else let target = target_of target_ptr p;
               wr = \<lparr>wr_id = request_id p, wr_sge = sge_of local_ptr sz p, wr_opcode = IBV_WR_RDMA_WRITE,
                     wr_signaled = signaled, wr_fence = fence, wr_remote_addr = ptr_address target_ptr,
                     wr_rkey = t_rkey target, wr_compare_add = 0, wr_swap = 0\<rparr>
           in bnd (post_retry vb target 1000000 wr (p\<lparr>request_id := request_id p + 1\<rparr>)) (\<lambda>sig p1.
                if sig then wait_completion vb (t_send_cq target) p1 else Some (Inr ((), p1))))"

definition Write64 ::
  "'n verbs \<Rightarrow> Pointer \<Rightarrow> u64 \<Rightarrow> bool \<Rightarrow> bool \<Rightarrow> 'n MemoryPool \<Rightarrow> (unit, 'n) pool_result" where
  "Write64 vb target_ptr val fence signaled p =
     (if \<not> 8 \<le> chunk_size p \<or> \<not> targets target_ptr p then Some (Inl AssertFailed)
      else let (bptr, p1) = next_buffer p
           in Write vb target_ptr bptr 8 fence signaled (poke (ptr_address bptr) val p1))"

text \<open>The request of the three atomic operations.\<close>

definition atomic_wr ::
  "wr_opcode \<Rightarrow> Pointer \<Rightarrow> Pointer \<Rightarrow> u64 \<Rightarrow> u64 \<Rightarrow> bool \<Rightarrow> 'n MemoryPool \<Rightarrow> ibv_send_wr" where
  "atomic_wr opcode target_ptr bptr compare_add swap fence p =
     \<lparr>wr_id = request_id p, wr_sge = sge_of bptr 8 p, wr_opcode = opcode, wr_signaled = True, wr_fence = fence,
      wr_remote_addr = ptr_address target_ptr, wr_rkey = t_rkey (target_of target_ptr p),
      wr_compare_add = compare_add, wr_swap = swap\<rparr>"

definition CompareAndSwap ::
  "'n verbs \<Rightarrow> Pointer \<Rightarrow> u64 \<Rightarrow> u64 \<Rightarrow> bool \<Rightarrow> 'n MemoryPool \<Rightarrow> (bool, 'n) pool_result" where
  "CompareAndSwap vb target_ptr expected desired fence p =
     (if \<not> 8 \<le> chunk_size p \<or> \<not> targets target_ptr p then Some (Inl AssertFailed)
      else let (bptr, p1) = next_buffer p;
               wr = atomic_wr IBV_WR_ATOMIC_CMP_AND_SWP target_ptr bptr expected desired fence p1
           in bnd (post_wait vb (target_of target_ptr p) wr (p1\<lparr>request_id := request_id p1 + 1\<rparr>)) (\<lambda>_ p2.
                Some (Inr (pmem p2 (ptr_address bptr) = expected, p2))))"

text \<open>The overload that reports the value found through its argument; it always sets the fence.\<close>

definition CompareAndSwap_ref ::
  "'n verbs \<Rightarrow> Pointer \<Rightarrow> u64 \<Rightarrow> u64 \<Rightarrow> 'n MemoryPool \<Rightarrow> (bool \<times> u64, 'n) pool_result" where
  "CompareAndSwap_ref vb target_ptr expected desired p =
     (if \<not> 8 \<le> chunk_size p \<or> \<not> targets target_ptr p then Some (Inl AssertFailed)
      else let (bptr, p1) = next_buffer p;
               wr = atomic_wr IBV_WR_ATOMIC_CMP_AND_SWP target_ptr bptr expected desired True p1
           in bnd (post_wait vb (target_of target_ptr p) wr (p1\<lparr>request_id := request_id p1 + 1\<rparr>)) (\<lambda>_ p2.
                let prev = pmem p2 (ptr_address bptr) in Some (Inr ((prev = expected, prev), p2))))"

definition FetchAndAdd :: "'n verbs \<Rightarrow> Pointer \<Rightarrow> u64 \<Rightarrow> bool \<Rightarrow> 'n MemoryPool \<Rightarrow> (u64, 'n) pool_result" where
  "FetchAndAdd vb target_ptr add fence p =
     (if \<not> 8 \<le> chunk_size p \<or> \<not> targets target_ptr p then Some (Inl AssertFailed)
      else let (bptr, p1) = next_buffer p;
               wr = atomic_wr IBV_WR_ATOMIC_FETCH_AND_ADD target_ptr bptr add 0 fence p1
           in bnd (post_wait vb (target_of target_ptr p) wr (p1\<lparr>request_id := request_id p1 + 1\<rparr>)) (\<lambda>_ p2.
                Some (Inr (pmem p2 (ptr_address bptr), p2))))"

text \<open>Repeat the compare-and-swap with the value found until it succeeds.\<close>

partial_function (option) cas_loop ::
  "'n verbs \<Rightarrow> TargetContext \<Rightarrow> u64 \<Rightarrow> ibv_send_wr \<Rightarrow> 'n MemoryPool \<Rightarrow> (u64, 'n) pool_result" where
  "cas_loop vb target prev wr p = (case post_wait vb target wr p of None \<Rightarrow> None
     | Some (Inl e) \<Rightarrow> Some (Inl e)
     | Some (Inr (u, p1)) \<Rightarrow>
         if pmem p1 prev = wr_compare_add wr then Some (Inr (pmem p1 prev, p1))
         else cas_loop vb target prev (wr\<lparr>wr_compare_add := pmem p1 prev\<rparr>) p1)"

definition Exchange :: "'n verbs \<Rightarrow> Pointer \<Rightarrow> u64 \<Rightarrow> u64 \<Rightarrow> 'n MemoryPool \<Rightarrow> (u64, 'n) pool_result" where
  "Exchange vb target_ptr desired hint p =
     (if \<not> 8 \<le> chunk_size p \<or> \<not> targets target_ptr p then Some (Inl AssertFailed)
      else let (bptr, p1) = next_buffer p;
               wr = atomic_wr IBV_WR_ATOMIC_CMP_AND_SWP target_ptr bptr hint desired True p1
           in cas_loop vb (target_of target_ptr p) (ptr_address bptr) wr (p1\<lparr>request_id := request_id p1 + 1\<rparr>))"

section \<open>Two-sided operations\<close>

definition Send :: "'n verbs \<Rightarrow> u16 \<Rightarrow> Pointer \<Rightarrow> u64 \<Rightarrow> 'n MemoryPool \<Rightarrow> (unit, 'n) pool_result" where
  "Send vb nid local_ptr sz p =
     (if \<not> IsLocal local_ptr p \<or> \<not> sz \<le> chunk_size p \<or> \<not> unat nid < length (target_map p) then Some (Inl AssertFailed)
      else let target = target_map p ! unat nid;
               wr = \<lparr>wr_id = request_id p, wr_sge = sge_of local_ptr sz p, wr_opcode = IBV_WR_SEND,
                     wr_signaled = True, wr_fence = False, wr_remote_addr = 0, wr_rkey = 0, wr_compare_add = 0, wr_swap = 0\<rparr>
           in post_wait vb target wr (p\<lparr>request_id := request_id p + 1\<rparr>))"

definition Send64 :: "'n verbs \<Rightarrow> u16 \<Rightarrow> u64 \<Rightarrow> 'n MemoryPool \<Rightarrow> (unit, 'n) pool_result" where
  "Send64 vb nid val p =
     (if \<not> 8 \<le> chunk_size p \<or> \<not> unat nid < length (target_map p) then Some (Inl AssertFailed)
      else let (bptr, p1) = next_buffer p in Send vb nid bptr 8 (poke (ptr_address bptr) val p1))"

definition Receive :: "'n verbs \<Rightarrow> u16 \<Rightarrow> Pointer \<Rightarrow> u64 \<Rightarrow> 'n MemoryPool \<Rightarrow> (unit, 'n) pool_result" where
  "Receive vb nid local_ptr sz p =
     (if \<not> IsLocal local_ptr p \<or> \<not> sz \<le> chunk_size p \<or> \<not> unat nid < length (target_map p) then Some (Inl AssertFailed)
      else let target = target_map p ! unat nid;
               wr = \<lparr>rwr_id = request_id p, rwr_sge = sge_of local_ptr sz p\<rparr>;
               p1 = p\<lparr>request_id := request_id p + 1\<rparr>
           in case vb_post_recv vb (t_qp target) wr (pworld p1) of (rv, w) \<Rightarrow>
                if rv \<noteq> 0 then Some (Inl (PostFailed rv))
                else wait_completion vb (t_recv_cq target) (p1\<lparr>pworld := w\<rparr>))"

definition Receive64 :: "'n verbs \<Rightarrow> u16 \<Rightarrow> 'n MemoryPool \<Rightarrow> (u64, 'n) pool_result" where
  "Receive64 vb nid p =
     (if \<not> 8 \<le> chunk_size p \<or> \<not> unat nid < length (target_map p) then Some (Inl AssertFailed)
      else let (bptr, p1) = next_buffer p
           in bnd (Receive vb nid bptr 8 p1) (\<lambda>_ p2. Some (Inr (pmem p2 (ptr_address bptr), p2))))"

end
