(* ===== verification/FARLockWords.thy ===== *)
theory FARLockWords
  imports FARLockThms MemoryPool
begin

text \<open>
  FARLock on the words of the cluster's memory: where the fields of \<^verbatim>\<open>include/locks/farlock.h\<close> lie, which
  addresses the handler computes from the lock's pointer and from the pointers it finds in memory, and
  through which of them it reaches the lock and the descriptors.  A step is the same access as in \<open>FARLock\<close>, where
  pointers are the names of threads; the simulation below shows that nothing is lost by this abstraction.
\<close>

section \<open>Layout\<close>

definition kRemoteNextOffset :: u64 where "kRemoteNextOffset = 0"
definition kRemoteTicketOffset :: u64 where "kRemoteTicketOffset = 8"
definition kRemoteToGetTicketOffset :: u64 where "kRemoteToGetTicketOffset = 16"
definition kRemoteGrantedOffset :: u64 where "kRemoteGrantedOffset = 24"
definition kRemoteReleasableOffset :: u64 where "kRemoteReleasableOffset = 32"

definition kRemoteTailOffset :: u64 where "kRemoteTailOffset = 0"
definition kLocalTailOffset :: u64 where "kLocalTailOffset = 8"
definition kRemoteFlagOffset :: u64 where "kRemoteFlagOffset = 16"
definition kVictimOffset :: u64 where "kVictimOffset = 24"
definition kLocalFlagOffset :: u64 where "kLocalFlagOffset = 32"
definition kNextTicketOffset :: u64 where "kNextTicketOffset = 40"
definition kCurrentTicketOffset :: u64 where "kCurrentTicketOffset = 48"

lemmas offset_defs = kRemoteNextOffset_def kRemoteTicketOffset_def kRemoteToGetTicketOffset_def kRemoteGrantedOffset_def
  kRemoteReleasableOffset_def kRemoteTailOffset_def kLocalTailOffset_def kRemoteFlagOffset_def kVictimOffset_def
  kLocalFlagOffset_def kNextTicketOffset_def kCurrentTicketOffset_def

text \<open>A word of the cluster: node and address on that node.\<close>

type_synonym loc = "u16 \<times> u64"

definition ptr_loc :: "Pointer \<Rightarrow> loc" where
  "ptr_loc p = (ptr_id p, ptr_address p)"

text \<open>
  The lock and the handlers: for every thread its node, the address of its \<^verbatim>\<open>local_descriptor_\<close>, and the
  chunks that its handler has allocated.
\<close>

record far_config =
  c_lock :: Pointer
  c_node :: "tid \<Rightarrow> u16"
  c_local_descriptor :: "tid \<Rightarrow> u64"
  c_remote_descriptor :: "tid \<Rightarrow> Pointer"
  c_lock_buffer :: "tid \<Rightarrow> Pointer"

text \<open>The constructor: the lock buffer and the remote descriptor, in this order.\<close>

definition FARLockHandler_new :: "LockConfig \<Rightarrow> 'n MemoryPool \<Rightarrow> (Pointer \<times> Pointer) \<times> 'n MemoryPool" where
  "FARLockHandler_new config p =
     (let (lock_buffer, p) = Allocate p; (remote_descriptor, p) = Allocate p in ((lock_buffer, remote_descriptor), p))"

text \<open>\<^verbatim>\<open>IsLocal\<close> for the lock\<close>

definition c_side :: "far_config \<Rightarrow> tid \<Rightarrow> side" where
  "c_side c t = (if ptr_id (c_lock c) = c_node c t then Local else Remote)"

section \<open>Steps\<close>

text \<open>The variables of a handler: \<^verbatim>\<open>prev\<close>, \<^verbatim>\<open>ticket\<close> and the value that \<^verbatim>\<open>Exchange\<close> compares with.\<close>

record word_handler =
  x_pc :: far_pc
  x_prev :: u64
  x_ticket :: u64
  x_hint :: u64

record far_words =
  x_mem :: "loc \<Rightarrow> u64"
  x_thr :: "tid \<Rightarrow> word_handler"

definition x_store :: "loc \<Rightarrow> u64 \<Rightarrow> far_words \<Rightarrow> far_words" where
  "x_store a v w = w\<lparr>x_mem := (x_mem w)(a := v)\<rparr>"

definition x_upd :: "tid \<Rightarrow> (word_handler \<Rightarrow> word_handler) \<Rightarrow> far_words \<Rightarrow> far_words" where
  "x_upd t f w = w\<lparr>x_thr := (x_thr w)(t := f (x_thr w t))\<rparr>"

definition x_goto :: "far_pc \<Rightarrow> tid \<Rightarrow> far_words \<Rightarrow> far_words" where
  "x_goto p t w = x_upd t (\<lambda>h. h\<lparr>x_pc := p\<rparr>) w"

text \<open>
  \<open>cpu c t a off\<close>: the field at \<open>off\<close> behind address \<open>a\<close>, accessed by the CPU of the thread's node.
  \<open>rdma p off\<close>: the field at \<open>off\<close> behind a pointer, accessed through the pool.
\<close>

definition cpu :: "far_config \<Rightarrow> tid \<Rightarrow> u64 \<Rightarrow> u64 \<Rightarrow> loc" where
  "cpu c t a off = (c_node c t, a + off)"

definition rdma :: "Pointer \<Rightarrow> u64 \<Rightarrow> loc" where
  "rdma p off = ptr_loc (ptr_add p off)"

definition x_LockLocal :: "far_config \<Rightarrow> tid \<Rightarrow> far_words \<Rightarrow> far_words" where
  "x_LockLocal c t w = (let h = x_thr w t; m = x_mem w; lock = cpu c t (ptr_address (c_lock c));
       own = cpu c t (c_local_descriptor c t); prev = cpu c t (x_prev h) in case x_pc h of
     FIdle \<Rightarrow> x_goto FSwap t (x_store (own kRemoteReleasableOffset) kFalse (x_store (own kRemoteGrantedOffset) kFalse
       (x_store (own kRemoteToGetTicketOffset) kFalse (x_store (own kRemoteTicketOffset) kInvalidTicket
       (x_store (own kRemoteNextOffset) 0 w)))))
   | FSwap \<Rightarrow> x_upd t (\<lambda>h. h\<lparr>x_prev := m (lock kLocalTailOffset),
         x_pc := (if m (lock kLocalTailOffset) \<noteq> 0 then FSetNext else FPetFlag)\<rparr>)
       (x_store (lock kLocalTailOffset) (c_local_descriptor c t) w)
   | FSetNext \<Rightarrow> x_goto FLoadTicket t (x_store (prev kRemoteNextOffset) (c_local_descriptor c t) w)
   | FLoadTicket \<Rightarrow> x_upd t (\<lambda>h. h\<lparr>x_ticket := m (prev kRemoteTicketOffset), x_pc := FSetReleasable\<rparr>) w
   | FSetReleasable \<Rightarrow> x_goto (if x_ticket h = kInvalidTicket then FWaitToGet else FPetFlag) t
       (x_store (prev kRemoteReleasableOffset) kTrue w)
   | FWaitToGet \<Rightarrow> if m (own kRemoteToGetTicketOffset) \<noteq> kTrue then w else x_goto FPetFlag t w
   | FPetFlag \<Rightarrow> x_goto FPetVictim t (x_store (lock kLocalFlagOffset) kTrue w)
   | FPetVictim \<Rightarrow> x_goto FPetReadA t (x_store (lock kVictimOffset) kLocalVictim w)
   | FPetReadA \<Rightarrow> x_goto (if m (lock kRemoteFlagOffset) = kTrue then FPetReadB else FTake) t w
   | FPetReadB \<Rightarrow> x_goto (if m (lock kVictimOffset) = kLocalVictim then FPetReadA else FTake) t w
   | FTake \<Rightarrow> x_upd t (\<lambda>h. h\<lparr>x_ticket := m (lock kNextTicketOffset), x_pc := FPetUnlock\<rparr>)
       (x_store (lock kNextTicketOffset) (m (lock kNextTicketOffset) + 1) w)
   | FPetUnlock \<Rightarrow> x_goto FStore t (x_store (lock kLocalFlagOffset) kFalse w)
   | FStore \<Rightarrow> x_goto FLoadNext t (x_store (own kRemoteTicketOffset) (x_ticket h) w)
   | FLoadNext \<Rightarrow> x_goto (if m (own kRemoteNextOffset) \<noteq> 0 then FPass
         else if x_prev h \<noteq> 0 then FAwaitPred else FAwaitTicket) t w
   | FPass \<Rightarrow> x_goto (if x_prev h \<noteq> 0 then FAwaitPred else FAwaitTicket) t
       (x_store (cpu c t (m (own kRemoteNextOffset)) kRemoteToGetTicketOffset) kTrue w)
   | FAwaitPred \<Rightarrow> if m (own kRemoteGrantedOffset) \<noteq> kTrue then w else x_goto FAwaitTicket t w
   | FAwaitTicket \<Rightarrow> if m (own kRemoteTicketOffset) \<noteq> m (lock kCurrentTicketOffset) then w else x_goto FCritical t w
   | _ \<Rightarrow> w)"

definition x_UnlockLocal :: "far_config \<Rightarrow> tid \<Rightarrow> far_words \<Rightarrow> far_words" where
  "x_UnlockLocal c t w = (let h = x_thr w t; m = x_mem w; lock = cpu c t (ptr_address (c_lock c));
       own = cpu c t (c_local_descriptor c t) in case x_pc h of
     FCritical \<Rightarrow> x_goto FCheckNext t (x_store (lock kCurrentTicketOffset) (m (lock kCurrentTicketOffset) + 1) w)
   | FCheckNext \<Rightarrow> x_goto (if m (own kRemoteNextOffset) = 0 then FCasTail else FWaitReleasable) t w
   | FCasTail \<Rightarrow> if m (lock kLocalTailOffset) = c_local_descriptor c t
       then x_goto FIdle t (x_store (lock kLocalTailOffset) 0 w) else x_goto FWaitReleasable t w
   | FWaitReleasable \<Rightarrow> if m (own kRemoteReleasableOffset) \<noteq> kTrue then w else x_goto FGrant t w
   | FGrant \<Rightarrow> x_goto FIdle t (x_store (cpu c t (m (own kRemoteNextOffset)) kRemoteGrantedOffset) kTrue w)
   | _ \<Rightarrow> w)"

text \<open>
  The remote cohort works on its own descriptor and on the lock buffer with the CPU, on the lock and on other
  descriptors through the pool.  A 16-byte transfer is one step per word; the stores into the lock buffer
  before the transfer are seen by no other thread and belong to its first step.
\<close>

definition x_LockRemote :: "far_config \<Rightarrow> tid \<Rightarrow> far_words \<Rightarrow> far_words" where
  "x_LockRemote c t w = (let h = x_thr w t; m = x_mem w; lock = rdma (c_lock c);
       own = cpu c t (ptr_address (c_remote_descriptor c t)); buf = cpu c t (ptr_address (c_lock_buffer c t));
       bufp = rdma (c_lock_buffer c t); prev = rdma (ptr_of_raw (x_prev h)) in case x_pc h of
     FIdle \<Rightarrow> x_upd t (\<lambda>h. h\<lparr>x_pc := FSwap, x_hint := 0\<rparr>)
       (x_store (own kRemoteReleasableOffset) kFalse (x_store (own kRemoteGrantedOffset) kFalse
       (x_store (own kRemoteToGetTicketOffset) kFalse (x_store (own kRemoteTicketOffset) kInvalidTicket
       (x_store (own kRemoteNextOffset) 0 w)))))
   | FSwap \<Rightarrow> if m (lock kRemoteTailOffset) = x_hint h
       then x_upd t (\<lambda>h. h\<lparr>x_prev := x_hint h, x_pc := (if x_hint h \<noteq> 0 then FSetNext else FPetFlag)\<rparr>)
         (x_store (lock kRemoteTailOffset) (praw (c_remote_descriptor c t)) w)
       else x_upd t (\<lambda>h. h\<lparr>x_hint := m (lock kRemoteTailOffset)\<rparr>) w
   | FSetNext \<Rightarrow> x_goto FLoadTicket t (x_store (prev kRemoteNextOffset) (praw (c_remote_descriptor c t)) w)
   | FLoadTicket \<Rightarrow> x_upd t (\<lambda>h. h\<lparr>x_ticket := m (prev kRemoteTicketOffset), x_pc := FSetReleasable\<rparr>) w
   | FSetReleasable \<Rightarrow> x_goto (if x_ticket h = kInvalidTicket then FWaitToGet else FPetFlag) t
       (x_store (prev kRemoteReleasableOffset) kTrue w)
   | FWaitToGet \<Rightarrow> if m (own kRemoteToGetTicketOffset) \<noteq> kTrue then w else x_goto FPetFlag t w
   | FPetFlag \<Rightarrow> let w = x_store (buf kVictimOffset) kRemoteVictim (x_store (buf kRemoteFlagOffset) kTrue w)
       in x_goto FPetVictim t (x_store (lock kRemoteFlagOffset) (x_mem w (bufp kRemoteFlagOffset)) w)
   | FPetVictim \<Rightarrow> x_goto FPetReadA t (x_store (lock (kRemoteFlagOffset + 8)) (m (bufp (kRemoteFlagOffset + 8))) w)
   | FPetReadA \<Rightarrow> x_goto FPetReadB t (x_store (bufp kVictimOffset) (m (lock kVictimOffset)) w)
   | FPetReadB \<Rightarrow> let w = x_store (bufp (kVictimOffset + 8)) (m (lock (kVictimOffset + 8))) w
       in x_goto (if x_mem w (buf kLocalFlagOffset) \<noteq> kTrue \<or> x_mem w (buf kVictimOffset) \<noteq> kRemoteVictim
           then FTake else FPetReadA) t w
   | FTake \<Rightarrow> x_upd t (\<lambda>h. h\<lparr>x_ticket := m (lock kNextTicketOffset), x_pc := FPut\<rparr>) w
   | FPut \<Rightarrow> x_goto FPetUnlock t (x_store (lock kNextTicketOffset) (x_ticket h + 1) w)
   | FPetUnlock \<Rightarrow> x_goto FStore t (x_store (lock kRemoteFlagOffset) kFalse w)
   | FStore \<Rightarrow> x_goto FLoadNext t (x_store (own kRemoteTicketOffset) (x_ticket h) w)
   | FLoadNext \<Rightarrow> x_goto (if m (own kRemoteNextOffset) \<noteq> 0 then FPass
         else if x_prev h \<noteq> 0 then FAwaitPred else FAwaitTicket) t w
   | FPass \<Rightarrow> x_goto (if x_prev h \<noteq> 0 then FAwaitPred else FAwaitTicket) t
       (x_store (rdma (ptr_of_raw (m (own kRemoteNextOffset))) kRemoteToGetTicketOffset) kTrue w)
   | FAwaitPred \<Rightarrow> if m (own kRemoteGrantedOffset) \<noteq> kTrue then w else x_goto FAwaitTicket t w
   | FAwaitTicket \<Rightarrow> if m (own kRemoteTicketOffset) \<noteq> m (lock kCurrentTicketOffset) then w else x_goto FCritical t w
   | _ \<Rightarrow> w)"

definition x_UnlockRemote :: "far_config \<Rightarrow> tid \<Rightarrow> far_words \<Rightarrow> far_words" where
  "x_UnlockRemote c t w = (let h = x_thr w t; m = x_mem w; lock = rdma (c_lock c);
       own = cpu c t (ptr_address (c_remote_descriptor c t)) in case x_pc h of
     FCritical \<Rightarrow> x_goto FCheckNext t (x_store (lock kCurrentTicketOffset) (m (own kRemoteTicketOffset) + 1) w)
   | FCheckNext \<Rightarrow> x_goto (if m (own kRemoteNextOffset) = 0 then FCasTail else FWaitReleasable) t w
   | FCasTail \<Rightarrow> if m (lock kRemoteTailOffset) = praw (c_remote_descriptor c t)
       then x_goto FIdle t (x_store (lock kRemoteTailOffset) 0 w) else x_goto FWaitReleasable t w
   | FWaitReleasable \<Rightarrow> if m (own kRemoteReleasableOffset) \<noteq> kTrue then w else x_goto FGrant t w
   | FGrant \<Rightarrow> x_goto FIdle t (x_store (rdma (ptr_of_raw (m (own kRemoteNextOffset))) kRemoteGrantedOffset) kTrue w)
   | _ \<Rightarrow> w)"

definition x_step :: "far_config \<Rightarrow> tid \<Rightarrow> far_words \<Rightarrow> far_words" where
  "x_step c t w =
     (if x_pc (x_thr w t) \<in> {FCritical, FCheckNext, FCasTail, FWaitReleasable, FGrant}
      then if c_side c t = Local then x_UnlockLocal c t w else x_UnlockRemote c t w
      else if c_side c t = Local then x_LockLocal c t w else x_LockRemote c t w)"

definition x_hold :: "far_words \<Rightarrow> tid \<Rightarrow> bool" where
  "x_hold w t \<longleftrightarrow> x_pc (x_thr w t) = FCritical"

text \<open>
  \<^verbatim>\<open>IsLocked\<close>, through the CPU or with a copy of the lock's line in the buffer; the word of the remote tail is
  read in state \<open>w\<close>, that of the local tail in state \<open>w'\<close>.
\<close>

definition x_IsLocked :: "far_config \<Rightarrow> tid \<Rightarrow> far_words \<Rightarrow> far_words \<Rightarrow> bool" where
  "x_IsLocked c t w w' \<longleftrightarrow> (if c_side c t = Local
     then x_mem w (cpu c t (ptr_address (c_lock c)) kRemoteTailOffset) \<noteq> x_mem w' (cpu c t (ptr_address (c_lock c)) kLocalTailOffset)
     else x_mem w (rdma (c_lock c) kRemoteTailOffset) \<noteq> x_mem w' (rdma (c_lock c) kLocalTailOffset))"

text \<open>The words of the lock are zero, those of descriptors and buffers arbitrary.\<close>

definition x_init :: "far_config \<Rightarrow> (loc \<Rightarrow> u64) \<Rightarrow> far_words" where
  "x_init c m = \<lparr>x_mem = (\<lambda>a. if a \<in> (\<lambda>off. rdma (c_lock c) off) ` {0, 8, 16, 24, 32, 40, 48, 56} then 0 else m a),
     x_thr = (\<lambda>_. \<lparr>x_pc = FIdle, x_prev = 0, x_ticket = 0, x_hint = 0\<rparr>)\<rparr>"

section \<open>Cache lines\<close>

text \<open>Every structure has a cache line of its own.\<close>

definition line_ok :: "loc \<Rightarrow> bool" where
  "line_ok a \<longleftrightarrow> 64 dvd unat (snd a) \<and> unat (snd a) < 2 ^ 48"

definition field :: "loc \<Rightarrow> u64 \<Rightarrow> loc" where
  "field a off = (fst a, snd a + off)"

lemma line_ok_sum: "line_ok a \<Longrightarrow> off < 64 \<Longrightarrow> unat (snd a) + unat off < 2 ^ 48 \<and> unat (snd a + off) = unat (snd a) + unat off"
proof -
  assume a: "line_ok a" and "off < 64"
  then have o: "unat off < 64" by (simp add: word_less_nat_alt)
  obtain k where k: "unat (snd a) = 64 * k" using a by (auto simp: line_ok_def)
  with a have "k < 2 ^ 42" by (simp add: line_ok_def)
  then have "unat (snd a) + unat off < 2 ^ 48" using k o by simp
  then show ?thesis by (simp add: unat_word_ariths)
qed

lemma field_eq_iff:
  assumes "line_ok a" "line_ok b" and "i < 64" "j < 64"
  shows "field a i = field b j \<longleftrightarrow> a = b \<and> i = j"
proof
  assume e: "field a i = field b j"
  have ij: "unat i < 64" "unat j < 64" using assms(3,4) by (simp_all add: word_less_nat_alt)
  have "unat (snd a + i) = unat (snd b + j)" using e by (simp add: field_def)
  then have s: "unat (snd a) + unat i = unat (snd b) + unat j" using line_ok_sum assms by metis
  obtain k l where kl: "unat (snd a) = 64 * k" "unat (snd b) = 64 * l" using assms(1,2) unfolding line_ok_def by (metis dvdE)
  have "(64 * k + unat i) div 64 = (64 * l + unat j) div 64" using s kl by simp
  then have "k = l" using ij by simp
  then have "k = l \<and> unat i = unat j" using s kl by simp
  with kl have "snd a = snd b" "i = j" by (simp_all add: word_unat_eq_iff)
  with e show "a = b \<and> i = j" by (simp add: field_def prod_eq_iff)
qed simp

lemma rdma_field: "line_ok (ptr_loc p) \<Longrightarrow> off < 64 \<Longrightarrow> rdma p off = field (ptr_loc p) off"
proof -
  assume l: "line_ok (ptr_loc p)" and o: "off < 64"
  have "unat (ptr_address p) + unat off < 2 ^ 48" using line_ok_sum [OF l o] by (simp add: ptr_loc_def)
  moreover have "off < 2 ^ 48" using o by (simp add: word_less_nat_alt)
  ultimately show ?thesis using ptr_add_fields [of off p] by (simp add: rdma_def ptr_loc_def field_def)
qed

section \<open>Configurations\<close>

definition lock_line :: "far_config \<Rightarrow> loc" where
  "lock_line c = ptr_loc (c_lock c)"

definition desc_line :: "far_config \<Rightarrow> tid \<Rightarrow> loc" where
  "desc_line c t = (if c_side c t = Local then (c_node c t, c_local_descriptor c t) else ptr_loc (c_remote_descriptor c t))"

definition buf_line :: "far_config \<Rightarrow> tid \<Rightarrow> loc" where
  "buf_line c t = ptr_loc (c_lock_buffer c t)"

text \<open>\<open>T\<close> are the threads that use the lock; every one has its own lines, on its own node.\<close>

definition config_ok :: "far_config \<Rightarrow> tid set \<Rightarrow> bool" where
  "config_ok c T \<longleftrightarrow> line_ok (lock_line c) \<and>
     (\<forall>t \<in> T. line_ok (desc_line c t) \<and> line_ok (buf_line c t) \<and> desc_line c t \<noteq> lock_line c \<and> buf_line c t \<noteq> lock_line c \<and>
        ptr_id (c_remote_descriptor c t) = c_node c t \<and> ptr_id (c_lock_buffer c t) = c_node c t \<and>
        c_local_descriptor c t \<noteq> 0 \<and> praw (c_remote_descriptor c t) \<noteq> 0) \<and>
     inj_on (desc_line c) T \<and> inj_on (buf_line c) T \<and> desc_line c ` T \<inter> buf_line c ` T = {}"

lemma config_lines:
  assumes "config_ok c T"
  shows "line_ok (lock_line c)" and "t \<in> T \<Longrightarrow> line_ok (desc_line c t)" and "t \<in> T \<Longrightarrow> line_ok (buf_line c t)"
    and "t \<in> T \<Longrightarrow> desc_line c t \<noteq> lock_line c" and "t \<in> T \<Longrightarrow> lock_line c \<noteq> desc_line c t"
    and "t \<in> T \<Longrightarrow> buf_line c t \<noteq> lock_line c" and "t \<in> T \<Longrightarrow> lock_line c \<noteq> buf_line c t"
    and "t \<in> T \<Longrightarrow> u \<in> T \<Longrightarrow> desc_line c t = desc_line c u \<longleftrightarrow> t = u"
    and "t \<in> T \<Longrightarrow> u \<in> T \<Longrightarrow> buf_line c t = buf_line c u \<longleftrightarrow> t = u"
    and "t \<in> T \<Longrightarrow> u \<in> T \<Longrightarrow> desc_line c t \<noteq> buf_line c u" and "t \<in> T \<Longrightarrow> u \<in> T \<Longrightarrow> buf_line c u \<noteq> desc_line c t"
  using assms by (auto simp: config_ok_def inj_on_eq_iff)

text \<open>The addresses that the handler computes are fields of these lines.\<close>

lemma cpu_lock: "c_side c t = Local \<Longrightarrow> cpu c t (ptr_address (c_lock c)) off = field (lock_line c) off"
  by (simp add: c_side_def cpu_def lock_line_def field_def ptr_loc_def split: if_splits)

lemma rdma_lock: "config_ok c T \<Longrightarrow> off < 64 \<Longrightarrow> rdma (c_lock c) off = field (lock_line c) off"
  using config_lines(1) by (simp add: lock_line_def rdma_field)

lemma cpu_own: "c_side c t = Local \<Longrightarrow> cpu c t (c_local_descriptor c t) off = field (desc_line c t) off"
  by (simp add: cpu_def desc_line_def field_def)

lemma cpu_remote_own:
  "config_ok c T \<Longrightarrow> t \<in> T \<Longrightarrow> c_side c t = Remote \<Longrightarrow>
     cpu c t (ptr_address (c_remote_descriptor c t)) off = field (desc_line c t) off"
  by (simp add: config_ok_def cpu_def desc_line_def field_def ptr_loc_def)

lemma cpu_buf: "config_ok c T \<Longrightarrow> t \<in> T \<Longrightarrow> cpu c t (ptr_address (c_lock_buffer c t)) off = field (buf_line c t) off"
  by (simp add: config_ok_def cpu_def buf_line_def field_def ptr_loc_def)

lemma rdma_buf: "config_ok c T \<Longrightarrow> t \<in> T \<Longrightarrow> off < 64 \<Longrightarrow> rdma (c_lock_buffer c t) off = field (buf_line c t) off"
  using config_lines(3) by (simp add: buf_line_def rdma_field)

text \<open>Pointers to descriptors as they are stored: plain addresses in the local queue, packed pointers in the remote one.\<close>

definition enc :: "far_config \<Rightarrow> side \<Rightarrow> tid option \<Rightarrow> u64" where
  "enc c d x = (case x of None \<Rightarrow> 0
     | Some u \<Rightarrow> if d = Local then c_local_descriptor c u else praw (c_remote_descriptor c u))"

definition known :: "far_config \<Rightarrow> tid set \<Rightarrow> side \<Rightarrow> tid option \<Rightarrow> bool" where
  "known c T d x \<longleftrightarrow> (case x of None \<Rightarrow> True | Some u \<Rightarrow> u \<in> T \<and> c_side c u = d)"

lemma enc_simps [simp]:
  "enc c d None = 0" "enc c Local (Some u) = c_local_descriptor c u" "enc c Remote (Some u) = praw (c_remote_descriptor c u)"
  "known c T d None" "known c T d (Some u) \<longleftrightarrow> u \<in> T \<and> c_side c u = d"
  by (simp_all add: enc_def known_def)

lemma enc_null: "config_ok c T \<Longrightarrow> known c T d x \<Longrightarrow> enc c d x = 0 \<longleftrightarrow> x = None"
  by (cases x; cases d) (auto simp: config_ok_def)

lemma enc_inj:
  assumes "config_ok c T" and "known c T d x" "known c T d y"
  shows "enc c d x = enc c d y \<longleftrightarrow> x = y"
proof
  assume e: "enc c d x = enc c d y"
  show "x = y"
  proof (cases x)
    case None
    then show ?thesis using e enc_null [OF assms(1,3)] by simp
  next
    case (Some u)
    then have "y \<noteq> None" using e enc_null [OF assms(1,2)] enc_null [OF assms(1,3)] by auto
    then obtain v where v: "y = Some v" by auto
    have uv: "u \<in> T" "v \<in> T" "c_side c u = d" "c_side c v = d" using assms(2,3) Some v by simp_all
    have "desc_line c u = desc_line c v"
    proof (cases d)
      case Local
      then show ?thesis using e Some v uv by (simp add: desc_line_def c_side_def split: if_splits)
    next
      case Remote
      then have "c_remote_descriptor c u = c_remote_descriptor c v" using e Some v by (simp add: Pointer.equality)
      then show ?thesis using uv Remote by (simp add: desc_line_def)
    qed
    then show ?thesis using config_lines(8) [OF assms(1)] uv Some v by simp
  qed
qed simp

lemma cpu_enc:
  "c_side c t = Local \<Longrightarrow> c_side c u = Local \<Longrightarrow> cpu c t (c_local_descriptor c u) off = field (desc_line c u) off"
  by (simp add: cpu_def desc_line_def field_def c_side_def split: if_splits)

lemma ptr_of_raw_praw: "ptr_of_raw (praw p) = p"
  by (simp add: ptr_of_raw_def)

lemma rdma_enc:
  "config_ok c T \<Longrightarrow> u \<in> T \<Longrightarrow> c_side c u = Remote \<Longrightarrow> off < 64 \<Longrightarrow>
     rdma (ptr_of_raw (praw (c_remote_descriptor c u))) off = field (desc_line c u) off"
  using config_lines(2) [of c T u] by (simp add: ptr_of_raw_praw desc_line_def rdma_field)

section \<open>The chunks of a handler\<close>

lemma FARLockHandler_new_chunks:
  assumes "chain (pmem p) (free_next p) (a # b # xs)"
  shows "FARLockHandler_new config p = ((ptr_make (node_id p) a, ptr_make (node_id p) b), p\<lparr>free_next := pmem p b\<rparr>)"
  using assms by (auto simp: FARLockHandler_new_def Allocate_def Let_def)

lemma chunk_line_ok: "64 dvd unat a \<Longrightarrow> a < 2 ^ 48 \<Longrightarrow> ptr_loc (ptr_make nid a) = (nid, a) \<and> line_ok (ptr_loc (ptr_make nid a))"
  using ptr_make_fields [of a nid] by (simp add: ptr_loc_def line_ok_def word_less_nat_alt)

end
