(* ===== verification/Refining.thy ===== *)
theory Refining
  imports Interleaving
begin

text \<open>
  The contract between a protocol over names of threads and the same protocol over memory words: a
  simulation for every configuration \<open>k\<close> of the cluster that is \<open>ok\<close>.  Both sides take the same steps, so
  runs correspond step by step and the words inherit what is known of the names.
\<close>

locale step_refinement =
  fixes ok :: "'k \<Rightarrow> bool"
    and threads :: "'k \<Rightarrow> 't set"
    and cstep :: "'k \<Rightarrow> 't \<Rightarrow> 'c \<Rightarrow> 'c"
    and cinit :: "'k \<Rightarrow> 'c"
    and astep :: "'k \<Rightarrow> 't \<Rightarrow> 'a \<Rightarrow> 'a"
    and ainit :: "'k \<Rightarrow> 'a"
    and sim :: "'k \<Rightarrow> 'c \<Rightarrow> 'a \<Rightarrow> bool"
    and chold :: "'c \<Rightarrow> 't \<Rightarrow> bool"
    and ahold :: "'a \<Rightarrow> 't \<Rightarrow> bool"
  assumes sim_init: "ok k \<Longrightarrow> sim k (cinit k) (ainit k)"
    and sim_step: "ok k \<Longrightarrow> reachable (astep k) UNIV (ainit k) s \<Longrightarrow> sim k w s \<Longrightarrow> t \<in> threads k \<Longrightarrow>
      sim k (cstep k t w) (astep k t s)"
    and sim_hold: "ok k \<Longrightarrow> sim k w s \<Longrightarrow> t \<in> threads k \<Longrightarrow> chold w t \<longleftrightarrow> ahold s t"
begin

lemma run_from:
  "ok k \<Longrightarrow> set sched \<subseteq> threads k \<Longrightarrow> reachable (astep k) UNIV (ainit k) s \<Longrightarrow> sim k w s \<Longrightarrow>
     sim k (run (cstep k) sched w) (run (astep k) sched s)"
proof (induction sched arbitrary: w s)
  case (Cons t sched)
  then show ?case by (auto intro!: Cons.IH sim_step reachable.move)
qed simp

lemma run_refines:
  "ok k \<Longrightarrow> set sched \<subseteq> threads k \<Longrightarrow> sim k (run (cstep k) sched (cinit k)) (run (astep k) sched (ainit k))"
  by (rule run_from [OF _ _ reachable.start sim_init])

lemma mutual_exclusion:
  assumes "ok k" and "set sched \<subseteq> threads k"
    and excl: "\<And>s a b. reachable (astep k) UNIV (ainit k) s \<Longrightarrow> ahold s a \<Longrightarrow> ahold s b \<Longrightarrow> a = b"
    and "a \<in> threads k" "b \<in> threads k"
    and "chold (run (cstep k) sched (cinit k)) a" "chold (run (cstep k) sched (cinit k)) b"
  shows "a = b"
proof (rule excl)
  show "reachable (astep k) UNIV (ainit k) (run (astep k) sched (ainit k))"
    by (rule reachable_run [OF _ reachable.start]) simp
  show "ahold (run (astep k) sched (ainit k)) a" "ahold (run (astep k) sched (ainit k)) b"
    using sim_hold [OF assms(1) run_refines [OF assms(1,2)]] assms(4-7) by blast+
qed

text \<open>Events that both sides see alike happen in the same order.\<close>

lemma events_from:
  assumes "ok k" and ev: "\<And>w s t. sim k w s \<Longrightarrow> t \<in> threads k \<Longrightarrow> cev w t \<longleftrightarrow> aev s t"
  shows "set sched \<subseteq> threads k \<Longrightarrow> reachable (astep k) UNIV (ainit k) s \<Longrightarrow> sim k w s \<Longrightarrow>
    events cev (cstep k) sched w = events aev (astep k) sched s"
proof (induction sched arbitrary: w s)
  case (Cons t sched)
  have "events cev (cstep k) sched (cstep k t w) = events aev (astep k) sched (astep k t s)"
    using Cons.prems by (intro Cons.IH sim_step [OF assms(1)] reachable.move) auto
  then show ?case using ev [OF Cons.prems(3), of t] Cons.prems(1) by simp
qed simp

lemma enters_from:
  assumes "ok k"
  shows "set sched \<subseteq> threads k \<Longrightarrow> reachable (astep k) UNIV (ainit k) s \<Longrightarrow> sim k w s \<Longrightarrow>
    events (enters chold (cstep k)) (cstep k) sched w = events (enters ahold (astep k)) (astep k) sched s"
proof (induction sched arbitrary: w s)
  case (Cons t sched)
  have t: "t \<in> threads k" using Cons.prems(1) by simp
  have s: "sim k (cstep k t w) (astep k t s)" by (rule sim_step [OF assms Cons.prems(2,3) t])
  have "events (enters chold (cstep k)) (cstep k) sched (cstep k t w) = events (enters ahold (astep k)) (astep k) sched (astep k t s)"
    using Cons.prems s by (intro Cons.IH reachable.move) auto
  moreover have "enters chold (cstep k) w t \<longleftrightarrow> enters ahold (astep k) s t"
    using sim_hold [OF assms Cons.prems(3) t] sim_hold [OF assms s t] by (simp add: enters_def)
  ultimately show ?case by simp
qed simp

lemmas same_events = events_from [OF _ _ _ reachable.start sim_init]
lemmas same_entries = enters_from [OF _ _ reachable.start sim_init]

end

end
