(* ===== verification/FARLockWordSim.thy ===== *)
theory FARLockWordSim
  imports FARLockWords Refining
begin

text \<open>
  The simulation between FARLock on words and FARLock on names of threads, and what follows for the words:
  mutual exclusion and the order of entry.
\<close>

section \<open>Corresponding states\<close>

definition R_lock :: "far_config \<Rightarrow> (loc \<Rightarrow> u64) \<Rightarrow> FARLock \<Rightarrow> bool" where
  "R_lock c m l \<longleftrightarrow>
     m (field (lock_line c) kRemoteTailOffset) = enc c Remote (remote_tail l) \<and>
     m (field (lock_line c) kLocalTailOffset) = enc c Local (local_tail l) \<and>
     m (field (lock_line c) kRemoteFlagOffset) = remote_flag l \<and> m (field (lock_line c) kVictimOffset) = victim l \<and>
     m (field (lock_line c) kLocalFlagOffset) = local_flag l \<and> m (field (lock_line c) kNextTicketOffset) = next_ticket l \<and>
     m (field (lock_line c) kCurrentTicketOffset) = current_ticket l"

definition R_desc :: "far_config \<Rightarrow> (loc \<Rightarrow> u64) \<Rightarrow> tid \<Rightarrow> RemoteDescriptor \<Rightarrow> bool" where
  "R_desc c m u d \<longleftrightarrow>
     m (field (desc_line c u) kRemoteNextOffset) = enc c (c_side c u) (d_next d) \<and>
     m (field (desc_line c u) kRemoteTicketOffset) = d_ticket d \<and>
     m (field (desc_line c u) kRemoteToGetTicketOffset) = d_to_get_ticket d \<and>
     m (field (desc_line c u) kRemoteGrantedOffset) = d_granted d \<and>
     m (field (desc_line c u) kRemoteReleasableOffset) = d_releasable d"

definition R_thr :: "far_config \<Rightarrow> tid \<Rightarrow> word_handler \<Rightarrow> far_handler \<Rightarrow> bool" where
  "R_thr c u h f \<longleftrightarrow> x_pc h = h_pc f \<and> x_prev h = enc c (c_side c u) (h_prev f) \<and> x_ticket h = h_ticket f \<and>
     (c_side c u = Remote \<longrightarrow> x_hint h = enc c Remote (h_hint f))"

text \<open>The lock buffer matters only between the two words of a transfer.\<close>

definition R_buf :: "far_config \<Rightarrow> (loc \<Rightarrow> u64) \<Rightarrow> tid \<Rightarrow> far_handler \<Rightarrow> bool" where
  "R_buf c m u f \<longleftrightarrow> c_side c u = Remote \<longrightarrow>
     (h_pc f = FPetVictim \<longrightarrow> m (field (buf_line c u) kVictimOffset) = kRemoteVictim) \<and>
     (h_pc f = FPetReadB \<longrightarrow> m (field (buf_line c u) kVictimOffset) = h_buf_victim f)"

text \<open>\<open>S\<close> are the threads that have initialised their descriptors; only they are pointed to.\<close>

definition names_ok :: "far_config \<Rightarrow> tid set \<Rightarrow> far_state \<Rightarrow> bool" where
  "names_ok c S s \<longleftrightarrow> known c S Remote (remote_tail (f_lock s)) \<and> known c S Local (local_tail (f_lock s)) \<and>
     (\<forall>t. known c S (c_side c t) (h_prev (f_thr s t))) \<and> (\<forall>t \<in> S. known c S (c_side c t) (d_next (f_desc s t))) \<and>
     (\<forall>t. c_side c t = Remote \<longrightarrow> known c S Remote (h_hint (f_thr s t))) \<and> (\<forall>t. f_at s t \<noteq> FIdle \<longrightarrow> t \<in> S)"

definition words_sim :: "far_config \<Rightarrow> tid set \<Rightarrow> tid set \<Rightarrow> far_words \<Rightarrow> far_state \<Rightarrow> bool" where
  "words_sim c T S w s \<longleftrightarrow> S \<subseteq> T \<and> R_lock c (x_mem w) (f_lock s) \<and> (\<forall>u \<in> S. R_desc c (x_mem w) u (f_desc s u)) \<and>
     (\<forall>u \<in> T. R_thr c u (x_thr w u) (f_thr s u) \<and> R_buf c (x_mem w) u (f_thr s u))"

section \<open>Stores\<close>

text \<open>A store to one line leaves the others alone.\<close>

lemmas R_defs = R_lock_def R_desc_def R_buf_def offset_defs

lemma R_lock_frame:
  assumes "config_ok c T" and "u \<in> T" and "off < 64"
  shows "R_lock c (m(field (desc_line c u) off := v)) l = R_lock c m l"
    and "R_lock c (m(field (buf_line c u) off := v)) l = R_lock c m l"
  using assms config_lines [OF assms(1)] by (simp_all add: R_defs field_eq_iff)

lemma R_desc_frame:
  assumes "config_ok c T" and "t \<in> T" and "u \<in> T" and "off < 64"
  shows "R_desc c (m(field (lock_line c) off := v)) u d = R_desc c m u d"
    and "R_desc c (m(field (buf_line c t) off := v)) u d = R_desc c m u d"
    and "t \<noteq> u \<Longrightarrow> R_desc c (m(field (desc_line c t) off := v)) u d = R_desc c m u d"
  using assms config_lines [OF assms(1)] by (simp_all add: R_defs field_eq_iff)

lemma R_buf_frame:
  assumes "config_ok c T" and "t \<in> T" and "u \<in> T" and "off < 64"
  shows "R_buf c (m(field (lock_line c) off := v)) u f = R_buf c m u f"
    and "R_buf c (m(field (desc_line c t) off := v)) u f = R_buf c m u f"
    and "t \<noteq> u \<Longrightarrow> R_buf c (m(field (buf_line c t) off := v)) u f = R_buf c m u f"
  using assms config_lines [OF assms(1)] by (simp_all add: R_defs field_eq_iff)

text \<open>A store to a field is an update of the record.\<close>

lemma R_lock_store:
  assumes "config_ok c T" and "R_lock c m l"
  shows "R_lock c (m(field (lock_line c) kRemoteTailOffset := enc c Remote x)) (l\<lparr>remote_tail := x\<rparr>)"
    and "R_lock c (m(field (lock_line c) kLocalTailOffset := enc c Local x)) (l\<lparr>local_tail := x\<rparr>)"
    and "R_lock c (m(field (lock_line c) kRemoteFlagOffset := v)) (l\<lparr>remote_flag := v\<rparr>)"
    and "R_lock c (m(field (lock_line c) kVictimOffset := v)) (l\<lparr>victim := v\<rparr>)"
    and "R_lock c (m(field (lock_line c) kLocalFlagOffset := v)) (l\<lparr>local_flag := v\<rparr>)"
    and "R_lock c (m(field (lock_line c) kNextTicketOffset := v)) (l\<lparr>next_ticket := v\<rparr>)"
    and "R_lock c (m(field (lock_line c) kCurrentTicketOffset := v)) (l\<lparr>current_ticket := v\<rparr>)"
  using assms(2) config_lines(1) [OF assms(1)] by (simp_all add: R_defs field_eq_iff)

lemma R_desc_store:
  assumes "config_ok c T" and "u \<in> T" and "R_desc c m u d"
  shows "R_desc c (m(field (desc_line c u) kRemoteNextOffset := enc c (c_side c u) x)) u (d\<lparr>d_next := x\<rparr>)"
    and "R_desc c (m(field (desc_line c u) kRemoteTicketOffset := v)) u (d\<lparr>d_ticket := v\<rparr>)"
    and "R_desc c (m(field (desc_line c u) kRemoteToGetTicketOffset := v)) u (d\<lparr>d_to_get_ticket := v\<rparr>)"
    and "R_desc c (m(field (desc_line c u) kRemoteGrantedOffset := v)) u (d\<lparr>d_granted := v\<rparr>)"
    and "R_desc c (m(field (desc_line c u) kRemoteReleasableOffset := v)) u (d\<lparr>d_releasable := v\<rparr>)"
  using assms(3) config_lines(2) [OF assms(1,2)] by (simp_all add: R_defs field_eq_iff)

text \<open>Initialising a descriptor needs nothing of its old contents.\<close>

lemma R_desc_reset:
  assumes "config_ok c T" and "u \<in> T"
  shows "R_desc c (m(field (desc_line c u) kRemoteNextOffset := 0, field (desc_line c u) kRemoteTicketOffset := kInvalidTicket,
    field (desc_line c u) kRemoteToGetTicketOffset := kFalse, field (desc_line c u) kRemoteGrantedOffset := kFalse,
    field (desc_line c u) kRemoteReleasableOffset := kFalse)) u far_desc0"
  using config_lines(2) [OF assms] by (simp add: R_defs field_eq_iff)

section \<open>Names stay known\<close>

text \<open>\<open>linked s t\<close>: the pointers that the next step of \<open>t\<close> follows are not null.\<close>

definition linked :: "far_state \<Rightarrow> tid \<Rightarrow> bool" where
  "linked s t \<longleftrightarrow> (f_at s t \<in> {FSetNext, FLoadTicket, FSetReleasable} \<longrightarrow> h_prev (f_thr s t) \<noteq> None) \<and>
     (f_at s t \<in> {FPass, FGrant} \<longrightarrow> d_next (f_desc s t) \<noteq> None)"

lemma linked_inv:
  assumes "far_inv sd s g"
  shows "linked s t"
proof -
  note q = far_invD(1) [OF assms]
  have "f_next s t \<noteq> None" if "f_at s t = FGrant"
  proof -
    have "t \<in> set (g_queue g (sd t))" "t \<noteq> last (g_queue g (sd t))" "f_rel s t = kTrue"
      using q that by (simp_all add: far_q_def)
    then obtain b where b: "adj (g_queue g (sd t)) t b" using adj_ex_right by metis
    have "5 \<le> fR s b" using far_q_rel [OF q b] \<open>f_rel s t = kTrue\<close> by (auto simp: kTrue_def kFalse_def split: if_splits)
    then show ?thesis using far_q_shape [OF q, of "sd t"] b by (auto simp: mcs_shape_def)
  qed
  moreover have "f_next s t \<noteq> None" if "f_at s t = FPass" using q that by (simp add: far_q_def)
  moreover have "f_prev s t \<noteq> None" if "f_at s t \<in> {FSetNext, FLoadTicket, FSetReleasable}"
    using far_q_has_prev [OF q, of t] that by auto
  ultimately show ?thesis by (auto simp: linked_def)
qed

lemma known_mono: "known c S d x \<Longrightarrow> S \<subseteq> S' \<Longrightarrow> known c S' d x"
  by (cases x) auto

lemma names_ok_step:
  assumes "names_ok c S s" and "linked s t"
  shows "names_ok c (insert t S) (far_step (c_side c) t s)"
proof (cases "f_at s t = FIdle")
  case True
  have m: "known c (insert t S) d x" if "known c S d x" for d x using that by (rule known_mono) blast
  then show ?thesis using assms(1) True eff_Idle [OF True, of "c_side c"] by (auto simp: names_ok_def)
next
  case False
  then have S: "insert t S = S" "t \<in> S" using assms(1) by (auto simp: names_ok_def)
  have p: "known c S (c_side c t) (f_prev s t)" "known c S (c_side c t) (f_next s t)"
    and h: "c_side c t = Remote \<Longrightarrow> known c S Remote (h_hint (f_thr s t))"
    using assms(1) S by (simp_all add: names_ok_def)
  show ?thesis unfolding S
    using False assms p h S(2) by (cases "f_at s t"; cases "c_side c t") (auto simp: names_ok_def linked_def far_defs)
qed

section \<open>Steps\<close>

lemma x_simps [simp]:
  "x_mem (x_store a v w) = (x_mem w)(a := v)" "x_thr (x_store a v w) = x_thr w"
  "x_mem (x_upd t f w) = x_mem w" "x_thr (x_upd t f w) = (x_thr w)(t := f (x_thr w t))"
  "x_mem (x_goto p t w) = x_mem w" "x_thr (x_goto p t w) = (x_thr w)(t := (x_thr w t)\<lparr>x_pc := p\<rparr>)"
  by (simp_all add: x_store_def x_upd_def x_goto_def)

lemmas x_defs = x_step_def x_LockLocal_def x_UnlockLocal_def x_LockRemote_def x_UnlockRemote_def Let_def

lemma x_thr_other: "u \<noteq> t \<Longrightarrow> x_thr (x_step c t w) u = x_thr w u"
  by (cases "x_pc (x_thr w t)"; simp add: x_defs)

text \<open>
  One lemma per kind of store: none, to the lock, to a descriptor, to the own buffer.  Of the variables
  only those of the thread itself need to be looked at.
\<close>

abbreviation own_sim :: "far_config \<Rightarrow> tid \<Rightarrow> far_words \<Rightarrow> far_state \<Rightarrow> bool" where
  "own_sim c t w s \<equiv> R_thr c t (x_thr (x_step c t w) t) (f_thr (far_step (c_side c) t s) t)"

abbreviation buf_sim :: "far_config \<Rightarrow> tid \<Rightarrow> (loc \<Rightarrow> u64) \<Rightarrow> far_state \<Rightarrow> bool" where
  "buf_sim c t m s \<equiv> R_buf c m t (f_thr (far_step (c_side c) t s) t)"

lemma sim_others:
  assumes "words_sim c T S w s" and "own_sim c t w s" and "R_lock c m l" and "\<forall>u \<in> S. R_desc c m u (d u)"
    and "buf_sim c t m s" and "\<And>u. u \<in> T \<Longrightarrow> u \<noteq> t \<Longrightarrow> R_buf c m u (f_thr s u)"
    and "x_mem (x_step c t w) = m" "f_lock (far_step (c_side c) t s) = l" "f_desc (far_step (c_side c) t s) = d"
  shows "words_sim c T S (x_step c t w) (far_step (c_side c) t s)"
proof -
  have "R_thr c u (x_thr (x_step c t w) u) (f_thr (far_step (c_side c) t s) u) \<and> R_buf c m u (f_thr (far_step (c_side c) t s) u)"
    if "u \<in> T" for u
    using assms(1,2,5,6) that by (cases "u = t") (simp_all add: words_sim_def x_thr_other far_thr_other)
  then show ?thesis using assms by (simp add: words_sim_def)
qed

lemma sim_plain:
  assumes "words_sim c T S w s" and "own_sim c t w s" and "buf_sim c t (x_mem w) s"
    and "x_mem (x_step c t w) = x_mem w" "f_lock (far_step (c_side c) t s) = f_lock s" "f_desc (far_step (c_side c) t s) = f_desc s"
  shows "words_sim c T S (x_step c t w) (far_step (c_side c) t s)"
  by (rule sim_others [OF assms(1,2) _ _ assms(3) _ assms(4-6)]) (use assms(1) in \<open>simp_all add: words_sim_def\<close>)

lemma sim_lock:
  assumes "config_ok c T" "t \<in> T" and "words_sim c T S w s" and "off < 64" and "own_sim c t w s" and "buf_sim c t (x_mem w) s"
    and "x_mem (x_step c t w) = (x_mem w)(field (lock_line c) off := v)" "f_desc (far_step (c_side c) t s) = f_desc s"
    and "R_lock c ((x_mem w)(field (lock_line c) off := v)) (f_lock (far_step (c_side c) t s))"
  shows "words_sim c T S (x_step c t w) (far_step (c_side c) t s)"
proof (rule sim_others [OF assms(3,5,9) _ _ _ assms(7) refl assms(8)])
  show "\<forall>u \<in> S. R_desc c ((x_mem w)(field (lock_line c) off := v)) u (f_desc s u)"
    using assms(3) R_desc_frame(1) [OF assms(1,2) _ assms(4)] by (auto simp: words_sim_def)
qed (use assms R_buf_frame(1) [OF assms(1,2) _ assms(4)] in \<open>simp_all add: words_sim_def\<close>)

lemma sim_desc:
  assumes "config_ok c T" "t \<in> T" and "words_sim c T S w s" and "p \<in> S" and "off < 64" and "own_sim c t w s" and "buf_sim c t (x_mem w) s"
    and "x_mem (x_step c t w) = (x_mem w)(field (desc_line c p) off := v)"
      "f_lock (far_step (c_side c) t s) = f_lock s" "f_desc (far_step (c_side c) t s) = (f_desc s)(p := d)"
    and "R_desc c ((x_mem w)(field (desc_line c p) off := v)) p d"
  shows "words_sim c T S (x_step c t w) (far_step (c_side c) t s)"
proof (rule sim_others [OF assms(3,6) _ _ _ _ assms(8-10)])
  have p: "p \<in> T" using assms(3,4) by (auto simp: words_sim_def)
  show "\<forall>u \<in> S. R_desc c ((x_mem w)(field (desc_line c p) off := v)) u (((f_desc s)(p := d)) u)"
    using assms(3,11) R_desc_frame(3) [OF assms(1) p _ assms(5)] by (auto simp: words_sim_def)
  show "R_lock c ((x_mem w)(field (desc_line c p) off := v)) (f_lock s)"
    using assms(3) R_lock_frame(1) [OF assms(1) p assms(5)] by (simp add: words_sim_def)
  show "buf_sim c t ((x_mem w)(field (desc_line c p) off := v)) s" using assms(7) R_buf_frame(2) [OF assms(1) p assms(2,5)] by simp
  show "R_buf c ((x_mem w)(field (desc_line c p) off := v)) u (f_thr s u)" if "u \<in> T" for u
    using assms(3) that R_buf_frame(2) [OF assms(1) p that assms(5)] by (simp add: words_sim_def)
qed

text \<open>What the step of a thread sees.\<close>

lemma sim_own:
  assumes "words_sim c T S w s" and "t \<in> T"
  shows "x_pc (x_thr w t) = f_at s t" "x_prev (x_thr w t) = enc c (c_side c t) (f_prev s t)" "x_ticket (x_thr w t) = f_tk s t"
    and "c_side c t = Remote \<Longrightarrow> x_hint (x_thr w t) = enc c Remote (h_hint (f_thr s t))"
    and "R_lock c (x_mem w) (f_lock s)" and "R_buf c (x_mem w) t (f_thr s t)"
    and "u \<in> S \<Longrightarrow> R_desc c (x_mem w) u (f_desc s u)"
  using assms by (simp_all add: words_sim_def R_thr_def)

lemma sim_names:
  assumes "words_sim c T S w s" and "names_ok c S s"
  shows "known c T (c_side c t) (f_prev s t)" and "t \<in> S \<Longrightarrow> known c T (c_side c t) (f_next s t)"
    and "known c T Remote (remote_tail (f_lock s))" "known c T Local (local_tail (f_lock s))"
    and "c_side c t = Remote \<Longrightarrow> known c T Remote (h_hint (f_thr s t))"
    and "f_prev s t = Some p \<Longrightarrow> p \<in> S \<and> c_side c p = c_side c t"
    and "t \<in> S \<Longrightarrow> f_next s t = Some p \<Longrightarrow> p \<in> S \<and> c_side c p = c_side c t"
    and "f_at s t \<noteq> FIdle \<Longrightarrow> t \<in> S"
proof -
  have S: "S \<subseteq> T" using assms(1) by (simp add: words_sim_def)
  have p: "known c S (c_side c t) (f_prev s t)" "t \<in> S \<Longrightarrow> known c S (c_side c t) (f_next s t)"
    and h: "c_side c t = Remote \<Longrightarrow> known c S Remote (h_hint (f_thr s t))"
    and l: "known c S Remote (remote_tail (f_lock s))" "known c S Local (local_tail (f_lock s))"
    using assms(2) by (simp_all add: names_ok_def)
  show "known c T (c_side c t) (f_prev s t)" "t \<in> S \<Longrightarrow> known c T (c_side c t) (f_next s t)"
    "known c T Remote (remote_tail (f_lock s))" "known c T Local (local_tail (f_lock s))"
    "c_side c t = Remote \<Longrightarrow> known c T Remote (h_hint (f_thr s t))"
    using p h l known_mono [OF _ S] by blast+
  show "f_prev s t = Some p \<Longrightarrow> p \<in> S \<and> c_side c p = c_side c t" using p(1) by simp
  show "t \<in> S \<Longrightarrow> f_next s t = Some p \<Longrightarrow> p \<in> S \<and> c_side c p = c_side c t" using p(2) by simp
  show "f_at s t \<noteq> FIdle \<Longrightarrow> t \<in> S" using assms(2) by (simp add: names_ok_def)
qed

lemma offset_less [simp]:
  "kRemoteNextOffset < 64" "kRemoteTicketOffset < 64" "kRemoteToGetTicketOffset < 64" "kRemoteGrantedOffset < 64"
  "kRemoteReleasableOffset < 64" "kRemoteTailOffset < 64" "kLocalTailOffset < 64" "kRemoteFlagOffset < 64"
  "kVictimOffset < 64" "kLocalFlagOffset < 64" "kNextTicketOffset < 64" "kCurrentTicketOffset < 64"
  by (simp_all add: offset_defs)

text \<open>The situation in which thread \<open>t\<close> takes a step, and what it finds in memory.\<close>

definition sim_ctx :: "far_config \<Rightarrow> tid set \<Rightarrow> tid set \<Rightarrow> tid \<Rightarrow> far_words \<Rightarrow> far_state \<Rightarrow> bool" where
  "sim_ctx c T S t w s \<longleftrightarrow> config_ok c T \<and> t \<in> T \<and> words_sim c T S w s \<and> names_ok c S s \<and> linked s t"

lemma ctxD:
  assumes "sim_ctx c T S t w s"
  shows "config_ok c T" "t \<in> T" "words_sim c T S w s" "names_ok c S s" "linked s t"
  using assms by (simp_all add: sim_ctx_def)

lemma ctx_adr:
  assumes "sim_ctx c T S t w s"
  shows "c_side c t = Local \<Longrightarrow> cpu c t (ptr_address (c_lock c)) off = field (lock_line c) off"
    and "off < 64 \<Longrightarrow> rdma (c_lock c) off = field (lock_line c) off"
    and "c_side c t = Local \<Longrightarrow> cpu c t (c_local_descriptor c t) off = field (desc_line c t) off"
    and "c_side c t = Remote \<Longrightarrow> cpu c t (ptr_address (c_remote_descriptor c t)) off = field (desc_line c t) off"
    and "cpu c t (ptr_address (c_lock_buffer c t)) off = field (buf_line c t) off"
    and "off < 64 \<Longrightarrow> rdma (c_lock_buffer c t) off = field (buf_line c t) off"
  using ctxD [OF assms] by (simp_all add: cpu_lock rdma_lock cpu_own cpu_remote_own cpu_buf rdma_buf)

lemma ctx_own:
  assumes "sim_ctx c T S t w s"
  shows "x_pc (x_thr w t) = f_at s t" "x_prev (x_thr w t) = enc c (c_side c t) (f_prev s t)" "x_ticket (x_thr w t) = f_tk s t"
    and "c_side c t = Remote \<Longrightarrow> x_hint (x_thr w t) = enc c Remote (h_hint (f_thr s t))"
  using sim_own [OF ctxD(3,2) [OF assms]] by simp_all

lemma ctx_lock:
  assumes "sim_ctx c T S t w s"
  shows "x_mem w (field (lock_line c) kRemoteTailOffset) = enc c Remote (remote_tail (f_lock s))"
    and "x_mem w (field (lock_line c) kLocalTailOffset) = enc c Local (local_tail (f_lock s))"
    and "x_mem w (field (lock_line c) kRemoteFlagOffset) = remote_flag (f_lock s)"
    and "x_mem w (field (lock_line c) kVictimOffset) = victim (f_lock s)"
    and "x_mem w (field (lock_line c) kLocalFlagOffset) = local_flag (f_lock s)"
    and "x_mem w (field (lock_line c) kNextTicketOffset) = next_ticket (f_lock s)"
    and "x_mem w (field (lock_line c) kCurrentTicketOffset) = current_ticket (f_lock s)"
  using sim_own(5) [OF ctxD(3,2) [OF assms]] by (simp_all add: R_lock_def)

lemma ctx_desc:
  assumes "sim_ctx c T S t w s" and "u \<in> S"
  shows "x_mem w (field (desc_line c u) kRemoteNextOffset) = enc c (c_side c u) (f_next s u)"
    and "x_mem w (field (desc_line c u) kRemoteTicketOffset) = f_dtk s u"
    and "x_mem w (field (desc_line c u) kRemoteToGetTicketOffset) = f_toget s u"
    and "x_mem w (field (desc_line c u) kRemoteGrantedOffset) = f_granted s u"
    and "x_mem w (field (desc_line c u) kRemoteReleasableOffset) = f_rel s u"
  using sim_own(7) [OF ctxD(3,2) [OF assms(1)] assms(2)] by (simp_all add: R_desc_def)

lemma ctx_desc_at:
  assumes "sim_ctx c T S t w s" and "u \<in> S"
  shows "config_ok c T" "u \<in> T" "R_desc c (x_mem w) u (f_desc s u)"
  using ctxD [OF assms(1)] assms(2) by (auto simp: words_sim_def)

lemma ctx_null:
  assumes "sim_ctx c T S t w s"
  shows "c_side c t = d \<Longrightarrow> enc c d (f_prev s t) = 0 \<longleftrightarrow> f_prev s t = None"
    and "c_side c t = d \<Longrightarrow> t \<in> S \<Longrightarrow> enc c d (f_next s t) = 0 \<longleftrightarrow> f_next s t = None"
  using enc_null [OF ctxD(1) [OF assms]] sim_names [OF ctxD(3,4) [OF assms]] by auto

text \<open>A descriptor that is reached through a pointer.\<close>

lemma ctx_follow:
  assumes "sim_ctx c T S t w s" and "p \<in> S" and "c_side c p = c_side c t"
  shows "c_side c t = Local \<Longrightarrow> cpu c t (c_local_descriptor c p) off = field (desc_line c p) off"
    and "c_side c t = Remote \<Longrightarrow> off < 64 \<Longrightarrow> rdma (ptr_of_raw (praw (c_remote_descriptor c p))) off = field (desc_line c p) off"
proof -
  have "p \<in> T" using ctxD(3) [OF assms(1)] assms(2) by (auto simp: words_sim_def)
  then show "c_side c t = Local \<Longrightarrow> cpu c t (c_local_descriptor c p) off = field (desc_line c p) off"
    and "c_side c t = Remote \<Longrightarrow> off < 64 \<Longrightarrow> rdma (ptr_of_raw (praw (c_remote_descriptor c p))) off = field (desc_line c p) off"
    using assms(3) ctxD(1) [OF assms(1)] by (simp_all add: cpu_enc rdma_enc)
qed

lemma ctx_prev:
  assumes "sim_ctx c T S t w s" and "f_at s t \<in> {FSetNext, FLoadTicket, FSetReleasable}"
  obtains p where "f_prev s t = Some p" "p \<in> S" "c_side c p = c_side c t"
proof -
  obtain p where p: "f_prev s t = Some p" using ctxD(5) [OF assms(1)] assms(2) by (auto simp: linked_def)
  with sim_names(6) [OF ctxD(3,4) [OF assms(1)] p] that show thesis by blast
qed

lemma ctx_next:
  assumes "sim_ctx c T S t w s" and "f_at s t \<in> {FPass, FGrant}"
  obtains p where "f_next s t = Some p" "p \<in> S" "c_side c p = c_side c t"
proof -
  have t: "t \<in> S" using sim_names(8) [OF ctxD(3,4) [OF assms(1)], of t] assms(2) by auto
  obtain p where p: "f_next s t = Some p" using ctxD(5) [OF assms(1)] assms(2) by (auto simp: linked_def)
  with sim_names(7) [OF ctxD(3,4) [OF assms(1)] t p] that show thesis by blast
qed

lemma ctx_started: "sim_ctx c T S t w s \<Longrightarrow> f_at s t \<noteq> FIdle \<Longrightarrow> t \<in> S"
  using sim_names(8) ctxD(3,4) by blast

text \<open>The steps that store nothing in memory.\<close>

lemma step_LoadTicket:
  assumes ctx: "sim_ctx c T S t w s" and at: "f_at s t = FLoadTicket"
  shows "words_sim c T S (x_step c t w) (far_step (c_side c) t s)"
proof -
  obtain p where p: "f_prev s t = Some p" "p \<in> S" "c_side c p = c_side c t" by (rule ctx_prev [OF ctx]) (use at in auto)
  note own = ctx_own [OF ctx, unfolded p at]
  have "x_step c t w = x_upd t (\<lambda>h. h\<lparr>x_ticket := f_dtk s p, x_pc := FSetReleasable\<rparr>) w"
    by (cases "c_side c t") (simp_all add: x_defs own ctx_follow [OF ctx p(2,3)] ctx_desc [OF ctx p(2)])
  then show ?thesis
    by (intro sim_plain [OF ctxD(3) [OF ctx]]) (simp_all add: eff_LoadTicket [OF at p(1)] R_thr_def R_buf_def own p)
qed

lemma x_goto_id: "x_pc (x_thr w t) = p \<Longrightarrow> x_goto p t w = w"
  by (cases w) (auto simp: x_goto_def x_upd_def)

lemma step_quiet:
  assumes ctx: "sim_ctx c T S t w s"
    and at: "f_at s t \<in> {FWaitToGet, FLoadNext, FAwaitPred, FAwaitTicket, FCheckNext, FWaitReleasable} \<or>
      c_side c t = Local \<and> f_at s t \<in> {FPetReadA, FPetReadB, FPut}"
  shows "words_sim c T S (x_step c t w) (far_step (c_side c) t s)"
proof -
  have S: "t \<in> S" by (rule ctx_started [OF ctx]) (use at in auto)
  note own = ctx_own [OF ctx]
  have x: "x_step c t w = x_goto (f_at (far_step (c_side c) t s) t) t w"
    using at by (cases "c_side c t"; elim disjE conjE insertE emptyE)
      (simp_all add: x_defs far_defs own ctx_adr [OF ctx] ctx_desc [OF ctx S] ctx_lock [OF ctx] ctx_null [OF ctx] S x_goto_id)
  have e: "f_lock (far_step (c_side c) t s) = f_lock s" "f_desc (far_step (c_side c) t s) = f_desc s"
    "f_prev (far_step (c_side c) t s) t = f_prev s t" "f_tk (far_step (c_side c) t s) t = f_tk s t"
    "h_hint (f_thr (far_step (c_side c) t s) t) = h_hint (f_thr s t)"
    "c_side c t = Remote \<Longrightarrow> f_at (far_step (c_side c) t s) t \<notin> {FPetVictim, FPetReadB}"
    using at by (elim disjE conjE insertE emptyE; simp add: far_defs)+
  show ?thesis
    by (rule sim_plain [OF ctxD(3) [OF ctx]]) (use e(6) in \<open>simp_all add: x e(1-5) own R_thr_def R_buf_def\<close>)
qed

lemma step_Take_remote:
  assumes ctx: "sim_ctx c T S t w s" and at: "f_at s t = FTake" and "c_side c t = Remote"
  shows "words_sim c T S (x_step c t w) (far_step (c_side c) t s)"
  by (rule sim_plain [OF ctxD(3) [OF ctx]])
    (simp_all add: x_defs far_defs ctx_own [OF ctx] assms(2,3) ctx_adr [OF ctx] ctx_lock [OF ctx] R_thr_def R_buf_def)

text \<open>The steps that store into a descriptor.\<close>

lemma step_SetNext:
  assumes ctx: "sim_ctx c T S t w s" and at: "f_at s t = FSetNext"
  shows "words_sim c T S (x_step c t w) (far_step (c_side c) t s)"
proof -
  obtain p where p: "f_prev s t = Some p" "p \<in> S" "c_side c p = c_side c t" by (rule ctx_prev [OF ctx]) (use at in auto)
  note own = ctx_own [OF ctx, unfolded p at]
  have "x_step c t w = x_goto FLoadTicket t (x_store (field (desc_line c p) kRemoteNextOffset) (enc c (c_side c p) (Some t)) w)"
    by (cases "c_side c t") (simp_all add: x_defs own p(3) ctx_follow [OF ctx p(2,3)])
  moreover have "R_desc c ((x_mem w)(field (desc_line c p) kRemoteNextOffset := enc c (c_side c p) (Some t))) p ((f_desc s p)\<lparr>d_next := Some t\<rparr>)"
    by (rule R_desc_store(1) [OF ctx_desc_at [OF ctx p(2)]])
  ultimately show ?thesis
    by (intro sim_desc [OF ctxD(1-3) [OF ctx] p(2) offset_less(1)])
      (simp_all add: eff_SetNext [OF at p(1)] R_thr_def R_buf_def own p(1))
qed

lemma step_SetReleasable:
  assumes ctx: "sim_ctx c T S t w s" and at: "f_at s t = FSetReleasable"
  shows "words_sim c T S (x_step c t w) (far_step (c_side c) t s)"
proof -
  obtain p where p: "f_prev s t = Some p" "p \<in> S" "c_side c p = c_side c t" by (rule ctx_prev [OF ctx]) (use at in auto)
  note own = ctx_own [OF ctx, unfolded p at]
  have "x_step c t w = x_goto (if f_tk s t = kInvalidTicket then FWaitToGet else FPetFlag) t
      (x_store (field (desc_line c p) kRemoteReleasableOffset) kTrue w)"
    by (cases "c_side c t") (simp_all add: x_defs own p(3) ctx_follow [OF ctx p(2,3)])
  moreover have "R_desc c ((x_mem w)(field (desc_line c p) kRemoteReleasableOffset := kTrue)) p ((f_desc s p)\<lparr>d_releasable := kTrue\<rparr>)"
    by (rule R_desc_store(5) [OF ctx_desc_at [OF ctx p(2)]])
  ultimately show ?thesis
    by (intro sim_desc [OF ctxD(1-3) [OF ctx] p(2) offset_less(5)])
      (simp_all add: eff_SetReleasable [OF at p(1)] R_thr_def R_buf_def own p(1))
qed

lemma step_Store:
  assumes ctx: "sim_ctx c T S t w s" and at: "f_at s t = FStore"
  shows "words_sim c T S (x_step c t w) (far_step (c_side c) t s)"
proof -
  have S: "t \<in> S" by (rule ctx_started [OF ctx]) (simp add: at)
  note own = ctx_own [OF ctx, unfolded at]
  have "x_step c t w = x_goto FLoadNext t (x_store (field (desc_line c t) kRemoteTicketOffset) (f_tk s t) w)"
    by (cases "c_side c t") (simp_all add: x_defs own ctx_adr [OF ctx])
  moreover have "R_desc c ((x_mem w)(field (desc_line c t) kRemoteTicketOffset := f_tk s t)) t ((f_desc s t)\<lparr>d_ticket := f_tk s t\<rparr>)"
    by (rule R_desc_store(2) [OF ctx_desc_at [OF ctx S]])
  ultimately show ?thesis
    by (intro sim_desc [OF ctxD(1-3) [OF ctx] S offset_less(2)]) (simp_all add: far_defs at R_thr_def R_buf_def own)
qed

lemma step_Pass:
  assumes ctx: "sim_ctx c T S t w s" and at: "f_at s t = FPass"
  shows "words_sim c T S (x_step c t w) (far_step (c_side c) t s)"
proof -
  obtain p where p: "f_next s t = Some p" "p \<in> S" "c_side c p = c_side c t" by (rule ctx_next [OF ctx]) (use at in auto)
  have S: "t \<in> S" by (rule ctx_started [OF ctx]) (simp add: at)
  note own = ctx_own [OF ctx, unfolded at] and nx = ctx_desc(1) [OF ctx S, unfolded p]
  have "x_step c t w = x_goto (if f_prev s t \<noteq> None then FAwaitPred else FAwaitTicket) t
      (x_store (field (desc_line c p) kRemoteToGetTicketOffset) kTrue w)"
    by (cases "c_side c t") (simp_all add: x_defs own nx ctx_adr [OF ctx] ctx_follow [OF ctx p(2,3)] ctx_null [OF ctx])
  moreover have "R_desc c ((x_mem w)(field (desc_line c p) kRemoteToGetTicketOffset := kTrue)) p ((f_desc s p)\<lparr>d_to_get_ticket := kTrue\<rparr>)"
    by (rule R_desc_store(3) [OF ctx_desc_at [OF ctx p(2)]])
  ultimately show ?thesis
    by (intro sim_desc [OF ctxD(1-3) [OF ctx] p(2) offset_less(3)]) (simp_all add: far_defs at p(1) R_thr_def R_buf_def own)
qed

lemma step_Grant:
  assumes ctx: "sim_ctx c T S t w s" and at: "f_at s t = FGrant"
  shows "words_sim c T S (x_step c t w) (far_step (c_side c) t s)"
proof -
  obtain p where p: "f_next s t = Some p" "p \<in> S" "c_side c p = c_side c t" by (rule ctx_next [OF ctx]) (use at in auto)
  have S: "t \<in> S" by (rule ctx_started [OF ctx]) (simp add: at)
  note own = ctx_own [OF ctx, unfolded at] and nx = ctx_desc(1) [OF ctx S, unfolded p]
  have "x_step c t w = x_goto FIdle t (x_store (field (desc_line c p) kRemoteGrantedOffset) kTrue w)"
    by (cases "c_side c t") (simp_all add: x_defs own nx ctx_adr [OF ctx] ctx_follow [OF ctx p(2,3)])
  moreover have "R_desc c ((x_mem w)(field (desc_line c p) kRemoteGrantedOffset := kTrue)) p ((f_desc s p)\<lparr>d_granted := kTrue\<rparr>)"
    by (rule R_desc_store(4) [OF ctx_desc_at [OF ctx p(2)]])
  ultimately show ?thesis
    by (intro sim_desc [OF ctxD(1-3) [OF ctx] p(2) offset_less(4)]) (simp_all add: far_defs at p(1) R_thr_def R_buf_def own)
qed

text \<open>The steps that store into the lock.\<close>

lemma ctx_lock_at: "sim_ctx c T S t w s \<Longrightarrow> R_lock c (x_mem w) (f_lock s)"
  using ctxD(3) by (auto simp: words_sim_def)

lemma R_buf_quiet: "h_pc f \<notin> {FPetVictim, FPetReadB} \<Longrightarrow> R_buf c m t f" and R_buf_local: "c_side c t = Local \<Longrightarrow> R_buf c m t f"
  by (simp_all add: R_buf_def)

lemma step_flag_local:
  assumes ctx: "sim_ctx c T S t w s" and at: "c_side c t = Local" "f_at s t \<in> {FPetFlag, FPetVictim, FPetUnlock, FTake, FCritical}"
  shows "words_sim c T S (x_step c t w) (far_step (c_side c) t s)"
proof -
  note own = ctx_own [OF ctx] and st = R_lock_store [OF ctxD(1) [OF ctx] ctx_lock_at [OF ctx]]
  note sim = sim_lock [OF ctxD(1-3) [OF ctx]]
  note ss = x_defs far_defs at(1) ctx_adr [OF ctx] ctx_lock [OF ctx] own R_thr_def R_buf_local
  from at(2) consider "f_at s t = FPetFlag" | "f_at s t = FPetVictim" | "f_at s t = FPetUnlock" | "f_at s t = FTake" | "f_at s t = FCritical" by auto
  then show ?thesis
  proof cases
    case 1 show ?thesis by (rule sim [OF offset_less(10), where v = kTrue]) (use st(5) [of kTrue] in \<open>simp_all add: ss 1\<close>)
  next
    case 2 show ?thesis by (rule sim [OF offset_less(9), where v = kLocalVictim]) (use st(4) [of kLocalVictim] in \<open>simp_all add: ss 2\<close>)
  next
    case 3 show ?thesis by (rule sim [OF offset_less(10), where v = kFalse]) (use st(5) [of kFalse] in \<open>simp_all add: ss 3\<close>)
  next
    case 4 show ?thesis by (rule sim [OF offset_less(11), where v = "next_ticket (f_lock s) + 1"])
        (use st(6) [of "next_ticket (f_lock s) + 1"] in \<open>simp_all add: ss 4\<close>)
  next
    case 5 show ?thesis by (rule sim [OF offset_less(12), where v = "current_ticket (f_lock s) + 1"])
        (use st(7) [of "current_ticket (f_lock s) + 1"] in \<open>simp_all add: ss 5\<close>)
  qed
qed

lemma offset_next [simp]: "kRemoteFlagOffset + 8 = kVictimOffset" "kVictimOffset + 8 = kLocalFlagOffset"
  by (simp_all add: offset_defs)

lemma step_flag_remote:
  assumes ctx: "sim_ctx c T S t w s" and at: "c_side c t = Remote" "f_at s t \<in> {FPetVictim, FPut, FPetUnlock, FCritical}"
  shows "words_sim c T S (x_step c t w) (far_step (c_side c) t s)"
proof -
  have S: "t \<in> S" by (rule ctx_started [OF ctx]) (use at in auto)
  note own = ctx_own [OF ctx] and st = R_lock_store [OF ctxD(1) [OF ctx] ctx_lock_at [OF ctx]]
  note sim = sim_lock [OF ctxD(1-3) [OF ctx]] and buf = sim_own(6) [OF ctxD(3,2) [OF ctx]]
  note ss = x_defs far_defs at(1) ctx_adr [OF ctx] ctx_lock [OF ctx] ctx_desc [OF ctx S] own R_thr_def R_buf_quiet
  from at(2) consider "f_at s t = FPetVictim" | "f_at s t = FPut" | "f_at s t = FPetUnlock" | "f_at s t = FCritical" by auto
  then show ?thesis
  proof cases
    case 1
    have "x_mem w (field (buf_line c t) kVictimOffset) = kRemoteVictim" using buf at(1) 1 by (simp add: R_buf_def)
    then show ?thesis by (intro sim [OF offset_less(9), where v = kRemoteVictim]) (use st(4) [of kRemoteVictim] in \<open>simp_all add: ss 1\<close>)
  next
    case 2 show ?thesis by (rule sim [OF offset_less(11), where v = "f_tk s t + 1"]) (use st(6) [of "f_tk s t + 1"] in \<open>simp_all add: ss 2\<close>)
  next
    case 3 show ?thesis by (rule sim [OF offset_less(8), where v = kFalse]) (use st(3) [of kFalse] in \<open>simp_all add: ss 3\<close>)
  next
    case 4 show ?thesis by (rule sim [OF offset_less(12), where v = "f_dtk s t + 1"]) (use st(7) [of "f_dtk s t + 1"] in \<open>simp_all add: ss 4\<close>)
  qed
qed

text \<open>Swapping the tail and resetting it.\<close>

lemma step_Swap_local:
  assumes ctx: "sim_ctx c T S t w s" and at: "c_side c t = Local" "f_at s t = FSwap"
  shows "words_sim c T S (x_step c t w) (far_step (c_side c) t s)"
proof -
  have k: "enc c Local (local_tail (f_lock s)) = 0 \<longleftrightarrow> local_tail (f_lock s) = None"
    by (rule enc_null [OF ctxD(1) [OF ctx] sim_names(4) [OF ctxD(3,4) [OF ctx]]])
  show ?thesis
    by (rule sim_lock [OF ctxD(1-3) [OF ctx] offset_less(7), where v = "enc c Local (Some t)"])
      (use R_lock_store(2) [OF ctxD(1) [OF ctx] ctx_lock_at [OF ctx], of "Some t"] k in
        \<open>simp_all add: x_defs far_defs at ctx_adr [OF ctx] ctx_lock [OF ctx] ctx_own [OF ctx] R_thr_def R_buf_local\<close>)
qed

lemma step_Swap_remote:
  assumes ctx: "sim_ctx c T S t w s" and at: "c_side c t = Remote" "f_at s t = FSwap"
  shows "words_sim c T S (x_step c t w) (far_step (c_side c) t s)"
proof -
  note nm = sim_names [OF ctxD(3,4) [OF ctx]]
  have i: "enc c Remote (remote_tail (f_lock s)) = enc c Remote (h_hint (f_thr s t)) \<longleftrightarrow> remote_tail (f_lock s) = h_hint (f_thr s t)"
    by (rule enc_inj [OF ctxD(1) [OF ctx] nm(3) nm(5) [OF at(1)]])
  have k: "enc c Remote (h_hint (f_thr s t)) = 0 \<longleftrightarrow> h_hint (f_thr s t) = None"
    by (rule enc_null [OF ctxD(1) [OF ctx] nm(5) [OF at(1)]])
  note ss = x_defs far_defs at ctx_adr [OF ctx] ctx_lock [OF ctx] ctx_own [OF ctx] R_thr_def R_buf_quiet
  show ?thesis
  proof (cases "remote_tail (f_lock s) = h_hint (f_thr s t)")
    case True
    show ?thesis
      by (rule sim_lock [OF ctxD(1-3) [OF ctx] offset_less(6), where v = "enc c Remote (Some t)"])
        (use R_lock_store(1) [OF ctxD(1) [OF ctx] ctx_lock_at [OF ctx], of "Some t"] k True in \<open>simp_all add: ss\<close>)
  next
    case False
    show ?thesis by (rule sim_plain [OF ctxD(3) [OF ctx]]) (use i False in \<open>simp_all add: ss\<close>)
  qed
qed

lemma step_CasTail:
  assumes ctx: "sim_ctx c T S t w s" and at: "f_at s t = FCasTail"
  shows "words_sim c T S (x_step c t w) (far_step (c_side c) t s)"
proof -
  have S: "t \<in> T" by (rule ctxD(2) [OF ctx])
  note nm = sim_names [OF ctxD(3,4) [OF ctx]] and ok = ctxD(1) [OF ctx]
  have r: "enc c Remote (remote_tail (f_lock s)) = praw (c_remote_descriptor c t) \<longleftrightarrow> remote_tail (f_lock s) = Some t" if "c_side c t = Remote"
    using enc_inj [OF ok nm(3), of "Some t"] that S by simp
  have l: "enc c Local (local_tail (f_lock s)) = c_local_descriptor c t \<longleftrightarrow> local_tail (f_lock s) = Some t" if "c_side c t = Local"
    using enc_inj [OF ok nm(4), of "Some t"] that S by simp
  note ss = x_defs far_defs at ctx_adr [OF ctx] ctx_lock [OF ctx] ctx_own [OF ctx] R_thr_def R_buf_quiet
  note st = R_lock_store [OF ok ctx_lock_at [OF ctx]]
  show ?thesis
  proof (cases "c_side c t")
    case Local
    show ?thesis
    proof (cases "local_tail (f_lock s) = Some t")
      case True
      show ?thesis by (rule sim_lock [OF ctxD(1-3) [OF ctx] offset_less(7), where v = 0])
          (use st(2) [of None] Local True in \<open>simp_all add: ss\<close>)
    next
      case False
      show ?thesis by (rule sim_plain [OF ctxD(3) [OF ctx]]) (use l [OF Local] Local False in \<open>simp_all add: ss\<close>)
    qed
  next
    case Remote
    show ?thesis
    proof (cases "remote_tail (f_lock s) = Some t")
      case True
      show ?thesis by (rule sim_lock [OF ctxD(1-3) [OF ctx] offset_less(6), where v = 0])
          (use st(1) [of None] Remote True in \<open>simp_all add: ss\<close>)
    next
      case False
      show ?thesis by (rule sim_plain [OF ctxD(3) [OF ctx]]) (use r [OF Remote] Remote False in \<open>simp_all add: ss\<close>)
    qed
  qed
qed

text \<open>The transfers between the lock and the own buffer.\<close>

lemma buf_frame:
  assumes ok: "config_ok c T" "t \<in> T" and off: "off < 64"
  shows "R_lock c m l \<Longrightarrow> R_lock c (m(field (buf_line c t) off := v)) l"
    and "S \<subseteq> T \<Longrightarrow> \<forall>u \<in> S. R_desc c m u (d u) \<Longrightarrow> \<forall>u \<in> S. R_desc c (m(field (buf_line c t) off := v)) u (d u)"
    and "u \<in> T \<Longrightarrow> u \<noteq> t \<Longrightarrow> R_buf c m u f \<Longrightarrow> R_buf c (m(field (buf_line c t) off := v)) u f"
  using R_desc_frame(2) [OF ok _ off] R_buf_frame(3) [OF ok _ off] R_lock_frame(2) [OF ok off] by auto

lemma step_PetFlag_remote:
  assumes ctx: "sim_ctx c T S t w s" and at: "c_side c t = Remote" "f_at s t = FPetFlag"
  shows "words_sim c T S (x_step c t w) (far_step (c_side c) t s)"
proof -
  note ok = ctxD(1,2) [OF ctx] and sim = ctxD(3) [OF ctx]
  note bf = buf_frame [OF ok offset_less(8)] buf_frame [OF ok offset_less(9)]
  let ?m = "(x_mem w)(field (buf_line c t) kRemoteFlagOffset := kTrue, field (buf_line c t) kVictimOffset := kRemoteVictim)"
  have b: "?m (field (buf_line c t) kRemoteFlagOffset) = kTrue" "?m (field (buf_line c t) kVictimOffset) = kRemoteVictim"
    using config_lines(3) [OF ok(1,2)] by (simp_all add: field_eq_iff offset_defs)
  have S: "S \<subseteq> T" "\<forall>u \<in> S. R_desc c (x_mem w) u (f_desc s u)" "\<And>u. u \<in> T \<Longrightarrow> R_buf c (x_mem w) u (f_thr s u)"
    using sim by (auto simp: words_sim_def)
  let ?m' = "?m(field (lock_line c) kRemoteFlagOffset := kTrue)"
  note fr = R_buf_frame(1) [OF ok _ offset_less(8)] R_desc_frame(1) [OF ok _ offset_less(8)]
  show ?thesis
  proof (rule sim_others [OF sim, where m = ?m' and l = "(f_lock s)\<lparr>remote_flag := kTrue\<rparr>" and d = "f_desc s"])
    show "R_lock c ?m' ((f_lock s)\<lparr>remote_flag := kTrue\<rparr>)"
      by (intro R_lock_store(3) [OF ok(1)] bf ctx_lock_at [OF ctx])
    have "\<forall>u \<in> S. R_desc c ?m u (f_desc s u)" using S(1,2) by (intro bf) auto
    then show "\<forall>u \<in> S. R_desc c ?m' u (f_desc s u)" using fr(2) S(1) by auto
    show "R_buf c ?m' u (f_thr s u)" if "u \<in> T" "u \<noteq> t" for u using S(3) that bf fr(1) by simp
    show "buf_sim c t ?m' s" unfolding fr(1) [OF ok(2)] by (simp add: far_defs at R_buf_def)
    show "x_mem (x_step c t w) = ?m'" using b(1) by (simp add: x_defs at ctx_adr [OF ctx] ctx_own [OF ctx])
  qed (simp_all add: x_defs far_defs at ctx_own [OF ctx] R_thr_def)
qed

lemma step_PetRead_remote:
  assumes ctx: "sim_ctx c T S t w s" and at: "c_side c t = Remote" "f_at s t \<in> {FPetReadA, FPetReadB}"
  shows "words_sim c T S (x_step c t w) (far_step (c_side c) t s)"
proof -
  note ok = ctxD(1,2) [OF ctx] and sim = ctxD(3) [OF ctx]
  have S: "S \<subseteq> T" "\<forall>u \<in> S. R_desc c (x_mem w) u (f_desc s u)" "\<And>u. u \<in> T \<Longrightarrow> R_buf c (x_mem w) u (f_thr s u)"
    using sim by (auto simp: words_sim_def)
  have ne: "field (buf_line c t) kVictimOffset \<noteq> field (buf_line c t) kLocalFlagOffset"
    using config_lines(3) [OF ok(1,2)] by (simp add: field_eq_iff offset_defs)
  note ss = x_defs far_defs at(1) ctx_adr [OF ctx] ctx_own [OF ctx] ctx_lock [OF ctx] R_thr_def R_buf_def
  show ?thesis
  proof (cases "f_at s t = FPetReadA")
    case True
    note bf = buf_frame [OF ok offset_less(9)]
    show ?thesis
      by (rule sim_others [OF sim, where m = "(x_mem w)(field (buf_line c t) kVictimOffset := victim (f_lock s))"
            and l = "f_lock s" and d = "f_desc s", OF _ bf(1) [OF ctx_lock_at [OF ctx]] bf(2) [OF S(1,2)] _ bf(3) [OF _ _ S(3)]])
        (simp_all add: ss True)
  next
    case False
    then have B: "f_at s t = FPetReadB" using at(2) by simp
    have v: "x_mem w (field (buf_line c t) kVictimOffset) = h_buf_victim (f_thr s t)" using S(3) [OF ok(2)] at(1) B by (simp add: R_buf_def)
    note bf = buf_frame [OF ok offset_less(10)]
    show ?thesis
      by (rule sim_others [OF sim, where m = "(x_mem w)(field (buf_line c t) kLocalFlagOffset := local_flag (f_lock s))"
            and l = "f_lock s" and d = "f_desc s", OF _ bf(1) [OF ctx_lock_at [OF ctx]] bf(2) [OF S(1,2)] _ bf(3) [OF _ _ S(3)]])
        (use ne v in \<open>simp_all add: ss B\<close>)
  qed
qed

text \<open>Initialising the own descriptor.\<close>

lemma step_Idle:
  assumes ctx: "sim_ctx c T S t w s" and at: "f_at s t = FIdle"
  shows "words_sim c T (insert t S) (x_step c t w) (far_step (c_side c) t s)"
proof -
  note ok = ctxD(1,2) [OF ctx] and sim = ctxD(3) [OF ctx]
  let ?f = "field (desc_line c t)"
  let ?m = "(x_mem w)(?f kRemoteNextOffset := 0, ?f kRemoteTicketOffset := kInvalidTicket, ?f kRemoteToGetTicketOffset := kFalse,
    ?f kRemoteGrantedOffset := kFalse, ?f kRemoteReleasableOffset := kFalse)"
  note fl = R_lock_frame(1) [OF ok] and fb = R_buf_frame(2) [OF ok] and fd = R_desc_frame(3) [OF ok]
  have m: "x_mem (x_step c t w) = ?m"
    by (cases "c_side c t") (simp_all add: x_defs at ctx_adr [OF ctx] ctx_own [OF ctx])
  have thr: "R_thr c u (x_thr (x_step c t w) u) (f_thr (far_step (c_side c) t s) u)" if "u \<in> T" for u
  proof (cases "u = t")
    case True
    then show ?thesis
      by (cases "c_side c t") (simp_all add: x_defs far_defs at ctx_own [OF ctx] R_thr_def)
  qed (use sim that in \<open>simp add: x_thr_other far_thr_other words_sim_def\<close>)
  have buf: "R_buf c ?m u (f_thr (far_step (c_side c) t s) u)" if "u \<in> T" for u
  proof (cases "u = t")
    case True
    then show ?thesis by (intro R_buf_quiet) (simp add: eff_Idle [OF at])
  qed (use sim that fb in \<open>simp add: far_thr_other words_sim_def\<close>)
  have "R_desc c ?m u (f_desc (far_step (c_side c) t s) u)" if "u \<in> insert t S" for u
  proof (cases "u = t")
    case True
    then show ?thesis using R_desc_reset [OF ok] by (simp add: eff_Idle [OF at])
  next
    case False
    then have "u \<in> S" "u \<in> T" using that sim by (auto simp: words_sim_def)
    then show ?thesis using False sim fd by (simp add: eff_Idle [OF at] words_sim_def)
  qed
  moreover have "R_lock c ?m (f_lock s)" using ctx_lock_at [OF ctx] fl by simp
  ultimately show ?thesis using sim ok(2) thr buf m unfolding words_sim_def by (auto simp: eff_Idle [OF at])
qed

text \<open>Every step of the words is the step of the names.\<close>

lemma words_step:
  assumes ctx: "sim_ctx c T S t w s"
  shows "words_sim c T (insert t S) (x_step c t w) (far_step (c_side c) t s)"
proof (cases "f_at s t = FIdle")
  case True
  then show ?thesis by (rule step_Idle [OF ctx])
next
  case False
  then have "insert t S = S" using ctx_started [OF ctx] by auto
  moreover have "words_sim c T S (x_step c t w) (far_step (c_side c) t s)"
    using False step_quiet [OF ctx] step_LoadTicket [OF ctx] step_Take_remote [OF ctx] step_SetNext [OF ctx] step_SetReleasable [OF ctx]
      step_Store [OF ctx] step_Pass [OF ctx] step_Grant [OF ctx] step_flag_local [OF ctx] step_flag_remote [OF ctx]
      step_Swap_local [OF ctx] step_Swap_remote [OF ctx] step_CasTail [OF ctx] step_PetFlag_remote [OF ctx] step_PetRead_remote [OF ctx]
    by (cases "f_at s t"; cases "c_side c t") simp_all
  ultimately show ?thesis by simp
qed

section \<open>Runs\<close>

definition sim_state :: "far_config \<times> tid set \<times> (loc \<Rightarrow> u64) \<Rightarrow> far_words \<Rightarrow> far_state \<Rightarrow> bool" where
  "sim_state k w s \<longleftrightarrow> (case k of (c, T, m) \<Rightarrow> \<exists>S. words_sim c T S w s \<and> names_ok c S s)"

lemma sim_state_init:
  assumes "config_ok c T"
  shows "sim_state (c, T, m) (x_init c m) far_init"
proof -
  have "(if field (lock_line c) off \<in> (\<lambda>off. rdma (c_lock c) off) ` {0, 8, 16, 24, 32, 40, 48, 56} then 0 else m a) = 0"
    if "off \<in> {0, 8, 16, 24, 32, 40, 48}" for off a
  proof -
    have "off < 64" using that by auto
    then have "field (lock_line c) off = rdma (c_lock c) off" using rdma_lock [OF assms] by simp
    then show ?thesis using that by auto
  qed
  then have "R_lock c (x_mem (x_init c m)) (f_lock far_init)"
    by (simp add: R_lock_def x_init_def far_init_def offset_defs del: image_insert)
  then have "words_sim c T {} (x_init c m) far_init"
    by (simp add: words_sim_def R_thr_def R_buf_def) (simp add: x_init_def far_init_def)
  moreover have "names_ok c {} far_init" by (simp add: names_ok_def far_init_def)
  ultimately show ?thesis by (auto simp: sim_state_def)
qed

lemma sim_state_step:
  assumes "config_ok c T" and "reachable (far_step (c_side c)) UNIV far_init s" and "sim_state (c, T, m) w s" and "t \<in> T"
  shows "sim_state (c, T, m) (x_step c t w) (far_step (c_side c) t s)"
proof -
  obtain S where S: "words_sim c T S w s" "names_ok c S s" using assms(3) by (auto simp: sim_state_def)
  have l: "linked s t" using far.reachable_inv [OF assms(2)] linked_inv by blast
  have "words_sim c T (insert t S) (x_step c t w) (far_step (c_side c) t s)"
    by (rule words_step) (use assms S l in \<open>simp add: sim_ctx_def\<close>)
  moreover have "names_ok c (insert t S) (far_step (c_side c) t s)" by (rule names_ok_step [OF S(2) l])
  ultimately show ?thesis by (auto simp: sim_state_def)
qed

lemma sim_state_pc: "sim_state (c, T, m) w s \<Longrightarrow> t \<in> T \<Longrightarrow> x_pc (x_thr w t) = f_at s t"
  by (auto simp: sim_state_def words_sim_def R_thr_def)

interpretation words: step_refinement "\<lambda>(c, T, m). config_ok c T" "\<lambda>(c, T, m). T" "\<lambda>(c, T, m). x_step c"
  "\<lambda>(c, T, m). x_init c m" "\<lambda>(c, T, m). far_step (c_side c)" "\<lambda>_. far_init" sim_state x_hold far_hold
proof (unfold_locales, goal_cases)
  case (1 k)
  then show ?case by (auto intro: sim_state_init)
next
  case (2 k s w t)
  then show ?case by (auto intro: sim_state_step)
next
  case (3 k w s t)
  then show ?case by (cases k) (auto simp: x_hold_def far_hold_def sim_state_pc)
qed

text \<open>\<^verbatim>\<open>IsLocked\<close> on words is \<^verbatim>\<open>IsLocked\<close> on names with the pointers as they are stored.\<close>

lemma sim_state_tails:
  assumes "config_ok c T" and "sim_state (c, T, m) w s"
  shows "x_mem w (rdma (c_lock c) kRemoteTailOffset) = far_raw (\<lambda>u. enc c (c_side c u) (Some u)) (remote_tail (f_lock s))"
    and "x_mem w (rdma (c_lock c) kLocalTailOffset) = far_raw (\<lambda>u. enc c (c_side c u) (Some u)) (local_tail (f_lock s))"
proof -
  obtain S where S: "words_sim c T S w s" "names_ok c S s" using assms(2) by (auto simp: sim_state_def)
  have k: "known c S Remote (remote_tail (f_lock s))" "known c S Local (local_tail (f_lock s))" using S(2) by (simp_all add: names_ok_def)
  have "far_raw (\<lambda>u. enc c (c_side c u) (Some u)) (remote_tail (f_lock s)) = enc c Remote (remote_tail (f_lock s))"
    "far_raw (\<lambda>u. enc c (c_side c u) (Some u)) (local_tail (f_lock s)) = enc c Local (local_tail (f_lock s))"
    using k by (auto simp: far_raw_def split: option.split)
  moreover have "R_lock c (x_mem w) (f_lock s)" using S(1) by (simp add: words_sim_def)
  ultimately show "x_mem w (rdma (c_lock c) kRemoteTailOffset) = far_raw (\<lambda>u. enc c (c_side c u) (Some u)) (remote_tail (f_lock s))"
    and "x_mem w (rdma (c_lock c) kLocalTailOffset) = far_raw (\<lambda>u. enc c (c_side c u) (Some u)) (local_tail (f_lock s))"
    by (simp_all add: rdma_lock [OF assms(1)] R_lock_def)
qed

lemma x_IsLocked_names:
  assumes "config_ok c T" and "sim_state (c, T, m) w s" and "sim_state (c, T, m) w' s'"
  shows "x_IsLocked c t w w' \<longleftrightarrow> far_IsLocked (\<lambda>u. enc c (c_side c u) (Some u)) s s'"
  using sim_state_tails(1) [OF assms(1,2)] sim_state_tails(2) [OF assms(1,3)]
  by (simp add: x_IsLocked_def far_IsLocked_def cpu_lock rdma_lock [OF assms(1)])

text \<open>A ticket is drawn, as in \<open>far_draws\<close>.\<close>

definition x_draws :: "far_config \<Rightarrow> far_words \<Rightarrow> tid \<Rightarrow> bool" where
  "x_draws c w t \<longleftrightarrow> x_pc (x_thr w t) = (if c_side c t = Local then FTake else FPut)"

lemma x_draws_order:
  assumes "config_ok c T" and "set sched \<subseteq> T"
  shows "events (x_draws c) (x_step c) sched (x_init c m) = events (far_draws (c_side c)) (far_step (c_side c)) sched far_init"
  using words.same_events [of "(c, T, m)" "x_draws c" "far_draws (c_side c)" sched] assms
  by (auto simp: x_draws_def far_draws_def sim_state_pc)

text \<open>
  A cluster of two nodes with two threads: the lock is on node 0, thread 1 runs there and thread 2 on node 1.
\<close>

definition two_nodes :: far_config where
  "two_nodes = \<lparr>c_lock = ptr_make 0 4096, c_node = (\<lambda>t. if t = 1 then 0 else 1), c_local_descriptor = (\<lambda>_. 8192),
     c_remote_descriptor = (\<lambda>t. if t = 1 then ptr_make 0 12288 else ptr_make 1 4096),
     c_lock_buffer = (\<lambda>t. if t = 1 then ptr_make 0 12352 else ptr_make 1 4160)\<rparr>"

lemma two_nodes_lines:
  "lock_line two_nodes = (0, 4096)" "desc_line two_nodes 1 = (0, 8192)" "desc_line two_nodes 2 = (1, 4096)"
  "buf_line two_nodes 1 = (0, 12352)" "buf_line two_nodes 2 = (1, 4160)"
  by code_simp+

lemma two_nodes_ok: "config_ok two_nodes {1, 2}"
proof -
  have "line_ok (n, 4096)" "line_ok (n, 8192)" "line_ok (n, 12352)" "line_ok (n, 4160)" for n by (simp_all add: line_ok_def)
  moreover have "\<forall>t \<in> {1, 2}. ptr_id (c_remote_descriptor two_nodes t) = c_node two_nodes t \<and> ptr_id (c_lock_buffer two_nodes t) = c_node two_nodes t \<and>
      c_local_descriptor two_nodes t \<noteq> 0 \<and> praw (c_remote_descriptor two_nodes t) \<noteq> 0"
    by code_simp
  ultimately show ?thesis by (simp add: config_ok_def two_nodes_lines)
qed

text \<open>
  C5: FARLock on memory words does exactly what FARLock on names does: under every schedule of the threads \<open>T\<close>,
  with any contents of descriptors and buffers at the start, the words of the lock, of the descriptors in use and
  the variables of the handlers encode the state that the same schedule reaches in the protocol, provided that every
  lock, descriptor and buffer has a cache line of its own.
\<close>

theorem far_words_refine:
  assumes "config_ok c T" and "set sched \<subseteq> T"
  shows "\<exists>S. words_sim c T S (run (x_step c) sched (x_init c m)) (run (far_step (c_side c)) sched far_init)"
  using words.run_refines [of "(c, T, m)" sched] assms by (auto simp: sim_state_def)

theorem far_words_refine_witness:
  "\<exists>S. words_sim two_nodes {1, 2} S (run (x_step two_nodes) [1, 2, 1, 2] (x_init two_nodes (\<lambda>_. 77)))
     (run (far_step (c_side two_nodes)) [1, 2, 1, 2] far_init)"
  by (rule far_words_refine [OF two_nodes_ok]) simp

text \<open>
  C6: Mutual exclusion of FARLock on memory words.
\<close>

theorem far_words_mutual_exclusion:
  assumes "config_ok c T" and "set sched \<subseteq> T" and "a \<in> T" "b \<in> T"
    and "x_hold (run (x_step c) sched (x_init c m)) a" "x_hold (run (x_step c) sched (x_init c m)) b"
  shows "a = b"
  using words.mutual_exclusion [of "(c, T, m)" sched a b] far.mutual_exclusion assms by auto

theorem far_words_mutual_exclusion_witness:
  defines "w \<equiv> run (x_step two_nodes) [1, 2, 1, 2, 2, 1, 1, 1, 2, 1, 1, 1, 1, 2, 1, 1] (x_init two_nodes (\<lambda>_. 77))"
  shows "x_hold w 1 \<and> \<not> x_hold w 2"
proof -
  have h: "x_hold w 1" unfolding w_def by code_simp
  have "\<not> x_hold w 2"
    using far_words_mutual_exclusion [OF two_nodes_ok, of "[1, 2, 1, 2, 2, 1, 1, 1, 2, 1, 1, 1, 1, 2, 1, 1]" 1 2 "\<lambda>_. 77"] h
    unfolding w_def by auto
  with h show ?thesis ..
qed

text \<open>
  On memory words, too, threads enter the critical section in the order in which they draw tickets from
  \<^verbatim>\<open>next_ticket_\<close>.
\<close>

theorem far_words_first_come_first_served:
  assumes "config_ok c T" and "set sched \<subseteq> T"
  shows "prefix (events (enters x_hold (x_step c)) (x_step c) sched (x_init c m)) (events (x_draws c) (x_step c) sched (x_init c m))"
proof -
  have "events (enters x_hold (x_step c)) (x_step c) sched (x_init c m) =
      events (enters far_hold (far_step (c_side c))) (far_step (c_side c)) sched far_init"
    using words.same_entries [of "(c, T, m)" sched] assms by simp
  then show ?thesis unfolding x_draws_order [OF assms] using far.first_come_first_served [of sched "c_side c"] by simp
qed

theorem far_words_first_come_first_served_witness:
  "prefix (events (enters x_hold (x_step two_nodes)) (x_step two_nodes) [1, 1, 2, 1] (x_init two_nodes (\<lambda>_. 77)))
     (events (x_draws two_nodes) (x_step two_nodes) [1, 1, 2, 1] (x_init two_nodes (\<lambda>_. 77)))"
  by (rule far_words_first_come_first_served [OF two_nodes_ok]) simp

end
