(* ===== verification/FARLockG.thy ===== *)
theory FARLockG
  imports Peterson
begin

text \<open>
  The batched variant of FARLock, \<^verbatim>\<open>include/locks/farlockg.h\<close> (\<^verbatim>\<open>class FARLockGHandler\<close>).  As in FARLock
  there are two MCS queues, Peterson's algorithm between their heads and a ticket per entry; but a
  thread that has drawn a ticket and finds a successor in its queue passes the ticket on, together with
  its place in Peterson's algorithm, so that one ticket serves a batch of threads of one cohort.  The
  \<^verbatim>\<open>budget_\<close> limits the length of a batch.

  Steps are those of \<open>FARLock\<close>: one access to shared memory, or to a word of the own descriptor that
  another thread accesses; the remote \<^verbatim>\<open>FetchAndAdd\<close> is a read and a write, and a two-word RDMA transfer
  is two steps in address order.
\<close>

section \<open>Data\<close>

record GDescriptor =
  gd_next :: "tid option"
  gd_ticket_valid :: u64
  gd_batch_ticket :: u64
  gd_budget :: u64
  gd_granted :: u64
  gd_releasable :: u64

record FARLockG =
  gl_remote_tail :: "tid option"
  gl_local_tail :: "tid option"
  gl_remote_flag :: u64
  gl_victim :: u64
  gl_local_flag :: u64
  gl_next_ticket :: u64
  gl_current_ticket :: u64

datatype fg_pc = GIdle | GSwap | GSetNext | GLoadValid | GSetReleasable | GWaitBudget | GTestBudget
  | GReadTicket | GSetBudget | GPetFlag | GPetVictim | GPetReadA | GPetReadB | GTake | GPut
  | GLoadNext | GLoadBudget | GPassTicket | GPassBudget | GPetUnlock1 | GPetUnlock | GSetValid1 | GSetValid
  | GReloadNext | GSignal | GAwaitPred | GAwaitTicket | GStoreTicket | GCritical
  | GCheckNext | GCasTail | GWaitReleasable | GGrant

text \<open>
  A handler: its program counter, the local variables \<^verbatim>\<open>prev\<close>, \<^verbatim>\<open>ticket\<close> and \<^verbatim>\<open>ticket_from_prev\<close>, the
  value \<^verbatim>\<open>Exchange\<close> compares with, the \<^verbatim>\<open>victim_\<close> word of \<^verbatim>\<open>lock_buffer_\<close> and the \<^verbatim>\<open>budget_\<close> word of
  \<^verbatim>\<open>remote_descriptor_buffer_\<close>.
\<close>

record fg_handler =
  gh_pc :: fg_pc
  gh_prev :: "tid option"
  gh_ticket :: u64
  gh_from_prev :: bool
  gh_hint :: "tid option"
  gh_buf_victim :: u64
  gh_buf_budget :: u64

record fg_state =
  g_lock :: FARLockG
  g_desc :: "tid \<Rightarrow> GDescriptor"
  g_thr :: "tid \<Rightarrow> fg_handler"

definition fg_init :: fg_state where
  "fg_init = \<lparr>g_lock = \<lparr>gl_remote_tail = None, gl_local_tail = None, gl_remote_flag = 0, gl_victim = 0,
       gl_local_flag = 0, gl_next_ticket = 0, gl_current_ticket = 0\<rparr>,
     g_desc = (\<lambda>_. \<lparr>gd_next = None, gd_ticket_valid = 0, gd_batch_ticket = 0, gd_budget = 0, gd_granted = 0,
       gd_releasable = 0\<rparr>),
     g_thr = (\<lambda>_. \<lparr>gh_pc = GIdle, gh_prev = None, gh_ticket = 0, gh_from_prev = False, gh_hint = None,
       gh_buf_victim = 0, gh_buf_budget = 0\<rparr>)\<rparr>"

text \<open>The initial budgets of the constructor, \<^verbatim>\<open>kInitLocalBudget_\<close> and \<^verbatim>\<open>kInitRemoteBudget_\<close>.\<close>

definition kInitBudget :: "LockConfig \<Rightarrow> side \<Rightarrow> u64" where
  "kInitBudget c d = (case d of Local \<Rightarrow> ucast (local_budget c) | Remote \<Rightarrow> ucast (remote_budget c))"

abbreviation g_at :: "fg_state \<Rightarrow> tid \<Rightarrow> fg_pc" where
  "g_at s t \<equiv> gh_pc (g_thr s t)"

definition g_upd :: "tid \<Rightarrow> (fg_handler \<Rightarrow> fg_handler) \<Rightarrow> fg_state \<Rightarrow> fg_state" where
  [simp]: "g_upd t f s = s\<lparr>g_thr := (g_thr s)(t := f (g_thr s t))\<rparr>"

definition g_goto :: "fg_pc \<Rightarrow> tid \<Rightarrow> fg_state \<Rightarrow> fg_state" where
  [simp]: "g_goto p t s = s\<lparr>g_thr := (g_thr s)(t := (g_thr s t)\<lparr>gh_pc := p\<rparr>)\<rparr>"

definition g_write :: "tid \<Rightarrow> (GDescriptor \<Rightarrow> GDescriptor) \<Rightarrow> fg_state \<Rightarrow> fg_state" where
  [simp]: "g_write d f s = s\<lparr>g_desc := (g_desc s)(d := f (g_desc s d))\<rparr>"

definition g_lockw :: "(FARLockG \<Rightarrow> FARLockG) \<Rightarrow> fg_state \<Rightarrow> fg_state" where
  [simp]: "g_lockw f s = s\<lparr>g_lock := f (g_lock s)\<rparr>"

section \<open>The local cohort\<close>

definition fg_LockPetersonsLocal :: "tid \<Rightarrow> fg_state \<Rightarrow> fg_state" where
  "fg_LockPetersonsLocal t s = (case g_at s t of
     GPetFlag \<Rightarrow> g_goto GPetVictim t (g_lockw (\<lambda>l. l\<lparr>gl_local_flag := kTrue\<rparr>) s)
   | GPetVictim \<Rightarrow> g_goto GPetReadA t (g_lockw (\<lambda>l. l\<lparr>gl_victim := kLocalVictim\<rparr>) s)
   | GPetReadA \<Rightarrow> if gl_remote_flag (g_lock s) = kTrue then g_goto GPetReadB t s else g_goto GTake t s
   | GPetReadB \<Rightarrow> if gl_victim (g_lock s) = kLocalVictim then g_goto GPetReadA t s else g_goto GTake t s
   | _ \<Rightarrow> s)"

definition fg_UnlockPetersonsLocal :: "fg_state \<Rightarrow> fg_state" where
  "fg_UnlockPetersonsLocal s = g_lockw (\<lambda>l. l\<lparr>gl_local_flag := kFalse\<rparr>) s"

text \<open>Where \<open>Lock\<close> goes on after the ticket has been dealt with.\<close>

definition fg_await :: "fg_handler \<Rightarrow> fg_pc" where
  "fg_await h = (if gh_prev h \<noteq> None then GAwaitPred else if gh_from_prev h then GCritical else GAwaitTicket)"

definition fg_LockLocal :: "u64 \<Rightarrow> tid \<Rightarrow> fg_state \<Rightarrow> fg_state" where
  "fg_LockLocal budget t s = (case g_at s t of
     GIdle \<Rightarrow> g_upd t (\<lambda>h. h\<lparr>gh_pc := GSwap, gh_from_prev := False\<rparr>)
       (g_write t (\<lambda>d. d\<lparr>gd_next := None, gd_ticket_valid := kFalse, gd_budget := -1, gd_granted := kFalse,
          gd_releasable := kFalse\<rparr>) s)
   | GSwap \<Rightarrow> g_upd t (\<lambda>h. h\<lparr>gh_prev := gl_local_tail (g_lock s),
         gh_pc := (if gl_local_tail (g_lock s) \<noteq> None then GSetNext else GSetBudget)\<rparr>)
       (g_lockw (\<lambda>l. l\<lparr>gl_local_tail := Some t\<rparr>) s)
   | GSetNext \<Rightarrow> g_goto GLoadValid t (g_write (the (gh_prev (g_thr s t))) (\<lambda>d. d\<lparr>gd_next := Some t\<rparr>) s)
   | GLoadValid \<Rightarrow> g_upd t (\<lambda>h. h\<lparr>gh_ticket := gd_ticket_valid (g_desc s (the (gh_prev h))),
         gh_pc := GSetReleasable\<rparr>) s
   | GSetReleasable \<Rightarrow> g_goto (if gh_ticket (g_thr s t) \<noteq> kTrue then GWaitBudget else GSetBudget) t
       (g_write (the (gh_prev (g_thr s t))) (\<lambda>d. d\<lparr>gd_releasable := kTrue\<rparr>) s)
   | GWaitBudget \<Rightarrow> if gd_budget (g_desc s t) = -1 then s else g_goto GTestBudget t s
   | GTestBudget \<Rightarrow> g_goto (if gd_budget (g_desc s t) \<noteq> budget then GReadTicket else GSetBudget) t s
   | GReadTicket \<Rightarrow> g_upd t (\<lambda>h. h\<lparr>gh_ticket := gd_batch_ticket (g_desc s t), gh_from_prev := True,
         gh_pc := GLoadNext\<rparr>) s
   | GSetBudget \<Rightarrow> g_goto GPetFlag t (g_write t (\<lambda>d. d\<lparr>gd_budget := budget\<rparr>) s)
   | GTake \<Rightarrow> g_upd t (\<lambda>h. h\<lparr>gh_ticket := gl_next_ticket (g_lock s), gh_pc := GLoadNext\<rparr>)
       (g_lockw (\<lambda>l. l\<lparr>gl_next_ticket := gl_next_ticket l + 1\<rparr>) s)
   | GLoadNext \<Rightarrow> g_goto (if gd_next (g_desc s t) \<noteq> None then GLoadBudget else GPetUnlock) t s
   | GLoadBudget \<Rightarrow> g_goto (if gd_budget (g_desc s t) = 1 then GPetUnlock1 else GPassTicket) t s
   | GPetUnlock1 \<Rightarrow> g_goto GSetValid1 t (fg_UnlockPetersonsLocal s)
   | GSetValid1 \<Rightarrow> g_goto GSignal t (g_write t (\<lambda>d. d\<lparr>gd_ticket_valid := kTrue\<rparr>) s)
   | GPassTicket \<Rightarrow> g_goto GPassBudget t
       (g_write (the (gd_next (g_desc s t))) (\<lambda>d. d\<lparr>gd_batch_ticket := gh_ticket (g_thr s t)\<rparr>) s)
   | GPassBudget \<Rightarrow> g_goto (fg_await (g_thr s t)) t
       (g_write (the (gd_next (g_desc s t))) (\<lambda>d. d\<lparr>gd_budget := gd_budget (g_desc s t) - 1\<rparr>) s)
   | GPetUnlock \<Rightarrow> g_goto GSetValid t (fg_UnlockPetersonsLocal s)
   | GSetValid \<Rightarrow> g_goto GReloadNext t (g_write t (\<lambda>d. d\<lparr>gd_ticket_valid := kTrue\<rparr>) s)
   | GReloadNext \<Rightarrow> g_goto (if gd_next (g_desc s t) \<noteq> None then GSignal else fg_await (g_thr s t)) t s
   | GSignal \<Rightarrow> g_goto (fg_await (g_thr s t)) t
       (g_write (the (gd_next (g_desc s t))) (\<lambda>d. d\<lparr>gd_budget := budget\<rparr>) s)
   | GAwaitPred \<Rightarrow> if gd_granted (g_desc s t) \<noteq> kTrue then s
       else g_goto (if gh_from_prev (g_thr s t) then GCritical else GAwaitTicket) t s
   | GAwaitTicket \<Rightarrow> if gh_ticket (g_thr s t) \<noteq> gl_current_ticket (g_lock s) then s else g_goto GStoreTicket t s
   | GStoreTicket \<Rightarrow> g_goto GCritical t (g_write t (\<lambda>d. d\<lparr>gd_batch_ticket := gh_ticket (g_thr s t)\<rparr>) s)
   | _ \<Rightarrow> fg_LockPetersonsLocal t s)"

definition fg_UnlockLocal :: "tid \<Rightarrow> fg_state \<Rightarrow> fg_state" where
  "fg_UnlockLocal t s = (case g_at s t of
     GCritical \<Rightarrow> g_goto GCheckNext t
       (if gd_ticket_valid (g_desc s t) = kTrue
        then g_lockw (\<lambda>l. l\<lparr>gl_current_ticket := gd_batch_ticket (g_desc s t) + 1\<rparr>) s else s)
   | GCheckNext \<Rightarrow> g_goto (if gd_next (g_desc s t) = None then GCasTail else GWaitReleasable) t s
   | GCasTail \<Rightarrow> if gl_local_tail (g_lock s) = Some t
       then g_goto GIdle t (g_lockw (\<lambda>l. l\<lparr>gl_local_tail := None\<rparr>) s)
       else g_goto GWaitReleasable t s
   | GWaitReleasable \<Rightarrow> if gd_releasable (g_desc s t) \<noteq> kTrue then s else g_goto GGrant t s
   | GGrant \<Rightarrow> g_goto GIdle t
       (g_write (the (gd_next (g_desc s t))) (\<lambda>d. d\<lparr>gd_granted := kTrue\<rparr>) s)
   | _ \<Rightarrow> s)"

section \<open>The remote cohort\<close>

definition fg_LockPetersonsRemote :: "tid \<Rightarrow> fg_state \<Rightarrow> fg_state" where
  "fg_LockPetersonsRemote t s = (case g_at s t of
     GPetFlag \<Rightarrow> g_goto GPetVictim t (g_lockw (\<lambda>l. l\<lparr>gl_remote_flag := kTrue\<rparr>) s)
   | GPetVictim \<Rightarrow> g_goto GPetReadA t (g_lockw (\<lambda>l. l\<lparr>gl_victim := kRemoteVictim\<rparr>) s)
   | GPetReadA \<Rightarrow> g_upd t (\<lambda>h. h\<lparr>gh_buf_victim := gl_victim (g_lock s), gh_pc := GPetReadB\<rparr>) s
   | GPetReadB \<Rightarrow>
       if gl_local_flag (g_lock s) \<noteq> kTrue \<or> gh_buf_victim (g_thr s t) \<noteq> kRemoteVictim
       then g_goto GTake t s else g_goto GPetReadA t s
   | _ \<Rightarrow> s)"

definition fg_UnlockPetersonsRemote :: "fg_state \<Rightarrow> fg_state" where
  "fg_UnlockPetersonsRemote s = g_lockw (\<lambda>l. l\<lparr>gl_remote_flag := kFalse\<rparr>) s"

text \<open>
  In \<open>GLoadBudget\<close> a failed assertion ends the process; the thread takes no further step.
\<close>

definition fg_LockRemote :: "u64 \<Rightarrow> tid \<Rightarrow> fg_state \<Rightarrow> fg_state" where
  "fg_LockRemote budget t s = (case g_at s t of
     GIdle \<Rightarrow> g_upd t (\<lambda>h. h\<lparr>gh_pc := GSwap, gh_from_prev := False, gh_hint := None\<rparr>)
       (g_write t (\<lambda>d. d\<lparr>gd_next := None, gd_ticket_valid := kFalse, gd_budget := -1, gd_granted := kFalse,
          gd_releasable := kFalse\<rparr>) s)
   | GSwap \<Rightarrow>
       if gl_remote_tail (g_lock s) = gh_hint (g_thr s t) then
         g_upd t (\<lambda>h. h\<lparr>gh_prev := gh_hint h,
             gh_pc := (if gh_hint h \<noteq> None then GSetNext else GSetBudget)\<rparr>)
           (g_lockw (\<lambda>l. l\<lparr>gl_remote_tail := Some t\<rparr>) s)
       else g_upd t (\<lambda>h. h\<lparr>gh_hint := gl_remote_tail (g_lock s)\<rparr>) s
   | GSetNext \<Rightarrow> g_goto GLoadValid t (g_write (the (gh_prev (g_thr s t))) (\<lambda>d. d\<lparr>gd_next := Some t\<rparr>) s)
   | GLoadValid \<Rightarrow> g_upd t (\<lambda>h. h\<lparr>gh_ticket := gd_ticket_valid (g_desc s (the (gh_prev h))),
         gh_pc := GSetReleasable\<rparr>) s
   | GSetReleasable \<Rightarrow> g_goto (if gh_ticket (g_thr s t) \<noteq> kTrue then GWaitBudget else GSetBudget) t
       (g_write (the (gh_prev (g_thr s t))) (\<lambda>d. d\<lparr>gd_releasable := kTrue\<rparr>) s)
   | GWaitBudget \<Rightarrow> if gd_budget (g_desc s t) = -1 then s else g_goto GTestBudget t s
   | GTestBudget \<Rightarrow> g_goto (if gd_budget (g_desc s t) \<noteq> budget then GReadTicket else GSetBudget) t s
   | GReadTicket \<Rightarrow> g_upd t (\<lambda>h. h\<lparr>gh_ticket := gd_batch_ticket (g_desc s t), gh_from_prev := True,
         gh_pc := GLoadNext\<rparr>) s
   | GSetBudget \<Rightarrow> g_goto GPetFlag t (g_write t (\<lambda>d. d\<lparr>gd_budget := budget\<rparr>) s)
   | GTake \<Rightarrow> g_upd t (\<lambda>h. h\<lparr>gh_ticket := gl_next_ticket (g_lock s), gh_pc := GPut\<rparr>) s
   | GPut \<Rightarrow> g_goto GLoadNext t (g_lockw (\<lambda>l. l\<lparr>gl_next_ticket := gh_ticket (g_thr s t) + 1\<rparr>) s)
   | GLoadNext \<Rightarrow> g_goto (if gd_next (g_desc s t) \<noteq> None then GLoadBudget else GPetUnlock) t s
   | GLoadBudget \<Rightarrow> if gd_budget (g_desc s t) = 0 then s
       else g_upd t (\<lambda>h. h\<lparr>gh_buf_budget := gd_budget (g_desc s t) - 1,
         gh_pc := (if gd_budget (g_desc s t) = 1 then GPetUnlock1 else GPassTicket)\<rparr>) s
   | GPetUnlock1 \<Rightarrow> g_goto GSetValid1 t (fg_UnlockPetersonsRemote s)
   | GSetValid1 \<Rightarrow> g_goto GSignal t (g_write t (\<lambda>d. d\<lparr>gd_ticket_valid := kTrue\<rparr>) s)
   | GPassTicket \<Rightarrow> g_goto GPassBudget t
       (g_write (the (gd_next (g_desc s t))) (\<lambda>d. d\<lparr>gd_batch_ticket := gh_ticket (g_thr s t)\<rparr>) s)
   | GPassBudget \<Rightarrow> g_goto (fg_await (g_thr s t)) t
       (g_write (the (gd_next (g_desc s t))) (\<lambda>d. d\<lparr>gd_budget := gh_buf_budget (g_thr s t)\<rparr>) s)
   | GPetUnlock \<Rightarrow> g_goto GSetValid t (fg_UnlockPetersonsRemote s)
   | GSetValid \<Rightarrow> g_goto GReloadNext t (g_write t (\<lambda>d. d\<lparr>gd_ticket_valid := kTrue\<rparr>) s)
   | GReloadNext \<Rightarrow> g_goto (if gd_next (g_desc s t) \<noteq> None then GSignal else fg_await (g_thr s t)) t s
   | GSignal \<Rightarrow> g_goto (fg_await (g_thr s t)) t
       (g_write (the (gd_next (g_desc s t))) (\<lambda>d. d\<lparr>gd_budget := budget\<rparr>) s)
   | GAwaitPred \<Rightarrow> if gd_granted (g_desc s t) \<noteq> kTrue then s
       else g_goto (if gh_from_prev (g_thr s t) then GCritical else GAwaitTicket) t s
   | GAwaitTicket \<Rightarrow> if gh_ticket (g_thr s t) \<noteq> gl_current_ticket (g_lock s) then s else g_goto GStoreTicket t s
   | GStoreTicket \<Rightarrow> g_goto GCritical t (g_write t (\<lambda>d. d\<lparr>gd_batch_ticket := gh_ticket (g_thr s t)\<rparr>) s)
   | _ \<Rightarrow> fg_LockPetersonsRemote t s)"

definition fg_UnlockRemote :: "tid \<Rightarrow> fg_state \<Rightarrow> fg_state" where
  "fg_UnlockRemote t s = (case g_at s t of
     GCritical \<Rightarrow> g_goto GCheckNext t
       (if gd_ticket_valid (g_desc s t) = kTrue
        then g_lockw (\<lambda>l. l\<lparr>gl_current_ticket := gd_batch_ticket (g_desc s t) + 1\<rparr>) s else s)
   | GCheckNext \<Rightarrow> g_goto (if gd_next (g_desc s t) = None then GCasTail else GWaitReleasable) t s
   | GCasTail \<Rightarrow> if gl_remote_tail (g_lock s) = Some t
       then g_goto GIdle t (g_lockw (\<lambda>l. l\<lparr>gl_remote_tail := None\<rparr>) s)
       else g_goto GWaitReleasable t s
   | GWaitReleasable \<Rightarrow> if gd_releasable (g_desc s t) \<noteq> kTrue then s else g_goto GGrant t s
   | GGrant \<Rightarrow> g_goto GIdle t
       (g_write (the (gd_next (g_desc s t))) (\<lambda>d. d\<lparr>gd_granted := kTrue\<rparr>) s)
   | _ \<Rightarrow> s)"

section \<open>The handler\<close>

definition fg_Lock :: "LockConfig \<Rightarrow> (tid \<Rightarrow> side) \<Rightarrow> tid \<Rightarrow> fg_state \<Rightarrow> fg_state" where
  "fg_Lock c sd t s =
     (if sd t = Local then fg_LockLocal (kInitBudget c Local) t s else fg_LockRemote (kInitBudget c Remote) t s)"

definition fg_Unlock :: "(tid \<Rightarrow> side) \<Rightarrow> tid \<Rightarrow> fg_state \<Rightarrow> fg_state" where
  "fg_Unlock sd t s = (if sd t = Local then fg_UnlockLocal t s else fg_UnlockRemote t s)"

definition fg_step :: "LockConfig \<Rightarrow> (tid \<Rightarrow> side) \<Rightarrow> tid \<Rightarrow> fg_state \<Rightarrow> fg_state" where
  "fg_step c sd t s =
     (if g_at s t \<in> {GCritical, GCheckNext, GCasTail, GWaitReleasable, GGrant}
      then fg_Unlock sd t s else fg_Lock c sd t s)"

text \<open>
  \<open>IsLocked\<close>, as in FARLock, compares the raw words of the two tails, which it reads one after the other:
  the remote one in state \<open>s\<close>, the local one in state \<open>s'\<close>.
\<close>

definition fg_IsLocked :: "(tid \<Rightarrow> u64) \<Rightarrow> fg_state \<Rightarrow> fg_state \<Rightarrow> bool" where
  "fg_IsLocked raw s s' \<longleftrightarrow>
     (case gl_remote_tail (g_lock s) of None \<Rightarrow> 0 | Some t \<Rightarrow> raw t) \<noteq>
     (case gl_local_tail (g_lock s') of None \<Rightarrow> 0 | Some t \<Rightarrow> raw t)"

definition fg_hold :: "fg_state \<Rightarrow> tid \<Rightarrow> bool" where
  "fg_hold s t \<longleftrightarrow> g_at s t = GCritical"

end
