(* ===== verification/CohortQueue.thy ===== *)
theory CohortQueue
  imports LockCommon
begin

text \<open>
  The pair of MCS queues that FARLock and FARLockG keep, one per cohort, seen through the words the
  queue protocol uses: the tails, \<^verbatim>\<open>prev\<close>, \<^verbatim>\<open>next_\<close>, \<^verbatim>\<open>releasable_\<close> and \<^verbatim>\<open>granted_\<close>, and how far each
  thread has got (\<open>cv_stage\<close>).  A lock theory maps its program counters to stages; what it does while
  it waits in the queue (drawing tickets, Peterson's algorithm) all happens in stage 5.

  Stages: 0 outside; 1 descriptor reset; 2 enqueued; 3 linked behind the predecessor; 4 about to
  mark the predecessor releasable; 5 waiting; 6 at the head; 7 leaving; 8 leaving, and known not
  to be the last; 9 about to grant the lock to the successor.
\<close>

record cohort_view =
  cv_tail :: "side \<Rightarrow> tid option"
  cv_prev :: "tid \<Rightarrow> tid option"
  cv_next :: "tid \<Rightarrow> tid option"
  cv_rel :: "tid \<Rightarrow> bool"
  cv_granted :: "tid \<Rightarrow> bool"
  cv_stage :: "tid \<Rightarrow> nat"

section \<open>Invariant\<close>

definition cohort_ok :: "(tid \<Rightarrow> side) \<Rightarrow> cohort_view \<Rightarrow> (side \<Rightarrow> tid list) \<Rightarrow> bool" where
  "cohort_ok sd v Q \<longleftrightarrow>
     (\<forall>d. mcs_shape (Q d) (cv_tail v d) (cv_prev v) (cv_next v) (\<lambda>t. 3 \<le> cv_stage v t)) \<and>
     (\<forall>d t. t \<in> set (Q d) \<longleftrightarrow> sd t = d \<and> 2 \<le> cv_stage v t) \<and>
     (\<forall>t. cv_stage v t = 1 \<longrightarrow> cv_next v t = None \<and> \<not> cv_rel v t \<and> \<not> cv_granted v t) \<and>
     (\<forall>d a b. adj (Q d) a b \<longrightarrow> cv_rel v a = (5 \<le> cv_stage v b)) \<and>
     (\<forall>d. Q d \<noteq> [] \<longrightarrow> \<not> cv_rel v (last (Q d))) \<and>
     (\<forall>t. 2 \<le> cv_stage v t \<longrightarrow> cv_granted v t = (t = hd (Q (sd t)) \<and> cv_prev v t \<noteq> None)) \<and>
     (\<forall>t. 6 \<le> cv_stage v t \<longrightarrow> t = hd (Q (sd t))) \<and>
     (\<forall>t. 2 \<le> cv_stage v t \<longrightarrow> cv_stage v t \<le> 4 \<longrightarrow> t \<noteq> hd (Q (sd t))) \<and>
     (\<forall>t. 8 \<le> cv_stage v t \<longrightarrow> t \<noteq> last (Q (sd t))) \<and>
     (\<forall>t. cv_stage v t = 9 \<longrightarrow> cv_rel v t)"

lemma cohort_shape: "cohort_ok sd v Q \<Longrightarrow>
    mcs_shape (Q d) (cv_tail v d) (cv_prev v) (cv_next v) (\<lambda>t. 3 \<le> cv_stage v t)"
  and cohort_mem: "cohort_ok sd v Q \<Longrightarrow> t \<in> set (Q d) \<longleftrightarrow> sd t = d \<and> 2 \<le> cv_stage v t"
  and cohort_fresh: "cohort_ok sd v Q \<Longrightarrow> cv_stage v t = 1 \<Longrightarrow>
    cv_next v t = None \<and> \<not> cv_rel v t \<and> \<not> cv_granted v t"
  and cohort_rel: "cohort_ok sd v Q \<Longrightarrow> adj (Q d) a b \<Longrightarrow> cv_rel v a = (5 \<le> cv_stage v b)"
  and cohort_rel_last: "cohort_ok sd v Q \<Longrightarrow> Q d \<noteq> [] \<Longrightarrow> \<not> cv_rel v (last (Q d))"
  and cohort_granted: "cohort_ok sd v Q \<Longrightarrow> 2 \<le> cv_stage v t \<Longrightarrow>
    cv_granted v t = (t = hd (Q (sd t)) \<and> cv_prev v t \<noteq> None)"
  and cohort_head: "cohort_ok sd v Q \<Longrightarrow> 6 \<le> cv_stage v t \<Longrightarrow> t = hd (Q (sd t))"
  and cohort_not_head: "cohort_ok sd v Q \<Longrightarrow> 2 \<le> cv_stage v t \<Longrightarrow> cv_stage v t \<le> 4 \<Longrightarrow> t \<noteq> hd (Q (sd t))"
  and cohort_not_last: "cohort_ok sd v Q \<Longrightarrow> 8 \<le> cv_stage v t \<Longrightarrow> t \<noteq> last (Q (sd t))"
  and cohort_rel9: "cohort_ok sd v Q \<Longrightarrow> cv_stage v t = 9 \<Longrightarrow> cv_rel v t"
  by (simp_all add: cohort_ok_def)

lemma cohort_distinct: "cohort_ok sd v Q \<Longrightarrow> distinct (Q d)"
  using cohort_shape mcs_shape_distinct by blast

lemma cohort_adj: "cohort_ok sd v Q \<Longrightarrow> adj (Q d) a b \<Longrightarrow>
    sd a = d \<and> sd b = d \<and> 2 \<le> cv_stage v a \<and> 2 \<le> cv_stage v b \<and> a \<noteq> b"
  using cohort_mem adj_set adj_neq cohort_distinct by metis

lemma cohort_prev: "cohort_ok sd v Q \<Longrightarrow> adj (Q d) a b \<Longrightarrow> cv_prev v b = Some a"
  using cohort_shape mcs_shape_prev by blast

lemma cohort_adj_left: "cohort_ok sd v Q \<Longrightarrow> adj (Q d) a c \<Longrightarrow> adj (Q d') b c \<Longrightarrow> a = b"
  using cohort_prev [of sd v Q d a c] cohort_prev [of sd v Q d' b c] by simp

lemma cohort_adj_right: "cohort_ok sd v Q \<Longrightarrow> adj (Q d) a b \<Longrightarrow> adj (Q d') a c \<Longrightarrow> b = c"
  using cohort_adj adj_unique_right cohort_distinct by metis

text \<open>A thread that has not released its predecessor yet still has it directly ahead.\<close>

lemma cohort_waiting:
  assumes "cohort_ok sd v Q" and "2 \<le> cv_stage v t" and "cv_stage v t \<le> 4"
  obtains p where "adj (Q (sd t)) p t" and "cv_prev v t = Some p"
proof -
  have "t \<in> set (Q (sd t))" "t \<noteq> hd (Q (sd t))"
    using assms by (simp_all add: cohort_mem cohort_not_head)
  then obtain p where "adj (Q (sd t)) p t" using adj_ex_left by metis
  with that cohort_prev [OF assms(1)] show ?thesis by metis
qed

lemma cohort_next:
  assumes "cohort_ok sd v Q" and "2 \<le> cv_stage v t" and "cv_next v t = Some n"
  shows "adj (Q (sd t)) t n" and "3 \<le> cv_stage v n"
  using mcs_shape_next_Some [OF cohort_shape [OF assms(1)] _ assms(3), of "sd t"] assms(1,2)
  by (simp_all add: cohort_mem)

lemma cohort_no_prev_head:
  assumes "cohort_ok sd v Q" and "2 \<le> cv_stage v t" and "cv_prev v t = None"
  shows "t = hd (Q (sd t))"
proof (rule ccontr)
  assume "t \<noteq> hd (Q (sd t))"
  moreover have "t \<in> set (Q (sd t))" using assms by (simp add: cohort_mem)
  ultimately obtain p where "adj (Q (sd t)) p t" using adj_ex_left by metis
  with cohort_prev [OF assms(1)] assms(3) show False by fastforce
qed

lemma cohort_granted_head:
  assumes "cohort_ok sd v Q" and "2 \<le> cv_stage v t" and "cv_granted v t"
  shows "t = hd (Q (sd t))"
  using cohort_granted [OF assms(1,2)] assms(3) by simp

lemma cohort_linked_not_last:
  assumes "cohort_ok sd v Q" and "2 \<le> cv_stage v t" and "cv_next v t \<noteq> None"
  shows "t \<noteq> last (Q (sd t))"
  using assms(3) adj_not_last [OF cohort_distinct [OF assms(1)] cohort_next(1) [OF assms(1,2)]] by auto

lemma cohort_tail_last:
  assumes "cohort_ok sd v Q" and "2 \<le> cv_stage v t" and "cv_tail v (sd t) \<noteq> Some t"
  shows "t \<noteq> last (Q (sd t))"
proof -
  have "t \<in> set (Q (sd t))" using assms by (simp add: cohort_mem)
  then have "Q (sd t) \<noteq> []" by auto
  then have "cv_tail v (sd t) = Some (last (Q (sd t)))"
    using cohort_shape [OF assms(1), of "sd t"] by (simp add: mcs_shape_def)
  with assms(3) show ?thesis by metis
qed

lemma cohort_nonempty: "cohort_ok sd v Q \<Longrightarrow> 2 \<le> cv_stage v t \<Longrightarrow> Q (sd t) \<noteq> []"
  using cohort_mem [of sd v Q t "sd t"] by auto

text \<open>What holds of the queue members behind a thread that has been passed to spreads to all ahead.\<close>

lemma cohort_chain:
  assumes q: "cohort_ok sd v Q" and "\<And>a b. adj (Q (sd t)) a b \<Longrightarrow> P b \<Longrightarrow> P a \<and> D a"
    and "sd u = sd t" and "2 \<le> cv_stage v u" "2 \<le> cv_stage v t" and "P u" "P t" and "\<not> D u" "\<not> D t"
  shows "u = t"
proof (rule ccontr)
  assume "u \<noteq> t"
  moreover have "u \<in> set (Q (sd t))" "t \<in> set (Q (sd t))" using assms by (simp_all add: cohort_mem)
  ultimately have "before (Q (sd t)) u t \<or> before (Q (sd t)) t u" using before_total by metis
  then show False using before_chain [of "Q (sd t)" P D] assms(2,6-9) by metis
qed

section \<open>Steps that keep the queues\<close>

lemma cohort_cong:
  assumes q: "cohort_ok sd v Q"
    and tail: "cv_tail v' = cv_tail v" and prev: "\<And>u. 2 \<le> cv_stage v u \<Longrightarrow> cv_prev v' u = cv_prev v u"
    and nxt: "cv_next v' = cv_next v" and rel: "cv_rel v' = cv_rel v" and gr: "cv_granted v' = cv_granted v"
    and stage: "\<And>u. cv_stage v' u = cv_stage v u"
  shows "cohort_ok sd v' Q"
proof -
  have sh: "mcs_shape (Q d) (cv_tail v d) (cv_prev v') (cv_next v) (\<lambda>t. 3 \<le> cv_stage v t)" for d
    by (rule mcs_shape_cong [OF cohort_shape [OF q]]) (simp_all add: cohort_mem [OF q] prev)
  show ?thesis using q sh prev by (simp add: cohort_ok_def tail nxt rel gr stage)
qed

text \<open>A thread moves on without writing a word of the queue.\<close>

lemma cohort_move:
  assumes q: "cohort_ok sd v Q" and r: "2 \<le> cv_stage v t"
    and k: "k = 4 \<and> cv_stage v t = 3 \<or> 5 \<le> k \<and> 5 \<le> cv_stage v t"
    and hd: "6 \<le> k \<Longrightarrow> t = hd (Q (sd t))" and last: "8 \<le> k \<Longrightarrow> t \<noteq> last (Q (sd t))"
    and rel: "k = 9 \<Longrightarrow> cv_rel v t"
  shows "cohort_ok sd (v\<lparr>cv_stage := (cv_stage v)(t := k)\<rparr>) Q"
proof -
  let ?v = "v\<lparr>cv_stage := (cv_stage v)(t := k)\<rparr>"
  have th: "2 \<le> cv_stage ?v u \<longleftrightarrow> 2 \<le> cv_stage v u" "3 \<le> cv_stage ?v u \<longleftrightarrow> 3 \<le> cv_stage v u"
    "5 \<le> cv_stage ?v u \<longleftrightarrow> 5 \<le> cv_stage v u" "cv_stage ?v u = 1 \<longleftrightarrow> cv_stage v u = 1" for u
    using r k by (cases "u = t"; auto)+
  have le: "cv_stage ?v u \<le> 4 \<longleftrightarrow> cv_stage v u \<le> 4" for u using r k by (cases "u = t") auto
  have same: "cv_tail ?v = cv_tail v" "cv_prev ?v = cv_prev v" "cv_next ?v = cv_next v" "cv_rel ?v = cv_rel v"
    "cv_granted ?v = cv_granted v" by simp_all
  show ?thesis
    unfolding cohort_ok_def same th le
  proof (intro conjI allI impI)
    show "u = hd (Q (sd u))" if "6 \<le> cv_stage ?v u" for u
      using cohort_head [OF q, of u] hd that by (cases "u = t") auto
    show "u \<noteq> last (Q (sd u))" if "8 \<le> cv_stage ?v u" for u
      using cohort_not_last [OF q, of u] last that by (cases "u = t") auto
    show "cv_rel v u" if "cv_stage ?v u = 9" for u
      using cohort_rel9 [OF q, of u] rel that by (cases "u = t") auto
  qed (use q in \<open>simp_all add: cohort_ok_def\<close>)
qed

section \<open>Entering the queue\<close>

lemma cohort_reset:
  assumes q: "cohort_ok sd v Q" and r: "cv_stage v t \<le> 1"
  shows "cohort_ok sd (v\<lparr>cv_next := (cv_next v)(t := None), cv_rel := (cv_rel v)(t := False),
    cv_granted := (cv_granted v)(t := False), cv_stage := (cv_stage v)(t := 1)\<rparr>) Q"
    (is "cohort_ok sd ?v Q")
proof -
  have tQ: "t \<notin> set (Q d)" for d using cohort_mem [OF q] r by simp
  have ne: "a \<noteq> t" "b \<noteq> t" if "adj (Q d) a b" for d a b using adj_set [OF that] tQ by auto
  have last: "Q d \<noteq> [] \<Longrightarrow> last (Q d) \<noteq> t" for d using tQ by (metis last_in_line)
  have th: "2 \<le> cv_stage ?v u \<longleftrightarrow> 2 \<le> cv_stage v u" "6 \<le> cv_stage ?v u \<longleftrightarrow> 6 \<le> cv_stage v u"
    "8 \<le> cv_stage ?v u \<longleftrightarrow> 8 \<le> cv_stage v u" "cv_stage ?v u = 9 \<longleftrightarrow> cv_stage v u = 9" for u
    using r by (cases "u = t"; auto)+
  show ?thesis
    unfolding cohort_ok_def th
  proof (intro conjI allI impI)
    show "mcs_shape (Q d) (cv_tail ?v d) (cv_prev ?v) (cv_next ?v) (\<lambda>t. 3 \<le> cv_stage ?v t)" for d
    proof -
      have "mcs_shape (Q d) (cv_tail v d) (cv_prev v) (cv_next ?v) (\<lambda>t. 3 \<le> cv_stage ?v t)"
        by (rule mcs_shape_cong [OF cohort_shape [OF q]]) (use tQ [of d] in auto)
      then show ?thesis by simp
    qed
    show "cv_rel ?v a = (5 \<le> cv_stage ?v b)" if "adj (Q d) a b" for d a b
      using cohort_rel [OF q that] ne [OF that] by simp
    show "\<not> cv_rel ?v (last (Q d))" if "Q d \<noteq> []" for d
      using cohort_rel_last [OF q that] by simp
    show "cv_next ?v u = None" "\<not> cv_rel ?v u" "\<not> cv_granted ?v u" if "cv_stage ?v u = 1" for u
      using cohort_fresh [OF q, of u] that by (cases "u = t"; simp)+
    show "cv_granted ?v u = (u = hd (Q (sd u)) \<and> cv_prev ?v u \<noteq> None)" if "2 \<le> cv_stage v u" for u
      using cohort_granted [OF q that] that r by (cases "u = t") simp_all
    show "u \<noteq> hd (Q (sd u))" if "2 \<le> cv_stage v u" "cv_stage ?v u \<le> 4" for u
      using cohort_not_head [OF q, of u] that r by (cases "u = t") simp_all
    show "cv_rel ?v u" if "cv_stage v u = 9" for u
      using cohort_rel9 [OF q that] that r by (cases "u = t") simp_all
  qed (use q in \<open>simp_all add: cohort_ok_def\<close>)
qed

lemma cohort_enqueue:
  fixes v sd t
  defines "w \<equiv> cv_tail v (sd t)"
  assumes q: "cohort_ok sd v Q" and r: "cv_stage v t = 1"
  shows "cohort_ok sd (v\<lparr>cv_tail := (cv_tail v)(sd t := Some t), cv_prev := (cv_prev v)(t := w),
    cv_stage := (cv_stage v)(t := (if w = None then 5 else 2))\<rparr>) (Q(sd t := Q (sd t) @ [t]))"
    (is "cohort_ok sd ?v ?Q")
proof -
  have tQ: "t \<notin> set (Q d)" for d using cohort_mem [OF q] r by simp
  have w: "w = (if Q (sd t) = [] then None else Some (last (Q (sd t))))"
    using cohort_shape [OF q, of "sd t"] by (simp add: mcs_shape_def w_def)
  note f = cohort_fresh [OF q r]
  have ne: "a \<noteq> t" "b \<noteq> t" if "adj (Q d) a b" for d a b using adj_set [OF that] tQ by auto
  have adj': "adj (?Q d) a b \<longleftrightarrow> adj (Q d) a b \<or> d = sd t \<and> Q (sd t) \<noteq> [] \<and> a = last (Q (sd t)) \<and> b = t" for d a b
    by (auto simp: adj_snoc)
  have hd': "hd (?Q d) = (if d = sd t \<and> Q d = [] then t else hd (Q d))" for d by simp
  have last': "last (?Q d) = (if d = sd t then t else last (Q d))" for d by simp
  have hdne: "Q d \<noteq> [] \<Longrightarrow> hd (Q d) \<noteq> t" for d using tQ hd_in_line by metis
  have ne6: "u \<noteq> t \<Longrightarrow> 2 \<le> cv_stage ?v u \<Longrightarrow> Q (sd u) \<noteq> []" for u using cohort_nonempty [OF q, of u] by simp
  have sh: "mcs_shape (?Q d) (cv_tail ?v d) (cv_prev ?v) (cv_next v) (\<lambda>t. 3 \<le> cv_stage ?v t)" for d
  proof (cases "d = sd t")
    case True
    show ?thesis
    proof (cases "Q (sd t) = []")
      case emp: True
      then show ?thesis using True f by (simp add: mcs_shape_def)
    next
      case False
      have "mcs_shape (Q (sd t) @ [t]) (Some t) (cv_prev ?v) (cv_next v) (\<lambda>t. 3 \<le> cv_stage ?v t)"
        by (rule mcs_shape_enqueue [OF cohort_shape [OF q, of "sd t"]])
           (use False w f tQ [of "sd t"] in \<open>auto simp: w_def\<close>)
      with True show ?thesis by simp
    qed
  next
    case False
    have "mcs_shape (Q d) (cv_tail v d) (cv_prev ?v) (cv_next v) (\<lambda>t. 3 \<le> cv_stage ?v t)"
      by (rule mcs_shape_cong [OF cohort_shape [OF q, of d]]) (use tQ [of d] in auto)
    with False show ?thesis by simp
  qed
  have same: "cv_next ?v = cv_next v" "cv_rel ?v = cv_rel v" "cv_granted ?v = cv_granted v" by simp_all
  show ?thesis
    unfolding cohort_ok_def adj' hd' last' same
  proof (intro conjI allI impI)
    show "u \<in> set (?Q d) \<longleftrightarrow> sd u = d \<and> 2 \<le> cv_stage ?v u" for d u
      using cohort_mem [OF q, of u d] r by auto
    show "cv_next v u = None" "\<not> cv_rel v u" "\<not> cv_granted v u" if "cv_stage ?v u = 1" for u
      using cohort_fresh [OF q, of u] f that by (cases "u = t"; simp)+
    show "cv_rel v a = (5 \<le> cv_stage ?v b)"
      if "adj (Q d) a b \<or> d = sd t \<and> Q (sd t) \<noteq> [] \<and> a = last (Q (sd t)) \<and> b = t" for d a b
      using that cohort_rel [OF q, of d a b] ne [of d a b] cohort_rel_last [OF q, of "sd t"] w by auto
    show "\<not> cv_rel v (if d = sd t then t else last (Q d))" if "?Q d \<noteq> []" for d
      using cohort_rel_last [OF q, of d] f that by (simp split: if_splits)
    show "cv_granted v u = (u = (if sd u = sd t \<and> Q (sd u) = [] then t else hd (Q (sd u))) \<and> cv_prev ?v u \<noteq> None)"
      if "2 \<le> cv_stage ?v u" for u
    proof (cases "u = t")
      case True
      then show ?thesis using f w hdne [of "sd t"] by auto
    next
      case False
      then show ?thesis using cohort_granted [OF q, of u] ne6 [OF False that] that by simp
    qed
    show "u = (if sd u = sd t \<and> Q (sd u) = [] then t else hd (Q (sd u)))" if "6 \<le> cv_stage ?v u" for u
      using cohort_head [OF q, of u] that ne6 [of u] by (cases "u = t") (simp_all split: if_splits)
    show "u \<noteq> (if sd u = sd t \<and> Q (sd u) = [] then t else hd (Q (sd u)))"
      if "2 \<le> cv_stage ?v u" "cv_stage ?v u \<le> 4" for u
    proof (cases "u = t")
      case True
      then show ?thesis using that w hdne [of "sd t"] by (auto split: if_splits)
    next
      case False
      then show ?thesis using cohort_not_head [OF q, of u] ne6 [OF False that(1)] that by simp
    qed
    show "u \<noteq> (if sd u = sd t then t else last (Q (sd u)))" if "8 \<le> cv_stage ?v u" for u
      using cohort_not_last [OF q, of u] that by (cases "u = t") (simp_all split: if_splits)
    show "cv_rel v u" if "cv_stage ?v u = 9" for u
      using cohort_rel9 [OF q, of u] that by (cases "u = t") (simp_all split: if_splits)
  qed (use sh in simp)
qed

lemma cohort_link:
  assumes q: "cohort_ok sd v Q" and r: "cv_stage v t = 2" and prev: "cv_prev v t = Some p"
  shows "cohort_ok sd (v\<lparr>cv_next := (cv_next v)(p := Some t), cv_stage := (cv_stage v)(t := 3)\<rparr>) Q"
    (is "cohort_ok sd ?v Q")
proof -
  obtain p' where "adj (Q (sd t)) p' t" "cv_prev v t = Some p'" using cohort_waiting [OF q, of t] r by auto
  then have adj: "adj (Q (sd t)) p t" using prev by simp
  note A = cohort_adj [OF q adj]
  have th: "2 \<le> cv_stage ?v u \<longleftrightarrow> 2 \<le> cv_stage v u" "5 \<le> cv_stage ?v u \<longleftrightarrow> 5 \<le> cv_stage v u"
    "6 \<le> cv_stage ?v u \<longleftrightarrow> 6 \<le> cv_stage v u" "cv_stage ?v u \<le> 4 \<longleftrightarrow> cv_stage v u \<le> 4"
    "8 \<le> cv_stage ?v u \<longleftrightarrow> 8 \<le> cv_stage v u" "cv_stage ?v u = 9 \<longleftrightarrow> cv_stage v u = 9"
    "cv_stage ?v u = 1 \<longleftrightarrow> cv_stage v u = 1" for u
    using r by (cases "u = t"; auto)+
  have sh: "mcs_shape (Q d) (cv_tail v d) (cv_prev v) (cv_next ?v) (\<lambda>t. 3 \<le> cv_stage ?v t)" for d
  proof (cases "d = sd t")
    case True
    show ?thesis
      by (rule mcs_shape_link [OF cohort_shape [OF q] adj [folded True]]) (use r in auto)
  next
    case False
    then have "p \<notin> set (Q d)" "t \<notin> set (Q d)" using cohort_mem [OF q] A by auto
    then show ?thesis by (intro mcs_shape_cong [OF cohort_shape [OF q]]) auto
  qed
  have same: "cv_tail ?v = cv_tail v" "cv_prev ?v = cv_prev v" "cv_rel ?v = cv_rel v" "cv_granted ?v = cv_granted v"
    by simp_all
  show ?thesis
    unfolding cohort_ok_def th same
  proof (intro conjI allI impI)
    show "cv_next ?v u = None" "\<not> cv_rel v u" "\<not> cv_granted v u" if "cv_stage v u = 1" for u
      using cohort_fresh [OF q that] A that by auto
  qed (use q sh in \<open>simp_all add: cohort_ok_def\<close>)
qed

lemma cohort_release:
  assumes q: "cohort_ok sd v Q" and r: "cv_stage v t = 4" and prev: "cv_prev v t = Some p"
  shows "cohort_ok sd (v\<lparr>cv_rel := (cv_rel v)(p := True), cv_stage := (cv_stage v)(t := 5)\<rparr>) Q"
    (is "cohort_ok sd ?v Q")
proof -
  obtain p' where "adj (Q (sd t)) p' t" "cv_prev v t = Some p'" using cohort_waiting [OF q, of t] r by auto
  then have adj: "adj (Q (sd t)) p t" using prev by simp
  note A = cohort_adj [OF q adj]
  have plast: "last (Q d) \<noteq> p" if "Q d \<noteq> []" for d
    using adj_not_last [OF cohort_distinct [OF q] adj] cohort_mem [OF q, of p d] A that last_in_line by metis
  have th: "2 \<le> cv_stage ?v u \<longleftrightarrow> 2 \<le> cv_stage v u" "3 \<le> cv_stage ?v u \<longleftrightarrow> 3 \<le> cv_stage v u"
    "6 \<le> cv_stage ?v u \<longleftrightarrow> 6 \<le> cv_stage v u"
    "8 \<le> cv_stage ?v u \<longleftrightarrow> 8 \<le> cv_stage v u" "cv_stage ?v u = 9 \<longleftrightarrow> cv_stage v u = 9"
    "cv_stage ?v u = 1 \<longleftrightarrow> cv_stage v u = 1" for u
    using r by (cases "u = t"; auto)+
  have same: "cv_tail ?v = cv_tail v" "cv_prev ?v = cv_prev v" "cv_next ?v = cv_next v" "cv_granted ?v = cv_granted v"
    by simp_all
  show ?thesis
    unfolding cohort_ok_def th same
  proof (intro conjI allI impI)
    show "cv_rel ?v a = (5 \<le> cv_stage ?v b)" if "adj (Q d) a b" for d a b
      using cohort_rel [OF q that] cohort_adj_left [OF q that, of "sd t" p] cohort_adj_right [OF q that, of "sd t" t]
        that adj by (cases "b = t"; cases "a = p") auto
    show "\<not> cv_rel ?v (last (Q d))" if "Q d \<noteq> []" for d
      using cohort_rel_last [OF q that] plast [OF that] by simp
    show "cv_next v u = None" "\<not> cv_rel ?v u" "\<not> cv_granted v u" if "cv_stage v u = 1" for u
      using cohort_fresh [OF q that] A that by auto
    show "u \<noteq> hd (Q (sd u))" if "2 \<le> cv_stage v u" "cv_stage ?v u \<le> 4" for u
      using cohort_not_head [OF q, of u] that by (cases "u = t") simp_all
    show "cv_rel ?v u" if "cv_stage v u = 9" for u using cohort_rel9 [OF q that] by simp
  qed (use q in \<open>simp_all add: cohort_ok_def\<close>)
qed

section \<open>Leaving the queue\<close>

text \<open>
  The head \<open>t\<close> leaves; when there is a new head, it is granted the lock.
\<close>

lemma cohort_dequeue:
  fixes Q sd t
  defines "q' \<equiv> tl (Q (sd t))"
  assumes q: "cohort_ok sd v Q" and r: "6 \<le> cv_stage v t"
    and shape: "mcs_shape q' w (cv_prev v) (cv_next v) (\<lambda>u. 3 \<le> cv_stage v u)"
    and gr: "\<And>u. gr u = (if q' \<noteq> [] \<and> u = hd q' then True else cv_granted v u)"
    and succ: "q' \<noteq> [] \<Longrightarrow> 5 \<le> cv_stage v (hd q') \<and> cv_prev v (hd q') \<noteq> None"
  shows "cohort_ok sd (v\<lparr>cv_tail := (cv_tail v)(sd t := w), cv_granted := gr,
    cv_stage := (cv_stage v)(t := 0)\<rparr>) (Q(sd t := q'))" (is "cohort_ok sd ?v ?Q")
proof -
  have dist: "distinct (Q d)" for d by (rule cohort_distinct [OF q])
  have hd: "t = hd (Q (sd t))" using cohort_head [OF q r] .
  have tQ: "t \<in> set (Q (sd t))" using cohort_mem [OF q, of t "sd t"] r by simp
  have mem: "u \<in> set (?Q d) \<longleftrightarrow> u \<in> set (Q d) \<and> u \<noteq> t" for d u
    using tl_line [OF dist [of "sd t"], of u] hd cohort_mem [OF q, of t d] by (auto simp: q'_def)
  have adj: "adj (Q d) a b \<and> a \<noteq> t \<and> b \<noteq> t" if "adj (?Q d) a b" for d a b
  proof -
    have "a \<noteq> t" "b \<noteq> t" using adj_set [OF that] mem [of a d] mem [of b d] by auto
    moreover have "adj (Q d) a b"
      using adj_tl [OF dist [of "sd t"], of a b] that by (cases "d = sd t") (auto simp: q'_def)
    ultimately show ?thesis by blast
  qed
  have last: "last (?Q d) = last (Q d)" "Q d \<noteq> []" if "?Q d \<noteq> []" for d
    using that by (cases "d = sd t"; auto simp: q'_def last_tl)+
  have hd': "u = hd (?Q (sd u)) \<longleftrightarrow> (if sd u = sd t then u = hd q' else u = hd (Q (sd u)))" for u by simp
  have ne: "?Q (sd u) \<noteq> []" if "u \<noteq> t" "2 \<le> cv_stage v u" for u
    using mem [of u "sd u"] cohort_mem [OF q, of u "sd u"] that by auto
  have q'ne: "q' \<noteq> []" if "u \<noteq> t" "2 \<le> cv_stage v u" "sd u = sd t" for u using ne [OF that(1,2)] that(3) by simp
  have other: "cv_stage ?v u = k \<Longrightarrow> 1 \<le> k \<Longrightarrow> u \<noteq> t \<and> cv_stage v u = k" for u k
    by (cases "u = t") auto
  have same: "cv_prev ?v = cv_prev v" "cv_next ?v = cv_next v" "cv_rel ?v = cv_rel v" "cv_granted ?v = gr"
    by simp_all
  show ?thesis
    unfolding cohort_ok_def same hd'
  proof (intro conjI allI impI)
    show "mcs_shape (?Q d) (cv_tail ?v d) (cv_prev v) (cv_next v) (\<lambda>u. 3 \<le> cv_stage ?v u)" for d
    proof -
      have "mcs_shape (?Q d) (cv_tail ?v d) (cv_prev v) (cv_next v) (\<lambda>u. 3 \<le> cv_stage v u)"
        using shape cohort_shape [OF q, of d] by (cases "d = sd t") auto
      then show ?thesis by (rule mcs_shape_cong) (use mem [of _ d] in auto)
    qed
    show "u \<in> set (?Q d) \<longleftrightarrow> sd u = d \<and> 2 \<le> cv_stage ?v u" for d u
      unfolding mem using cohort_mem [OF q, of u d] by (cases "u = t") auto
    show "cv_next v u = None" "\<not> cv_rel v u" "\<not> gr u" if "cv_stage ?v u = 1" for u
    proof -
      note u = other [OF that]
      show "cv_next v u = None" "\<not> cv_rel v u" using cohort_fresh [OF q, of u] u by auto
      show "\<not> gr u" using cohort_fresh [OF q, of u] u gr [of u] succ by auto
    qed
    show "cv_rel v a = (5 \<le> cv_stage ?v b)" if "adj (?Q d) a b" for d a b
      using adj [OF that] cohort_rel [OF q, of d a b] by simp
    show "\<not> cv_rel v (last (?Q d))" if "?Q d \<noteq> []" for d
      using last [OF that] cohort_rel_last [OF q, of d] by simp
    show "gr u = ((if sd u = sd t then u = hd q' else u = hd (Q (sd u))) \<and> cv_prev v u \<noteq> None)"
      if "2 \<le> cv_stage ?v u" for u
    proof -
      have u: "u \<noteq> t" "2 \<le> cv_stage v u" using that by (cases "u = t"; simp)+
      show ?thesis
      proof (cases "sd u = sd t")
        case True
        then show ?thesis
          using cohort_granted [OF q u(2)] hd u(1) q'ne [OF u True] gr [of u] succ by auto
      next
        case False
        then have "\<not> (q' \<noteq> [] \<and> u = hd q')"
          using mem [of u "sd t"] cohort_mem [OF q, of u "sd t"] by auto
        then show ?thesis using cohort_granted [OF q u(2)] False gr [of u] by auto
      qed
    qed
    show "if sd u = sd t then u = hd q' else u = hd (Q (sd u))" if "6 \<le> cv_stage ?v u" for u
    proof -
      have u: "u \<noteq> t" "6 \<le> cv_stage v u" using that by (cases "u = t"; simp)+
      have "u = hd (Q (sd u))" using cohort_head [OF q u(2)] .
      with hd u(1) show ?thesis by auto
    qed
    show "\<not> (if sd u = sd t then u = hd q' else u = hd (Q (sd u)))" if "2 \<le> cv_stage ?v u" "cv_stage ?v u \<le> 4" for u
    proof -
      have u: "u \<noteq> t" "2 \<le> cv_stage v u" "cv_stage v u \<le> 4" using that by (cases "u = t"; simp)+
      then show ?thesis using cohort_not_head [OF q u(2,3)] succ q'ne [OF u(1,2)] by (auto split: if_splits)
    qed
    show "u \<noteq> last (?Q (sd u))" if "8 \<le> cv_stage ?v u" for u
    proof -
      have u: "u \<noteq> t" "8 \<le> cv_stage v u" using that by (cases "u = t"; simp)+
      then show ?thesis using cohort_not_last [OF q u(2)] last(1) [OF ne [OF u(1)]] by simp
    qed
    show "cv_rel v u" if "cv_stage ?v u = 9" for u using cohort_rel9 [OF q, of u] other [OF that] by simp
  qed
qed

lemma cohort_leave_alone:
  assumes q: "cohort_ok sd v Q" and r: "6 \<le> cv_stage v t" and tail: "cv_tail v (sd t) = Some t"
  shows "cohort_ok sd (v\<lparr>cv_tail := (cv_tail v)(sd t := None), cv_stage := (cv_stage v)(t := 0)\<rparr>)
    (Q(sd t := tl (Q (sd t))))"
proof -
  have "Q (sd t) = [t]"
    by (rule mcs_shape_single [OF cohort_shape [OF q, of "sd t", unfolded tail] cohort_head [OF q r]])
  then have "cohort_ok sd (v\<lparr>cv_tail := (cv_tail v)(sd t := None), cv_granted := cv_granted v,
    cv_stage := (cv_stage v)(t := 0)\<rparr>) (Q(sd t := tl (Q (sd t))))"
    by (intro cohort_dequeue [OF q r]) simp_all
  then show ?thesis by simp
qed

lemma cohort_grant_next:
  assumes q: "cohort_ok sd v Q" and r: "cv_stage v t = 9"
  obtains n where "cv_next v t = Some n" and "adj (Q (sd t)) t n" and "5 \<le> cv_stage v n"
proof -
  have tQ: "t \<in> set (Q (sd t))" and nl: "t \<noteq> last (Q (sd t))"
    using cohort_mem [OF q] cohort_not_last [OF q] r by simp_all
  obtain n where adj: "adj (Q (sd t)) t n" using adj_ex_right [OF tQ nl] by blast
  have n5: "5 \<le> cv_stage v n" using cohort_rel [OF q adj] cohort_rel9 [OF q r] by simp
  have "cv_next v t = Some n" using mcs_shape_next [OF cohort_shape [OF q] adj] n5 by simp
  with that adj n5 show ?thesis by blast
qed

lemma cohort_grant:
  assumes q: "cohort_ok sd v Q" and r: "cv_stage v t = 9" and n: "cv_next v t = Some n"
  shows "cohort_ok sd (v\<lparr>cv_granted := (cv_granted v)(n := True), cv_stage := (cv_stage v)(t := 0)\<rparr>)
    (Q(sd t := tl (Q (sd t))))"
proof -
  obtain n' where n': "cv_next v t = Some n'" "adj (Q (sd t)) t n'" "5 \<le> cv_stage v n'"
    using cohort_grant_next [OF q r] by blast
  have r6: "6 \<le> cv_stage v t" using r by simp
  have adj: "adj (Q (sd t)) (hd (Q (sd t))) n" using n' n cohort_head [OF q r6] by simp
  note H = mcs_shape_handover [OF cohort_shape [OF q] adj]
  have "cohort_ok sd (v\<lparr>cv_tail := (cv_tail v)(sd t := cv_tail v (sd t)), cv_granted := (cv_granted v)(n := True),
    cv_stage := (cv_stage v)(t := 0)\<rparr>) (Q(sd t := tl (Q (sd t))))"
    by (rule cohort_dequeue [OF q r6 H(1)]) (use H n' n cohort_prev [OF q n'(2)] in auto)
  then show ?thesis by simp
qed

end
