(* ===== verification/BatchLine.thy ===== *)
theory BatchLine
  imports Interleaving
begin

text \<open>
  Lines of outstanding tickets when a ticket may serve several threads, as in FARLockG.  \<open>fol t\<close>: thread
  \<open>t\<close> follows in the batch of the thread ahead of it and so shares its ticket; any other thread has
  the ticket after that of the thread ahead.
\<close>

fun batch_line :: "u64 \<Rightarrow> (tid \<Rightarrow> u64) \<Rightarrow> (tid \<Rightarrow> bool) \<Rightarrow> tid list \<Rightarrow> bool" where
  "batch_line c tk fol [] \<longleftrightarrow> True"
| "batch_line c tk fol [x] \<longleftrightarrow> tk x = c"
| "batch_line c tk fol (x # y # xs) \<longleftrightarrow> tk x = c \<and> batch_line (if fol y then c else c + 1) tk fol (y # xs)"

text \<open>The ticket that is handed out next.\<close>

fun batch_end :: "u64 \<Rightarrow> (tid \<Rightarrow> bool) \<Rightarrow> tid list \<Rightarrow> u64" where
  "batch_end c fol [] = c"
| "batch_end c fol [x] = c + 1"
| "batch_end c fol (x # y # xs) = batch_end (if fol y then c else c + 1) fol (y # xs)"

lemma batch_line_hd: "batch_line c tk fol xs \<Longrightarrow> xs \<noteq> [] \<Longrightarrow> tk (hd xs) = c"
  by (cases "(c, tk, fol, xs)" rule: batch_line.cases) auto

lemma batch_line_last: "batch_line c tk fol xs \<Longrightarrow> xs \<noteq> [] \<Longrightarrow> batch_end c fol xs = tk (last xs) + 1"
  by (induction c tk fol xs rule: batch_line.induct) auto

lemma batch_line_cong:
  assumes "\<And>x. x \<in> set xs \<Longrightarrow> tk' x = tk x" and "\<And>x. x \<in> set (tl xs) \<Longrightarrow> fol' x = fol x"
  shows "batch_line c tk' fol' xs = batch_line c tk fol xs"
  using assms by (induction c tk fol xs rule: batch_line.induct) auto

lemma batch_end_cong:
  assumes "\<And>x. x \<in> set (tl xs) \<Longrightarrow> fol' x = fol x"
  shows "batch_end c fol' xs = batch_end c fol xs"
  using assms by (induction c fol xs rule: batch_end.induct) auto

text \<open>A thread that draws the next ticket joins the line, and so does a follower of the last thread.\<close>

lemma batch_line_draw:
  assumes "batch_line c tk fol xs" and "\<not> fol t" and "tk t = batch_end c fol xs"
  shows "batch_line c tk fol (xs @ [t])"
  using assms by (induction c tk fol xs rule: batch_line.induct) auto

lemma batch_end_draw: "\<not> fol t \<Longrightarrow> batch_end c fol (xs @ [t]) = batch_end c fol xs + 1"
  by (induction c fol xs rule: batch_end.induct) auto

lemma batch_line_follow:
  assumes "batch_line c tk fol xs" and "xs \<noteq> []" and "fol t" and "tk t = tk (last xs)"
  shows "batch_line c tk fol (xs @ [t])"
  using assms by (induction c tk fol xs rule: batch_line.induct) auto

lemma batch_end_follow: "xs \<noteq> [] \<Longrightarrow> fol t \<Longrightarrow> batch_end c fol (xs @ [t]) = batch_end c fol xs"
  by (induction c fol xs rule: batch_end.induct) auto

text \<open>The first thread leaves: the ticket stays when a follower comes next.\<close>

lemma batch_line_tl:
  assumes "batch_line c tk fol xs" and "xs \<noteq> []"
  shows "batch_line (if tl xs \<noteq> [] \<and> fol (hd (tl xs)) then c else c + 1) tk fol (tl xs)"
  using assms by (cases "(c, tk, fol, xs)" rule: batch_line.cases) auto

lemma batch_end_tl:
  assumes "xs \<noteq> []"
  shows "batch_end (if tl xs \<noteq> [] \<and> fol (hd (tl xs)) then c else c + 1) fol (tl xs) = batch_end c fol xs"
  using assms by (cases "(c, fol, xs)" rule: batch_end.cases) auto

text \<open>Behind the first thread only followers can have its ticket: fewer than \<open>2 ^ 64\<close> tickets are out.\<close>

lemma batch_line_distance:
  assumes "batch_line c tk fol (x # xs)" and "t \<in> set xs" and "\<not> fol t"
  shows "\<exists>k. 1 \<le> k \<and> k \<le> length xs \<and> tk t = c + of_nat k"
  using assms
proof (induction xs arbitrary: c x)
  case (Cons y ys)
  let ?c = "if fol y then c else c + 1"
  have l: "batch_line ?c tk fol (y # ys)" using Cons.prems(1) by simp
  show ?case
  proof (cases "t = y")
    case True
    then have "tk t = c + of_nat 1" using batch_line_hd [OF l] Cons.prems(3) by simp
    then show ?thesis by (intro exI [of _ 1]) simp
  next
    case False
    then have t: "t \<in> set ys" using Cons.prems(2) by simp
    obtain k where k: "1 \<le> k" "k \<le> length ys" "tk t = ?c + of_nat k"
      using Cons.IH [OF l t Cons.prems(3)] by blast
    show ?thesis
      by (rule exI [of _ "if fol y then k else Suc k"]) (use k in \<open>auto simp: algebra_simps\<close>)
  qed
qed simp

lemma batch_line_head:
  assumes "batch_line c tk fol xs" and "distinct xs" and "t \<in> set xs" and "\<not> fol t" and "tk t = c"
  shows "t = hd xs"
proof (cases xs)
  case (Cons x ys)
  have "t = x"
  proof (rule ccontr)
    assume "t \<noteq> x"
    then have "t \<in> set ys" using assms(3) Cons by simp
    then obtain k where k: "1 \<le> k" "k \<le> length ys" "tk t = c + of_nat k"
      using batch_line_distance [OF assms(1) [unfolded Cons] _ assms(4)] by blast
    have "length xs \<le> 2 ^ 64" by (rule distinct_tid_length [OF assms(2)])
    then have lt: "k < 2 ^ LENGTH(64)" using k(2) Cons by simp
    have "of_nat k = (0 :: u64)" using k(3) assms(5) by simp
    then have "unat (0 :: u64) = k" using lt by (rule of_nat_inverse)
    with k(1) show False by simp
  qed
  with Cons show ?thesis by simp
qed (use assms in simp)

end
