(* ===== verification/FARLockGInv.thy ===== *)
theory FARLockGInv
  imports FARLockG CohortQueue BatchLine
begin

text \<open>
  The invariant of the FARLockG protocol.  The queues are those of \<open>CohortQueue\<close>, the tickets those of
  \<open>BatchLine\<close>, and the place in Peterson's algorithm travels with the ticket down a batch: a waiting
  thread whose \<^verbatim>\<open>budget_\<close> has been set to a value other than the initial one has inherited both.
\<close>

section \<open>Ghost state and program positions\<close>

record fg_ghost =
  gg_queue :: "side \<Rightarrow> tid list"
  gg_line :: "tid list"

definition fg_ginit :: fg_ghost where
  "fg_ginit = \<lparr>gg_queue = (\<lambda>_. []), gg_line = []\<rparr>"

fun fg_tail :: "side \<Rightarrow> FARLockG \<Rightarrow> tid option" where
  "fg_tail Local l = gl_local_tail l"
| "fg_tail Remote l = gl_remote_tail l"

lemma fg_tail_frame [simp]:
  "fg_tail d (l\<lparr>gl_local_flag := x\<rparr>) = fg_tail d l" "fg_tail d (l\<lparr>gl_remote_flag := x\<rparr>) = fg_tail d l"
  "fg_tail d (l\<lparr>gl_victim := x\<rparr>) = fg_tail d l" "fg_tail d (l\<lparr>gl_next_ticket := x\<rparr>) = fg_tail d l"
  "fg_tail d (l\<lparr>gl_current_ticket := x\<rparr>) = fg_tail d l"
  by (cases d; simp)+

definition fg_enqueues :: "(tid \<Rightarrow> side) \<Rightarrow> fg_state \<Rightarrow> tid \<Rightarrow> bool" where
  "fg_enqueues sd s t \<longleftrightarrow> g_at s t = GSwap \<and>
     (sd t = Local \<or> gl_remote_tail (g_lock s) = gh_hint (g_thr s t))"

definition fg_dequeues :: "(tid \<Rightarrow> side) \<Rightarrow> fg_state \<Rightarrow> tid \<Rightarrow> bool" where
  "fg_dequeues sd s t \<longleftrightarrow>
     g_at s t = GGrant \<or> g_at s t = GCasTail \<and> fg_tail (sd t) (g_lock s) = Some t"

definition fg_draws :: "(tid \<Rightarrow> side) \<Rightarrow> fg_state \<Rightarrow> tid \<Rightarrow> bool" where
  "fg_draws sd s t \<longleftrightarrow> (if sd t = Local then g_at s t = GTake else g_at s t = GPut)"

definition fg_gstep :: "(tid \<Rightarrow> side) \<Rightarrow> tid \<Rightarrow> fg_state \<Rightarrow> fg_ghost \<Rightarrow> fg_ghost" where
  "fg_gstep sd t s g = \<lparr>
     gg_queue = (if fg_enqueues sd s t then (gg_queue g)(sd t := gg_queue g (sd t) @ [t])
       else if fg_dequeues sd s t then (gg_queue g)(sd t := tl (gg_queue g (sd t)))
       else gg_queue g),
     gg_line = (if fg_draws sd s t then gg_line g @ [t]
       else if g_at s t = GPassBudget then gg_line g @ [the (gd_next (g_desc s t))]
       else if g_at s t = GCritical then tl (gg_line g) else gg_line g)\<rparr>"

fun fg_rank :: "fg_pc \<Rightarrow> nat" where
  "fg_rank GIdle = 0" | "fg_rank GSwap = 1" | "fg_rank GSetNext = 2" | "fg_rank GLoadValid = 3"
| "fg_rank GSetReleasable = 4" | "fg_rank GWaitBudget = 5" | "fg_rank GTestBudget = 6"
| "fg_rank GReadTicket = 7" | "fg_rank GSetBudget = 8" | "fg_rank GPetFlag = 9"
| "fg_rank GPetVictim = 10" | "fg_rank GPetReadA = 11" | "fg_rank GPetReadB = 12"
| "fg_rank GTake = 13" | "fg_rank GPut = 14" | "fg_rank GLoadNext = 15" | "fg_rank GLoadBudget = 16"
| "fg_rank GPassTicket = 17" | "fg_rank GPassBudget = 18" | "fg_rank GPetUnlock1 = 19"
| "fg_rank GPetUnlock = 20" | "fg_rank GSetValid1 = 21" | "fg_rank GSetValid = 22"
| "fg_rank GReloadNext = 23" | "fg_rank GSignal = 24" | "fg_rank GAwaitPred = 25"
| "fg_rank GAwaitTicket = 26" | "fg_rank GStoreTicket = 27" | "fg_rank GCritical = 28"
| "fg_rank GCheckNext = 29" | "fg_rank GCasTail = 30" | "fg_rank GWaitReleasable = 31"
| "fg_rank GGrant = 32"

definition fg_stage :: "nat \<Rightarrow> nat" where
  "fg_stage r = (if r \<le> 4 then r else if r \<le> 25 then 5 else if r \<le> 28 then 6 else if r \<le> 30 then 7
     else if r = 31 then 8 else 9)"

lemma fg_stage_iff [simp]:
  "2 \<le> fg_stage r \<longleftrightarrow> 2 \<le> r" "3 \<le> fg_stage r \<longleftrightarrow> 3 \<le> r" "5 \<le> fg_stage r \<longleftrightarrow> 5 \<le> r"
  "6 \<le> fg_stage r \<longleftrightarrow> 26 \<le> r" "8 \<le> fg_stage r \<longleftrightarrow> 31 \<le> r" "fg_stage r = 9 \<longleftrightarrow> 32 \<le> r"
  "fg_stage r = 1 \<longleftrightarrow> r = 1" "fg_stage r \<le> 4 \<longleftrightarrow> r \<le> 4"
  by (auto simp: fg_stage_def)

abbreviation gR :: "fg_state \<Rightarrow> tid \<Rightarrow> nat" where "gR s t \<equiv> fg_rank (g_at s t)"
abbreviation gP :: "fg_state \<Rightarrow> tid \<Rightarrow> tid option" where "gP s t \<equiv> gh_prev (g_thr s t)"
abbreviation gT :: "fg_state \<Rightarrow> tid \<Rightarrow> u64" where "gT s t \<equiv> gh_ticket (g_thr s t)"
abbreviation gF :: "fg_state \<Rightarrow> tid \<Rightarrow> bool" where "gF s t \<equiv> gh_from_prev (g_thr s t)"
abbreviation gN :: "fg_state \<Rightarrow> tid \<Rightarrow> tid option" where "gN s t \<equiv> gd_next (g_desc s t)"
abbreviation gV :: "fg_state \<Rightarrow> tid \<Rightarrow> bool" where "gV s t \<equiv> gd_ticket_valid (g_desc s t) = kTrue"
abbreviation gB :: "fg_state \<Rightarrow> tid \<Rightarrow> u64" where "gB s t \<equiv> gd_budget (g_desc s t)"
abbreviation gK :: "fg_state \<Rightarrow> tid \<Rightarrow> u64" where "gK s t \<equiv> gd_batch_ticket (g_desc s t)"

definition fg_view :: "fg_state \<Rightarrow> cohort_view" where
  "fg_view s = \<lparr>cv_tail = (\<lambda>d. fg_tail d (g_lock s)), cv_prev = gP s, cv_next = gN s,
     cv_rel = (\<lambda>t. gd_releasable (g_desc s t) = kTrue), cv_granted = (\<lambda>t. gd_granted (g_desc s t) = kTrue),
     cv_stage = (\<lambda>t. fg_stage (gR s t))\<rparr>"

lemma fg_view_simps [simp]:
  "cv_tail (fg_view s) = (\<lambda>d. fg_tail d (g_lock s))" "cv_prev (fg_view s) = gP s" "cv_next (fg_view s) = gN s"
  "cv_rel (fg_view s) = (\<lambda>t. gd_releasable (g_desc s t) = kTrue)"
  "cv_granted (fg_view s) = (\<lambda>t. gd_granted (g_desc s t) = kTrue)"
  "cv_stage (fg_view s) = (\<lambda>t. fg_stage (gR s t))"
  by (simp_all add: fg_view_def)

section \<open>Invariant\<close>

text \<open>
  A follower has its ticket from the thread ahead; while it has not noticed yet, the ticket is in its
  descriptor.
\<close>

definition fg_fol :: "LockConfig \<Rightarrow> (tid \<Rightarrow> side) \<Rightarrow> fg_state \<Rightarrow> tid \<Rightarrow> bool" where
  "fg_fol c sd s t \<longleftrightarrow>
     (if gR s t \<le> 7 then 3 \<le> gR s t \<and> gB s t \<noteq> -1 \<and> gB s t \<noteq> kInitBudget c (sd t) else gF s t)"

definition fg_tk :: "fg_state \<Rightarrow> tid \<Rightarrow> u64" where
  "fg_tk s t = (if gR s t \<le> 7 then gK s t else gT s t)"

fun fg_phase :: "fg_pc \<Rightarrow> pet_phase" where
  "fg_phase GPetVictim = Flagged"
| "fg_phase GPetReadA = ReadA"
| "fg_phase GPetReadB = ReadB"
| "fg_phase GTake = In"
| "fg_phase GPut = In"
| "fg_phase GLoadNext = In"
| "fg_phase GLoadBudget = In"
| "fg_phase GPassTicket = In"
| "fg_phase GPassBudget = In"
| "fg_phase GPetUnlock1 = In"
| "fg_phase GPetUnlock = In"
| "fg_phase _ = Out"

definition fg_ph :: "LockConfig \<Rightarrow> (tid \<Rightarrow> side) \<Rightarrow> fg_state \<Rightarrow> tid \<Rightarrow> pet_phase" where
  "fg_ph c sd s t = (if gR s t \<le> 7 \<and> fg_fol c sd s t then In else fg_phase (g_at s t))"

text \<open>What holds of each thread by itself.\<close>

definition fg_own :: "LockConfig \<Rightarrow> (tid \<Rightarrow> side) \<Rightarrow> fg_state \<Rightarrow> tid \<Rightarrow> bool" where
  "fg_own c sd s t \<longleftrightarrow>
     (1 \<le> gR s t \<and> gR s t \<le> 22 \<longrightarrow> \<not> gV s t) \<and>
     (gR s t = 23 \<or> gR s t = 24 \<longrightarrow> gV s t) \<and>
     (1 \<le> gR s t \<and> gR s t \<le> 14 \<longrightarrow> \<not> gF s t) \<and>
     (gR s t = 1 \<or> gR s t = 2 \<longrightarrow> gB s t = -1) \<and>
     (gR s t = 6 \<longrightarrow> gB s t \<noteq> -1) \<and>
     (gR s t = 7 \<longrightarrow> fg_fol c sd s t) \<and>
     (9 \<le> gR s t \<and> \<not> gF s t \<longrightarrow> gB s t = kInitBudget c (sd t)) \<and>
     (1 \<le> gR s t \<and> fg_fol c sd s t \<longrightarrow> gB s t \<noteq> 0 \<and> gB s t < kInitBudget c (sd t) \<and> gP s t \<noteq> None) \<and>
     (gR s t = 17 \<or> gR s t = 18 \<longrightarrow> gB s t \<noteq> 1) \<and>
     (gR s t = 17 \<or> gR s t = 18 \<longrightarrow> sd t = Remote \<longrightarrow> gh_buf_budget (g_thr s t) = gB s t - 1) \<and>
     (gR s t \<in> {16, 17, 18, 19, 21, 24} \<longrightarrow> gN s t \<noteq> None) \<and>
     (15 \<le> gR s t \<and> (gF s t \<or> gR s t = 28) \<longrightarrow> gK s t = gT s t) \<and>
     (gR s t = 14 \<longrightarrow> sd t = Remote) \<and>
     (gR s t = 26 \<or> gR s t = 27 \<longrightarrow> \<not> gF s t) \<and>
     (2 \<le> gR s t \<and> gR s t \<le> 7 \<longrightarrow> gP s t \<noteq> None)"

text \<open>What holds of two threads, \<open>b\<close> directly behind \<open>a\<close>: \<open>b\<close> is told to go on only by an \<open>a\<close> that is done.\<close>

definition fg_active :: "fg_state \<Rightarrow> tid \<Rightarrow> bool" where
  "fg_active s t \<longleftrightarrow> 6 \<le> gR s t \<or> 3 \<le> gR s t \<and> gB s t \<noteq> -1 \<or> gR s t = 4 \<and> gT s t = kTrue"

definition fg_adj :: "LockConfig \<Rightarrow> (tid \<Rightarrow> side) \<Rightarrow> fg_state \<Rightarrow> tid \<Rightarrow> tid \<Rightarrow> bool" where
  "fg_adj c sd s a b \<longleftrightarrow>
     (fg_active s b \<longrightarrow> 23 \<le> gR s a) \<and>
     (fg_fol c sd s b \<longrightarrow> 25 \<le> gR s a \<and> \<not> gV s a) \<and>
     (gR s b = 4 \<and> gT s b = kTrue \<longrightarrow> gV s a) \<and>
     (gR s a = 18 \<longrightarrow> gK s b = gT s a)"

definition fg_buf :: "fg_state \<Rightarrow> tid \<Rightarrow> u64" where
  "fg_buf s t = (if g_at s t = GPetReadB then gh_buf_victim (g_thr s t) else 0)"

definition fg_pet :: "LockConfig \<Rightarrow> (tid \<Rightarrow> side) \<Rightarrow> fg_state \<Rightarrow> bool" where
  "fg_pet c sd s \<longleftrightarrow> pet_ok sd (fg_ph c sd s) (fg_buf s) (gl_local_flag (g_lock s)) (gl_remote_flag (g_lock s))
     (gl_victim (g_lock s))"

definition fg_inline :: "LockConfig \<Rightarrow> (tid \<Rightarrow> side) \<Rightarrow> fg_state \<Rightarrow> tid \<Rightarrow> bool" where
  "fg_inline c sd s t \<longleftrightarrow> gR s t \<le> 7 \<and> fg_fol c sd s t \<or> 15 \<le> gR s t \<and> gR s t \<le> 28"

definition fg_lines :: "LockConfig \<Rightarrow> (tid \<Rightarrow> side) \<Rightarrow> fg_state \<Rightarrow> (side \<Rightarrow> tid list) \<Rightarrow> tid list \<Rightarrow> bool" where
  "fg_lines c sd s Q l \<longleftrightarrow>
     distinct l \<and>
     (\<forall>t. t \<in> set l \<longleftrightarrow> fg_inline c sd s t) \<and>
     batch_line (gl_current_ticket (g_lock s)) (fg_tk s) (fg_fol c sd s) l \<and>
     gl_next_ticket (g_lock s) = batch_end (gl_current_ticket (g_lock s)) (fg_fol c sd s) l \<and>
     (\<forall>a b. adj l a b \<and> fg_fol c sd s b \<longrightarrow> adj (Q (sd b)) a b) \<and>
     (\<forall>a. 25 \<le> gR s a \<and> gR s a \<le> 28 \<and> \<not> gV s a \<longrightarrow> (\<exists>b. adj l a b \<and> fg_fol c sd s b)) \<and>
     (\<forall>t. gR s t = 27 \<or> gR s t = 28 \<longrightarrow> t = hd l) \<and>
     (\<forall>t. gR s t = 14 \<longrightarrow> gT s t = gl_next_ticket (g_lock s)) \<and>
     (\<forall>t. fg_inline c sd s t \<and> gR s t \<le> 18 \<longrightarrow> t = last l)"

definition fg_inv :: "LockConfig \<Rightarrow> (tid \<Rightarrow> side) \<Rightarrow> fg_state \<Rightarrow> fg_ghost \<Rightarrow> bool" where
  "fg_inv c sd s g \<longleftrightarrow> cohort_ok sd (fg_view s) (gg_queue g) \<and> (\<forall>t. fg_own c sd s t) \<and>
     (\<forall>d a b. adj (gg_queue g d) a b \<longrightarrow> fg_adj c sd s a b) \<and> fg_pet c sd s \<and>
     fg_lines c sd s (gg_queue g) (gg_line g)"

text \<open>Both budgets of the configuration are positive.\<close>

definition budgets_ok :: "LockConfig \<Rightarrow> bool" where
  "budgets_ok c \<longleftrightarrow> local_budget c \<noteq> 0 \<and> remote_budget c \<noteq> 0"

lemma unat_ucast_32_64: "unat (ucast (b :: u32) :: u64) = unat b"
proof -
  have "unat b < 2 ^ 64" using unsigned_less [of b] by (rule less_trans) simp
  then show ?thesis by (simp add: unsigned_ucast_eq take_bit_nat_eq_self)
qed

lemma kInitBudget_bounds: "budgets_ok c \<Longrightarrow> kInitBudget c d \<noteq> 0" "kInitBudget c d \<noteq> -1"
proof -
  have "ucast b \<noteq> (-1 :: u64)" for b :: u32
  proof
    assume "ucast b = (-1 :: u64)"
    then have "unat b = unat (-1 :: u64)" using unat_ucast_32_64 [of b] by simp
    moreover have "unat b < 2 ^ 32" using unsigned_less [of b] by simp
    ultimately show False by (simp add: unsigned_minus_1_eq_mask mask_eq_exp_minus_1)
  qed
  then show "kInitBudget c d \<noteq> -1" by (cases d) (simp_all add: kInitBudget_def)
  have "b = 0" if "ucast b = (0 :: u64)" for b :: u32
    using unat_ucast_32_64 [of b] that by (simp add: unsigned_eq_0_iff)
  then show "budgets_ok c \<Longrightarrow> kInitBudget c d \<noteq> 0"
    by (cases d) (auto simp: kInitBudget_def budgets_ok_def)
qed

end
