(* ===== verification/FARLockGEffect.thy ===== *)
theory FARLockGEffect
  imports FARLockGInv
begin

text \<open>
  The effect of every step of FARLockG, for both cohorts alike: on the lock, on the descriptors, on the
  handler of the thread and on the ghost state; and the frame lemmas that say which parts of the
  invariant a step leaves alone.
\<close>

section \<open>Effects\<close>

lemmas fg_defs = fg_step_def fg_Lock_def fg_Unlock_def fg_LockLocal_def fg_LockRemote_def
  fg_UnlockLocal_def fg_UnlockRemote_def fg_LockPetersonsLocal_def fg_LockPetersonsRemote_def
  fg_UnlockPetersonsLocal_def fg_UnlockPetersonsRemote_def

lemmas fg_gdefs = fg_gstep_def fg_enqueues_def fg_dequeues_def fg_draws_def

lemma fg_thr_other: "u \<noteq> t \<Longrightarrow> g_thr (fg_step c sd t s) u = g_thr s u"
  by (cases "g_at s t") (simp_all add: fg_defs)

lemma geff_Idle:
  assumes "g_at s t = GIdle"
  shows "g_lock (fg_step c sd t s) = g_lock s"
    and "g_desc (fg_step c sd t s) = (g_desc s)(t := (g_desc s t)\<lparr>gd_next := None, gd_ticket_valid := kFalse, gd_budget := - 1, gd_granted := kFalse, gd_releasable := kFalse\<rparr>)"
    and "g_thr (fg_step c sd t s) = (g_thr s)(t := (g_thr s t)\<lparr>gh_pc := GSwap, gh_from_prev := False, gh_hint := (if sd t = Local then gh_hint (g_thr s t) else None)\<rparr>)"
    and "fg_gstep sd t s g = g"
  using assms by (simp_all add: fg_defs fg_gdefs)

lemma geff_Swap:
  assumes "g_at s t = GSwap" and "fg_enqueues sd s t"
  shows "(\<lambda>d. fg_tail d (g_lock (fg_step c sd t s))) = (\<lambda>d. fg_tail d (g_lock s))(sd t := Some t)"
    and "g_desc (fg_step c sd t s) = g_desc s"
    and "g_thr (fg_step c sd t s) = (g_thr s)(t := (g_thr s t)\<lparr>gh_prev := fg_tail (sd t) (g_lock s),
      gh_pc := (if fg_tail (sd t) (g_lock s) \<noteq> None then GSetNext else GSetBudget)\<rparr>)"
    and "fg_gstep sd t s g = g\<lparr>gg_queue := (gg_queue g)(sd t := gg_queue g (sd t) @ [t])\<rparr>"
proof -
  show "(\<lambda>d. fg_tail d (g_lock (fg_step c sd t s))) = (\<lambda>d. fg_tail d (g_lock s))(sd t := Some t)"
  proof
    show "fg_tail d (g_lock (fg_step c sd t s)) = ((\<lambda>d. fg_tail d (g_lock s))(sd t := Some t)) d" for d
      using assms by (cases "sd t"; cases d) (simp_all add: fg_defs fg_enqueues_def)
  qed
qed (use assms in \<open>cases "sd t"; simp add: fg_defs fg_gdefs\<close>)+

lemma geff_lock_words:
  assumes "g_at s t = GSwap \<or> g_at s t = GCasTail"
  shows "gl_next_ticket (g_lock (fg_step c sd t s)) = gl_next_ticket (g_lock s)"
    and "gl_current_ticket (g_lock (fg_step c sd t s)) = gl_current_ticket (g_lock s)"
    and "gl_local_flag (g_lock (fg_step c sd t s)) = gl_local_flag (g_lock s)"
    and "gl_remote_flag (g_lock (fg_step c sd t s)) = gl_remote_flag (g_lock s)"
    and "gl_victim (g_lock (fg_step c sd t s)) = gl_victim (g_lock s)"
  using assms by (elim disjE; cases "sd t"; simp add: fg_defs)+

lemma geff_Swap_retry:
  assumes "g_at s t = GSwap" and "\<not> fg_enqueues sd s t"
  shows "g_lock (fg_step c sd t s) = g_lock s"
    and "g_desc (fg_step c sd t s) = g_desc s"
    and "g_thr (fg_step c sd t s) = (g_thr s)(t := (g_thr s t)\<lparr>gh_hint := gl_remote_tail (g_lock s)\<rparr>)"
    and "fg_gstep sd t s g = g"
  using assms by (cases "sd t"; simp add: fg_defs fg_gdefs)+

lemma geff_SetNext:
  assumes "g_at s t = GSetNext" and "gP s t = Some p"
  shows "g_lock (fg_step c sd t s) = g_lock s"
    and "g_desc (fg_step c sd t s) = (g_desc s)(p := (g_desc s p)\<lparr>gd_next := Some t\<rparr>)"
    and "g_thr (fg_step c sd t s) = (g_thr s)(t := (g_thr s t)\<lparr>gh_pc := GLoadValid\<rparr>)"
    and "fg_gstep sd t s g = g"
  using assms by (simp_all add: fg_defs fg_gdefs)

lemma geff_LoadValid:
  assumes "g_at s t = GLoadValid" and "gP s t = Some p"
  shows "g_lock (fg_step c sd t s) = g_lock s"
    and "g_desc (fg_step c sd t s) = g_desc s"
    and "g_thr (fg_step c sd t s) = (g_thr s)(t := (g_thr s t)\<lparr>gh_ticket := gd_ticket_valid (g_desc s p), gh_pc := GSetReleasable\<rparr>)"
    and "fg_gstep sd t s g = g"
  using assms by (simp_all add: fg_defs fg_gdefs)

lemma geff_SetReleasable:
  assumes "g_at s t = GSetReleasable" and "gP s t = Some p"
  shows "g_lock (fg_step c sd t s) = g_lock s"
    and "g_desc (fg_step c sd t s) = (g_desc s)(p := (g_desc s p)\<lparr>gd_releasable := kTrue\<rparr>)"
    and "g_thr (fg_step c sd t s) = (g_thr s)(t := (g_thr s t)\<lparr>gh_pc := (if gT s t = kTrue then GSetBudget else GWaitBudget)\<rparr>)"
    and "fg_gstep sd t s g = g"
  using assms by (simp_all add: fg_defs fg_gdefs)

lemma geff_WaitBudget:
  assumes "g_at s t = GWaitBudget" and "gB s t \<noteq> - 1"
  shows "g_lock (fg_step c sd t s) = g_lock s"
    and "g_desc (fg_step c sd t s) = g_desc s"
    and "g_thr (fg_step c sd t s) = (g_thr s)(t := (g_thr s t)\<lparr>gh_pc := GTestBudget\<rparr>)"
    and "fg_gstep sd t s g = g"
  using assms by (simp_all add: fg_defs fg_gdefs)

lemma geff_TestBudget:
  assumes "g_at s t = GTestBudget"
  shows "g_lock (fg_step c sd t s) = g_lock s"
    and "g_desc (fg_step c sd t s) = g_desc s"
    and "g_thr (fg_step c sd t s) = (g_thr s)(t := (g_thr s t)\<lparr>gh_pc := (if gB s t \<noteq> kInitBudget c (sd t) then GReadTicket else GSetBudget)\<rparr>)"
    and "fg_gstep sd t s g = g"
  using assms by (cases "sd t"; simp add: fg_defs fg_gdefs)+

lemma geff_ReadTicket:
  assumes "g_at s t = GReadTicket"
  shows "g_lock (fg_step c sd t s) = g_lock s"
    and "g_desc (fg_step c sd t s) = g_desc s"
    and "g_thr (fg_step c sd t s) = (g_thr s)(t := (g_thr s t)\<lparr>gh_ticket := gK s t, gh_from_prev := True, gh_pc := GLoadNext\<rparr>)"
    and "fg_gstep sd t s g = g"
  using assms by (simp_all add: fg_defs fg_gdefs)

lemma geff_SetBudget:
  assumes "g_at s t = GSetBudget"
  shows "g_lock (fg_step c sd t s) = g_lock s"
    and "g_desc (fg_step c sd t s) = (g_desc s)(t := (g_desc s t)\<lparr>gd_budget := kInitBudget c (sd t)\<rparr>)"
    and "g_thr (fg_step c sd t s) = (g_thr s)(t := (g_thr s t)\<lparr>gh_pc := GPetFlag\<rparr>)"
    and "fg_gstep sd t s g = g"
  using assms by (cases "sd t"; simp add: fg_defs fg_gdefs)+

lemma geff_PetFlag:
  assumes "g_at s t = GPetFlag"
  shows "g_lock (fg_step c sd t s) = (if sd t = Local then (g_lock s)\<lparr>gl_local_flag := kTrue\<rparr> else (g_lock s)\<lparr>gl_remote_flag := kTrue\<rparr>)"
    and "g_desc (fg_step c sd t s) = g_desc s"
    and "g_thr (fg_step c sd t s) = (g_thr s)(t := (g_thr s t)\<lparr>gh_pc := GPetVictim\<rparr>)"
    and "fg_gstep sd t s g = g"
  using assms by (simp_all add: fg_defs fg_gdefs)

lemma geff_PetVictim:
  assumes "g_at s t = GPetVictim"
  shows "g_lock (fg_step c sd t s) = (g_lock s)\<lparr>gl_victim := (if sd t = Local then kLocalVictim else kRemoteVictim)\<rparr>"
    and "g_desc (fg_step c sd t s) = g_desc s"
    and "g_thr (fg_step c sd t s) = (g_thr s)(t := (g_thr s t)\<lparr>gh_pc := GPetReadA\<rparr>)"
    and "fg_gstep sd t s g = g"
  using assms by (simp_all add: fg_defs fg_gdefs)

lemma geff_PetReadA:
  assumes "g_at s t = GPetReadA"
  shows "g_lock (fg_step c sd t s) = g_lock s"
    and "g_desc (fg_step c sd t s) = g_desc s"
    and "g_thr (fg_step c sd t s) = (g_thr s)(t := (g_thr s t)\<lparr>gh_buf_victim := (if sd t = Local then gh_buf_victim (g_thr s t) else gl_victim (g_lock s)), gh_pc := (if sd t = Local \<and> gl_remote_flag (g_lock s) \<noteq> kTrue then GTake else GPetReadB)\<rparr>)"
    and "fg_gstep sd t s g = g"
  using assms by (simp_all add: fg_defs fg_gdefs)

lemma geff_PetReadB:
  assumes "g_at s t = GPetReadB"
  shows "g_lock (fg_step c sd t s) = g_lock s"
    and "g_desc (fg_step c sd t s) = g_desc s"
    and "g_thr (fg_step c sd t s) = (g_thr s)(t := (g_thr s t)\<lparr>gh_pc := (if (if sd t = Local then gl_victim (g_lock s) = kLocalVictim else gl_local_flag (g_lock s) = kTrue \<and> gh_buf_victim (g_thr s t) = kRemoteVictim) then GPetReadA else GTake)\<rparr>)"
    and "fg_gstep sd t s g = g"
  using assms by (simp_all add: fg_defs fg_gdefs)

lemma geff_Take_local:
  assumes "g_at s t = GTake" and "sd t = Local"
  shows "g_lock (fg_step c sd t s) = (g_lock s)\<lparr>gl_next_ticket := gl_next_ticket (g_lock s) + 1\<rparr>"
    and "g_desc (fg_step c sd t s) = g_desc s"
    and "g_thr (fg_step c sd t s) = (g_thr s)(t := (g_thr s t)\<lparr>gh_ticket := gl_next_ticket (g_lock s), gh_pc := GLoadNext\<rparr>)"
    and "fg_gstep sd t s g = g\<lparr>gg_line := gg_line g @ [t]\<rparr>"
  using assms by (simp_all add: fg_defs fg_gdefs)

lemma geff_Take_remote:
  assumes "g_at s t = GTake" and "sd t = Remote"
  shows "g_lock (fg_step c sd t s) = g_lock s"
    and "g_desc (fg_step c sd t s) = g_desc s"
    and "g_thr (fg_step c sd t s) = (g_thr s)(t := (g_thr s t)\<lparr>gh_ticket := gl_next_ticket (g_lock s), gh_pc := GPut\<rparr>)"
    and "fg_gstep sd t s g = g"
  using assms by (simp_all add: fg_defs fg_gdefs)

lemma geff_Put:
  assumes "g_at s t = GPut" and "sd t = Remote"
  shows "g_lock (fg_step c sd t s) = (g_lock s)\<lparr>gl_next_ticket := gT s t + 1\<rparr>"
    and "g_desc (fg_step c sd t s) = g_desc s"
    and "g_thr (fg_step c sd t s) = (g_thr s)(t := (g_thr s t)\<lparr>gh_pc := GLoadNext\<rparr>)"
    and "fg_gstep sd t s g = g\<lparr>gg_line := gg_line g @ [t]\<rparr>"
  using assms by (simp_all add: fg_defs fg_gdefs)

lemma geff_LoadNext:
  assumes "g_at s t = GLoadNext"
  shows "g_lock (fg_step c sd t s) = g_lock s"
    and "g_desc (fg_step c sd t s) = g_desc s"
    and "g_thr (fg_step c sd t s) = (g_thr s)(t := (g_thr s t)\<lparr>gh_pc := (if gN s t \<noteq> None then GLoadBudget else GPetUnlock)\<rparr>)"
    and "fg_gstep sd t s g = g"
  using assms by (simp_all add: fg_defs fg_gdefs)

lemma geff_LoadBudget:
  assumes "g_at s t = GLoadBudget" and "gB s t \<noteq> 0"
  shows "g_lock (fg_step c sd t s) = g_lock s"
    and "g_desc (fg_step c sd t s) = g_desc s"
    and "g_thr (fg_step c sd t s) = (g_thr s)(t := (g_thr s t)\<lparr>gh_buf_budget := (if sd t = Local then gh_buf_budget (g_thr s t) else gB s t - 1), gh_pc := (if gB s t = 1 then GPetUnlock1 else GPassTicket)\<rparr>)"
    and "fg_gstep sd t s g = g"
  using assms by (simp_all add: fg_defs fg_gdefs)

lemma geff_PassTicket:
  assumes "g_at s t = GPassTicket" and "gN s t = Some n"
  shows "g_lock (fg_step c sd t s) = g_lock s"
    and "g_desc (fg_step c sd t s) = (g_desc s)(n := (g_desc s n)\<lparr>gd_batch_ticket := gT s t\<rparr>)"
    and "g_thr (fg_step c sd t s) = (g_thr s)(t := (g_thr s t)\<lparr>gh_pc := GPassBudget\<rparr>)"
    and "fg_gstep sd t s g = g"
  using assms by (simp_all add: fg_defs fg_gdefs)

lemma geff_PassBudget:
  assumes "g_at s t = GPassBudget" and "gN s t = Some n" and "sd t = Remote \<longrightarrow> gh_buf_budget (g_thr s t) = gB s t - 1"
  shows "g_lock (fg_step c sd t s) = g_lock s"
    and "g_desc (fg_step c sd t s) = (g_desc s)(n := (g_desc s n)\<lparr>gd_budget := gB s t - 1\<rparr>)"
    and "g_thr (fg_step c sd t s) = (g_thr s)(t := (g_thr s t)\<lparr>gh_pc := fg_await (g_thr s t)\<rparr>)"
    and "fg_gstep sd t s g = g\<lparr>gg_line := gg_line g @ [n]\<rparr>"
  using assms by (cases "sd t"; simp add: fg_defs fg_gdefs)+

lemma geff_PetUnlock1:
  assumes "g_at s t = GPetUnlock1"
  shows "g_lock (fg_step c sd t s) = (if sd t = Local then (g_lock s)\<lparr>gl_local_flag := kFalse\<rparr> else (g_lock s)\<lparr>gl_remote_flag := kFalse\<rparr>)"
    and "g_desc (fg_step c sd t s) = g_desc s"
    and "g_thr (fg_step c sd t s) = (g_thr s)(t := (g_thr s t)\<lparr>gh_pc := GSetValid1\<rparr>)"
    and "fg_gstep sd t s g = g"
  using assms by (simp_all add: fg_defs fg_gdefs)

lemma geff_PetUnlock:
  assumes "g_at s t = GPetUnlock"
  shows "g_lock (fg_step c sd t s) = (if sd t = Local then (g_lock s)\<lparr>gl_local_flag := kFalse\<rparr> else (g_lock s)\<lparr>gl_remote_flag := kFalse\<rparr>)"
    and "g_desc (fg_step c sd t s) = g_desc s"
    and "g_thr (fg_step c sd t s) = (g_thr s)(t := (g_thr s t)\<lparr>gh_pc := GSetValid\<rparr>)"
    and "fg_gstep sd t s g = g"
  using assms by (simp_all add: fg_defs fg_gdefs)

lemma geff_SetValid1:
  assumes "g_at s t = GSetValid1"
  shows "g_lock (fg_step c sd t s) = g_lock s"
    and "g_desc (fg_step c sd t s) = (g_desc s)(t := (g_desc s t)\<lparr>gd_ticket_valid := kTrue\<rparr>)"
    and "g_thr (fg_step c sd t s) = (g_thr s)(t := (g_thr s t)\<lparr>gh_pc := GSignal\<rparr>)"
    and "fg_gstep sd t s g = g"
  using assms by (simp_all add: fg_defs fg_gdefs)

lemma geff_SetValid:
  assumes "g_at s t = GSetValid"
  shows "g_lock (fg_step c sd t s) = g_lock s"
    and "g_desc (fg_step c sd t s) = (g_desc s)(t := (g_desc s t)\<lparr>gd_ticket_valid := kTrue\<rparr>)"
    and "g_thr (fg_step c sd t s) = (g_thr s)(t := (g_thr s t)\<lparr>gh_pc := GReloadNext\<rparr>)"
    and "fg_gstep sd t s g = g"
  using assms by (simp_all add: fg_defs fg_gdefs)

lemma geff_ReloadNext:
  assumes "g_at s t = GReloadNext"
  shows "g_lock (fg_step c sd t s) = g_lock s"
    and "g_desc (fg_step c sd t s) = g_desc s"
    and "g_thr (fg_step c sd t s) = (g_thr s)(t := (g_thr s t)\<lparr>gh_pc := (if gN s t \<noteq> None then GSignal else fg_await (g_thr s t))\<rparr>)"
    and "fg_gstep sd t s g = g"
  using assms by (simp_all add: fg_defs fg_gdefs)

lemma geff_Signal:
  assumes "g_at s t = GSignal" and "gN s t = Some n"
  shows "g_lock (fg_step c sd t s) = g_lock s"
    and "g_desc (fg_step c sd t s) = (g_desc s)(n := (g_desc s n)\<lparr>gd_budget := kInitBudget c (sd t)\<rparr>)"
    and "g_thr (fg_step c sd t s) = (g_thr s)(t := (g_thr s t)\<lparr>gh_pc := fg_await (g_thr s t)\<rparr>)"
    and "fg_gstep sd t s g = g"
  using assms by (cases "sd t"; simp add: fg_defs fg_gdefs)+

lemma geff_AwaitPred:
  assumes "g_at s t = GAwaitPred" and "gd_granted (g_desc s t) = kTrue"
  shows "g_lock (fg_step c sd t s) = g_lock s"
    and "g_desc (fg_step c sd t s) = g_desc s"
    and "g_thr (fg_step c sd t s) = (g_thr s)(t := (g_thr s t)\<lparr>gh_pc := (if gF s t then GCritical else GAwaitTicket)\<rparr>)"
    and "fg_gstep sd t s g = g"
  using assms by (simp_all add: fg_defs fg_gdefs)

lemma geff_AwaitTicket:
  assumes "g_at s t = GAwaitTicket" and "gT s t = gl_current_ticket (g_lock s)"
  shows "g_lock (fg_step c sd t s) = g_lock s"
    and "g_desc (fg_step c sd t s) = g_desc s"
    and "g_thr (fg_step c sd t s) = (g_thr s)(t := (g_thr s t)\<lparr>gh_pc := GStoreTicket\<rparr>)"
    and "fg_gstep sd t s g = g"
  using assms by (simp_all add: fg_defs fg_gdefs)

lemma geff_StoreTicket:
  assumes "g_at s t = GStoreTicket"
  shows "g_lock (fg_step c sd t s) = g_lock s"
    and "g_desc (fg_step c sd t s) = (g_desc s)(t := (g_desc s t)\<lparr>gd_batch_ticket := gT s t\<rparr>)"
    and "g_thr (fg_step c sd t s) = (g_thr s)(t := (g_thr s t)\<lparr>gh_pc := GCritical\<rparr>)"
    and "fg_gstep sd t s g = g"
  using assms by (simp_all add: fg_defs fg_gdefs)

lemma geff_Critical:
  assumes "g_at s t = GCritical"
  shows "g_lock (fg_step c sd t s) = (if gV s t then (g_lock s)\<lparr>gl_current_ticket := gK s t + 1\<rparr> else g_lock s)"
    and "g_desc (fg_step c sd t s) = g_desc s"
    and "g_thr (fg_step c sd t s) = (g_thr s)(t := (g_thr s t)\<lparr>gh_pc := GCheckNext\<rparr>)"
    and "fg_gstep sd t s g = g\<lparr>gg_line := tl (gg_line g)\<rparr>"
  using assms by (simp_all add: fg_defs fg_gdefs)

lemma geff_CheckNext:
  assumes "g_at s t = GCheckNext"
  shows "g_lock (fg_step c sd t s) = g_lock s"
    and "g_desc (fg_step c sd t s) = g_desc s"
    and "g_thr (fg_step c sd t s) = (g_thr s)(t := (g_thr s t)\<lparr>gh_pc := (if gN s t = None then GCasTail else GWaitReleasable)\<rparr>)"
    and "fg_gstep sd t s g = g"
  using assms by (simp_all add: fg_defs fg_gdefs)

lemma geff_CasTail_fail:
  assumes "g_at s t = GCasTail" and "fg_tail (sd t) (g_lock s) \<noteq> Some t"
  shows "g_lock (fg_step c sd t s) = g_lock s"
    and "g_desc (fg_step c sd t s) = g_desc s"
    and "g_thr (fg_step c sd t s) = (g_thr s)(t := (g_thr s t)\<lparr>gh_pc := GWaitReleasable\<rparr>)"
    and "fg_gstep sd t s g = g"
  using assms by (cases "sd t"; simp add: fg_defs fg_gdefs)+

lemma geff_CasTail_ok:
  assumes "g_at s t = GCasTail" and "fg_tail (sd t) (g_lock s) = Some t"
  shows "(\<lambda>d. fg_tail d (g_lock (fg_step c sd t s))) = (\<lambda>d. fg_tail d (g_lock s))(sd t := None)"
    and "g_desc (fg_step c sd t s) = g_desc s"
    and "g_thr (fg_step c sd t s) = (g_thr s)(t := (g_thr s t)\<lparr>gh_pc := GIdle\<rparr>)"
    and "fg_gstep sd t s g = g\<lparr>gg_queue := (gg_queue g)(sd t := tl (gg_queue g (sd t)))\<rparr>"
proof -
  show "(\<lambda>d. fg_tail d (g_lock (fg_step c sd t s))) = (\<lambda>d. fg_tail d (g_lock s))(sd t := None)"
  proof
    show "fg_tail d (g_lock (fg_step c sd t s)) = ((\<lambda>d. fg_tail d (g_lock s))(sd t := None)) d" for d
      using assms by (cases "sd t"; cases d) (simp_all add: fg_defs)
  qed
qed (use assms in \<open>cases "sd t"; simp add: fg_defs fg_gdefs\<close>)+

lemma geff_WaitReleasable:
  assumes "g_at s t = GWaitReleasable" and "gd_releasable (g_desc s t) = kTrue"
  shows "g_lock (fg_step c sd t s) = g_lock s"
    and "g_desc (fg_step c sd t s) = g_desc s"
    and "g_thr (fg_step c sd t s) = (g_thr s)(t := (g_thr s t)\<lparr>gh_pc := GGrant\<rparr>)"
    and "fg_gstep sd t s g = g"
  using assms by (simp_all add: fg_defs fg_gdefs)

lemma geff_Grant:
  assumes "g_at s t = GGrant" and "gN s t = Some n"
  shows "g_lock (fg_step c sd t s) = g_lock s"
    and "g_desc (fg_step c sd t s) = (g_desc s)(n := (g_desc s n)\<lparr>gd_granted := kTrue\<rparr>)"
    and "g_thr (fg_step c sd t s) = (g_thr s)(t := (g_thr s t)\<lparr>gh_pc := GIdle\<rparr>)"
    and "fg_gstep sd t s g = g\<lparr>gg_queue := (gg_queue g)(sd t := tl (gg_queue g (sd t)))\<rparr>"
  using assms by (simp_all add: fg_defs fg_gdefs)

text \<open>
  A thread whose wait condition does not hold yet leaves everything as it is, and so does one whose
  assertion fails.
\<close>

definition fg_spins :: "fg_state \<Rightarrow> tid \<Rightarrow> bool" where
  "fg_spins s t \<longleftrightarrow>
     g_at s t = GWaitBudget \<and> gB s t = - 1 \<or>
     g_at s t = GAwaitPred \<and> gd_granted (g_desc s t) \<noteq> kTrue \<or>
     g_at s t = GAwaitTicket \<and> gT s t \<noteq> gl_current_ticket (g_lock s) \<or>
     g_at s t = GWaitReleasable \<and> gd_releasable (g_desc s t) \<noteq> kTrue"

lemma geff_spin:
  assumes "fg_spins s t"
  shows "fg_step c sd t s = s" and "fg_gstep sd t s g = g"
  using assms unfolding fg_spins_def by (elim disjE conjE; simp add: fg_defs fg_gdefs)+

end
