(* ===== verification/FARLockGStep.thy ===== *)
theory FARLockGStep
  imports FARLockGEffect
begin

text \<open>
  The steps of FARLockG up to Peterson's algorithm, and those of Peterson's algorithm, keep the
  invariant.
\<close>

section \<open>Consequences of the invariant\<close>

lemma fg_invD:
  assumes "fg_inv c sd s g"
  shows "cohort_ok sd (fg_view s) (gg_queue g)" and "fg_own c sd s t"
    and "adj (gg_queue g d) a b \<Longrightarrow> fg_adj c sd s a b" and "fg_pet c sd s"
    and "fg_lines c sd s (gg_queue g) (gg_line g)"
  using assms by (simp_all add: fg_inv_def)

lemma fg_linesD:
  assumes "fg_lines c sd s Q l"
  shows "distinct l" and "t \<in> set l \<longleftrightarrow> fg_inline c sd s t"
    and "batch_line (gl_current_ticket (g_lock s)) (fg_tk s) (fg_fol c sd s) l"
    and "gl_next_ticket (g_lock s) = batch_end (gl_current_ticket (g_lock s)) (fg_fol c sd s) l"
    and "adj l a b \<Longrightarrow> fg_fol c sd s b \<Longrightarrow> adj (Q (sd b)) a b"
    and "25 \<le> gR s a \<Longrightarrow> gR s a \<le> 28 \<Longrightarrow> \<not> gV s a \<Longrightarrow> \<exists>b. adj l a b \<and> fg_fol c sd s b"
    and "gR s t = 27 \<or> gR s t = 28 \<Longrightarrow> t = hd l"
    and "gR s t = 14 \<Longrightarrow> gT s t = gl_next_ticket (g_lock s)"
    and "fg_inline c sd s t \<Longrightarrow> gR s t \<le> 18 \<Longrightarrow> t = last l"
  using assms unfolding fg_lines_def by blast+

lemma fg_rank_ph: "13 \<le> fg_rank p \<Longrightarrow> fg_rank p \<le> 20 \<Longrightarrow> fg_phase p = In"
  by (cases p) auto

lemma fg_phase_rank: "fg_phase p \<noteq> Out \<Longrightarrow> 10 \<le> fg_rank p \<and> fg_rank p \<le> 20"
  by (cases p) auto

lemma fg_ph_In:
  assumes "13 \<le> gR s t \<and> gR s t \<le> 20 \<or> gR s t \<le> 7 \<and> fg_fol c sd s t"
  shows "fg_ph c sd s t = In"
  using assms by (auto simp: fg_ph_def fg_rank_ph)

lemma fg_ph_Out:
  assumes "gR s t \<le> 9 \<or> 21 \<le> gR s t" and "gR s t \<le> 7 \<Longrightarrow> \<not> fg_fol c sd s t"
  shows "fg_ph c sd s t = Out"
  using assms fg_phase_rank [of "g_at s t"] by (cases "fg_phase (g_at s t) = Out") (auto simp: fg_ph_def)

text \<open>At most one thread is between drawing or inheriting a ticket and passing on or giving up Peterson's lock.\<close>

lemma fg_exclusion:
  assumes "fg_pet c sd s" and "fg_ph c sd s t = In" and "fg_ph c sd s u = In"
  shows "u = t"
  by (rule pet_exclusion [OF assms(1) [unfolded fg_pet_def] assms(3,2)])

section \<open>Frames\<close>

lemma fg_fol_cong: "g_thr s' t = g_thr s t \<Longrightarrow> gB s' t = gB s t \<Longrightarrow> fg_fol c sd s' t = fg_fol c sd s t"
  by (simp add: fg_fol_def)

lemma fg_own_cong:
  assumes "fg_own c sd s t" and "g_thr s' t = g_thr s t" and "gB s' t = gB s t" and "gV s' t = gV s t"
    and "gK s' t = gK s t" and "gN s t \<noteq> None \<Longrightarrow> gN s' t \<noteq> None"
  shows "fg_own c sd s' t"
  using assms(1,6) unfolding fg_own_def fg_fol_cong [OF assms(2,3)] assms(2-5) by auto

lemma fg_adj_cong:
  assumes "fg_adj c sd s a b" and "g_thr s' a = g_thr s a" and "g_thr s' b = g_thr s b" and "gB s' b = gB s b"
    and "gV s' a = gV s a" and "gK s' b = gK s b"
  shows "fg_adj c sd s' a b"
  using assms(1) unfolding fg_adj_def fg_active_def fg_fol_cong [OF assms(3,4)] assms(2-6) .

text \<open>
  A step of \<open>t\<close> that writes to no other thread's budget or tickets: what is left to show concerns \<open>t\<close>, its
  neighbours in the queue, and the shared parts.
\<close>

lemma fg_inv_move:
  assumes inv: "fg_inv c sd s g"
    and thr: "\<And>u. u \<noteq> t \<Longrightarrow> g_thr s' u = g_thr s u"
    and B: "\<And>u. u \<noteq> t \<Longrightarrow> gB s' u = gB s u" and V: "\<And>u. u \<noteq> t \<Longrightarrow> gV s' u = gV s u"
    and K: "\<And>u. u \<noteq> t \<Longrightarrow> gK s' u = gK s u" and N: "\<And>u. u \<noteq> t \<Longrightarrow> gN s u \<noteq> None \<Longrightarrow> gN s' u \<noteq> None"
    and q: "cohort_ok sd (fg_view s') (gg_queue g')"
    and own: "fg_own c sd s' t"
    and adj: "\<And>d a b. adj (gg_queue g' d) a b \<Longrightarrow>
      adj (gg_queue g d) a b \<and> a \<noteq> t \<and> b \<noteq> t \<or> fg_adj c sd s' a b"
    and pet: "fg_pet c sd s'" and lines: "fg_lines c sd s' (gg_queue g') (gg_line g')"
  shows "fg_inv c sd s' g'"
proof -
  have "fg_own c sd s' u" for u
    using own fg_own_cong [OF fg_invD(2) [OF inv, of u]] thr B V K N by (cases "u = t") simp_all
  moreover have "fg_adj c sd s' a b" if "adj (gg_queue g' d) a b" for d a b
    using adj [OF that] fg_adj_cong [OF fg_invD(3) [OF inv, of d a b]] thr B V K by auto
  ultimately show ?thesis using q pet lines by (simp add: fg_inv_def)
qed

lemma fg_inv_move_to:
  assumes "fg_inv c sd s g" and "gg_queue g' = Q" and "gg_line g' = l"
    and "\<And>u. u \<noteq> t \<Longrightarrow> g_thr s' u = g_thr s u"
    and "\<And>u. u \<noteq> t \<Longrightarrow> gB s' u = gB s u" and "\<And>u. u \<noteq> t \<Longrightarrow> gV s' u = gV s u"
    and "\<And>u. u \<noteq> t \<Longrightarrow> gK s' u = gK s u" and "\<And>u. u \<noteq> t \<Longrightarrow> gN s u \<noteq> None \<Longrightarrow> gN s' u \<noteq> None"
    and "cohort_ok sd (fg_view s') Q" and "fg_own c sd s' t"
    and "\<And>d a b. adj (Q d) a b \<Longrightarrow> adj (gg_queue g d) a b \<and> a \<noteq> t \<and> b \<noteq> t \<or> fg_adj c sd s' a b"
    and "fg_pet c sd s'" and "fg_lines c sd s' Q l"
  shows "fg_inv c sd s' g'"
  by (rule fg_inv_move [OF assms(1), where t = t]) (use assms in simp_all)

lemma fg_pet_quiet:
  assumes "fg_pet c sd s" and "\<And>u. fg_ph c sd s' u = fg_ph c sd s u" and "\<And>u. fg_buf s' u = fg_buf s u"
    and "gl_local_flag (g_lock s') = gl_local_flag (g_lock s)"
    and "gl_remote_flag (g_lock s') = gl_remote_flag (g_lock s)"
    and "gl_victim (g_lock s') = gl_victim (g_lock s)"
  shows "fg_pet c sd s'"
proof -
  have "fg_ph c sd s' = fg_ph c sd s" "fg_buf s' = fg_buf s" using assms(2,3) by auto
  then show ?thesis using assms(1,4-6) by (simp add: fg_pet_def)
qed

lemma fg_lines_quiet:
  assumes l: "fg_lines c sd s Q l"
    and thr: "\<And>u. u \<noteq> t \<Longrightarrow> g_thr s' u = g_thr s u"
    and B: "\<And>u. u \<noteq> t \<Longrightarrow> gB s' u = gB s u" and K: "\<And>u. u \<noteq> t \<Longrightarrow> gK s' u = gK s u"
    and V: "\<And>u. u \<noteq> t \<Longrightarrow> gV s' u = gV s u"
    and cur: "gl_current_ticket (g_lock s') = gl_current_ticket (g_lock s)"
    and nxt: "gl_next_ticket (g_lock s') = gl_next_ticket (g_lock s)"
    and inl: "fg_inline c sd s' t = fg_inline c sd s t"
    and fol: "fg_inline c sd s t \<Longrightarrow> fg_fol c sd s' t = fg_fol c sd s t"
    and tk: "fg_inline c sd s t \<Longrightarrow> fg_tk s' t = fg_tk s t"
    and Q: "\<And>a b. adj l a b \<Longrightarrow> fg_fol c sd s b \<Longrightarrow> adj (Q (sd b)) a b \<Longrightarrow> adj (Q' (sd b)) a b"
    and r25: "25 \<le> gR s' t \<Longrightarrow> gR s' t \<le> 28 \<Longrightarrow> \<not> gV s' t \<Longrightarrow> 25 \<le> gR s t \<and> gR s t \<le> 28 \<and> \<not> gV s t"
    and r27: "gR s' t = 27 \<or> gR s' t = 28 \<Longrightarrow> t = hd l"
    and r14: "gR s' t = 14 \<Longrightarrow> gT s' t = gl_next_ticket (g_lock s)"
    and r18: "fg_inline c sd s t \<Longrightarrow> gR s' t \<le> 18 \<Longrightarrow> gR s t \<le> 18"
  shows "fg_lines c sd s' Q' l"
proof -
  note L = fg_linesD [OF l]
  have fol': "fg_fol c sd s' u = fg_fol c sd s u" if "fg_inline c sd s u" for u
    using fol that fg_fol_cong [of s' u s] thr B by (cases "u = t") auto
  have inl': "fg_inline c sd s' u = fg_inline c sd s u" for u
    using inl fg_fol_cong [of s' u s] thr B by (cases "u = t") (auto simp: fg_inline_def)
  have tk': "fg_tk s' u = fg_tk s u" if "fg_inline c sd s u" for u
    using tk that thr K by (cases "u = t") (auto simp: fg_tk_def)
  have mem: "u \<in> set l \<Longrightarrow> fg_inline c sd s u" for u using L(2) by simp
  have inlR: "adj l a b \<Longrightarrow> fg_inline c sd s b" for a b using mem adj_setR by fast
  have tlmem: "u \<in> set (tl l) \<Longrightarrow> fg_inline c sd s u" for u using mem by (cases l) auto
  have cong: "batch_line x (fg_tk s') (fg_fol c sd s') l = batch_line x (fg_tk s) (fg_fol c sd s) l"
    "batch_end x (fg_fol c sd s') l = batch_end x (fg_fol c sd s) l" for x
    by (rule batch_line_cong, simp add: tk' mem, simp add: fol' tlmem, rule batch_end_cong, simp add: fol' tlmem)
  show ?thesis
    unfolding fg_lines_def cur nxt cong inl'
  proof (intro conjI allI impI)
    show "adj (Q' (sd b)) a b" if "adj l a b \<and> fg_fol c sd s' b" for a b
      using L(5) [of a b] Q [of a b] that fol' [OF inlR [of a b]] by simp
    show "\<exists>b. adj l a b \<and> fg_fol c sd s' b" if "25 \<le> gR s' a \<and> gR s' a \<le> 28 \<and> \<not> gV s' a" for a
    proof -
      have "25 \<le> gR s a" "gR s a \<le> 28" "\<not> gV s a" using that r25 thr V by (cases "a = t"; auto)+
      then obtain b where "adj l a b" "fg_fol c sd s b" using L(6) by blast
      then show ?thesis using fol' [OF inlR [of a b]] by auto
    qed
    show "u = hd l" if "gR s' u = 27 \<or> gR s' u = 28" for u
      using L(7) [of u] r27 that thr by (cases "u = t") auto
    show "gT s' u = gl_next_ticket (g_lock s)" if "gR s' u = 14" for u
      using L(8) [of u] r14 that thr by (cases "u = t") auto
    show "u = last l" if "fg_inline c sd s u \<and> gR s' u \<le> 18" for u
      using L(9) [of u] r18 that thr by (cases "u = t") auto
  qed (use L(1-4) in auto)
qed

text \<open>The view of the queues after a step that only moves \<open>t\<close> on.\<close>

lemma fg_view_move:
  assumes "g_desc s' = g_desc s" and "\<And>d. fg_tail d (g_lock s') = fg_tail d (g_lock s)"
    and "g_thr s' = (g_thr s)(t := h)" and "gh_prev h = gP s t"
  shows "fg_view s' = (fg_view s)\<lparr>cv_stage := (cv_stage (fg_view s))(t := fg_stage (fg_rank (gh_pc h)))\<rparr>"
  using assms by (auto simp: fg_view_def fun_eq_iff)

text \<open>
  A step in which \<open>t\<close> writes to no descriptor; and one that in addition is outside Peterson's algorithm
  and leaves the lock alone.
\<close>

lemma fg_inv_handler:
  assumes inv: "fg_inv c sd s g" and g': "gg_queue g' = gg_queue g" "gg_line g' = l"
    and tails: "\<And>d. fg_tail d (g_lock s') = fg_tail d (g_lock s)" and desc: "g_desc s' = g_desc s"
    and thr: "g_thr s' = (g_thr s)(t := h)" and prev: "gh_prev h = gP s t"
    and R: "3 \<le> gR s t" "fg_rank (gh_pc h) = 4 \<and> gR s t = 3 \<or> 5 \<le> fg_rank (gh_pc h) \<and> 5 \<le> gR s t"
    and hd: "26 \<le> fg_rank (gh_pc h) \<Longrightarrow> t = hd (gg_queue g (sd t))"
    and last: "31 \<le> fg_rank (gh_pc h) \<Longrightarrow> t \<noteq> last (gg_queue g (sd t))"
    and rel: "32 \<le> fg_rank (gh_pc h) \<Longrightarrow> gd_releasable (g_desc s t) = kTrue"
    and own: "fg_own c sd s' t"
    and adjL: "\<And>d a. adj (gg_queue g d) a t \<Longrightarrow> fg_adj c sd s a t \<Longrightarrow> fg_adj c sd s' a t"
    and adjR: "\<And>d b. adj (gg_queue g d) t b \<Longrightarrow> fg_adj c sd s t b \<Longrightarrow> fg_adj c sd s' t b"
    and pet: "fg_pet c sd s'" and lines: "fg_lines c sd s' (gg_queue g) l"
  shows "fg_inv c sd s' g'"
proof (rule fg_inv_move_to [OF inv g', where t = t])
  show "cohort_ok sd (fg_view s') (gg_queue g)"
    unfolding fg_view_move [OF desc tails thr prev]
  proof (rule cohort_move [OF fg_invD(1) [OF inv]])
    show "2 \<le> cv_stage (fg_view s) t" using R(1) by simp
    show "fg_stage (fg_rank (gh_pc h)) = 4 \<and> cv_stage (fg_view s) t = 3 \<or>
        5 \<le> fg_stage (fg_rank (gh_pc h)) \<and> 5 \<le> cv_stage (fg_view s) t"
      using R(2) by (auto simp: fg_stage_def)
  qed (use hd last rel in simp_all)
  show "adj (gg_queue g d) a b \<and> a \<noteq> t \<and> b \<noteq> t \<or> fg_adj c sd s' a b" if "adj (gg_queue g d) a b" for d a b
    using adjL [of d a] adjR [of d b] fg_invD(3) [OF inv that] that by (cases "a = t"; cases "b = t") auto
qed (use thr desc own lines pet in simp_all)

lemma fg_inv_local:
  assumes inv: "fg_inv c sd s g"
    and lock: "g_lock s' = g_lock s" and desc: "g_desc s' = g_desc s"
    and thr: "g_thr s' = (g_thr s)(t := h)" and prev: "gh_prev h = gP s t"
    and R: "3 \<le> gR s t" "fg_rank (gh_pc h) = 4 \<and> gR s t = 3 \<or> 5 \<le> fg_rank (gh_pc h) \<and> 5 \<le> gR s t"
    and hd: "26 \<le> fg_rank (gh_pc h) \<Longrightarrow> t = hd (gg_queue g (sd t))"
    and last: "31 \<le> fg_rank (gh_pc h) \<Longrightarrow> t \<noteq> last (gg_queue g (sd t))"
    and rel: "32 \<le> fg_rank (gh_pc h) \<Longrightarrow> gd_releasable (g_desc s t) = kTrue"
    and own: "fg_own c sd s' t"
    and adjL: "\<And>d a. adj (gg_queue g d) a t \<Longrightarrow> fg_adj c sd s a t \<Longrightarrow> fg_adj c sd s' a t"
    and adjR: "\<And>d b. adj (gg_queue g d) t b \<Longrightarrow> fg_adj c sd s t b \<Longrightarrow> fg_adj c sd s' t b"
    and ph: "fg_ph c sd s' t = fg_ph c sd s t" and buf: "fg_buf s' t = fg_buf s t"
    and lines: "fg_lines c sd s' (gg_queue g) (gg_line g)"
  shows "fg_inv c sd s' g"
proof (rule fg_inv_handler [OF inv refl refl _ desc thr prev R hd last rel own adjL adjR _ lines])
  show "fg_pet c sd s'"
  proof (rule fg_pet_quiet [OF fg_invD(4) [OF inv]])
    show "fg_ph c sd s' u = fg_ph c sd s u" for u
      using ph fg_fol_cong [of s' u s] thr desc by (cases "u = t") (auto simp: fg_ph_def)
    show "fg_buf s' u = fg_buf s u" for u using buf thr by (cases "u = t") (auto simp: fg_buf_def)
  qed (simp_all add: lock)
qed (simp_all add: lock)

section \<open>Entering the queue\<close>

lemma fg_outside:
  assumes "fg_inv c sd s g" and "gR s t \<le> 1"
  shows "t \<notin> set (gg_queue g d)" and "adj (gg_queue g d) a b \<Longrightarrow> a \<noteq> t \<and> b \<noteq> t"
proof -
  show *: "t \<notin> set (gg_queue g d)" for d using cohort_mem [OF fg_invD(1) [OF assms(1)]] assms(2) by simp
  show "adj (gg_queue g d) a b \<Longrightarrow> a \<noteq> t \<and> b \<noteq> t" using adj_set [of "gg_queue g d" a b] * by auto
qed

lemma fg_inline_low: "gR s t \<le> 2 \<Longrightarrow> \<not> fg_inline c sd s t"
  by (simp add: fg_inline_def fg_fol_def)

lemma fg_low_quiet:
  assumes "\<And>u. u \<noteq> t \<Longrightarrow> g_thr s' u = g_thr s u" and "\<And>u. u \<noteq> t \<Longrightarrow> gB s' u = gB s u"
    and "fg_ph c sd s' t = fg_ph c sd s t" and "fg_buf s' t = fg_buf s t"
  shows "fg_ph c sd s' u = fg_ph c sd s u" and "fg_buf s' u = fg_buf s u"
  using assms fg_fol_cong [of s' u s] by (cases "u = t"; simp add: fg_ph_def fg_buf_def)+

lemma ginv_Idle:
  assumes inv: "fg_inv c sd s g" and at: "g_at s t = GIdle"
  shows "fg_inv c sd (fg_step c sd t s) (fg_gstep sd t s g)"
proof -
  note E = geff_Idle [OF at] and q = fg_invD(1) [OF inv]
  let ?s = "fg_step c sd t s"
  have low: "gR s t \<le> 1" "gR s t \<le> 2" "gR ?s t \<le> 2" by (simp_all add: at E)
  have other: "u \<noteq> t \<Longrightarrow> g_thr ?s u = g_thr s u" "u \<noteq> t \<Longrightarrow> g_desc ?s u = g_desc s u" for u by (simp_all add: E)
  have view: "fg_view ?s = (fg_view s)\<lparr>cv_next := (cv_next (fg_view s))(t := None),
      cv_rel := (cv_rel (fg_view s))(t := False), cv_granted := (cv_granted (fg_view s))(t := False),
      cv_stage := (cv_stage (fg_view s))(t := 1)\<rparr>"
    by (auto simp: fg_view_def E fun_eq_iff fg_stage_def)
  have ph: "fg_ph c sd ?s t = fg_ph c sd s t" "fg_buf ?s t = fg_buf s t"
    using at by (simp_all add: fg_ph_def fg_fol_def fg_buf_def E)
  show ?thesis
    unfolding E(4)
  proof (rule fg_inv_move [OF inv, where t = t])
    show "cohort_ok sd (fg_view ?s) (gg_queue g)"
      unfolding view by (rule cohort_reset [OF q]) (simp add: at fg_stage_def)
    show "fg_own c sd ?s t" by (simp add: fg_own_def fg_fol_def E)
    show "fg_pet c sd ?s"
      by (rule fg_pet_quiet [OF fg_invD(4) [OF inv]]) (simp_all add: fg_low_quiet [OF _ _ ph] other E(1))
    show "fg_lines c sd ?s (gg_queue g) (gg_line g)"
      by (rule fg_lines_quiet [OF fg_invD(5) [OF inv], where t = t])
         (use at fg_inline_low [OF low(2), of c sd] fg_inline_low [OF low(3), of c sd] in \<open>simp_all add: other E\<close>)
  qed (use fg_outside(2) [OF inv low(1)] in \<open>simp_all add: other\<close>)
qed

lemma ginv_Swap_retry:
  assumes inv: "fg_inv c sd s g" and at: "g_at s t = GSwap" and no: "\<not> fg_enqueues sd s t"
  shows "fg_inv c sd (fg_step c sd t s) (fg_gstep sd t s g)"
proof -
  note E = geff_Swap_retry [OF at no]
  let ?s = "fg_step c sd t s"
  have low: "gR s t \<le> 2" "gR ?s t \<le> 2" by (simp_all add: at E)
  have view: "fg_view ?s = fg_view s" by (simp add: fg_view_def E fun_eq_iff)
  have own: "fg_own c sd ?s t" using fg_invD(2) [OF inv, of t] at by (simp add: fg_own_def fg_fol_def E)
  have ph: "fg_ph c sd ?s t = fg_ph c sd s t" "fg_buf ?s t = fg_buf s t"
    using at by (simp_all add: fg_ph_def fg_fol_def fg_buf_def E)
  have r1: "gR s t \<le> 1" by (simp add: at)
  show ?thesis
    unfolding E(4)
  proof (rule fg_inv_move [OF inv, where t = t])
    show "cohort_ok sd (fg_view ?s) (gg_queue g)" unfolding view by (rule fg_invD(1) [OF inv])
    show "fg_pet c sd ?s"
      by (rule fg_pet_quiet [OF fg_invD(4) [OF inv]]) (simp_all add: fg_low_quiet [OF _ _ ph] E(1-3))
    show "fg_lines c sd ?s (gg_queue g) (gg_line g)"
      by (rule fg_lines_quiet [OF fg_invD(5) [OF inv], where t = t])
         (use at fg_inline_low [OF low(1), of c sd] fg_inline_low [OF low(2), of c sd] in \<open>simp_all add: E\<close>)
  qed (use own fg_outside(2) [OF inv r1] in \<open>simp_all add: E(2,3)\<close>)
qed

lemma fg_pass_linked: "fg_own c sd s a \<Longrightarrow> gR s a = 18 \<Longrightarrow> gN s a \<noteq> None"
  by (simp add: fg_own_def)

lemma ginv_Swap:
  assumes inv: "fg_inv c sd s g" and at: "g_at s t = GSwap" and enq: "fg_enqueues sd s t"
  shows "fg_inv c sd (fg_step c sd t s) (fg_gstep sd t s g)"
proof -
  note E = geff_Swap [OF at enq] and q = fg_invD(1) [OF inv]
  note EL = geff_lock_words [OF disjI1 [OF at], of c sd]
  let ?s = "fg_step c sd t s" and ?w = "fg_tail (sd t) (g_lock s)"
  let ?Q = "gg_queue g" and ?Q' = "(gg_queue g)(sd t := gg_queue g (sd t) @ [t])"
  have r1: "gR s t \<le> 1" by (simp add: at)
  have view: "fg_view ?s = (fg_view s)\<lparr>cv_tail := (cv_tail (fg_view s))(sd t := Some t),
      cv_prev := (cv_prev (fg_view s))(t := cv_tail (fg_view s) (sd t)),
      cv_stage := (cv_stage (fg_view s))(t := (if cv_tail (fg_view s) (sd t) = None then 5 else 2))\<rparr>"
    unfolding fg_view_def E(1,2) by (auto simp: E(3) fun_eq_iff fg_stage_def)
  have own: "fg_own c sd ?s t" using fg_invD(2) [OF inv, of t] at by (simp add: fg_own_def fg_fol_def E(2,3))
  have ph: "fg_ph c sd ?s t = fg_ph c sd s t" "fg_buf ?s t = fg_buf s t"
    using at own fg_invD(2) [OF inv, of t] by (auto simp: fg_ph_def fg_fol_def fg_buf_def E(2,3) fg_own_def)
  have B: "\<not> gF s t" "gB s t = -1" using fg_invD(2) [OF inv, of t] at by (simp_all add: fg_own_def)
  have inl: "\<not> fg_inline c sd s t" "\<not> fg_inline c sd ?s t"
    using at B by (simp_all add: fg_inline_def fg_fol_def E(3))
  have new: "fg_adj c sd ?s a t" if "a = last (?Q (sd t))" "?Q (sd t) \<noteq> []" for a
  proof -
    have a: "a \<in> set (?Q (sd t))" using that by simp
    then have at: "a \<noteq> t" using fg_outside(1) [OF inv r1] by metis
    have "sd a = sd t" "2 \<le> cv_stage (fg_view s) a" using a cohort_mem [OF q] by auto
    then have "gR s a \<noteq> 18"
      using cohort_linked_not_last [OF q, of a] fg_pass_linked [OF fg_invD(2) [OF inv], of a] that(1) by auto
    moreover have "?w \<noteq> None" using cohort_shape [OF q, of "sd t"] that(2) by (simp add: mcs_shape_def)
    ultimately show ?thesis using at by (simp add: fg_adj_def fg_active_def fg_fol_def E(2,3))
  qed
  show ?thesis
  proof (rule fg_inv_move_to [OF inv, where t = t and Q = ?Q' and l = "gg_line g"])
    show "cohort_ok sd (fg_view ?s) ?Q'"
      unfolding view by (rule cohort_enqueue [OF q]) (simp add: at fg_stage_def)
    show "adj (?Q d) a b \<and> a \<noteq> t \<and> b \<noteq> t \<or> fg_adj c sd ?s a b" if "adj (?Q' d) a b" for d a b
      using that new [of a] fg_outside(2) [OF inv r1, of d a b] by (auto simp: adj_snoc split: if_splits)
    show "fg_pet c sd ?s"
      by (rule fg_pet_quiet [OF fg_invD(4) [OF inv]]) (simp_all add: fg_low_quiet [OF _ _ ph] EL E(2,3))
    have keep: "adj (?Q' d) a b" if "adj (?Q d) a b" for d a b using that by (auto simp: adj_snoc)
    show "fg_lines c sd ?s ?Q' (gg_line g)"
      by (rule fg_lines_quiet [OF fg_invD(5) [OF inv] _ _ _ _ _ _ _ _ _ keep, where t = t])
         (use inl in \<open>simp_all add: EL E(2,3) split: if_splits\<close>)
  qed (use own in \<open>simp_all add: E(2,3,4)\<close>)
qed

section \<open>Behind the predecessor\<close>

text \<open>The thread directly ahead, as long as it has not been released.\<close>

lemma fg_ahead:
  assumes "fg_inv c sd s g" and "2 \<le> gR s t" and "gR s t \<le> 4"
  obtains p where "adj (gg_queue g (sd t)) p t" and "gP s t = Some p"
  by (rule cohort_waiting [OF fg_invD(1) [OF assms(1)], of t]) (use assms in simp_all)

lemma fg_neighbours:
  assumes inv: "fg_inv c sd s g" and adj: "adj (gg_queue g d) p t"
  shows "p \<noteq> t" and "sd p = d" and "sd t = d" and "2 \<le> gR s p" and "2 \<le> gR s t"
    and "adj (gg_queue g d') a t \<Longrightarrow> a = p" and "adj (gg_queue g d') p b \<Longrightarrow> b = t"
proof -
  note q = fg_invD(1) [OF inv]
  show "p \<noteq> t" "sd p = d" "sd t = d" "2 \<le> gR s p" "2 \<le> gR s t" using cohort_adj [OF q adj] by simp_all
  show "adj (gg_queue g d') a t \<Longrightarrow> a = p" using cohort_adj_left [OF q _ adj] by simp
  show "adj (gg_queue g d') p b \<Longrightarrow> b = t" using cohort_adj_right [OF q _ adj] by simp
qed

lemma ginv_SetNext:
  assumes inv: "fg_inv c sd s g" and at: "g_at s t = GSetNext"
  shows "fg_inv c sd (fg_step c sd t s) (fg_gstep sd t s g)"
proof -
  have R: "2 \<le> gR s t" "gR s t \<le> 4" by (simp_all add: at)
  obtain p where p: "adj (gg_queue g (sd t)) p t" "gP s t = Some p" by (rule fg_ahead [OF inv R])
  note p = p fg_neighbours(1,4,6) [OF inv p(1)]
  note E = geff_SetNext [OF at p(2)] and q = fg_invD(1) [OF inv] and own = fg_invD(2) [OF inv, of t]
  let ?s = "fg_step c sd t s"
  have B: "\<not> gF s t" "gB s t = -1" using own at by (simp_all add: fg_own_def)
  have D: "gB ?s u = gB s u" "gV ?s u = gV s u" "gK ?s u = gK s u"
    "gN ?s u = (if u = p then Some t else gN s u)" for u by (simp_all add: E)
  have view: "fg_view ?s = (fg_view s)\<lparr>cv_next := (cv_next (fg_view s))(p := Some t),
      cv_stage := (cv_stage (fg_view s))(t := 3)\<rparr>"
    by (auto simp: fg_view_def E fun_eq_iff fg_stage_def)
  have own': "fg_own c sd ?s t" using own at B p(3) by (simp add: fg_own_def fg_fol_def E)
  have ph: "fg_ph c sd ?s t = fg_ph c sd s t" "fg_buf ?s t = fg_buf s t"
    using at B p(3) by (simp_all add: fg_ph_def fg_fol_def fg_buf_def E)
  have inl: "\<not> fg_inline c sd s t" "\<not> fg_inline c sd ?s t"
    using at B p(3) by (simp_all add: fg_inline_def fg_fol_def E)
  have adj: "fg_adj c sd ?s a b" if "adj (gg_queue g d) a b" "a = t \<or> b = t" for d a b
    using fg_invD(3) [OF inv that(1)] that at B p(3) p(5) [of d a] cohort_adj [OF q that(1)]
    by (cases "a = t"; cases "b = t") (auto simp: fg_adj_def fg_active_def fg_fol_def E)
  show ?thesis
    unfolding E(4)
  proof (rule fg_inv_move [OF inv, where t = t])
    show "cohort_ok sd (fg_view ?s) (gg_queue g)"
      unfolding view by (rule cohort_link [OF q]) (use at p(2) in \<open>simp_all add: fg_stage_def\<close>)
    show "fg_pet c sd ?s"
      by (rule fg_pet_quiet [OF fg_invD(4) [OF inv]]) (simp_all add: fg_low_quiet [OF _ _ ph] D E(1,3))
    show "fg_lines c sd ?s (gg_queue g) (gg_line g)"
      by (rule fg_lines_quiet [OF fg_invD(5) [OF inv], where t = t]) (use inl in \<open>simp_all add: D E(1,3)\<close>)
  qed (use own' adj in \<open>auto simp: D E(3)\<close>)
qed

lemma ginv_LoadValid:
  assumes inv: "fg_inv c sd s g" and at: "g_at s t = GLoadValid"
  shows "fg_inv c sd (fg_step c sd t s) (fg_gstep sd t s g)"
proof -
  have R: "2 \<le> gR s t" "gR s t \<le> 4" by (simp_all add: at)
  obtain p where p: "adj (gg_queue g (sd t)) p t" "gP s t = Some p" by (rule fg_ahead [OF inv R])
  note p = p fg_neighbours(1,4,6) [OF inv p(1)]
  note E = geff_LoadValid [OF at p(2)] and own = fg_invD(2) [OF inv, of t]
  let ?s = "fg_step c sd t s"
  have valid: "gV s p \<Longrightarrow> 23 \<le> gR s p" using fg_invD(2) [OF inv, of p] p(4) by (auto simp: fg_own_def)
  have own': "fg_own c sd ?s t" using own at by (simp add: fg_own_def fg_fol_def E)
  have fol: "fg_fol c sd ?s t = fg_fol c sd s t" using at by (simp add: fg_fol_def E)
  show ?thesis
    unfolding E(4)
  proof (rule fg_inv_local [OF inv E(1-3) _ _ _ _ _ _ own'])
    show "fg_adj c sd ?s a t" if "adj (gg_queue g d) a t" "fg_adj c sd s a t" for d a
      using that(2) p(5) [OF that(1)] at valid p(3) fol by (auto simp: fg_adj_def fg_active_def E)
    show "fg_adj c sd ?s t b" if "adj (gg_queue g d) t b" "fg_adj c sd s t b" for d b
      using that(2) at cohort_adj [OF fg_invD(1) [OF inv] that(1)] by (auto simp: fg_adj_def fg_active_def fg_fol_def E)
    show "fg_lines c sd ?s (gg_queue g) (gg_line g)"
      by (rule fg_lines_quiet [OF fg_invD(5) [OF inv], where t = t])
         (use at fol in \<open>simp_all add: E(1-3) fg_inline_def fg_tk_def\<close>)
  qed (use at fol in \<open>simp_all add: E fg_ph_def fg_buf_def\<close>)
qed

lemma ginv_SetReleasable:
  assumes inv: "fg_inv c sd s g" and at: "g_at s t = GSetReleasable"
  shows "fg_inv c sd (fg_step c sd t s) (fg_gstep sd t s g)"
proof -
  have R: "2 \<le> gR s t" "gR s t \<le> 4" by (simp_all add: at)
  obtain p where p: "adj (gg_queue g (sd t)) p t" "gP s t = Some p" by (rule fg_ahead [OF inv R])
  note p = p fg_neighbours(1,4,6) [OF inv p(1)]
  note E = geff_SetReleasable [OF at p(2)] and q = fg_invD(1) [OF inv] and own = fg_invD(2) [OF inv, of t]
  note ap = fg_invD(3) [OF inv p(1)]
  let ?s = "fg_step c sd t s"
  have F: "\<not> gF s t" using own at by (simp add: fg_own_def)
  have D: "gB ?s u = gB s u" "gV ?s u = gV s u" "gK ?s u = gK s u" "gN ?s u = gN s u" for u by (simp_all add: E)
  have view: "fg_view ?s = (fg_view s)\<lparr>cv_rel := (cv_rel (fg_view s))(p := True),
      cv_stage := (cv_stage (fg_view s))(t := 5)\<rparr>"
    by (auto simp: fg_view_def E fun_eq_iff fg_stage_def)
  have nofol: "gT s t = kTrue \<Longrightarrow> \<not> fg_fol c sd s t" using ap at by (auto simp: fg_adj_def)
  have fol: "fg_fol c sd ?s t = fg_fol c sd s t" using at F nofol by (auto simp: fg_fol_def E)
  have own': "fg_own c sd ?s t" using own at p(3) unfolding fg_own_def fol by (simp add: E)
  have ph: "fg_ph c sd ?s t = fg_ph c sd s t" "fg_buf ?s t = fg_buf s t"
    using at fol nofol by (auto simp: fg_ph_def fg_buf_def E)
  have inl: "fg_inline c sd ?s t = fg_inline c sd s t" using at fol nofol by (auto simp: fg_inline_def E)
  have adjL: "fg_adj c sd ?s a t" if "adj (gg_queue g d) a t" for d a
    using ap p(3) at p(5) [OF that] fol by (auto simp: fg_adj_def fg_active_def E(2,3) D)
  have adjR: "fg_adj c sd ?s t b" if "adj (gg_queue g d) t b" for d b
    using fg_invD(3) [OF inv that] cohort_adj [OF q that] at fg_fol_cong [of ?s b s c sd]
    by (auto simp: fg_adj_def fg_active_def E(3) D)
  show ?thesis
    unfolding E(4)
  proof (rule fg_inv_move [OF inv, where t = t])
    show "cohort_ok sd (fg_view ?s) (gg_queue g)"
      unfolding view by (rule cohort_release [OF q]) (use at p(2) in \<open>simp_all add: fg_stage_def\<close>)
    show "fg_pet c sd ?s"
      by (rule fg_pet_quiet [OF fg_invD(4) [OF inv]]) (simp_all add: fg_low_quiet [OF _ _ ph] D E(1,3))
    show "fg_lines c sd ?s (gg_queue g) (gg_line g)"
      by (rule fg_lines_quiet [OF fg_invD(5) [OF inv], where t = t])
         (use inl fol at nofol in \<open>auto simp: D E(1,3) fg_tk_def fg_inline_def split: if_splits\<close>)
    show "adj (gg_queue g d) a b \<and> a \<noteq> t \<and> b \<noteq> t \<or> fg_adj c sd ?s a b" if "adj (gg_queue g d) a b" for d a b
      using that adjL adjR by (cases "a = t"; cases "b = t") auto
  qed (use own' in \<open>simp_all add: D E(3)\<close>)
qed

section \<open>Waiting for the budget\<close>

lemma ginv_WaitBudget:
  assumes inv: "fg_inv c sd s g" and at: "g_at s t = GWaitBudget" and B: "gB s t \<noteq> -1"
  shows "fg_inv c sd (fg_step c sd t s) (fg_gstep sd t s g)"
proof -
  note E = geff_WaitBudget [OF at B] and own = fg_invD(2) [OF inv, of t]
  let ?s = "fg_step c sd t s"
  have fol: "fg_fol c sd ?s t = fg_fol c sd s t" using at by (simp add: fg_fol_def E)
  have own': "fg_own c sd ?s t" using own at B unfolding fg_own_def fol by (simp add: E)
  show ?thesis
    unfolding E(4)
  proof (rule fg_inv_local [OF inv E(1-3) _ _ _ _ _ _ own'])
    show "fg_adj c sd ?s a t" if "adj (gg_queue g d) a t" "fg_adj c sd s a t" for d a
      using that(2) fg_neighbours(1) [OF inv that(1)] at B fol by (auto simp: fg_adj_def fg_active_def E)
    show "fg_adj c sd ?s t b" if "adj (gg_queue g d) t b" "fg_adj c sd s t b" for d b
      using that(2) at fg_neighbours(1) [OF inv that(1)] by (auto simp: fg_adj_def fg_active_def fg_fol_def E)
    show "fg_lines c sd ?s (gg_queue g) (gg_line g)"
      by (rule fg_lines_quiet [OF fg_invD(5) [OF inv], where t = t])
         (use at fol in \<open>simp_all add: E(1-3) fg_inline_def fg_tk_def\<close>)
  qed (use at fol in \<open>simp_all add: E fg_ph_def fg_buf_def\<close>)
qed

lemma ginv_TestBudget:
  assumes inv: "fg_inv c sd s g" and at: "g_at s t = GTestBudget"
  shows "fg_inv c sd (fg_step c sd t s) (fg_gstep sd t s g)"
proof -
  note E = geff_TestBudget [OF at] and own = fg_invD(2) [OF inv, of t]
  let ?s = "fg_step c sd t s"
  have F: "\<not> gF s t" "gB s t \<noteq> -1" using own at by (simp_all add: fg_own_def)
  have R': "gR ?s t = (if gB s t \<noteq> kInitBudget c (sd t) then 7 else 8)" by (simp add: E)
  have fol: "fg_fol c sd ?s t = fg_fol c sd s t" "fg_fol c sd s t \<longleftrightarrow> gB s t \<noteq> kInitBudget c (sd t)"
    using at F by (simp_all add: fg_fol_def E)
  have own': "fg_own c sd ?s t" using own at F unfolding fg_own_def fol by (simp add: E)
  show ?thesis
    unfolding E(4)
  proof (rule fg_inv_local [OF inv E(1-3) _ _ _ _ _ _ own'])
    show "fg_adj c sd ?s a t" if "adj (gg_queue g d) a t" "fg_adj c sd s a t" for d a
      using that(2) fg_neighbours(1) [OF inv that(1)] at fol(1) unfolding fg_adj_def fg_active_def R' by (auto simp: E)
    show "fg_adj c sd ?s t b" if "adj (gg_queue g d) t b" "fg_adj c sd s t b" for d b
      using that(2) at fg_neighbours(1) [OF inv that(1)] fg_fol_cong [of ?s b s c sd]
      unfolding fg_adj_def fg_active_def R' by (auto simp: E(2,3))
    show "fg_lines c sd ?s (gg_queue g) (gg_line g)"
      by (rule fg_lines_quiet [OF fg_invD(5) [OF inv], where t = t])
         (use at fol in \<open>auto simp: E(1-3) fg_inline_def fg_tk_def split: if_splits\<close>)
  qed (use at fol in \<open>auto simp: E fg_ph_def fg_buf_def split: if_splits\<close>)
qed

lemma ginv_ReadTicket:
  assumes inv: "fg_inv c sd s g" and at: "g_at s t = GReadTicket"
  shows "fg_inv c sd (fg_step c sd t s) (fg_gstep sd t s g)"
proof -
  note E = geff_ReadTicket [OF at] and own = fg_invD(2) [OF inv, of t]
  let ?s = "fg_step c sd t s"
  have fol: "fg_fol c sd ?s t" "fg_fol c sd s t" using own at by (simp_all add: fg_fol_def fg_own_def E)
  have own': "fg_own c sd ?s t" using own at fol by (simp add: fg_own_def E)
  show ?thesis
    unfolding E(4)
  proof (rule fg_inv_local [OF inv E(1-3) _ _ _ _ _ _ own'])
    show "fg_adj c sd ?s a t" if "adj (gg_queue g d) a t" "fg_adj c sd s a t" for d a
      using that(2) fg_neighbours(1) [OF inv that(1)] at fol by (auto simp: fg_adj_def fg_active_def E)
    show "fg_adj c sd ?s t b" if "adj (gg_queue g d) t b" "fg_adj c sd s t b" for d b
      using that(2) at fg_neighbours(1) [OF inv that(1)] fg_fol_cong [of ?s b s c sd]
      unfolding fg_adj_def fg_active_def by (auto simp: E(2,3))
    show "fg_lines c sd ?s (gg_queue g) (gg_line g)"
      by (rule fg_lines_quiet [OF fg_invD(5) [OF inv], where t = t])
         (use at fol in \<open>simp_all add: E(1-3) fg_inline_def fg_tk_def\<close>)
  qed (use at fol in \<open>simp_all add: E fg_ph_def fg_buf_def\<close>)
qed

lemma ginv_SetBudget:
  assumes inv: "fg_inv c sd s g" and at: "g_at s t = GSetBudget"
  shows "fg_inv c sd (fg_step c sd t s) (fg_gstep sd t s g)"
proof -
  note E = geff_SetBudget [OF at] and q = fg_invD(1) [OF inv] and own = fg_invD(2) [OF inv, of t]
  let ?s = "fg_step c sd t s"
  have F: "\<not> gF s t" using own at by (simp add: fg_own_def)
  have fol: "\<not> fg_fol c sd ?s t" "\<not> fg_fol c sd s t" using at F by (simp_all add: fg_fol_def E)
  have own': "fg_own c sd ?s t" using own at fol F by (simp add: fg_own_def E)
  have view: "fg_view ?s = fg_view s" using at by (auto simp: fg_view_def E fun_eq_iff fg_stage_def)
  have ph: "fg_ph c sd ?s t = fg_ph c sd s t" "fg_buf ?s t = fg_buf s t"
    using at fol by (simp_all add: fg_ph_def fg_buf_def E)
  have adjL: "fg_adj c sd ?s a t" if "adj (gg_queue g d) a t" for d a
    using fg_invD(3) [OF inv that] fg_neighbours(1) [OF inv that] at fol by (auto simp: fg_adj_def fg_active_def E)
  have adjR: "fg_adj c sd ?s t b" if "adj (gg_queue g d) t b" for d b
    using fg_invD(3) [OF inv that] fg_neighbours(1) [OF inv that] at fg_fol_cong [of ?s b s c sd]
    by (auto simp: fg_adj_def fg_active_def E(2,3))
  show ?thesis
    unfolding E(4)
  proof (rule fg_inv_move [OF inv, where t = t])
    show "cohort_ok sd (fg_view ?s) (gg_queue g)" unfolding view by (rule q)
    show "fg_pet c sd ?s"
      by (rule fg_pet_quiet [OF fg_invD(4) [OF inv]]) (simp_all add: fg_low_quiet [OF _ _ ph] E)
    show "fg_lines c sd ?s (gg_queue g) (gg_line g)"
      by (rule fg_lines_quiet [OF fg_invD(5) [OF inv], where t = t])
         (use fol at in \<open>simp_all add: E fg_tk_def fg_inline_def\<close>)
    show "adj (gg_queue g d) a b \<and> a \<noteq> t \<and> b \<noteq> t \<or> fg_adj c sd ?s a b" if "adj (gg_queue g d) a b" for d a b
      using that adjL adjR by (cases "a = t"; cases "b = t") auto
  qed (use own' in \<open>simp_all add: E\<close>)
qed

end
