(* ===== verification/FARLockGPeterson.thy ===== *)
theory FARLockGPeterson
  imports FARLockGStep
begin

text \<open>
  The steps of FARLockG in Peterson's algorithm keep the invariant: taking part, polling and giving up the
  place.  Passing the place on to a follower is the step \<open>GPassBudget\<close> of the next theory.
\<close>

section \<open>Participants\<close>

text \<open>Whoever takes part, or has been passed to, has every thread ahead of it in its queue done.\<close>

lemma fg_taking_part:
  assumes "fg_ph c sd s u \<noteq> Out"
  shows "fg_active s u \<and> \<not> 23 \<le> gR s u \<and> 2 \<le> gR s u"
  using assms fg_phase_rank [of "g_at s u"] by (auto simp: fg_ph_def fg_fol_def fg_active_def split: if_splits)

lemma fg_alone:
  assumes inv: "fg_inv c sd s g" and "sd u = sd t"
    and "fg_active s t" "\<not> 23 \<le> gR s t" "2 \<le> gR s t" and "fg_ph c sd s u \<noteq> Out"
  shows "u = t"
proof (rule cohort_chain [OF fg_invD(1) [OF inv], where P = "fg_active s" and D = "\<lambda>x. 23 \<le> gR s x"])
  show "fg_active s a \<and> 23 \<le> gR s a" if "adj (gg_queue g (sd t)) a b" "fg_active s b" for a b
  proof -
    have "23 \<le> gR s a" using fg_invD(3) [OF inv that(1)] that(2) by (simp add: fg_adj_def)
    then show ?thesis by (simp add: fg_active_def)
  qed
qed (use assms fg_taking_part [OF assms(6)] in simp_all)

lemma fg_ph_upd:
  assumes "g_thr s' = (g_thr s)(t := h)" and "g_desc s' = g_desc s" and "8 \<le> fg_rank (gh_pc h)"
  shows "fg_ph c sd s' = (fg_ph c sd s)(t := fg_phase (gh_pc h))"
proof
  show "fg_ph c sd s' u = ((fg_ph c sd s)(t := fg_phase (gh_pc h))) u" for u
    using assms fg_fol_cong [of s' u s c sd] by (cases "u = t") (auto simp: fg_ph_def)
qed

lemma fg_pet_local:
  assumes "fg_pet c sd s" and t: "sd t = Local" and thr: "g_thr s' = (g_thr s)(t := h)"
    and "g_desc s' = g_desc s" and R: "8 \<le> fg_rank (gh_pc h)" "8 \<le> gR s t"
    and part: "fg_ph c sd s t \<noteq> Out \<or> (\<forall>u. sd u = Local \<longrightarrow> fg_ph c sd s u = Out)"
    and rf: "gl_remote_flag (g_lock s') = gl_remote_flag (g_lock s)"
    and core: "\<And>pr b. pet_core (fg_phase (g_at s t)) pr b (gl_local_flag (g_lock s)) (gl_remote_flag (g_lock s))
      (gl_victim (g_lock s)) \<Longrightarrow> pet_core (fg_phase (gh_pc h)) pr b (gl_local_flag (g_lock s'))
      (gl_remote_flag (g_lock s)) (gl_victim (g_lock s'))"
  shows "fg_pet c sd s'"
proof -
  have ph: "fg_ph c sd s t = fg_phase (g_at s t)" using R(2) by (simp add: fg_ph_def)
  have "pet_ok sd (fg_ph c sd s') (fg_buf s) (gl_local_flag (g_lock s')) (gl_remote_flag (g_lock s))
      (gl_victim (g_lock s'))"
    unfolding fg_ph_upd [OF thr assms(4) R(1)]
    by (rule pet_step_local [OF assms(1) [unfolded fg_pet_def] t part]) (use core ph in simp)
  then show ?thesis
    unfolding fg_pet_def rf by (rule pet_cong) (use t thr in \<open>auto simp: fg_buf_def\<close>)
qed

lemma fg_pet_remote:
  assumes "fg_pet c sd s" and t: "sd t = Remote" and thr: "g_thr s' = (g_thr s)(t := h)"
    and "g_desc s' = g_desc s" and R: "8 \<le> fg_rank (gh_pc h)" "8 \<le> gR s t"
    and part: "fg_ph c sd s t \<noteq> Out \<or> (\<forall>u. sd u = Remote \<longrightarrow> fg_ph c sd s u = Out)"
    and lf: "gl_local_flag (g_lock s') = gl_local_flag (g_lock s)"
    and core: "\<And>pl b. pet_core pl (fg_phase (g_at s t)) b (gl_local_flag (g_lock s)) (gl_remote_flag (g_lock s))
      (gl_victim (g_lock s)) \<Longrightarrow> (g_at s t = GPetReadB \<Longrightarrow> b = gh_buf_victim (g_thr s t)) \<Longrightarrow>
      pet_core pl (fg_phase (gh_pc h)) (fg_buf s' t) (gl_local_flag (g_lock s)) (gl_remote_flag (g_lock s'))
        (gl_victim (g_lock s'))"
  shows "fg_pet c sd s'"
proof -
  have ph: "fg_ph c sd s t = fg_phase (g_at s t)" using R(2) by (simp add: fg_ph_def)
  show ?thesis
    unfolding fg_pet_def fg_ph_upd [OF thr assms(4) R(1)] lf
    by (rule pet_step_remote [OF assms(1) [unfolded fg_pet_def] t part])
       (use thr core ph in \<open>auto simp: fg_buf_def\<close>)
qed

section \<open>Steps\<close>

text \<open>Before a ticket is drawn the steps of Peterson's algorithm change nothing else.\<close>

lemma ginv_pet_frame:
  assumes inv: "fg_inv c sd s g" and R: "9 \<le> gR s t" "gR s t \<le> 12"
    and lock: "\<And>d. fg_tail d (g_lock s') = fg_tail d (g_lock s)"
      "gl_current_ticket (g_lock s') = gl_current_ticket (g_lock s)"
      "gl_next_ticket (g_lock s') = gl_next_ticket (g_lock s)"
    and desc: "g_desc s' = g_desc s" and thr: "g_thr s' = (g_thr s)(t := h)"
    and h: "gh_prev h = gP s t" "gh_ticket h = gT s t" "gh_from_prev h = gF s t"
    and R': "10 \<le> fg_rank (gh_pc h)" "fg_rank (gh_pc h) \<le> 13"
    and pet: "fg_pet c sd s'"
  shows "fg_inv c sd s' g"
proof -
  note own = fg_invD(2) [OF inv, of t]
  have F: "\<not> gF s t" using own R by (simp add: fg_own_def)
  have own': "fg_own c sd s' t" using own R R' F by (simp add: fg_own_def fg_fol_def thr desc h)
  show ?thesis
  proof (rule fg_inv_handler [OF inv refl refl lock(1) desc thr h(1) _ _ _ _ _ own' _ _ pet])
    show "fg_adj c sd s' a t" if "adj (gg_queue g d) a t" "fg_adj c sd s a t" for d a
      using that(2) fg_neighbours(1) [OF inv that(1)] R R' F
      by (auto simp: fg_adj_def fg_active_def fg_fol_def thr desc h)
    show "fg_adj c sd s' t b" if "adj (gg_queue g d) t b" "fg_adj c sd s t b" for d b
      using that(2) fg_neighbours(1) [OF inv that(1)] R R' fg_fol_cong [of s' b s c sd]
      by (auto simp: fg_adj_def fg_active_def thr desc)
    show "fg_lines c sd s' (gg_queue g) (gg_line g)"
      by (rule fg_lines_quiet [OF fg_invD(5) [OF inv], where t = t])
         (use R R' in \<open>simp_all add: thr desc lock fg_inline_def\<close>)
  qed (use R R' in simp_all)
qed

lemma ginv_PetFlag:
  assumes inv: "fg_inv c sd s g" and at: "g_at s t = GPetFlag"
  shows "fg_inv c sd (fg_step c sd t s) (fg_gstep sd t s g)"
proof -
  note pet = fg_invD(4) [OF inv] and E = geff_PetFlag [OF at]
  have out: "fg_ph c sd s u = Out" if "sd u = sd t" for u
  proof (rule ccontr)
    assume *: "fg_ph c sd s u \<noteq> Out"
    then have "u = t" by (intro fg_alone [OF inv that]) (simp_all add: at fg_active_def)
    with * at show False by (simp add: fg_ph_def)
  qed
  have "fg_pet c sd (fg_step c sd t s)"
  proof (cases "sd t")
    case Local
    show ?thesis
      by (rule fg_pet_local [OF pet Local E(3) E(2)])
         (use out Local at in \<open>auto simp: E(1) intro: core_flag_local\<close>)
  next
    case Remote
    show ?thesis
      by (rule fg_pet_remote [OF pet Remote E(3) E(2)])
         (use out Remote at in \<open>auto simp: E(1) intro: core_flag_remote\<close>)
  qed
  then show ?thesis
    unfolding E(4) by (intro ginv_pet_frame [OF inv _ _ _ _ _ E(2,3)]) (simp_all add: E(1) at)
qed

lemma ginv_PetVictim:
  assumes inv: "fg_inv c sd s g" and at: "g_at s t = GPetVictim"
  shows "fg_inv c sd (fg_step c sd t s) (fg_gstep sd t s g)"
proof -
  note pet = fg_invD(4) [OF inv] and E = geff_PetVictim [OF at]
  have "fg_ph c sd s t = Flagged" by (simp add: fg_ph_def at)
  then have part: "fg_ph c sd s t \<noteq> Out" by simp
  have "fg_pet c sd (fg_step c sd t s)"
  proof (cases "sd t")
    case Local
    show ?thesis
      by (rule fg_pet_local [OF pet Local E(3) E(2)])
         (use part Local at in \<open>auto simp: E(1) intro: core_victim_local\<close>)
  next
    case Remote
    show ?thesis
      by (rule fg_pet_remote [OF pet Remote E(3) E(2)])
         (use part Remote at in \<open>auto simp: E(1) intro: core_buf core_victim_remote\<close>)
  qed
  then show ?thesis
    unfolding E(4) by (intro ginv_pet_frame [OF inv _ _ _ _ _ E(2,3)]) (simp_all add: E(1) at)
qed

lemma ginv_PetReadA:
  assumes inv: "fg_inv c sd s g" and at: "g_at s t = GPetReadA"
  shows "fg_inv c sd (fg_step c sd t s) (fg_gstep sd t s g)"
proof -
  note pet = fg_invD(4) [OF inv] and E = geff_PetReadA [OF at]
  have "fg_ph c sd s t = ReadA" by (simp add: fg_ph_def at)
  then have part: "fg_ph c sd s t \<noteq> Out" by simp
  have "fg_pet c sd (fg_step c sd t s)"
  proof (cases "sd t")
    case Local
    show ?thesis
      by (rule fg_pet_local [OF pet Local E(3) E(2)])
         (use part Local at in \<open>auto simp: E(1) intro: core_local_A_in core_local_A_B\<close>)
  next
    case Remote
    show ?thesis
      by (rule fg_pet_remote [OF pet Remote E(3) E(2)])
         (use part Remote at in \<open>auto simp: E(1,3) fg_buf_def intro: core_remote_A_B\<close>)
  qed
  then show ?thesis
    unfolding E(4) by (intro ginv_pet_frame [OF inv _ _ _ _ _ E(2,3)]) (simp_all add: E(1) at)
qed

lemma ginv_PetReadB:
  assumes inv: "fg_inv c sd s g" and at: "g_at s t = GPetReadB"
  shows "fg_inv c sd (fg_step c sd t s) (fg_gstep sd t s g)"
proof -
  note pet = fg_invD(4) [OF inv] and E = geff_PetReadB [OF at]
  have "fg_ph c sd s t = ReadB" by (simp add: fg_ph_def at)
  then have part: "fg_ph c sd s t \<noteq> Out" by simp
  have "fg_pet c sd (fg_step c sd t s)"
  proof (cases "sd t")
    case Local
    show ?thesis
      by (rule fg_pet_local [OF pet Local E(3) E(2)])
         (use part Local at in \<open>auto simp: E(1) intro: core_local_B_in core_local_B_A\<close>)
  next
    case Remote
    show ?thesis
      by (rule fg_pet_remote [OF pet Remote E(3) E(2)])
         (use part Remote at in \<open>auto simp: E(1) intro: core_buf [OF core_remote_B_in] core_buf [OF core_remote_B_A]\<close>)
  qed
  then show ?thesis
    unfolding E(4) by (intro ginv_pet_frame [OF inv _ _ _ _ _ E(2,3)]) (simp_all add: E(1) at)
qed

end
