(* ===== verification/FARLockGTicket.thy ===== *)
theory FARLockGTicket
  imports FARLockGPeterson
begin

text \<open>
  The steps of FARLockG from drawing a ticket to the critical section and \<^verbatim>\<open>Unlock\<close> keep the invariant.
\<close>

section \<open>Drawing a ticket\<close>

lemma fg_lines_draw:
  assumes l: "fg_lines c sd s Q l" and pet: "fg_pet c sd s"
    and R: "13 \<le> gR s t" "gR s t \<le> 14" and F: "\<not> gF s t"
    and thr: "g_thr s' = (g_thr s)(t := h)" and desc: "g_desc s' = g_desc s"
    and h: "fg_rank (gh_pc h) = 15" "gh_ticket h = gl_next_ticket (g_lock s)" "\<not> gh_from_prev h"
    and cur: "gl_current_ticket (g_lock s') = gl_current_ticket (g_lock s)"
    and nxt: "gl_next_ticket (g_lock s') = gl_next_ticket (g_lock s) + 1"
  shows "fg_lines c sd s' Q (l @ [t])"
proof -
  note L = fg_linesD [OF l]
  have phIn: "fg_ph c sd s t = In" using R by (intro fg_ph_In) simp
  have other: "g_thr s' u = g_thr s u" if "u \<noteq> t" for u using thr that by simp
  have t: "t \<notin> set l" using L(2) [of t] R by (simp add: fg_inline_def)
  have fol: "fg_fol c sd s' u = (if u = t then False else fg_fol c sd s u)" for u
    using h(1,3) fg_fol_cong [of s' u s c sd] thr desc by (auto simp: fg_fol_def)
  have inl: "fg_inline c sd s' u \<longleftrightarrow> u = t \<or> fg_inline c sd s u" for u
    using fol [of u] h(1) thr R by (cases "u = t") (auto simp: fg_inline_def)
  have tk: "fg_tk s' u = (if u = t then gl_next_ticket (g_lock s) else fg_tk s u)" for u
    using h(1,2) thr desc by (simp add: fg_tk_def)
  have pending: "u = t" if "fg_inline c sd s u" "gR s u \<le> 18" for u
  proof (rule fg_exclusion [OF pet phIn])
    show "fg_ph c sd s u = In" using that by (intro fg_ph_In) (auto simp: fg_inline_def)
  qed
  have tl: "u \<noteq> t" if "u \<in> set (tl l)" for u using t that by (cases l) auto
  have line: "batch_line x (fg_tk s') (fg_fol c sd s') l = batch_line x (fg_tk s) (fg_fol c sd s) l" for x
    by (rule batch_line_cong) (use t tk fol tl in auto)
  have bend: "batch_end x (fg_fol c sd s') l = batch_end x (fg_fol c sd s) l" for x
    by (rule batch_end_cong) (use fol tl in auto)
  show ?thesis
    unfolding fg_lines_def cur nxt inl
  proof (intro conjI allI impI)
    show "batch_line (gl_current_ticket (g_lock s)) (fg_tk s') (fg_fol c sd s') (l @ [t])"
      by (rule batch_line_draw) (use L(3,4) line bend fol tk in auto)
    show "gl_next_ticket (g_lock s) + 1 = batch_end (gl_current_ticket (g_lock s)) (fg_fol c sd s') (l @ [t])"
      using L(4) bend fol [of t] by (simp add: batch_end_draw)
    show "adj (Q (sd b)) a b" if "adj (l @ [t]) a b \<and> fg_fol c sd s' b" for a b
      using that L(5) [of a b] fol [of b] by (auto simp: adj_snoc split: if_splits)
    show "\<exists>b. adj (l @ [t]) a b \<and> fg_fol c sd s' b" if a: "25 \<le> gR s' a \<and> gR s' a \<le> 28 \<and> \<not> gV s' a" for a
    proof -
      have "a \<noteq> t" using a h(1) thr by auto
      then obtain b where b: "adj l a b" "fg_fol c sd s b" using L(6) [of a] a other desc by auto
      moreover have "b \<noteq> t" using adj_setR [OF b(1)] t by auto
      ultimately show ?thesis using fol [of b] by (auto simp: adj_snoc)
    qed
    show "u = hd (l @ [t])" if u: "gR s' u = 27 \<or> gR s' u = 28" for u
    proof -
      have ut: "u \<noteq> t" using u h(1) thr by auto
      then have "gR s u = 27 \<or> gR s u = 28" using u other by simp
      then have "u = hd l" "u \<in> set l" using L(7) [of u] L(2) [of u] by (auto simp: fg_inline_def)
      then show ?thesis by (cases l) auto
    qed
    show "gT s' u = gl_next_ticket (g_lock s) + 1" if u: "gR s' u = 14" for u
    proof -
      have ut: "u \<noteq> t" using u h(1) thr by auto
      then have "fg_ph c sd s u = In" using u other by (intro fg_ph_In) simp
      then show ?thesis using fg_exclusion [OF pet phIn] ut by blast
    qed
    show "u = last (l @ [t])" if "(u = t \<or> fg_inline c sd s u) \<and> gR s' u \<le> 18" for u
      using that pending [of u] other [of u] by (cases "u = t") auto
  qed (use L(1,2) t in auto)
qed

lemma ginv_draw_frame:
  assumes inv: "fg_inv c sd s g" and R: "13 \<le> gR s t" "gR s t \<le> 14"
    and g': "gg_queue g' = gg_queue g" "gg_line g' = l"
    and lock: "\<And>d. fg_tail d (g_lock s') = fg_tail d (g_lock s)"
      "gl_local_flag (g_lock s') = gl_local_flag (g_lock s)" "gl_remote_flag (g_lock s') = gl_remote_flag (g_lock s)"
      "gl_victim (g_lock s') = gl_victim (g_lock s)"
    and desc: "g_desc s' = g_desc s" and thr: "g_thr s' = (g_thr s)(t := h)"
    and h: "gh_prev h = gP s t" "gh_from_prev h = gF s t" and pc: "gh_pc h = GLoadNext \<or> gh_pc h = GPut \<and> sd t = Remote"
    and lines: "fg_lines c sd s' (gg_queue g) l"
  shows "fg_inv c sd s' g'"
proof -
  note own = fg_invD(2) [OF inv, of t]
  have F: "\<not> gF s t" using own R by (simp add: fg_own_def)
  have R': "14 \<le> fg_rank (gh_pc h)" "fg_rank (gh_pc h) \<le> 15" "fg_phase (gh_pc h) = In" "gh_pc h \<noteq> GPetReadB"
    using pc by auto
  have own': "fg_own c sd s' t" using own R pc F by (auto simp: fg_own_def fg_fol_def thr desc h)
  have ph: "fg_ph c sd s' u = fg_ph c sd s u" for u
    unfolding fg_ph_upd [OF thr desc order_trans [OF _ R'(1)], simplified]
    using R R'(3) by (simp add: fg_ph_def fg_rank_ph)
  have buf: "fg_buf s' u = fg_buf s u" for u
    using R R'(4) thr by (cases "u = t") (auto simp: fg_buf_def)
  show ?thesis
  proof (rule fg_inv_handler [OF inv g' lock(1) desc thr h(1) _ _ _ _ _ own' _ _ _ lines])
    show "fg_adj c sd s' a t" if "adj (gg_queue g d) a t" "fg_adj c sd s a t" for d a
      using that(2) fg_neighbours(1) [OF inv that(1)] R R'(1,2) F
      by (auto simp: fg_adj_def fg_active_def fg_fol_def thr desc h)
    show "fg_adj c sd s' t b" if "adj (gg_queue g d) t b" "fg_adj c sd s t b" for d b
      using that(2) fg_neighbours(1) [OF inv that(1)] R R'(1,2) fg_fol_cong [of s' b s c sd]
      by (auto simp: fg_adj_def fg_active_def thr desc)
    show "fg_pet c sd s'" by (rule fg_pet_quiet [OF fg_invD(4) [OF inv] ph buf]) (simp_all add: lock)
  qed (use R R' in simp_all)
qed

lemma ginv_Take:
  assumes inv: "fg_inv c sd s g" and at: "g_at s t = GTake"
  shows "fg_inv c sd (fg_step c sd t s) (fg_gstep sd t s g)"
proof (cases "sd t")
  case Local
  note E = geff_Take_local [where sd = sd, OF at Local]
  have F: "\<not> gF s t" using fg_invD(2) [OF inv, of t] at by (simp add: fg_own_def)
  show ?thesis
    by (rule ginv_draw_frame [OF inv _ _ _ _ _ _ _ _ E(2,3) _ _ _
          fg_lines_draw [OF fg_invD(5,4) [OF inv] _ _ F E(3,2)]])
       (use F in \<open>simp_all add: E(1,4) at\<close>)
next
  case Remote
  note E = geff_Take_remote [where sd = sd, OF at Remote]
  show ?thesis
  proof (rule ginv_draw_frame [OF inv _ _ _ _ _ _ _ _ E(2,3)])
    show "fg_lines c sd (fg_step c sd t s) (gg_queue g) (gg_line g)"
      by (rule fg_lines_quiet [OF fg_invD(5) [OF inv], where t = t])
         (use at in \<open>simp_all add: E(1-3) fg_inline_def\<close>)
  qed (simp_all add: E(1,4) at Remote)
qed

lemma ginv_Put:
  assumes inv: "fg_inv c sd s g" and at: "g_at s t = GPut"
  shows "fg_inv c sd (fg_step c sd t s) (fg_gstep sd t s g)"
proof -
  have F: "\<not> gF s t" "sd t = Remote" using fg_invD(2) [OF inv, of t] at by (simp_all add: fg_own_def)
  have T: "gT s t = gl_next_ticket (g_lock s)" using fg_linesD(8) [OF fg_invD(5) [OF inv], of t] at by simp
  note E = geff_Put [where sd = sd, OF at F(2)]
  show ?thesis
    by (rule ginv_draw_frame [OF inv _ _ _ _ _ _ _ _ E(2,3) _ _ _
          fg_lines_draw [OF fg_invD(5,4) [OF inv] _ _ F(1) E(3,2)]])
       (use F T in \<open>simp_all add: E(1,4) at\<close>)
qed

section \<open>Passing the ticket on\<close>

text \<open>A step inside the critical section of Peterson's algorithm that only reads.\<close>

lemma ginv_holder_frame:
  assumes inv: "fg_inv c sd s g" and R: "15 \<le> gR s t" "gR s t \<le> 16"
    and lock: "g_lock s' = g_lock s" and desc: "g_desc s' = g_desc s" and thr: "g_thr s' = (g_thr s)(t := h)"
    and h: "gh_prev h = gP s t" "gh_from_prev h = gF s t" "gh_ticket h = gT s t"
    and R': "16 \<le> fg_rank (gh_pc h)" "fg_rank (gh_pc h) \<le> 20" "fg_rank (gh_pc h) \<noteq> 18"
    and own': "fg_own c sd s' t"
  shows "fg_inv c sd s' g"
proof -
  have fol: "fg_fol c sd s' t = fg_fol c sd s t" using R R' by (simp add: fg_fol_def thr h)
  have nb: "gh_pc h \<noteq> GPetReadB" "g_at s t \<noteq> GPetReadB" using R R' by auto
  show ?thesis
  proof (rule fg_inv_local [OF inv lock desc thr h(1) _ _ _ _ _ own'])
    show "fg_adj c sd s' a t" if "adj (gg_queue g d) a t" "fg_adj c sd s a t" for d a
      using that(2) fg_neighbours(1) [OF inv that(1)] R R' fol by (auto simp: fg_adj_def fg_active_def thr desc h)
    show "fg_adj c sd s' t b" if "adj (gg_queue g d) t b" "fg_adj c sd s t b" for d b
      using that(2) fg_neighbours(1) [OF inv that(1)] R R' fg_fol_cong [of s' b s c sd]
      by (auto simp: fg_adj_def fg_active_def thr desc)
    show "fg_lines c sd s' (gg_queue g) (gg_line g)"
      by (rule fg_lines_quiet [OF fg_invD(5) [OF inv], where t = t])
         (use R R' fol in \<open>auto simp: thr desc lock h fg_inline_def fg_tk_def\<close>)
    show "fg_ph c sd s' t = fg_ph c sd s t" using R R' by (simp add: fg_ph_def thr fg_rank_ph)
    show "fg_buf s' t = fg_buf s t" using nb by (simp add: fg_buf_def thr)
  qed (use R R' in simp_all)
qed

lemma ginv_LoadNext:
  assumes inv: "fg_inv c sd s g" and at: "g_at s t = GLoadNext"
  shows "fg_inv c sd (fg_step c sd t s) (fg_gstep sd t s g)"
proof -
  note E = geff_LoadNext [OF at]
  have fol: "fg_fol c sd (fg_step c sd t s) t = fg_fol c sd s t" using at by (simp add: fg_fol_def E)
  have own': "fg_own c sd (fg_step c sd t s) t"
    using fg_invD(2) [OF inv, of t] at unfolding fg_own_def fol by (simp add: E)
  show ?thesis
    unfolding E(4) by (rule ginv_holder_frame [OF inv _ _ E(1-3) _ _ _ _ _ _ own']) (simp_all add: at)
qed

text \<open>A thread with a ticket has a positive budget: a follower's is below the initial one.\<close>

lemma fg_budget:
  assumes inv: "fg_inv c sd s g" and b: "budgets_ok c" and R: "9 \<le> gR s t \<or> 1 \<le> gR s t \<and> fg_fol c sd s t"
  shows "gB s t \<noteq> 0" and "gB s t \<le> kInitBudget c (sd t)"
proof -
  have "gB s t \<noteq> 0 \<and> gB s t \<le> kInitBudget c (sd t)"
  proof (cases "fg_fol c sd s t")
    case True
    then have "1 \<le> gR s t" using R by auto
    then have "gB s t \<noteq> 0" "gB s t < kInitBudget c (sd t)"
      using fg_invD(2) [OF inv, of t] True unfolding fg_own_def by blast+
    then show ?thesis by simp
  next
    case False
    then have "9 \<le> gR s t" "\<not> gF s t" using R by (auto simp: fg_fol_def)
    then have "gB s t = kInitBudget c (sd t)" using fg_invD(2) [OF inv, of t] unfolding fg_own_def by simp
    then show ?thesis using kInitBudget_bounds(1) [OF b, of "sd t"] by simp
  qed
  then show "gB s t \<noteq> 0" "gB s t \<le> kInitBudget c (sd t)" by simp_all
qed

lemma ginv_LoadBudget:
  assumes inv: "fg_inv c sd s g" and b: "budgets_ok c" and at: "g_at s t = GLoadBudget"
  shows "fg_inv c sd (fg_step c sd t s) (fg_gstep sd t s g)"
proof -
  have "gB s t \<noteq> 0" by (rule fg_budget [OF inv b]) (simp add: at)
  note E = geff_LoadBudget [OF at this]
  have fol: "fg_fol c sd (fg_step c sd t s) t = fg_fol c sd s t" using at by (simp add: fg_fol_def E)
  have own': "fg_own c sd (fg_step c sd t s) t"
    using fg_invD(2) [OF inv, of t] at unfolding fg_own_def fol by (simp add: E)
  show ?thesis
    unfolding E(4) by (rule ginv_holder_frame [OF inv _ _ E(1-3) _ _ _ _ _ _ own']) (simp_all add: at)
qed

text \<open>The successor of a thread that has not passed on anything yet still waits.\<close>

lemma fg_behind:
  assumes inv: "fg_inv c sd s g" and n: "gN s t = Some n" and R: "2 \<le> gR s t" "gR s t \<le> 22"
  shows "adj (gg_queue g (sd t)) t n" and "3 \<le> gR s n" and "gR s n \<le> 5" and "gB s n = -1"
    and "\<not> fg_fol c sd s n" and "n \<noteq> t" and "sd n = sd t" and "gR s n = 4 \<Longrightarrow> gT s n \<noteq> kTrue"
proof -
  note q = fg_invD(1) [OF inv]
  show adj: "adj (gg_queue g (sd t)) t n" "3 \<le> gR s n" using cohort_next [OF q, of t n] R n by simp_all
  have "\<not> fg_active s n" using fg_invD(3) [OF inv adj(1)] R by (auto simp: fg_adj_def)
  then show "gR s n \<le> 5" "gB s n = -1" "gR s n = 4 \<Longrightarrow> gT s n \<noteq> kTrue" using adj(2) by (auto simp: fg_active_def)
  then show "\<not> fg_fol c sd s n" by (simp add: fg_fol_def)
  show "n \<noteq> t" "sd n = sd t" using fg_neighbours(1,3) [OF inv adj(1)] by simp_all
qed

lemma ginv_PassTicket:
  assumes inv: "fg_inv c sd s g" and at: "g_at s t = GPassTicket"
  shows "fg_inv c sd (fg_step c sd t s) (fg_gstep sd t s g)"
proof -
  note own = fg_invD(2) [OF inv, of t] and q = fg_invD(1) [OF inv]
  obtain n where n: "gN s t = Some n" using own at by (auto simp: fg_own_def)
  have R: "2 \<le> gR s t" "gR s t \<le> 22" by (simp_all add: at)
  note N = fg_behind [OF inv n R] and E = geff_PassTicket [OF at n]
  let ?s = "fg_step c sd t s"
  have D: "gB ?s u = gB s u" "gV ?s u = gV s u" "gN ?s u = gN s u" "gK ?s u = (if u = n then gT s t else gK s u)" for u
    by (simp_all add: E)
  have thr: "g_thr ?s u = g_thr s u" if "u \<noteq> t" for u using that by (simp add: E)
  have fol: "fg_fol c sd ?s u = fg_fol c sd s u" for u
    using at by (cases "u = t") (simp_all add: fg_fol_def E)
  have own': "fg_own c sd ?s u" for u
  proof (cases "u = t")
    case True
    then show ?thesis using own at N(6) unfolding fg_own_def fol D by (auto simp: E)
  next
    case False
    then show ?thesis using fg_invD(2) [OF inv, of u] N(2,3) unfolding fg_own_def fol D thr [OF False] by auto
  qed
  have adj': "fg_adj c sd ?s a b" if "adj (gg_queue g d) a b" for d a b
  proof -
    note A = fg_invD(3) [OF inv that] fg_neighbours(1) [OF inv that]
    show ?thesis
    proof (cases "a = t")
      case True
      then have "b = n" using fg_neighbours(7) [OF inv N(1)] that by blast
      then show ?thesis using True A N(6) at unfolding fg_adj_def fg_active_def fol D by (auto simp: E(3))
    next
      case False
      then have "b \<noteq> n" using fg_neighbours(6) [OF inv N(1)] that by blast
      then show ?thesis
        using False A at unfolding fg_adj_def fg_active_def fol D by (cases "b = t") (auto simp: E(3))
    qed
  qed
  have view: "fg_view ?s = fg_view s" using at by (auto simp: fg_view_def E fun_eq_iff fg_stage_def)
  have ph: "fg_ph c sd ?s u = fg_ph c sd s u" for u using fol at by (simp add: fg_ph_def E(3))
  have buf: "fg_buf ?s u = fg_buf s u" for u using at by (simp add: fg_buf_def E(3))
  have ninl: "\<not> fg_inline c sd s n" using N by (simp add: fg_inline_def)
  have lines: "fg_lines c sd ?s (gg_queue g) (gg_line g)"
  proof -
    note L = fg_linesD [OF fg_invD(5) [OF inv]]
    have inl: "fg_inline c sd ?s u = fg_inline c sd s u" for u using at fol by (simp add: fg_inline_def E(3))
    have folf: "fg_fol c sd ?s = fg_fol c sd s" using fol by auto
    have "batch_line x (fg_tk ?s) (fg_fol c sd s) (gg_line g) = batch_line x (fg_tk s) (fg_fol c sd s) (gg_line g)" for x
      by (rule batch_line_cong) (use L(2) ninl at in \<open>auto simp: fg_tk_def E\<close>)
    moreover have "gR ?s u = (if u = t then 18 else gR s u)" "gT ?s u = gT s u" for u by (simp_all add: E(3))
    ultimately show ?thesis
      using fg_invD(5) [OF inv] at unfolding fg_lines_def E(1) folf D inl by auto
  qed
  have pet: "fg_pet c sd ?s" by (rule fg_pet_quiet [OF fg_invD(4) [OF inv] ph buf]) (simp_all add: E(1))
  show ?thesis
    unfolding E(4) fg_inv_def view using q own' adj' pet lines by blast
qed

text \<open>After dealing with its ticket a thread waits for its predecessor, when it has one.\<close>

lemma fg_await_rank:
  assumes inv: "fg_inv c sd s g" and R: "15 \<le> gR s t"
  shows "fg_await (g_thr s t) = (if gP s t \<noteq> None then GAwaitPred else GAwaitTicket)"
    and "gP s t = None \<Longrightarrow> t = hd (gg_queue g (sd t)) \<and> \<not> gF s t"
proof -
  have F: "gF s t \<Longrightarrow> gP s t \<noteq> None"
    using fg_invD(2) [OF inv, of t] R unfolding fg_own_def by (auto simp: fg_fol_def)
  then show "fg_await (g_thr s t) = (if gP s t \<noteq> None then GAwaitPred else GAwaitTicket)"
    by (auto simp: fg_await_def)
  show "gP s t = None \<Longrightarrow> t = hd (gg_queue g (sd t)) \<and> \<not> gF s t"
    using cohort_no_prev_head [OF fg_invD(1) [OF inv], of t] F R by auto
qed

lemma word_pred_less: "x - 1 < x" if "x \<noteq> 0" for x :: u64
proof -
  have "unat x \<noteq> 0" using that by (simp add: unsigned_eq_0_iff)
  then have x: "0 < unat x" by (rule neq0_conv [THEN iffD1])
  then have "1 \<le> x" by (simp add: word_le_nat_alt)
  then have "unat (x - 1) = unat x - unat (1 :: u64)" by (rule unat_sub)
  with x show ?thesis by (simp add: word_less_nat_alt)
qed

lemma fg_lines_pass:
  assumes l: "fg_lines c sd s Q l" and pet: "fg_pet c sd s"
    and R: "gR s t = 18" and q: "adj (Q (sd t)) t n" "sd n = sd t" "n \<noteq> t"
    and n: "3 \<le> gR s n" "gR s n \<le> 5" "\<not> fg_fol c sd s n" "gK s n = gT s t"
    and thr: "g_thr s' = (g_thr s)(t := (g_thr s t)\<lparr>gh_pc := pc\<rparr>)" and pc: "fg_rank pc = 25 \<or> fg_rank pc = 26"
    and K: "\<And>u. gK s' u = gK s u" and V: "\<And>u. gV s' u = gV s u"
    and fol: "\<And>u. fg_fol c sd s' u = (u = n \<or> fg_fol c sd s u)"
    and lock: "g_lock s' = g_lock s"
  shows "fg_lines c sd s' Q (l @ [n])"
proof -
  note L = fg_linesD [OF l]
  have tin: "t \<in> set l" using L(2) [of t] R by (simp add: fg_inline_def)
  have tl: "t = last l" using L(9) [of t] R by (simp add: fg_inline_def)
  have nin: "n \<notin> set l" using L(2) [of n] n by (simp add: fg_inline_def)
  have lne: "l \<noteq> []" using tin by auto
  have R': "gR s' u = (if u = t then fg_rank pc else gR s u)" "gT s' u = gT s u" for u by (simp_all add: thr)
  have phIn: "fg_ph c sd s t = In" using R by (intro fg_ph_In) simp
  have pending: "u = t" if "fg_inline c sd s u" "gR s u \<le> 18" for u
  proof (rule fg_exclusion [OF pet phIn])
    show "fg_ph c sd s u = In" using that by (intro fg_ph_In) (auto simp: fg_inline_def)
  qed
  have inl: "fg_inline c sd s' u \<longleftrightarrow> u = n \<or> fg_inline c sd s u" for u
    using R pc n(2) q(3) by (cases "u = t"; cases "u = n") (auto simp: fg_inline_def R' fol)
  have tk: "fg_tk s' u = fg_tk s u" if "u \<in> set (l @ [n])" for u
    using R pc by (auto simp: fg_tk_def R' K)
  have tl_n: "u \<noteq> n" if "u \<in> set (tl l)" for u using nin that by (cases l) auto
  have line: "batch_line x (fg_tk s') (fg_fol c sd s') l = batch_line x (fg_tk s) (fg_fol c sd s) l" for x
    by (rule batch_line_cong) (use tk fol tl_n in auto)
  have bend: "batch_end x (fg_fol c sd s') l = batch_end x (fg_fol c sd s) l" for x
    by (rule batch_end_cong) (use fol tl_n in auto)
  have tkn: "fg_tk s' n = fg_tk s' (last l)"
    unfolding tl [symmetric] using R pc n q(3) by (auto simp: fg_tk_def R' K)
  show ?thesis
    unfolding fg_lines_def lock inl V
  proof (intro conjI allI impI)
    show "batch_line (gl_current_ticket (g_lock s)) (fg_tk s') (fg_fol c sd s') (l @ [n])"
      by (rule batch_line_follow [OF _ lne]) (use L(3) line fol tkn in auto)
    show "gl_next_ticket (g_lock s) = batch_end (gl_current_ticket (g_lock s)) (fg_fol c sd s') (l @ [n])"
      using L(4) bend fol [of n] lne by (simp add: batch_end_follow)
    show "adj (Q (sd b)) a b" if ab: "adj (l @ [n]) a b \<and> fg_fol c sd s' b" for a b
    proof (cases "b = n")
      case True
      then have "a = t" using ab tl nin adj_setR [of l a b] by (auto simp: adj_snoc)
      then show ?thesis using True q by simp
    next
      case False
      then show ?thesis using ab L(5) [of a b] fol [of b] by (auto simp: adj_snoc)
    qed
    show "\<exists>b. adj (l @ [n]) a b \<and> fg_fol c sd s' b" if a: "25 \<le> gR s' a \<and> gR s' a \<le> 28 \<and> \<not> gV s a" for a
    proof (cases "a = t")
      case True
      then have "adj (l @ [n]) a n" using tl lne by (simp add: adj_snoc)
      then show ?thesis using fol by blast
    next
      case False
      then obtain b where "adj l a b" "fg_fol c sd s b" using L(6) [of a] a R' by auto
      then show ?thesis using fol [of b] by (auto simp: adj_snoc)
    qed
    show "u = hd (l @ [n])" if u: "gR s' u = 27 \<or> gR s' u = 28" for u
      using L(7) [of u] u R' [of u] pc lne by (cases "u = t") auto
    show "gT s' u = gl_next_ticket (g_lock s)" if "gR s' u = 14" for u
      using L(8) [of u] that R' [of u] pc by (cases "u = t") auto
    show "u = last (l @ [n])" if "(u = n \<or> fg_inline c sd s u) \<and> gR s' u \<le> 18" for u
    proof (rule ccontr)
      assume "u \<noteq> last (l @ [n])"
      then have "fg_inline c sd s u" using that by auto
      moreover have "gR s u \<le> 18" "u \<noteq> t" using that R'(1) [of u] R pc by (auto split: if_splits)
      ultimately show False using pending [of u] by blast
    qed
  qed (use L(1,2) nin in auto)
qed

lemma ginv_PassBudget:
  assumes inv: "fg_inv c sd s g" and b: "budgets_ok c" and at: "g_at s t = GPassBudget"
  shows "fg_inv c sd (fg_step c sd t s) (fg_gstep sd t s g)"
proof -
  note own = fg_invD(2) [OF inv, of t] and q = fg_invD(1) [OF inv]
  obtain n where n: "gN s t = Some n" using own at by (auto simp: fg_own_def)
  have R: "2 \<le> gR s t" "gR s t \<le> 22" "15 \<le> gR s t" by (simp_all add: at)
  have bb: "sd t = Remote \<longrightarrow> gh_buf_budget (g_thr s t) = gB s t - 1" "gB s t \<noteq> 1" "\<not> gV s t"
    using own at by (simp_all add: fg_own_def)
  note N = fg_behind [OF inv n R(1,2)] and E = geff_PassBudget [where sd = sd, OF at n bb(1)]
  note W = fg_await_rank [OF inv R(3)]
  let ?s = "fg_step c sd t s" and ?pc = "fg_await (g_thr s t)"
  have pc: "fg_rank ?pc = 25 \<or> fg_rank ?pc = 26" "fg_phase ?pc = Out" "?pc \<noteq> GPetReadB" unfolding W(1) by auto
  have B: "gB s t \<noteq> 0" "gB s t \<le> kInitBudget c (sd t)" by (rule fg_budget [OF inv b]; simp add: at)+
  have pred: "gB s t - 1 \<noteq> -1" "gB s t - 1 \<noteq> 0" "gB s t - 1 < kInitBudget c (sd t)"
    using B bb(2) less_le_trans [OF word_pred_less [OF B(1)] B(2)] by auto
  have D: "gV ?s u = gV s u" "gK ?s u = gK s u" "gN ?s u = gN s u" "gB ?s u = (if u = n then gB s t - 1 else gB s u)" for u
    by (simp_all add: E)
  have thr: "g_thr ?s u = g_thr s u" if "u \<noteq> t" for u using that by (simp add: E)
  have Kn: "gK s n = gT s t" using fg_invD(3) [OF inv N(1)] at by (simp add: fg_adj_def)
  have fol: "fg_fol c sd ?s u = (u = n \<or> fg_fol c sd s u)" for u
    using at pc(1) pred N(2,3,6,7) by (cases "u = t"; cases "u = n") (auto simp: fg_fol_def E)
  have own': "fg_own c sd ?s u" for u
  proof (cases "u = t")
    case True
    then show ?thesis using own at N(6) pc(1) W(2) unfolding fg_own_def fol D W(1) by (auto simp: E(3) W(1))
  next
    case ut: False
    show ?thesis
    proof (cases "u = n")
      case True
      have "gP s n \<noteq> None" using cohort_prev [OF q N(1)] by simp
      then show ?thesis
        using True fg_invD(2) [OF inv, of n] N(2,3,7) pred unfolding fg_own_def fol D thr [OF ut] by auto
    next
      case False
      then show ?thesis
        using fg_invD(2) [OF inv, of u] unfolding fg_own_def fol D thr [OF ut] by auto
    qed
  qed
  have adj': "fg_adj c sd ?s a b" if "adj (gg_queue g d) a b" for d a b
  proof (cases "a = t")
    case True
    then have "b = n" using fg_neighbours(7) [OF inv N(1)] that by blast
    then show ?thesis
      using True fg_invD(3) [OF inv that] N(6) N(8) pc(1) bb(3) at unfolding fg_adj_def fg_active_def fol D by (auto simp: E(3))
  next
    case False
    then have "b \<noteq> n" using fg_neighbours(6) [OF inv N(1)] that by blast
    then show ?thesis
      using False fg_invD(3) [OF inv that] at pc(1) unfolding fg_adj_def fg_active_def fol D
      by (cases "b = t") (auto simp: E(3))
  qed
  have view: "fg_view ?s = (fg_view s)\<lparr>cv_stage := (cv_stage (fg_view s))(t := fg_stage (fg_rank ?pc))\<rparr>"
    by (auto simp: fg_view_def E fun_eq_iff)
  have "cohort_ok sd (fg_view ?s) (gg_queue g)"
    unfolding view by (rule cohort_move [OF q]) (use at pc(1) W in \<open>auto simp: fg_stage_def split: if_splits\<close>)
  moreover have "fg_pet c sd ?s"
  proof -
    have "fg_ph c sd s t = In" "fg_buf s t = 0" "fg_buf s n = 0"
      using at N(3) by (auto intro!: fg_ph_In simp: fg_buf_def)
    moreover have "fg_ph c sd ?s u = ((fg_ph c sd s)(t := Out, n := In)) u" for u
      using pc N(2,3,6) fol [of u] by (cases "u = t"; cases "u = n") (auto simp: fg_ph_def E(3))
    then have "fg_ph c sd ?s = (fg_ph c sd s)(t := Out, n := In)" by auto
    moreover have "fg_buf ?s u = fg_buf s u" for u using at pc(3) by (simp add: fg_buf_def E(3))
    then have "fg_buf ?s = (fg_buf s)(n := fg_buf s t)" using calculation(2,3) by auto
    ultimately show ?thesis
      using pet_transfer [OF fg_invD(4) [OF inv, unfolded fg_pet_def], of t n] N(6,7)
      unfolding fg_pet_def E(1) by simp
  qed
  moreover have "fg_lines c sd ?s (gg_queue g) (gg_line g @ [n])"
    by (rule fg_lines_pass [OF fg_invD(5,4) [OF inv] _ N(1,7,6,2,3,5) Kn E(3) pc(1)])
       (use D fol E(1) at in simp_all)
  ultimately show ?thesis
    unfolding E(4) fg_inv_def by (auto simp: own' intro: adj')
qed

end
