(* ===== verification/FARLockGUnlock.thy ===== *)
theory FARLockGUnlock
  imports FARLockGTicket
begin

text \<open>
  The remaining steps of FARLockG keep the invariant: ending a batch, entering the critical section and
  \<^verbatim>\<open>Unlock\<close>.
\<close>

section \<open>Ending a batch\<close>

lemma ginv_PetUnlock_frame:
  assumes inv: "fg_inv c sd s g" and at: "g_at s t = GPetUnlock1 \<and> pc = GSetValid1 \<or> g_at s t = GPetUnlock \<and> pc = GSetValid"
    and E: "g_lock s' = (if sd t = Local then (g_lock s)\<lparr>gl_local_flag := kFalse\<rparr> else (g_lock s)\<lparr>gl_remote_flag := kFalse\<rparr>)"
      "g_desc s' = g_desc s" "g_thr s' = (g_thr s)(t := (g_thr s t)\<lparr>gh_pc := pc\<rparr>)"
  shows "fg_inv c sd s' g"
proof -
  note own = fg_invD(2) [OF inv, of t] and pet = fg_invD(4) [OF inv]
  have R: "19 \<le> gR s t" "gR s t \<le> 20" "21 \<le> fg_rank pc" "fg_rank pc \<le> 22" "fg_phase pc = Out" "fg_phase (g_at s t) = In"
    "gR s t = 19 \<longleftrightarrow> fg_rank pc = 21"
    using at by auto
  have fol: "fg_fol c sd s' t = fg_fol c sd s t" using R by (simp add: fg_fol_def E)
  have own': "fg_own c sd s' t" using own R unfolding fg_own_def fol by (auto simp: E)
  have part: "fg_ph c sd s t \<noteq> Out" using R by (simp add: fg_ph_def)
  show ?thesis
  proof (rule fg_inv_handler [OF inv refl refl _ E(2,3) _ _ _ _ _ _ own'])
    show "fg_adj c sd s' a t" if "adj (gg_queue g d) a t" "fg_adj c sd s a t" for d a
      using that(2) fg_neighbours(1) [OF inv that(1)] R fol by (auto simp: fg_adj_def fg_active_def E)
    show "fg_adj c sd s' t b" if "adj (gg_queue g d) t b" "fg_adj c sd s t b" for d b
      using that(2) fg_neighbours(1) [OF inv that(1)] R fg_fol_cong [of s' b s c sd]
      by (auto simp: fg_adj_def fg_active_def E)
    show "fg_lines c sd s' (gg_queue g) (gg_line g)"
      by (rule fg_lines_quiet [OF fg_invD(5) [OF inv], where t = t])
         (use R fol in \<open>auto simp: E fg_inline_def fg_tk_def\<close>)
    show "fg_pet c sd s'"
    proof (cases "sd t")
      case Local
      show ?thesis
        by (rule fg_pet_local [OF pet Local E(3,2)]) (use Local R part in \<open>auto simp: E(1) intro: core_out_local\<close>)
    next
      case Remote
      show ?thesis
        by (rule fg_pet_remote [OF pet Remote E(3,2)])
           (use Remote R part in \<open>auto simp: E(1) intro: core_buf [OF core_out_remote]\<close>)
    qed
  qed (use R in \<open>simp_all add: E(1)\<close>)
qed

lemma ginv_PetUnlock:
  assumes inv: "fg_inv c sd s g" and at: "g_at s t = GPetUnlock1 \<or> g_at s t = GPetUnlock"
  shows "fg_inv c sd (fg_step c sd t s) (fg_gstep sd t s g)"
  using at
proof
  assume "g_at s t = GPetUnlock1"
  then show ?thesis
    unfolding geff_PetUnlock1(4) [OF \<open>g_at s t = GPetUnlock1\<close>]
    by (intro ginv_PetUnlock_frame [OF inv _ geff_PetUnlock1(1-3)]) simp_all
next
  assume "g_at s t = GPetUnlock"
  then show ?thesis
    unfolding geff_PetUnlock(4) [OF \<open>g_at s t = GPetUnlock\<close>]
    by (intro ginv_PetUnlock_frame [OF inv _ geff_PetUnlock(1-3)]) simp_all
qed

lemma ginv_SetValid_frame:
  assumes inv: "fg_inv c sd s g" and at: "g_at s t = GSetValid1 \<and> pc = GSignal \<or> g_at s t = GSetValid \<and> pc = GReloadNext"
    and E: "g_lock s' = g_lock s" "g_desc s' = (g_desc s)(t := (g_desc s t)\<lparr>gd_ticket_valid := kTrue\<rparr>)"
      "g_thr s' = (g_thr s)(t := (g_thr s t)\<lparr>gh_pc := pc\<rparr>)"
  shows "fg_inv c sd s' g"
proof -
  note own = fg_invD(2) [OF inv, of t] and q = fg_invD(1) [OF inv]
  have R: "21 \<le> gR s t" "gR s t \<le> 22" "23 \<le> fg_rank pc" "fg_rank pc \<le> 24" "fg_phase pc = Out"
    "fg_phase (g_at s t) = Out" "gR s t = 21 \<longleftrightarrow> fg_rank pc = 24" "pc \<noteq> GPetReadB" "g_at s t \<noteq> GPetReadB"
    using at by auto
  have fol: "fg_fol c sd s' t = fg_fol c sd s t" using R by (simp add: fg_fol_def E)
  have own': "fg_own c sd s' t" using own R unfolding fg_own_def fol by (auto simp: E)
  have view: "fg_view s' = fg_view s" using R by (auto simp: fg_view_def E fun_eq_iff fg_stage_def)
  have ph: "fg_ph c sd s' t = fg_ph c sd s t" "fg_buf s' t = fg_buf s t"
    using R by (simp_all add: fg_ph_def fg_buf_def E)
  have adjL: "fg_adj c sd s' a t" if "adj (gg_queue g d) a t" for d a
    using fg_invD(3) [OF inv that] fg_neighbours(1) [OF inv that] R fol by (auto simp: fg_adj_def fg_active_def E)
  have adjR: "fg_adj c sd s' t b" if "adj (gg_queue g d) t b" for d b
    using fg_invD(3) [OF inv that] fg_neighbours(1) [OF inv that] R fg_fol_cong [of s' b s c sd]
    by (auto simp: fg_adj_def fg_active_def E)
  show ?thesis
  proof (rule fg_inv_move [OF inv, where t = t])
    show "cohort_ok sd (fg_view s') (gg_queue g)" unfolding view by (rule q)
    show "fg_pet c sd s'"
      by (rule fg_pet_quiet [OF fg_invD(4) [OF inv]]) (simp_all add: fg_low_quiet [OF _ _ ph] E)
    show "fg_lines c sd s' (gg_queue g) (gg_line g)"
      by (rule fg_lines_quiet [OF fg_invD(5) [OF inv], where t = t])
         (use fol R in \<open>auto simp: E fg_tk_def fg_inline_def\<close>)
    show "adj (gg_queue g d) a b \<and> a \<noteq> t \<and> b \<noteq> t \<or> fg_adj c sd s' a b" if "adj (gg_queue g d) a b" for d a b
      using that adjL adjR by (cases "a = t"; cases "b = t") auto
  qed (use own' in \<open>simp_all add: E\<close>)
qed

lemma ginv_SetValid:
  assumes inv: "fg_inv c sd s g" and at: "g_at s t = GSetValid1 \<or> g_at s t = GSetValid"
  shows "fg_inv c sd (fg_step c sd t s) (fg_gstep sd t s g)"
  using at
proof
  assume "g_at s t = GSetValid1"
  then show ?thesis
    unfolding geff_SetValid1(4) [OF \<open>g_at s t = GSetValid1\<close>]
    by (intro ginv_SetValid_frame [OF inv _ geff_SetValid1(1-3)]) simp_all
next
  assume "g_at s t = GSetValid"
  then show ?thesis
    unfolding geff_SetValid(4) [OF \<open>g_at s t = GSetValid\<close>]
    by (intro ginv_SetValid_frame [OF inv _ geff_SetValid(1-3)]) simp_all
qed

text \<open>A step of a thread that is done with its successor, and writes nothing.\<close>

lemma ginv_done_frame:
  assumes inv: "fg_inv c sd s g" and R: "23 \<le> gR s t" "gR s t \<le> 26"
    and E: "g_lock s' = g_lock s" "g_desc s' = g_desc s" "g_thr s' = (g_thr s)(t := (g_thr s t)\<lparr>gh_pc := pc\<rparr>)"
    and R': "24 \<le> fg_rank pc" "fg_rank pc \<le> 28"
    and mono: "gR s t \<le> 24 \<or> 25 \<le> fg_rank pc"
    and own': "fg_own c sd s' t"
    and hd: "26 \<le> fg_rank pc \<Longrightarrow> t = hd (gg_queue g (sd t))"
    and line: "27 \<le> fg_rank pc \<Longrightarrow> t = hd (gg_line g)"
  shows "fg_inv c sd s' g"
proof -
  have fol: "fg_fol c sd s' t = fg_fol c sd s t" using R R' by (simp add: fg_fol_def E)
  have nb: "pc \<noteq> GPetReadB" "g_at s t \<noteq> GPetReadB" using R R' by auto
  have "gR s t = 23 \<or> gR s t = 24" if "gR s t \<le> 24" using R(1) that by auto
  then have V: "gR s t \<le> 24 \<Longrightarrow> gV s t" using fg_invD(2) [OF inv, of t] unfolding fg_own_def by blast
  then have nV: "25 \<le> gR s t" if "\<not> gV s t" using that by (cases "gR s t \<le> 24") auto
  show ?thesis
  proof (rule fg_inv_local [OF inv E(1-3) _ _ _ hd _ _ own'])
    show "fg_adj c sd s' a t" if "adj (gg_queue g d) a t" "fg_adj c sd s a t" for d a
      using that(2) fg_neighbours(1) [OF inv that(1)] R R' fol by (auto simp: fg_adj_def fg_active_def E)
    show "fg_adj c sd s' t b" if "adj (gg_queue g d) t b" "fg_adj c sd s t b" for d b
      using that(2) fg_neighbours(1) [OF inv that(1)] R R' mono V fg_fol_cong [of s' b s c sd]
      by (auto simp: fg_adj_def fg_active_def E)
    show "fg_lines c sd s' (gg_queue g) (gg_line g)"
      by (rule fg_lines_quiet [OF fg_invD(5) [OF inv], where t = t])
         (use R R' fol nV line in \<open>auto simp: E fg_inline_def fg_tk_def\<close>)
    show "fg_ph c sd s' t = fg_ph c sd s t"
      using fg_ph_Out [of s t c sd] fg_ph_Out [of s' t c sd] R R' by (simp add: E)
    show "fg_buf s' t = fg_buf s t" using nb by (simp add: fg_buf_def E)
  qed (use R R' in simp_all)
qed

lemma ginv_ReloadNext:
  assumes inv: "fg_inv c sd s g" and at: "g_at s t = GReloadNext"
  shows "fg_inv c sd (fg_step c sd t s) (fg_gstep sd t s g)"
proof -
  note E = geff_ReloadNext [OF at] and own = fg_invD(2) [OF inv, of t]
  have R: "15 \<le> gR s t" by (simp add: at)
  note W = fg_await_rank [OF inv R]
  have fol: "fg_fol c sd (fg_step c sd t s) t = fg_fol c sd s t" using at W(1) by (simp add: fg_fol_def E)
  have own': "fg_own c sd (fg_step c sd t s) t"
    using own at W unfolding fg_own_def fol by (auto simp: E)
  show ?thesis
    unfolding E(4)
    by (rule ginv_done_frame [OF inv _ _ E(1-3) _ _ _ own']) (use at W in \<open>auto split: if_splits\<close>)
qed

lemma ginv_Signal:
  assumes inv: "fg_inv c sd s g" and at: "g_at s t = GSignal"
  shows "fg_inv c sd (fg_step c sd t s) (fg_gstep sd t s g)"
proof -
  note own = fg_invD(2) [OF inv, of t] and q = fg_invD(1) [OF inv]
  obtain n where n: "gN s t = Some n" using own at by (auto simp: fg_own_def)
  have V: "gV s t" using own at by (simp add: fg_own_def)
  have R: "15 \<le> gR s t" by (simp add: at)
  have N: "adj (gg_queue g (sd t)) t n" "3 \<le> gR s n" using cohort_next [OF q, of t n] n at by simp_all
  note N = N fg_neighbours(1,3) [OF inv N(1)]
  note E = geff_Signal [OF at n] and W = fg_await_rank [OF inv R]
  let ?s = "fg_step c sd t s" and ?pc = "fg_await (g_thr s t)" and ?b = "kInitBudget c (sd t)"
  have pc: "fg_rank ?pc = 25 \<or> fg_rank ?pc = 26" "fg_phase ?pc = Out" "?pc \<noteq> GPetReadB" unfolding W(1) by auto
  have nofol: "\<not> fg_fol c sd s n" using fg_invD(3) [OF inv N(1)] V by (auto simp: fg_adj_def)
  have D: "gV ?s u = gV s u" "gK ?s u = gK s u" "gN ?s u = gN s u" "gB ?s u = (if u = n then ?b else gB s u)" for u
    by (simp_all add: E)
  have thr: "g_thr ?s u = g_thr s u" if "u \<noteq> t" for u using that by (simp add: E)
  have fol: "fg_fol c sd ?s u = fg_fol c sd s u" for u
    using at pc(1) N(3,4) nofol by (cases "u = t"; cases "u = n") (auto simp: fg_fol_def E)
  have same: "gB s n = ?b" if "9 \<le> gR s n"
    using fg_invD(2) [OF inv, of n] nofol that N(4) unfolding fg_own_def by (simp add: fg_fol_def)
  have own': "fg_own c sd ?s u" for u
  proof (cases "u = t")
    case True
    then show ?thesis using own at N(3) pc(1) W unfolding fg_own_def fol D by (auto simp: E(3))
  next
    case ut: False
    show ?thesis
    proof (cases "u = n")
      case True
      then show ?thesis
        using fg_invD(2) [OF inv, of n] N(2,4) nofol same kInitBudget_bounds(2) [of c "sd t"]
        unfolding fg_own_def fol D thr [OF ut] by (cases "9 \<le> gR s n") auto
    next
      case False
      then show ?thesis using fg_invD(2) [OF inv, of u] unfolding fg_own_def fol D thr [OF ut] by simp
    qed
  qed
  have adj': "fg_adj c sd ?s a b" if "adj (gg_queue g d) a b" for d a b
  proof (cases "a = t")
    case True
    then have "b = n" using fg_neighbours(7) [OF inv N(1)] that by blast
    then show ?thesis
      using True fg_invD(3) [OF inv that] N(3) nofol V pc(1) at unfolding fg_adj_def fg_active_def fol D by (auto simp: E(3))
  next
    case False
    then have "b \<noteq> n" using fg_neighbours(6) [OF inv N(1)] that by blast
    then show ?thesis
      using False fg_invD(3) [OF inv that] at pc(1) unfolding fg_adj_def fg_active_def fol D
      by (cases "b = t") (auto simp: E(3))
  qed
  have view: "fg_view ?s = (fg_view s)\<lparr>cv_stage := (cv_stage (fg_view s))(t := fg_stage (fg_rank ?pc))\<rparr>"
    by (auto simp: fg_view_def E fun_eq_iff)
  have "cohort_ok sd (fg_view ?s) (gg_queue g)"
    unfolding view by (rule cohort_move [OF q]) (use at pc(1) W in \<open>auto simp: fg_stage_def split: if_splits\<close>)
  moreover have "fg_pet c sd ?s"
  proof (rule fg_pet_quiet [OF fg_invD(4) [OF inv]])
    show "fg_ph c sd ?s u = fg_ph c sd s u" for u
      using pc at fol [of u] by (cases "u = t") (auto simp: fg_ph_def E(3))
    show "fg_buf ?s u = fg_buf s u" for u using at pc(3) by (simp add: fg_buf_def E(3))
  qed (simp_all add: E(1))
  moreover have "fg_lines c sd ?s (gg_queue g) (gg_line g)"
  proof -
    have folf: "fg_fol c sd ?s = fg_fol c sd s" using fol by auto
    have R': "gR ?s u = (if u = t then fg_rank ?pc else gR s u)" "gT ?s u = gT s u" for u by (simp_all add: E(3))
    have inl: "fg_inline c sd ?s u = fg_inline c sd s u" for u
      using at pc(1) by (cases "u = t") (auto simp: fg_inline_def R' folf)
    have "fg_tk ?s u = fg_tk s u" for u using at pc(1) by (cases "u = t") (auto simp: fg_tk_def R' D)
    then have tk: "fg_tk ?s = fg_tk s" by (rule ext)
    note L = fg_linesD [OF fg_invD(5) [OF inv]]
    show ?thesis
      unfolding fg_lines_def E(1) folf tk inl D
    proof (intro conjI allI impI)
      show "\<exists>b. adj (gg_line g) a b \<and> fg_fol c sd s b" if "25 \<le> gR ?s a \<and> gR ?s a \<le> 28 \<and> \<not> gV s a" for a
        using L(6) [of a] that V R'(1) [of a] by (cases "a = t") auto
      show "u = hd (gg_line g)" if "gR ?s u = 27 \<or> gR ?s u = 28" for u
        using L(7) [of u] that pc(1) R'(1) [of u] by (cases "u = t") auto
      show "gT ?s u = gl_next_ticket (g_lock s)" if "gR ?s u = 14" for u
        using L(8) [of u] that pc(1) R' [of u] by (cases "u = t") auto
      show "u = last (gg_line g)" if "fg_inline c sd s u \<and> gR ?s u \<le> 18" for u
        using L(9) [of u] that pc(1) R'(1) [of u] by (cases "u = t") auto
    qed (use L(1-5) in blast)+
  qed
  ultimately show ?thesis
    unfolding E(4) fg_inv_def by (auto simp: own' intro: adj')
qed

section \<open>Entering the critical section\<close>

text \<open>A follower that has been granted the lock is first in line: only its predecessor was ahead of it.\<close>

lemma fg_follower_first:
  assumes inv: "fg_inv c sd s g" and t: "fg_inline c sd s t" and fol: "fg_fol c sd s t"
    and hd: "t = hd (gg_queue g (sd t))"
  shows "t = hd (gg_line g)"
proof (rule ccontr)
  note L = fg_linesD [OF fg_invD(5) [OF inv]]
  assume "t \<noteq> hd (gg_line g)"
  then obtain a where "adj (gg_line g) a t" using adj_ex_left [of t "gg_line g"] L(2) [of t] t by blast
  then have "adj (gg_queue g (sd t)) a t" using L(5) fol by blast
  then show False using adj_not_hd [OF cohort_distinct [OF fg_invD(1) [OF inv]]] hd by metis
qed

lemma fg_served_first:
  assumes inv: "fg_inv c sd s g" and t: "15 \<le> gR s t" "gR s t \<le> 28" and F: "\<not> gF s t"
    and cur: "gT s t = gl_current_ticket (g_lock s)"
  shows "t = hd (gg_line g)"
proof -
  note L = fg_linesD [OF fg_invD(5) [OF inv]]
  show ?thesis
    by (rule batch_line_head [OF L(3) L(1)])
       (use L(2) [of t] t F cur in \<open>auto simp: fg_inline_def fg_fol_def fg_tk_def\<close>)
qed

lemma ginv_AwaitPred:
  assumes inv: "fg_inv c sd s g" and at: "g_at s t = GAwaitPred" and gr: "gd_granted (g_desc s t) = kTrue"
  shows "fg_inv c sd (fg_step c sd t s) (fg_gstep sd t s g)"
proof -
  note E = geff_AwaitPred [OF at gr] and own = fg_invD(2) [OF inv, of t]
  have hd: "t = hd (gg_queue g (sd t))" using cohort_granted_head [OF fg_invD(1) [OF inv], of t] at gr by simp
  have first: "t = hd (gg_line g)" if "gF s t"
    by (rule fg_follower_first [OF inv _ _ hd]) (use at that in \<open>simp_all add: fg_inline_def fg_fol_def\<close>)
  have fol: "fg_fol c sd (fg_step c sd t s) t = fg_fol c sd s t" using at by (simp add: fg_fol_def E)
  have own': "fg_own c sd (fg_step c sd t s) t" using own at unfolding fg_own_def fol by (simp add: E)
  show ?thesis
    unfolding E(4)
    by (rule ginv_done_frame [OF inv _ _ E(1-3) _ _ _ own']) (use at hd first in \<open>auto split: if_splits\<close>)
qed

lemma ginv_AwaitTicket:
  assumes inv: "fg_inv c sd s g" and at: "g_at s t = GAwaitTicket"
    and cur: "gT s t = gl_current_ticket (g_lock s)"
  shows "fg_inv c sd (fg_step c sd t s) (fg_gstep sd t s g)"
proof -
  note E = geff_AwaitTicket [OF at cur] and own = fg_invD(2) [OF inv, of t]
  have hd: "t = hd (gg_queue g (sd t))" using cohort_head [OF fg_invD(1) [OF inv], of t] at by simp
  have F: "\<not> gF s t" using own at by (simp add: fg_own_def)
  have first: "t = hd (gg_line g)" by (rule fg_served_first [OF inv _ _ F cur]) (simp_all add: at)
  have fol: "fg_fol c sd (fg_step c sd t s) t = fg_fol c sd s t" using at by (simp add: fg_fol_def E)
  have "\<not> fg_fol c sd s t" using F at by (simp add: fg_fol_def)
  then have own': "fg_own c sd (fg_step c sd t s) t" using own at F unfolding fg_own_def fol by (simp add: E)
  show ?thesis
    unfolding E(4) by (rule ginv_done_frame [OF inv _ _ E(1-3) _ _ _ own' hd first]) (simp_all add: at)
qed

lemma ginv_StoreTicket:
  assumes inv: "fg_inv c sd s g" and at: "g_at s t = GStoreTicket"
  shows "fg_inv c sd (fg_step c sd t s) (fg_gstep sd t s g)"
proof -
  note E = geff_StoreTicket [OF at] and q = fg_invD(1) [OF inv] and own = fg_invD(2) [OF inv, of t]
  let ?s = "fg_step c sd t s"
  have fol: "fg_fol c sd ?s t = fg_fol c sd s t" using at by (simp add: fg_fol_def E)
  have F: "\<not> gF s t" "\<not> fg_fol c sd s t" using own at by (simp_all add: fg_own_def fg_fol_def)
  then have own': "fg_own c sd ?s t" using own at unfolding fg_own_def fol by (simp add: E)
  have first: "t = hd (gg_line g)" using fg_linesD(7) [OF fg_invD(5) [OF inv], of t] at by simp
  have view: "fg_view ?s = fg_view s" using at by (auto simp: fg_view_def E fun_eq_iff fg_stage_def)
  have ph: "fg_ph c sd ?s t = fg_ph c sd s t" "fg_buf ?s t = fg_buf s t"
    using at by (simp_all add: fg_ph_def fg_buf_def E)
  have adjL: "fg_adj c sd ?s a t" if "adj (gg_queue g d) a t" for d a
    using fg_invD(3) [OF inv that] fg_neighbours(1) [OF inv that] at fol by (auto simp: fg_adj_def fg_active_def E)
  have adjR: "fg_adj c sd ?s t b" if "adj (gg_queue g d) t b" for d b
    using fg_invD(3) [OF inv that] fg_neighbours(1) [OF inv that] at fg_fol_cong [of ?s b s c sd]
    by (auto simp: fg_adj_def fg_active_def E)
  show ?thesis
    unfolding E(4)
  proof (rule fg_inv_move [OF inv, where t = t])
    show "cohort_ok sd (fg_view ?s) (gg_queue g)" unfolding view by (rule q)
    show "fg_pet c sd ?s"
      by (rule fg_pet_quiet [OF fg_invD(4) [OF inv]]) (simp_all add: fg_low_quiet [OF _ _ ph] E)
    show "fg_lines c sd ?s (gg_queue g) (gg_line g)"
      by (rule fg_lines_quiet [OF fg_invD(5) [OF inv], where t = t])
         (use fol at first [symmetric] in \<open>simp_all add: E fg_tk_def fg_inline_def\<close>)
    show "adj (gg_queue g d) a b \<and> a \<noteq> t \<and> b \<noteq> t \<or> fg_adj c sd ?s a b" if "adj (gg_queue g d) a b" for d a b
      using that adjL adjR by (cases "a = t"; cases "b = t") auto
  qed (use own' in \<open>simp_all add: E\<close>)
qed

section \<open>Unlock\<close>

text \<open>
  The first thread leaves the line.  If it ends its batch the next ticket is served; otherwise its
  follower comes next, with the same ticket.
\<close>

lemma fg_lines_leave:
  assumes inv: "fg_inv c sd s g" and R: "gR s t = 28"
    and desc: "g_desc s' = g_desc s" and thr: "g_thr s' = (g_thr s)(t := (g_thr s t)\<lparr>gh_pc := pc\<rparr>)"
    and pc: "fg_rank pc = 29"
    and cur: "gl_current_ticket (g_lock s') = (if gV s t then gK s t + 1 else gl_current_ticket (g_lock s))"
    and nxt: "gl_next_ticket (g_lock s') = gl_next_ticket (g_lock s)"
  shows "fg_lines c sd s' (gg_queue g) (tl (gg_line g))"
proof -
  note L = fg_linesD [OF fg_invD(5) [OF inv]]
  let ?l = "gg_line g" and ?c = "gl_current_ticket (g_lock s)" and ?f = "fg_fol c sd s"
  have tin: "t \<in> set ?l" and hd: "t = hd ?l" using L(2) [of t] L(7) [of t] R by (auto simp: fg_inline_def)
  have lne: "?l \<noteq> []" using tin by auto
  have K: "gK s t = ?c"
    using fg_invD(2) [OF inv, of t] batch_line_hd [OF L(3) lne] R by (simp add: fg_own_def fg_tk_def hd)
  have cur': "gl_current_ticket (g_lock s') = (if tl ?l \<noteq> [] \<and> ?f (hd (tl ?l)) then ?c else ?c + 1)"
  proof (cases "gV s t")
    case True
    have "\<not> (tl ?l \<noteq> [] \<and> ?f (hd (tl ?l)))"
    proof
      assume f: "tl ?l \<noteq> [] \<and> ?f (hd (tl ?l))"
      then have "adj ?l t (hd (tl ?l))" using hd lne by (cases ?l) (auto simp: adj_Cons)
      then have "adj (gg_queue g (sd (hd (tl ?l)))) t (hd (tl ?l))" using L(5) f by blast
      then show False using fg_invD(3) [OF inv] f True by (simp add: fg_adj_def)
    qed
    then show ?thesis using cur True K by auto
  next
    case False
    then obtain b where b: "adj ?l t b" "?f b" using L(6) [of t] R by auto
    obtain ys where ys: "?l = t # ys" using hd lne by (cases ?l) auto
    then have "\<not> adj ys t b" using L(1) adj_setL [of ys t b] by auto
    then have "tl ?l \<noteq> [] \<and> hd (tl ?l) = b" using b(1) unfolding ys by (simp add: adj_Cons)
    then show ?thesis using cur False b(2) by simp
  qed
  have other: "g_thr s' u = g_thr s u" if "u \<noteq> t" for u using thr that by simp
  have R': "gR s' u = (if u = t then 29 else gR s u)" "gT s' u = gT s u" for u using thr pc by simp_all
  have fol: "fg_fol c sd s' = ?f" using R pc thr desc by (auto simp: fg_fol_def fun_eq_iff)
  have tk: "fg_tk s' = fg_tk s" using R pc thr desc by (auto simp: fg_tk_def fun_eq_iff)
  have inl: "fg_inline c sd s' u \<longleftrightarrow> fg_inline c sd s u \<and> u \<noteq> t" for u
    using R by (auto simp: fg_inline_def R' fol)
  show ?thesis
    unfolding fg_lines_def cur' nxt fol tk inl desc
  proof (intro conjI allI impI)
    show "distinct (tl ?l)" using L(1) by (rule distinct_tl)
    show "u \<in> set (tl ?l) \<longleftrightarrow> fg_inline c sd s u \<and> u \<noteq> t" for u
      using tl_line [OF L(1), of u] L(2) [of u] hd by simp
    show "batch_line (if tl ?l \<noteq> [] \<and> ?f (hd (tl ?l)) then ?c else ?c + 1) (fg_tk s) ?f (tl ?l)"
      by (rule batch_line_tl [OF L(3) lne])
    show "gl_next_ticket (g_lock s) = batch_end (if tl ?l \<noteq> [] \<and> ?f (hd (tl ?l)) then ?c else ?c + 1) ?f (tl ?l)"
      unfolding batch_end_tl [OF lne] by (rule L(4))
    show "adj (gg_queue g (sd b)) a b" if "adj (tl ?l) a b \<and> ?f b" for a b
      using L(5) [of a b] adj_tl [OF L(1), of a b] that by blast
    show "\<exists>b. adj (tl ?l) a b \<and> ?f b" if "25 \<le> gR s' a \<and> gR s' a \<le> 28 \<and> \<not> gV s a" for a
      using L(6) [of a] adj_tl [OF L(1), of a] that R'(1) [of a] hd by (cases "a = t") auto
    show "u = hd (tl ?l)" if "gR s' u = 27 \<or> gR s' u = 28" for u
      using L(7) [of u] that R'(1) [of u] hd by (cases "u = t") auto
    show "gT s' u = gl_next_ticket (g_lock s)" if "gR s' u = 14" for u
      using L(8) [of u] that R' [of u] by (cases "u = t") auto
    show "u = last (tl ?l)" if u: "(fg_inline c sd s u \<and> u \<noteq> t) \<and> gR s' u \<le> 18" for u
    proof -
      have "u = last ?l" using L(9) [of u] u other [of u] by auto
      moreover have "tl ?l \<noteq> []" using tl_line [OF L(1), of u] L(2) [of u] hd u by auto
      ultimately show ?thesis by (simp add: last_tl)
    qed
  qed
qed

lemma ginv_Critical:
  assumes inv: "fg_inv c sd s g" and at: "g_at s t = GCritical"
  shows "fg_inv c sd (fg_step c sd t s) (fg_gstep sd t s g)"
proof -
  note E = geff_Critical [OF at] and own = fg_invD(2) [OF inv, of t]
  let ?s = "fg_step c sd t s"
  have hd: "t = hd (gg_queue g (sd t))" using cohort_head [OF fg_invD(1) [OF inv], of t] at by simp
  have fol: "fg_fol c sd ?s t = fg_fol c sd s t" using at by (simp add: fg_fol_def E)
  have own': "fg_own c sd ?s t" using own at unfolding fg_own_def fol by (simp add: E)
  show ?thesis
  proof (rule fg_inv_handler [OF inv _ _ _ E(2,3) _ _ _ _ _ _ own'])
    show "fg_adj c sd ?s a t" if "adj (gg_queue g d) a t" "fg_adj c sd s a t" for d a
      using that(2) fg_neighbours(1) [OF inv that(1)] at fol by (auto simp: fg_adj_def fg_active_def E)
    show "fg_adj c sd ?s t b" if "adj (gg_queue g d) t b" "fg_adj c sd s t b" for d b
      using that(2) fg_neighbours(1) [OF inv that(1)] at fg_fol_cong [of ?s b s c sd]
      by (auto simp: fg_adj_def fg_active_def E)
    show "fg_lines c sd ?s (gg_queue g) (tl (gg_line g))"
      by (rule fg_lines_leave [OF inv _ E(2,3)]) (simp_all add: at E(1))
    show "fg_pet c sd ?s"
    proof (rule fg_pet_quiet [OF fg_invD(4) [OF inv]])
      show "fg_ph c sd ?s u = fg_ph c sd s u" for u
        using at fg_fol_cong [of ?s u s c sd] by (cases "u = t") (auto simp: fg_ph_def E(2,3))
      show "fg_buf ?s u = fg_buf s u" for u using at by (simp add: fg_buf_def E(3))
    qed (simp_all add: E(1))
  qed (use at hd in \<open>simp_all add: E(1,4)\<close>)
qed

text \<open>Between the critical section and leaving the queue.\<close>

lemma ginv_release_frame:
  assumes inv: "fg_inv c sd s g" and R: "29 \<le> gR s t" "gR s t \<le> 31"
    and E: "g_lock s' = g_lock s" "g_desc s' = g_desc s" "g_thr s' = (g_thr s)(t := (g_thr s t)\<lparr>gh_pc := pc\<rparr>)"
    and R': "29 \<le> fg_rank pc" "fg_rank pc \<le> 32"
    and last: "31 \<le> fg_rank pc \<Longrightarrow> t \<noteq> last (gg_queue g (sd t))"
    and rel: "32 \<le> fg_rank pc \<Longrightarrow> gd_releasable (g_desc s t) = kTrue"
  shows "fg_inv c sd s' g"
proof -
  note own = fg_invD(2) [OF inv, of t]
  have hd: "t = hd (gg_queue g (sd t))" using cohort_head [OF fg_invD(1) [OF inv], of t] R by simp
  have fol: "fg_fol c sd s' t = fg_fol c sd s t" using R R' by (simp add: fg_fol_def E)
  have own': "fg_own c sd s' t" using own R R' unfolding fg_own_def fol by (simp add: E)
  have nb: "pc \<noteq> GPetReadB" "g_at s t \<noteq> GPetReadB" using R R' by auto
  show ?thesis
  proof (rule fg_inv_local [OF inv E(1-3) _ _ _ _ last rel own'])
    show "fg_adj c sd s' a t" if "adj (gg_queue g d) a t" "fg_adj c sd s a t" for d a
      using that(2) fg_neighbours(1) [OF inv that(1)] R R' fol by (auto simp: fg_adj_def fg_active_def E)
    show "fg_adj c sd s' t b" if "adj (gg_queue g d) t b" "fg_adj c sd s t b" for d b
      using that(2) fg_neighbours(1) [OF inv that(1)] R R' fg_fol_cong [of s' b s c sd]
      by (auto simp: fg_adj_def fg_active_def E)
    show "fg_lines c sd s' (gg_queue g) (gg_line g)"
      by (rule fg_lines_quiet [OF fg_invD(5) [OF inv], where t = t])
         (use R R' in \<open>simp_all add: E fg_inline_def\<close>)
    show "fg_ph c sd s' t = fg_ph c sd s t"
      using fg_ph_Out [of s t c sd] fg_ph_Out [of s' t c sd] R R' by (simp add: E)
    show "fg_buf s' t = fg_buf s t" using nb by (simp add: fg_buf_def E)
  qed (use R R' hd in simp_all)
qed

lemma ginv_CheckNext:
  assumes inv: "fg_inv c sd s g" and at: "g_at s t = GCheckNext"
  shows "fg_inv c sd (fg_step c sd t s) (fg_gstep sd t s g)"
  unfolding geff_CheckNext(4) [OF at]
  by (rule ginv_release_frame [OF inv _ _ geff_CheckNext(1-3) [OF at]])
     (use at cohort_linked_not_last [OF fg_invD(1) [OF inv], of t] in \<open>simp_all split: if_splits\<close>)

lemma ginv_CasTail_fail:
  assumes inv: "fg_inv c sd s g" and at: "g_at s t = GCasTail" and fail: "fg_tail (sd t) (g_lock s) \<noteq> Some t"
  shows "fg_inv c sd (fg_step c sd t s) (fg_gstep sd t s g)"
  unfolding geff_CasTail_fail(4) [where sd = sd, OF at fail]
  by (rule ginv_release_frame [OF inv _ _ geff_CasTail_fail(1-3) [where sd = sd, OF at fail]])
     (use at fail cohort_tail_last [OF fg_invD(1) [OF inv], of t] in simp_all)

lemma ginv_WaitReleasable:
  assumes inv: "fg_inv c sd s g" and at: "g_at s t = GWaitReleasable" and rel: "gd_releasable (g_desc s t) = kTrue"
  shows "fg_inv c sd (fg_step c sd t s) (fg_gstep sd t s g)"
  unfolding geff_WaitReleasable(4) [OF at rel]
  by (rule ginv_release_frame [OF inv _ _ geff_WaitReleasable(1-3) [OF at rel]])
     (use at rel cohort_not_last [OF fg_invD(1) [OF inv], of t] in simp_all)

text \<open>Leaving the queue.\<close>

lemma ginv_leave_frame:
  assumes inv: "fg_inv c sd s g" and R: "29 \<le> gR s t"
    and g': "gg_queue g' = (gg_queue g)(sd t := tl (gg_queue g (sd t)))" "gg_line g' = gg_line g"
    and q: "cohort_ok sd (fg_view s') ((gg_queue g)(sd t := tl (gg_queue g (sd t))))"
    and thr: "g_thr s' = (g_thr s)(t := (g_thr s t)\<lparr>gh_pc := GIdle\<rparr>)"
    and D: "\<And>u. gB s' u = gB s u" "\<And>u. gV s' u = gV s u" "\<And>u. gK s' u = gK s u" "\<And>u. gN s' u = gN s u"
    and lock: "gl_next_ticket (g_lock s') = gl_next_ticket (g_lock s)"
      "gl_current_ticket (g_lock s') = gl_current_ticket (g_lock s)"
      "gl_local_flag (g_lock s') = gl_local_flag (g_lock s)" "gl_remote_flag (g_lock s') = gl_remote_flag (g_lock s)"
      "gl_victim (g_lock s') = gl_victim (g_lock s)"
  shows "fg_inv c sd s' g'"
proof -
  let ?Q = "gg_queue g" and ?Q' = "(gg_queue g)(sd t := tl (gg_queue g (sd t)))"
  note co = fg_invD(1) [OF inv]
  have hd: "t = hd (?Q (sd t))" using cohort_head [OF co, of t] R by simp
  have at': "adj (?Q' d) a b \<longleftrightarrow> adj (?Q d) a b \<and> a \<noteq> t" for d a b
    using adj_tl [OF cohort_distinct [OF co], of "sd t" a b] hd fg_neighbours(2) [OF inv, of d a b] by auto
  have bt: "b \<noteq> t" if "adj (?Q d) a b" for d a b
    using adj_not_hd [OF cohort_distinct [OF co] that] fg_neighbours(3) [OF inv that] hd by auto
  have nl: "\<not> fg_inline c sd s t" "\<not> fg_inline c sd s' t" using R by (simp_all add: fg_inline_def fg_fol_def thr)
  have ph: "fg_ph c sd s' t = fg_ph c sd s t" "fg_buf s' t = fg_buf s t"
  proof -
    have "g_at s t \<noteq> GPetReadB" using R by auto
    then show "fg_ph c sd s' t = fg_ph c sd s t" "fg_buf s' t = fg_buf s t"
      using fg_ph_Out [of s t c sd] R by (simp_all add: fg_ph_def fg_fol_def fg_buf_def thr)
  qed
  have ta: "a \<noteq> t" if "adj (gg_line g) a b" for a b
    using adj_setL [OF that] fg_linesD(2) [OF fg_invD(5) [OF inv], of a] nl(1) by auto
  show ?thesis
  proof (rule fg_inv_move_to [OF inv g', where t = t])
    show "fg_own c sd s' t" by (simp add: fg_own_def fg_fol_def thr)
    show "adj (?Q d) a b \<and> a \<noteq> t \<and> b \<noteq> t \<or> fg_adj c sd s' a b" if "adj (?Q' d) a b" for d a b
      using at' [of d a b] that bt by blast
    show "fg_pet c sd s'"
      by (rule fg_pet_quiet [OF fg_invD(4) [OF inv]]) (simp_all add: fg_low_quiet [OF _ _ ph] thr D lock)
    show "fg_lines c sd s' ?Q' (gg_line g)"
    proof (rule fg_lines_quiet [OF fg_invD(5) [OF inv], where t = t])
      show "adj (?Q' (sd b)) a b" if "adj (gg_line g) a b" "adj (?Q (sd b)) a b" for a b
        using at' that ta by blast
    qed (use nl in \<open>simp_all add: thr D lock\<close>)
  qed (use q in \<open>simp_all add: thr D\<close>)
qed

lemma ginv_CasTail_ok:
  assumes inv: "fg_inv c sd s g" and at: "g_at s t = GCasTail" and ok: "fg_tail (sd t) (g_lock s) = Some t"
  shows "fg_inv c sd (fg_step c sd t s) (fg_gstep sd t s g)"
proof -
  note E = geff_CasTail_ok [where sd = sd, OF at ok] and EL = geff_lock_words [OF disjI2 [OF at], of c sd]
  let ?s = "fg_step c sd t s"
  have view: "fg_view ?s = (fg_view s)\<lparr>cv_tail := (cv_tail (fg_view s))(sd t := None),
      cv_stage := (cv_stage (fg_view s))(t := 0)\<rparr>"
    unfolding fg_view_def E(1,2) by (auto simp: E(3) fun_eq_iff fg_stage_def)
  show ?thesis
  proof (rule ginv_leave_frame [OF inv _ _ _ _ E(3)])
    show "cohort_ok sd (fg_view ?s) ((gg_queue g)(sd t := tl (gg_queue g (sd t))))"
      unfolding view by (rule cohort_leave_alone [OF fg_invD(1) [OF inv]]) (simp_all add: at ok)
  qed (simp_all add: E(2,4) EL at)
qed

lemma ginv_Grant:
  assumes inv: "fg_inv c sd s g" and at: "g_at s t = GGrant"
  shows "fg_inv c sd (fg_step c sd t s) (fg_gstep sd t s g)"
proof -
  have st: "cv_stage (fg_view s) t = 9" by (simp add: at)
  obtain n where n: "gN s t = Some n" using cohort_grant_next [OF fg_invD(1) [OF inv] st] by auto
  note E = geff_Grant [OF at n]
  let ?s = "fg_step c sd t s"
  have view: "fg_view ?s = (fg_view s)\<lparr>cv_granted := (cv_granted (fg_view s))(n := True),
      cv_stage := (cv_stage (fg_view s))(t := 0)\<rparr>"
    by (auto simp: fg_view_def E fun_eq_iff fg_stage_def)
  show ?thesis
  proof (rule ginv_leave_frame [OF inv _ _ _ _ E(3)])
    show "cohort_ok sd (fg_view ?s) ((gg_queue g)(sd t := tl (gg_queue g (sd t))))"
      unfolding view by (rule cohort_grant [OF fg_invD(1) [OF inv] st]) (simp add: n)
  qed (simp_all add: E(1,2,4) at)
qed

section \<open>All steps\<close>

lemma fg_inv_init: "fg_inv c sd fg_init fg_ginit"
proof -
  have "fg_tail d (g_lock fg_init) = None" for d by (cases d) (simp_all add: fg_init_def)
  moreover have at: "g_at fg_init t = GIdle" for t by (simp add: fg_init_def)
  moreover have "fg_ph c sd fg_init = (\<lambda>_. Out)" "fg_buf fg_init = (\<lambda>_. 0)"
    by (auto simp: fg_ph_def fg_fol_def fg_buf_def at fun_eq_iff)
  then have "fg_pet c sd fg_init"
    using pet_init [of sd "\<lambda>_. 0" 0] by (simp add: fg_pet_def) (simp add: fg_init_def kFalse_def)
  moreover have "gl_next_ticket (g_lock fg_init) = gl_current_ticket (g_lock fg_init)" by (simp add: fg_init_def)
  ultimately show ?thesis
    by (simp add: fg_inv_def cohort_ok_def fg_own_def fg_fol_def fg_lines_def fg_inline_def fg_ginit_def fg_stage_def)
qed

lemma fg_inv_step:
  assumes "fg_inv c sd s g" and "budgets_ok c"
  shows "fg_inv c sd (fg_step c sd t s) (fg_gstep sd t s g)"
proof (cases "fg_spins s t")
  case True
  then show ?thesis using assms by (simp add: geff_spin)
next
  case False
  then show ?thesis
    using ginv_Idle [OF assms(1)] ginv_Swap [OF assms(1)] ginv_Swap_retry [OF assms(1)] ginv_SetNext [OF assms(1)]
      ginv_LoadValid [OF assms(1)] ginv_SetReleasable [OF assms(1)] ginv_WaitBudget [OF assms(1)]
      ginv_TestBudget [OF assms(1)] ginv_ReadTicket [OF assms(1)] ginv_SetBudget [OF assms(1)]
      ginv_PetFlag [OF assms(1)] ginv_PetVictim [OF assms(1)] ginv_PetReadA [OF assms(1)]
      ginv_PetReadB [OF assms(1)] ginv_Take [OF assms(1)] ginv_Put [OF assms(1)] ginv_LoadNext [OF assms(1)]
      ginv_LoadBudget [OF assms] ginv_PassTicket [OF assms(1)] ginv_PassBudget [OF assms]
      ginv_PetUnlock [OF assms(1)] ginv_SetValid [OF assms(1)] ginv_ReloadNext [OF assms(1)]
      ginv_Signal [OF assms(1)] ginv_AwaitPred [OF assms(1)] ginv_AwaitTicket [OF assms(1)]
      ginv_StoreTicket [OF assms(1)] ginv_Critical [OF assms(1)] ginv_CheckNext [OF assms(1)]
      ginv_CasTail_fail [OF assms(1)] ginv_CasTail_ok [OF assms(1)] ginv_WaitReleasable [OF assms(1)]
      ginv_Grant [OF assms(1)]
    unfolding fg_spins_def by (cases "g_at s t") metis+
qed

end
