(* ===== verification/FARLockGThms.thy ===== *)
theory FARLockGThms
  imports FARLockGUnlock
begin

text \<open>
  What FARLockG promises when both budgets of the configuration are positive: mutual exclusion, entry in
  queue order within a cohort, and a bound on the number of threads that one ticket serves.  With a budget
  of zero it deadlocks.
\<close>

section \<open>Contracts\<close>

lemma fg_pc_other: "u \<noteq> t \<Longrightarrow> g_at (fg_step c sd t s) u = g_at s u"
  by (simp add: fg_thr_other)

lemma fg_hold_line:
  assumes "fg_inv c sd s g" and "fg_hold s t"
  shows "gg_line g \<noteq> [] \<and> hd (gg_line g) = t"
proof -
  note L = fg_linesD [OF fg_invD(5) [OF assms(1)]]
  have R: "gR s t = 28" using assms(2) by (simp add: fg_hold_def)
  then have "t = hd (gg_line g)" "t \<in> set (gg_line g)" using L(7) [of t] L(2) [of t] by (auto simp: fg_inline_def)
  then show ?thesis by auto
qed

text \<open>The contracts hold for the threads of a configuration with positive budgets.\<close>

interpretation fgl: lock_protocol "{t. budgets_ok c}" "fg_step c sd" fg_init "fg_gstep sd" fg_ginit "fg_inv c sd"
  fg_hold for c sd
proof unfold_locales
  show "fg_inv c sd fg_init fg_ginit" by (rule fg_inv_init)
  show "fg_inv c sd (fg_step c sd t s) (fg_gstep sd t s g)" if "fg_inv c sd s g" "t \<in> {t. budgets_ok c}" for s g t
    using fg_inv_step [OF that(1)] that(2) by blast
  show "a = b" if "fg_inv c sd s g" "fg_hold s a" "fg_hold s b" for s g a b
    using fg_hold_line [OF that(1,2)] fg_hold_line [OF that(1,3)] by simp
qed

definition fg_owner :: "(tid \<Rightarrow> side) \<Rightarrow> side \<Rightarrow> fg_state \<Rightarrow> tid \<Rightarrow> bool" where
  "fg_owner sd d s t \<longleftrightarrow> sd t = d \<and> 28 \<le> gR s t"

definition fg_joins :: "(tid \<Rightarrow> side) \<Rightarrow> side \<Rightarrow> fg_state \<Rightarrow> tid \<Rightarrow> bool" where
  "fg_joins sd d s t \<longleftrightarrow> sd t = d \<and> fg_enqueues sd s t"

lemma fg_owner_leaves: "leaves (fg_owner sd d) (fg_step c sd) s t \<longleftrightarrow> sd t = d \<and> fg_dequeues sd s t"
  by (cases "g_at s t"; cases "sd t"; cases d)
     (simp_all add: leaves_def fg_owner_def fg_dequeues_def fg_await_def fg_defs)

lemma fg_owner_enters:
  "enters (fg_owner sd d) (fg_step c sd) s t \<longleftrightarrow> sd t = d \<and> enters fg_hold (fg_step c sd) s t"
  by (cases "g_at s t"; cases "sd t"; cases d)
     (simp_all add: enters_def fg_owner_def fg_hold_def fg_await_def fg_defs)

interpretation fgc: fifo_protocol "{t. budgets_ok c}" "fg_step c sd" fg_init "fg_gstep sd" fg_ginit "fg_inv c sd"
  "fg_owner sd d" "fg_joins sd d" "\<lambda>g. gg_queue g d" for c sd d
proof unfold_locales
  show "fg_inv c sd fg_init fg_ginit" by (rule fg_inv_init)
  show "fg_inv c sd (fg_step c sd t s) (fg_gstep sd t s g)" if "fg_inv c sd s g" "t \<in> {t. budgets_ok c}" for s g t
    using fg_inv_step [OF that(1)] that(2) by blast
  show "\<not> fg_owner sd d fg_init t" for t by (simp add: fg_owner_def fg_init_def)
  show "gg_queue g d \<noteq> [] \<and> hd (gg_queue g d) = t" if "fg_inv c sd s g" "fg_owner sd d s t" for s g t
    using cohort_head [OF fg_invD(1) [OF that(1)], of t] cohort_mem [OF fg_invD(1) [OF that(1)], of t d] that(2)
    by (auto simp: fg_owner_def)
  show "gg_queue (fg_gstep sd t s g) d = (if leaves (fg_owner sd d) (fg_step c sd) s t then tl (gg_queue g d)
      else if fg_joins sd d s t then gg_queue g d @ [t] else gg_queue g d)" for s g t
    unfolding fg_owner_leaves
    by (auto simp: fg_gstep_def fg_joins_def fg_enqueues_def fg_dequeues_def)
qed (auto simp: fg_owner_def fg_pc_other fg_ginit_def fg_joins_def fg_enqueues_def)

section \<open>Theorems\<close>

text \<open>
  C9: Mutual exclusion of FARLockG, for any number of threads, any division of them into local and remote
  ones, any interleaving, and any positive budgets.
\<close>

theorem fg_mutual_exclusion:
  assumes "budgets_ok c" and "reachable (fg_step c sd) UNIV fg_init s" and "fg_hold s a" and "fg_hold s b"
  shows "a = b"
  using assms fgl.mutual_exclusion [of c sd s a b] by simp

theorem fg_mutual_exclusion_witness:
  defines "sd \<equiv> (\<lambda>t :: tid. if t = 3 then Remote else Local)"
    and "c \<equiv> \<lparr>local_budget = 2, remote_budget = 1\<rparr>"
    and "s \<equiv> run (fg_step \<lparr>local_budget = 2, remote_budget = 1\<rparr> (\<lambda>t. if t = 3 then Remote else Local))
      [1, 1, 1, 1, 1, 1, 1, 2, 2, 2, 3, 3, 3, 1, 1, 1, 1, 1, 1] fg_init"
  shows "budgets_ok c \<and> reachable (fg_step c sd) UNIV fg_init s \<and> fg_hold s 1 \<and> fg_fol c sd s 2 \<and> \<not> fg_hold s 2"
proof -
  have r: "reachable (fg_step c sd) UNIV fg_init s"
    unfolding sd_def c_def s_def by (rule reachable_run [OF _ reachable.start]) simp
  have b: "budgets_ok c" unfolding c_def by code_simp
  have h: "fg_hold s 1" unfolding s_def by code_simp
  have f: "fg_fol c sd s 2" unfolding s_def sd_def c_def by code_simp
  have "\<not> fg_hold s 2" using fg_mutual_exclusion [OF b r h, of 2] by auto
  with r b h f show ?thesis by blast
qed

text \<open>
  C10: For all positive budgets, inside a cohort, threads enter the critical section of FARLockG in the order in which they swapped
  themselves into the cohort's queue, batches or not.
\<close>

theorem fg_cohort_order:
  assumes "budgets_ok c"
  shows "prefix (filter (\<lambda>t. sd t = d) (events (enters fg_hold (fg_step c sd)) (fg_step c sd) sched fg_init))
     (filter (\<lambda>t. sd t = d) (events (fg_enqueues sd) (fg_step c sd) sched fg_init))"
  using fgc.first_come_first_served [of sched c sd d] assms
  unfolding events_filter fg_owner_enters [symmetric] fg_joins_def by (simp add: eta_contract_eq)

text \<open>Threads 1 and 2 enter in the order in which they queued up.\<close>

theorem fg_cohort_order_witness:
  defines "c \<equiv> \<lparr>local_budget = 2, remote_budget = 1\<rparr>" and "sd \<equiv> (\<lambda>_ :: tid. Local)"
    and "sched \<equiv> [1, 1, 1, 1, 1, 1, 1, 2, 2, 2, 1, 1, 1, 1, 1, 1, 2, 2, 1, 1, 2, 2, 2, 2, 2, 2, 2, 1, 1, 2, 1, 2]"
  shows "filter (\<lambda>t. sd t = Local) (events (enters fg_hold (fg_step c sd)) (fg_step c sd) sched fg_init) = [1, 2] \<and>
    prefix [1, 2] (filter (\<lambda>t. sd t = Local) (events (fg_enqueues sd) (fg_step c sd) sched fg_init))"
proof -
  have e: "filter (\<lambda>t. sd t = Local) (events (enters fg_hold (fg_step c sd)) (fg_step c sd) sched fg_init) = [1, 2]"
    unfolding c_def sd_def sched_def by code_simp
  have "budgets_ok c" unfolding c_def by code_simp
  from fg_cohort_order [OF this, of sd Local sched] e show ?thesis by simp
qed

text \<open>
  C13: A budget of zero is not rejected for the local cohort and deadlocks FARLockG: the first thread passes on
  the value \<open>0 - 1\<close>, which its successor takes for \<^verbatim>\<open>not set yet\<close>.  Two local threads reach a state in which
  neither of them can ever move again although nobody holds the lock.
\<close>

theorem fg_zero_budget_deadlock:
  "\<exists>s. reachable (fg_step \<lparr>local_budget = 0, remote_budget = 1\<rparr> (\<lambda>_. Local)) {1, 2} fg_init s \<and>
     fg_step \<lparr>local_budget = 0, remote_budget = 1\<rparr> (\<lambda>_. Local) 1 s = s \<and>
     fg_step \<lparr>local_budget = 0, remote_budget = 1\<rparr> (\<lambda>_. Local) 2 s = s \<and>
     g_at s 1 \<noteq> GIdle \<and> g_at s 2 \<noteq> GIdle \<and> \<not> fg_hold s 1 \<and> \<not> fg_hold s 2"
proof -
  let ?step = "fg_step \<lparr>local_budget = 0, remote_budget = 1\<rparr> (\<lambda>_. Local)"
  let ?s = "run ?step [1, 1, 1, 1, 1, 1, 1, 2, 2, 2, 1, 1, 1, 1, 1, 1, 2, 2, 1, 1, 1, 1, 1, 1, 1, 1, 1] fg_init"
  have "reachable ?step {1, 2} fg_init ?s" by (rule reachable_run [OF _ reachable.start]) simp
  moreover have a: "g_at ?s 1 = GWaitBudget \<and> gB ?s 1 = -1" by code_simp
  moreover have b: "g_at ?s 2 = GWaitBudget \<and> gB ?s 2 = -1" by code_simp
  ultimately show ?thesis
    using geff_spin(1) [of ?s 1] geff_spin(1) [of ?s 2]
    by (intro exI [of _ ?s]) (simp add: fg_spins_def fg_hold_def)
qed

end
