(* ===== verification/FARLockGBatch.thy ===== *)
theory FARLockGBatch
  imports FARLockGThms
begin

text \<open>
  How long a batch of FARLockG can get: over any run, a cohort enters the critical section at most as often
  as it has drawn tickets times its initial budget.  The proof is an amortised one: a thread in line has
  been paid for by the ticket drawn or passed on, and a thread that may still pass its ticket on holds
  budget for the passes to come.
\<close>

section \<open>Credit\<close>

definition fg_waiting :: "(tid \<Rightarrow> side) \<Rightarrow> side \<Rightarrow> fg_state \<Rightarrow> tid list \<Rightarrow> nat" where
  "fg_waiting sd d s l = length (filter (\<lambda>t. sd t = d \<and> \<not> fg_hold s t) l)"

definition fg_credit :: "(tid \<Rightarrow> side) \<Rightarrow> side \<Rightarrow> fg_state \<Rightarrow> tid list \<Rightarrow> nat" where
  "fg_credit sd d s l =
     (if l \<noteq> [] \<and> sd (last l) = d \<and> gR s (last l) \<le> 18 then unat (gB s (last l)) - 1 else 0)"

definition fg_passes :: "fg_state \<Rightarrow> tid \<Rightarrow> bool" where
  "fg_passes s t \<longleftrightarrow> g_at s t = GPassBudget"

lemma filter_remove_one:
  assumes "distinct l" and "t \<in> set l" and "P t" and "\<not> P' t" and "\<And>u. u \<noteq> t \<Longrightarrow> P' u = P u"
  shows "Suc (length (filter P' l)) = length (filter P l)"
  using assms
proof (induction l)
  case (Cons x l)
  show ?case
  proof (cases "x = t")
    case True
    then have "t \<notin> set l" using Cons.prems(1) by simp
    then have "P' x = P x" if "x \<in> set l" for x using Cons.prems(5) [of x] that by blast
    then have "filter P' l = filter P l" by (rule filter_cong [OF refl])
    then show ?thesis using True Cons.prems(3,4) by simp
  next
    case False
    then show ?thesis using Cons by auto
  qed
qed simp

section \<open>The threads in line\<close>

lemma fg_hold_after:
  "fg_hold (fg_step c sd t s) u \<longleftrightarrow>
     (if u = t then enters fg_hold (fg_step c sd) s t else fg_hold s u)"
proof (cases "u = t")
  case True
  have "fg_hold s t \<Longrightarrow> \<not> fg_hold (fg_step c sd t s) t" by (simp add: fg_hold_def fg_defs)
  with True show ?thesis by (auto simp: enters_def)
qed (simp add: fg_hold_def fg_pc_other)

lemma fg_pc_await:
  "g_at s t = GPassBudget \<Longrightarrow> g_at (fg_step c sd t s) t = fg_await (g_thr s t)"
  "g_at s t = GSignal \<Longrightarrow> g_at (fg_step c sd t s) t = fg_await (g_thr s t)"
  "g_at s t = GReloadNext \<Longrightarrow> g_at (fg_step c sd t s) t = (if gN s t \<noteq> None then GSignal else fg_await (g_thr s t))"
  by (cases "sd t"; simp add: fg_defs)+

lemma fg_waiting_cong:
  assumes "\<And>u. u \<in> set l \<Longrightarrow> sd u = d \<Longrightarrow> fg_hold s' u = fg_hold s u"
  shows "fg_waiting sd d s' l = fg_waiting sd d s l"
proof -
  have "(sd u = d \<and> \<not> fg_hold s' u) = (sd u = d \<and> \<not> fg_hold s u)" if "u \<in> set l" for u using assms [OF that] by blast
  then show ?thesis unfolding fg_waiting_def by (intro arg_cong [where f = length] filter_cong [OF refl])
qed

lemma fg_entering:
  assumes "fg_inv c sd s g" and "enters fg_hold (fg_step c sd) s t"
  shows "t \<in> set (gg_line g)" and "gg_line (fg_gstep sd t s g) = gg_line g"
    and "\<not> fg_draws sd s t" and "\<not> fg_passes s t"
proof -
  have h: "g_at s t \<noteq> GCritical" "g_at (fg_step c sd t s) t = GCritical"
    using assms(2) by (auto simp: enters_def fg_hold_def)
  have "g_at s t = GStoreTicket \<or> g_at s t = GAwaitPred \<or> g_at s t = GPassBudget \<or> g_at s t = GReloadNext \<or> g_at s t = GSignal"
    using h by (cases "g_at s t"; cases "sd t") (simp_all add: fg_defs split: if_splits)
  moreover have "fg_await (g_thr s t) \<noteq> GCritical" if "15 \<le> gR s t" using fg_await_rank(1) [OF assms(1) that] by auto
  then have "g_at s t \<noteq> GPassBudget" "g_at s t \<noteq> GSignal" "g_at s t \<noteq> GReloadNext"
    using h(2) fg_pc_await [of s t c sd] by (fastforce split: if_splits)+
  ultimately have at: "g_at s t = GStoreTicket \<or> g_at s t = GAwaitPred" by (auto simp: fg_passes_def)
  then show "t \<in> set (gg_line g)" using fg_linesD(2) [OF fg_invD(5) [OF assms(1)], of t] by (auto simp: fg_inline_def)
  show "\<not> fg_draws sd s t" "\<not> fg_passes s t" using at by (auto simp: fg_draws_def fg_passes_def)
  then show "gg_line (fg_gstep sd t s g) = gg_line g" using at by (auto simp: fg_gstep_def fg_passes_def)
qed

lemma fg_waiting_step:
  assumes inv: "fg_inv c sd s g"
  shows "fg_waiting sd d (fg_step c sd t s) (gg_line (fg_gstep sd t s g)) +
      (if sd t = d \<and> enters fg_hold (fg_step c sd) s t then 1 else 0) =
    fg_waiting sd d s (gg_line g) + (if sd t = d \<and> fg_draws sd s t then 1 else 0) +
      (if sd t = d \<and> fg_passes s t then 1 else 0)"
proof (cases "enters fg_hold (fg_step c sd) s t")
  case True
  note e = fg_entering [OF inv True]
  have hold: "fg_hold (fg_step c sd t s) u = fg_hold s u" if "u \<noteq> t" for u using fg_hold_after [of c sd t s u] that by simp
  show ?thesis
  proof (cases "sd t = d")
    case d: True
    have "Suc (fg_waiting sd d (fg_step c sd t s) (gg_line g)) = fg_waiting sd d s (gg_line g)"
      unfolding fg_waiting_def
    proof (rule filter_remove_one [OF fg_linesD(1) [OF fg_invD(5) [OF inv]] e(1)])
      show "sd t = d \<and> \<not> fg_hold s t" "\<not> (sd t = d \<and> \<not> fg_hold (fg_step c sd t s) t)"
        using True d by (simp_all add: enters_def)
      show "(sd u = d \<and> \<not> fg_hold (fg_step c sd t s) u) = (sd u = d \<and> \<not> fg_hold s u)" if "u \<noteq> t" for u
        using hold [of u] that by simp
    qed
    then show ?thesis using e True d by simp
  next
    case False
    then have "fg_waiting sd d (fg_step c sd t s) (gg_line g) = fg_waiting sd d s (gg_line g)"
      by (intro fg_waiting_cong hold) auto
    then show ?thesis using e False by simp
  qed
next
  case False
  have hold: "fg_hold (fg_step c sd t s) u \<longleftrightarrow> u \<noteq> t \<and> fg_hold s u" for u using fg_hold_after [of c sd t s u] False by auto
  note L = fg_linesD [OF fg_invD(5) [OF inv]]
  have same: "fg_waiting sd d (fg_step c sd t s) l = fg_waiting sd d s l" if "t \<notin> set l \<or> \<not> fg_hold s t" for l
  proof (rule fg_waiting_cong)
    show "fg_hold (fg_step c sd t s) u = fg_hold s u" if "u \<in> set l" for u using hold [of u] that \<open>t \<notin> set l \<or> \<not> fg_hold s t\<close> by blast
  qed
  consider (draw) "fg_draws sd s t" | (pass) "fg_passes s t" | (crit) "g_at s t = GCritical"
    | (other) "\<not> fg_draws sd s t" "\<not> fg_passes s t" "g_at s t \<noteq> GCritical" by blast
  then show ?thesis
  proof cases
    case draw
    then have "\<not> fg_hold s t" "\<not> fg_passes s t" by (auto simp: fg_draws_def fg_hold_def fg_passes_def split: if_splits)
    moreover have "gg_line (fg_gstep sd t s g) = gg_line g @ [t]" using draw by (simp add: fg_gstep_def)
    ultimately show ?thesis using draw same [of "gg_line g"] False by (simp add: fg_waiting_def hold)
  next
    case pass
    then have at: "g_at s t = GPassBudget" by (simp add: fg_passes_def)
    obtain n where n: "gN s t = Some n" using fg_invD(2) [OF inv, of t] at by (auto simp: fg_own_def)
    have N: "gR s n \<le> 5" "sd n = sd t" using fg_behind(3,7) [OF inv n] at by simp_all
    have "\<not> fg_hold s t" "\<not> fg_draws sd s t" "\<not> fg_hold s n" using at N(1) by (auto simp: fg_draws_def fg_hold_def)
    moreover have "gg_line (fg_gstep sd t s g) = gg_line g @ [n]" using at n by (simp add: fg_gstep_def fg_draws_def)
    ultimately show ?thesis using pass same [of "gg_line g"] False N(2) by (simp add: fg_waiting_def hold)
  next
    case crit
    then have h: "fg_hold s t" "\<not> fg_draws sd s t" "\<not> fg_passes s t" by (auto simp: fg_hold_def fg_draws_def fg_passes_def)
    obtain l where l: "gg_line g = t # l" using fg_hold_line [OF inv h(1)] by (cases "gg_line g") auto
    have "t \<notin> set l" using L(1) l by simp
    moreover have "gg_line (fg_gstep sd t s g) = l" using crit l by (simp add: fg_gstep_def fg_draws_def)
    ultimately show ?thesis using h same [of l] False l by (simp add: fg_waiting_def)
  next
    case other
    then have "\<not> fg_hold s t" by (simp add: fg_hold_def)
    moreover have "gg_line (fg_gstep sd t s g) = gg_line g" using other by (simp add: fg_gstep_def fg_passes_def)
    ultimately show ?thesis using other same [of "gg_line g"] False by simp
  qed
qed

section \<open>The budget of the last thread\<close>

lemma fg_budget_frame:
  assumes "u = t \<Longrightarrow> g_at s t \<noteq> GIdle \<and> g_at s t \<noteq> GSetBudget"
    and "g_at s t = GPassBudget \<or> g_at s t = GSignal \<Longrightarrow> gN s t \<noteq> Some u" and "gN s t \<noteq> None \<or> g_at s t \<noteq> GPassBudget \<and> g_at s t \<noteq> GSignal"
  shows "gB (fg_step c sd t s) u = gB s u"
  using assms by (cases "g_at s t"; cases "sd t") (auto simp: fg_defs)

lemma fg_rank_mono: "19 \<le> gR s t \<Longrightarrow> gR s t \<le> 28 \<Longrightarrow> 19 \<le> gR (fg_step c sd t s) t"
  by (cases "g_at s t"; cases "sd t") (auto simp: fg_defs fg_await_def)

text \<open>The last thread in line keeps its budget as long as it may pass its ticket on.\<close>

lemma fg_last_budget:
  assumes inv: "fg_inv c sd s g" and w: "fg_inline c sd s w" and np: "g_at s t \<noteq> GPassBudget"
    and R': "gR (fg_step c sd t s) w \<le> 18"
  shows "gR s w \<le> 18" and "gB (fg_step c sd t s) w = gB s w"
proof -
  show R: "gR s w \<le> 18"
  proof (cases "w = t")
    case True
    show ?thesis
    proof (rule ccontr)
      assume "\<not> gR s w \<le> 18"
      then have "19 \<le> gR s t" "gR s t \<le> 28" using w True by (auto simp: fg_inline_def)
      then show False using fg_rank_mono [of s t c sd] R' True by simp
    qed
  next
    case False
    then show ?thesis using R' by (simp add: fg_pc_other)
  qed
  have own: "w = t \<Longrightarrow> g_at s t \<noteq> GIdle \<and> g_at s t \<noteq> GSetBudget" using w by (auto simp: fg_inline_def fg_fol_def)
  show "gB (fg_step c sd t s) w = gB s w"
  proof (cases "g_at s t = GSignal")
    case True
    obtain n where n: "gN s t = Some n" using fg_invD(2) [OF inv, of t] True by (auto simp: fg_own_def)
    show ?thesis
    proof (cases "w = n")
      case False
      then show ?thesis by (intro fg_budget_frame) (use own np n in auto)
    next
      case wn: True
      have adj: "adj (gg_queue g (sd t)) t n" using cohort_next(1) [OF fg_invD(1) [OF inv], of t n] n True by simp
      have "\<not> fg_fol c sd s w" using fg_invD(3) [OF inv adj] fg_invD(2) [OF inv, of t] True wn by (auto simp: fg_adj_def fg_own_def)
      then have "15 \<le> gR s w" "\<not> gF s w" using w by (auto simp: fg_inline_def fg_fol_def)
      then have "gB s w = kInitBudget c (sd w)" using fg_invD(2) [OF inv, of w] unfolding fg_own_def by auto
      then show ?thesis using geff_Signal(2) [OF True n, of c sd] wn fg_neighbours(3) [OF inv adj] by simp
    qed
  next
    case False
    then show ?thesis by (intro fg_budget_frame) (use own np in auto)
  qed
qed

lemma unat_pred: "b \<noteq> 0 \<Longrightarrow> unat (b - 1) = unat b - 1" for b :: u64
proof -
  assume "b \<noteq> 0"
  then have "unat b \<noteq> 0" by (simp add: unsigned_eq_0_iff)
  then have "1 \<le> b" by (simp add: word_le_nat_alt)
  then show ?thesis by (simp add: unat_sub)
qed

lemma fg_credit_step:
  assumes inv: "fg_inv c sd s g" and b: "budgets_ok c"
  shows "fg_credit sd d (fg_step c sd t s) (gg_line (fg_gstep sd t s g)) + (if sd t = d \<and> fg_passes s t then 1 else 0)
    \<le> fg_credit sd d s (gg_line g) + (unat (kInitBudget c d) - 1) * (if sd t = d \<and> fg_draws sd s t then 1 else 0)"
proof -
  note L = fg_linesD [OF fg_invD(5) [OF inv]]
  let ?s = "fg_step c sd t s" and ?l = "gg_line g"
  consider (draw) "fg_draws sd s t" | (pass) "fg_passes s t" | (other) "\<not> fg_draws sd s t" "\<not> fg_passes s t" by blast
  then show ?thesis
  proof cases
    case draw
    then have R: "13 \<le> gR s t" "gR s t \<le> 14" "\<not> fg_passes s t" and np: "g_at s t \<noteq> GPassBudget" "g_at s t \<noteq> GSignal" "g_at s t \<noteq> GIdle" "g_at s t \<noteq> GSetBudget"
      by (auto simp: fg_draws_def fg_passes_def split: if_splits)
    have "\<not> gF s t" "gB s t = kInitBudget c (sd t)" using fg_invD(2) [OF inv, of t] R by (simp_all add: fg_own_def)
    moreover have "gB ?s t = gB s t" by (rule fg_budget_frame) (use np in auto)
    moreover have "gg_line (fg_gstep sd t s g) = ?l @ [t]" using draw by (simp add: fg_gstep_def)
    ultimately show ?thesis using draw R(3) by (simp add: fg_credit_def)
  next
    case pass
    then have at: "g_at s t = GPassBudget" by (simp add: fg_passes_def)
    have o: "gN s t \<noteq> None" "gB s t \<noteq> 1" "sd t = Remote \<longrightarrow> gh_buf_budget (g_thr s t) = gB s t - 1"
      using fg_invD(2) [OF inv, of t] at by (auto simp: fg_own_def)
    obtain n where n: "gN s t = Some n" using o(1) by auto
    have N: "gR s n \<le> 5" "n \<noteq> t" "sd n = sd t" using fg_behind(3,6,7) [OF inv n] at by simp_all
    have nd: "\<not> fg_draws sd s t" using at by (auto simp: fg_draws_def)
    have tl: "t = last ?l" "?l \<noteq> []" using L(9) [of t] L(2) [of t] at by (auto simp: fg_inline_def)
    have B0: "gB s t \<noteq> 0" by (rule fg_budget(1) [OF inv b]) (simp add: at)
    have "unat (gB s t) \<noteq> unat (0 :: u64)" "unat (gB s t) \<noteq> unat (1 :: u64)"
      using B0 o(2) unfolding word_unat_eq_iff by blast+
    then have "unat (gB s t) \<noteq> 0" "unat (gB s t) \<noteq> 1" by simp_all
    then have B2: "2 \<le> unat (gB s t)" by linarith
    have "gB ?s n = gB s t - 1" using geff_PassBudget(2) [where sd = sd, OF at n o(3)] by simp
    then have "unat (gB ?s n) = unat (gB s t) - 1" using unat_pred [OF B0] by simp
    moreover have "gR ?s n \<le> 18" using N(1,2) by (simp add: fg_pc_other)
    moreover have "gg_line (fg_gstep sd t s g) = ?l @ [n]" using at n nd by (simp add: fg_gstep_def)
    ultimately show ?thesis using pass nd tl N(3) B2 at by (auto simp: fg_credit_def)
  next
    case other
    have np: "g_at s t \<noteq> GPassBudget" using other(2) by (simp add: fg_passes_def)
    have l': "gg_line (fg_gstep sd t s g) = ?l \<or> gg_line (fg_gstep sd t s g) = tl ?l"
      using other np by (auto simp: fg_gstep_def)
    have last: "last (gg_line (fg_gstep sd t s g)) = last ?l \<and> ?l \<noteq> []" if "gg_line (fg_gstep sd t s g) \<noteq> []"
      using l' that by (auto simp: last_tl)
    have "fg_credit sd d ?s (gg_line (fg_gstep sd t s g)) \<le> fg_credit sd d s ?l"
    proof (cases "gg_line (fg_gstep sd t s g) \<noteq> [] \<and> gR ?s (last ?l) \<le> 18")
      case True
      then have w: "fg_inline c sd s (last ?l)" using last L(2) [of "last ?l"] by simp
      note fg_last_budget [OF inv w np conjunct2 [OF True]]
      then show ?thesis using last [OF conjunct1 [OF True]] by (simp add: fg_credit_def)
    next
      case False
      then have "fg_credit sd d ?s (gg_line (fg_gstep sd t s g)) = 0"
        by (cases "gg_line (fg_gstep sd t s g) = []") (use last in \<open>simp_all add: fg_credit_def\<close>)
      then show ?thesis by simp
    qed
    then show ?thesis using other by simp
  qed
qed

section \<open>Over a run\<close>

lemma fg_batch_from:
  assumes "fg_inv c sd s g" and "budgets_ok c"
  shows "length (events (\<lambda>s t. sd t = d \<and> enters fg_hold (fg_step c sd) s t) (fg_step c sd) sched s)
    \<le> fg_waiting sd d s (gg_line g) + fg_credit sd d s (gg_line g) +
      unat (kInitBudget c d) * length (events (\<lambda>s t. sd t = d \<and> fg_draws sd s t) (fg_step c sd) sched s)"
  using assms
proof (induction sched arbitrary: s g)
  case (Cons t ts)
  let ?s = "fg_step c sd t s" and ?g = "fg_gstep sd t s g" and ?b = "unat (kInitBudget c d)"
  let ?n = "\<lambda>P. if P then 1 else 0 :: nat" and ?D = "sd t = d \<and> fg_draws sd s t"
  let ?E = "sd t = d \<and> enters fg_hold (fg_step c sd) s t" and ?P = "sd t = d \<and> fg_passes s t"
  let ?e = "length (events (\<lambda>s t. sd t = d \<and> enters fg_hold (fg_step c sd) s t) (fg_step c sd) ts ?s)"
  let ?k = "length (events (\<lambda>s t. sd t = d \<and> fg_draws sd s t) (fg_step c sd) ts ?s)"
  have "?b \<noteq> 0" using kInitBudget_bounds(1) [OF Cons.prems(2), of d] by (simp add: unsigned_eq_0_iff)
  then have b: "?n ?D + (?b - 1) * ?n ?D = ?b * ?n ?D" by simp
  have e: "length (events (\<lambda>s t. sd t = d \<and> enters fg_hold (fg_step c sd) s t) (fg_step c sd) (t # ts) s) = ?n ?E + ?e"
    by simp
  have k: "length (events (\<lambda>s t. sd t = d \<and> fg_draws sd s t) (fg_step c sd) (t # ts) s) = ?n ?D + ?k" by simp
  have "?n ?E + ?e \<le> ?n ?E + fg_waiting sd d ?s (gg_line ?g) + fg_credit sd d ?s (gg_line ?g) + ?b * ?k"
    using Cons.IH [OF fg_inv_step [OF Cons.prems] Cons.prems(2), of t] by simp
  also have "\<dots> = fg_waiting sd d s (gg_line g) + ?n ?D + (?n ?P + fg_credit sd d ?s (gg_line ?g)) + ?b * ?k"
    using fg_waiting_step [OF Cons.prems(1), of d t] by simp
  also have "\<dots> \<le> fg_waiting sd d s (gg_line g) + fg_credit sd d s (gg_line g) + (?n ?D + (?b - 1) * ?n ?D) + ?b * ?k"
    using fg_credit_step [OF Cons.prems, of d t] by linarith
  finally show ?case unfolding e k b add_mult_distrib2 by (simp only: add.assoc)
qed simp

text \<open>
  C11: One ticket of FARLockG serves at most as many threads as the initial budget of its cohort, when the
  configured budgets are positive: in every run the threads of a cohort have entered the critical section
  at most budget times as often as they have drawn a ticket.
\<close>

theorem fg_batch_bound:
  assumes "budgets_ok c"
  shows "length (filter (\<lambda>t. sd t = d) (events (enters fg_hold (fg_step c sd)) (fg_step c sd) sched fg_init))
    \<le> unat (kInitBudget c d) * length (filter (\<lambda>t. sd t = d) (events (fg_draws sd) (fg_step c sd) sched fg_init))"
  using fg_batch_from [OF fg_inv_init assms, of sd d sched]
  by (simp add: events_filter fg_waiting_def fg_credit_def fg_ginit_def)

text \<open>Threads 1 and 2 enter on one ticket, and the bound is met with equality.\<close>

theorem fg_batch_bound_witness:
  defines "c \<equiv> \<lparr>local_budget = 2, remote_budget = 1\<rparr>" and "sd \<equiv> (\<lambda>_ :: tid. Local)"
    and "sched \<equiv> [1, 1, 1, 1, 1, 1, 1, 2, 2, 2, 1, 1, 1, 1, 1, 1, 2, 2, 1, 1, 2, 2, 2, 2, 2, 2, 2, 1, 1, 2, 1, 2]"
  shows "events (enters fg_hold (fg_step c sd)) (fg_step c sd) sched fg_init = [1, 2] \<and>
    unat (kInitBudget c Local) * length (events (fg_draws sd) (fg_step c sd) sched fg_init) = 2 \<and>
    length (filter (\<lambda>t. sd t = Local) (events (enters fg_hold (fg_step c sd)) (fg_step c sd) sched fg_init))
      \<le> unat (kInitBudget c Local) * length (filter (\<lambda>t. sd t = Local) (events (fg_draws sd) (fg_step c sd) sched fg_init))"
proof (intro conjI)
  show "events (enters fg_hold (fg_step c sd)) (fg_step c sd) sched fg_init = [1, 2]"
    unfolding c_def sd_def sched_def by code_simp
  show "unat (kInitBudget c Local) * length (events (fg_draws sd) (fg_step c sd) sched fg_init) = 2"
    unfolding c_def sd_def sched_def by code_simp
  have "budgets_ok c" unfolding c_def by code_simp
  then show "length (filter (\<lambda>t. sd t = Local) (events (enters fg_hold (fg_step c sd)) (fg_step c sd) sched fg_init))
      \<le> unat (kInitBudget c Local) * length (filter (\<lambda>t. sd t = Local) (events (fg_draws sd) (fg_step c sd) sched fg_init))"
    by (rule fg_batch_bound)
qed

end
