(* ===== verification/FARLockGLive.thy ===== *)
theory FARLockGLive
  imports FARLockGBatch Draining
begin

text \<open>
  Deadlock freedom of FARLockG with positive budgets.  A second invariant, \<open>fg_live\<close>, says that a thread
  which has passed on or given up its place in Peterson's algorithm has told its successor; with it some
  active thread can always move.  Unlike FARLock there is no sentinel among the ticket numbers, so the
  number of tickets drawn does not matter.
\<close>

section \<open>Invariant\<close>

text \<open>Thread \<open>b\<close> waits, or will wait, to be told how to go on by the thread ahead.\<close>

definition fg_waits :: "fg_state \<Rightarrow> tid \<Rightarrow> bool" where
  "fg_waits s b \<longleftrightarrow> gR s b = 5 \<or> gR s b = 4 \<and> gT s b \<noteq> kTrue"

definition fg_told :: "fg_state \<Rightarrow> (side \<Rightarrow> tid list) \<Rightarrow> bool" where
  "fg_told s Q \<longleftrightarrow> (\<forall>d a b. adj (Q d) a b \<longrightarrow> 25 \<le> gR s a \<longrightarrow> \<not> gV s a \<or> fg_waits s b \<longrightarrow> gB s b \<noteq> - 1)"

definition fg_heads :: "(tid \<Rightarrow> side) \<Rightarrow> fg_state \<Rightarrow> (side \<Rightarrow> tid list) \<Rightarrow> bool" where
  "fg_heads sd s Q \<longleftrightarrow> (\<forall>t. gR s t = 5 \<longrightarrow> t = hd (Q (sd t)) \<longrightarrow> gB s t \<noteq> - 1)"

definition fg_linked :: "fg_state \<Rightarrow> bool" where
  "fg_linked s \<longleftrightarrow> (\<forall>t. (25 \<le> gR s t \<longrightarrow> \<not> gV s t \<longrightarrow> gN s t \<noteq> None) \<and> (gR s t = 25 \<longrightarrow> gP s t \<noteq> None))"

definition fg_order :: "(side \<Rightarrow> tid list) \<Rightarrow> tid list \<Rightarrow> bool" where
  "fg_order Q l \<longleftrightarrow> (\<forall>d a b. before (Q d) a b \<longrightarrow> a \<in> set l \<longrightarrow> b \<in> set l \<longrightarrow> before l a b)"

definition fg_live :: "(tid \<Rightarrow> side) \<Rightarrow> fg_state \<Rightarrow> fg_ghost \<Rightarrow> bool" where
  "fg_live sd s g \<longleftrightarrow> fg_told s (gg_queue g) \<and> fg_heads sd s (gg_queue g) \<and> fg_linked s \<and>
     fg_order (gg_queue g) (gg_line g)"

lemma fg_liveD:
  assumes "fg_live sd s g"
  shows "adj (gg_queue g d) a b \<Longrightarrow> 25 \<le> gR s a \<Longrightarrow> \<not> gV s a \<or> fg_waits s b \<Longrightarrow> gB s b \<noteq> - 1"
    and "gR s t = 5 \<Longrightarrow> t = hd (gg_queue g (sd t)) \<Longrightarrow> gB s t \<noteq> - 1"
    and "25 \<le> gR s t \<Longrightarrow> \<not> gV s t \<Longrightarrow> gN s t \<noteq> None" and "gR s t = 25 \<Longrightarrow> gP s t \<noteq> None"
    and "before (gg_queue g d) a b \<Longrightarrow> a \<in> set (gg_line g) \<Longrightarrow> b \<in> set (gg_line g) \<Longrightarrow> before (gg_line g) a b"
  using assms unfolding fg_live_def fg_told_def fg_heads_def fg_linked_def fg_order_def by blast+

lemma fg_live_init: "fg_live sd fg_init fg_ginit"
  by (simp add: fg_live_def fg_told_def fg_heads_def fg_linked_def fg_order_def fg_waits_def fg_init_def fg_ginit_def)

section \<open>What a step changes\<close>

lemma fg_valid_frame: "u \<noteq> t \<or> 23 \<le> gR s t \<Longrightarrow> gV (fg_step c sd t s) u = gV s u"
  by (cases "g_at s t"; cases "sd t") (auto simp: fg_defs)

lemma fg_next_frame: "gN s u \<noteq> None \<Longrightarrow> u \<noteq> t \<or> 1 \<le> gR s t \<Longrightarrow> gN (fg_step c sd t s) u \<noteq> None"
  by (cases "g_at s t"; cases "sd t") (auto simp: fg_defs)

lemma fg_rank_late:
  assumes "25 \<le> gR (fg_step c sd t s) t"
  shows "25 \<le> gR s t \<or> gR s t \<in> {18, 23, 24}"
  using assms by (cases "g_at s t"; cases "sd t") (auto simp: fg_defs split: if_splits)

lemma fg_rank_wait:
  assumes "fg_waits (fg_step c sd t s) t"
  shows "fg_waits s t \<or> gR s t = 3 \<and> gd_ticket_valid (g_desc s (the (gP s t))) \<noteq> kTrue"
  using assms by (cases "g_at s t"; cases "sd t") (auto simp: fg_waits_def fg_defs fg_await_def split: if_splits)

lemma fg_own_next: "fg_own c sd s t \<Longrightarrow> gR s t = 18 \<or> gR s t = 24 \<Longrightarrow> gN s t \<noteq> None"
  and fg_own_buf: "fg_own c sd s t \<Longrightarrow> gR s t = 18 \<Longrightarrow> sd t = Remote \<longrightarrow> gh_buf_budget (g_thr s t) = gB s t - 1"
  and fg_own_valid: "fg_own c sd s t \<Longrightarrow> gR s t = 23 \<or> gR s t = 24 \<Longrightarrow> gV s t"
  unfolding fg_own_def by auto

text \<open>Once told, a thread in the queue stays so.\<close>

lemma fg_told_mono:
  assumes inv: "fg_inv c sd s g" and b: "budgets_ok c" and u: "2 \<le> gR s u" "gB s u \<noteq> - 1"
  shows "gB (fg_step c sd t s) u \<noteq> - 1"
proof (cases "g_at s t = GPassBudget \<or> g_at s t = GSignal \<or> g_at s t = GSetBudget")
  case False
  moreover have "u = t \<Longrightarrow> g_at s t \<noteq> GIdle" using u(1) by auto
  ultimately have "gB (fg_step c sd t s) u = gB s u" by (intro fg_budget_frame) auto
  with u(2) show ?thesis by simp
next
  case True
  note K = kInitBudget_bounds(2) [of c "sd t"]
  show ?thesis
  proof (cases "g_at s t = GSetBudget")
    case set: True
    then show ?thesis using u(2) K by (cases "u = t") (simp_all add: geff_SetBudget(2))
  next
    case False
    then have "gR s t = 18 \<or> gR s t = 24" using True by auto
    then obtain n where n: "gN s t = Some n" using fg_own_next [OF fg_invD(2) [OF inv]] by blast
    show ?thesis
    proof (cases "g_at s t = GSignal")
      case True
      then show ?thesis using u(2) K by (cases "u = n") (simp_all add: geff_Signal(2) [OF True n])
    next
      case 2: False
      then have at: "g_at s t = GPassBudget" using True False by simp
      have o: "sd t = Remote \<longrightarrow> gh_buf_budget (g_thr s t) = gB s t - 1"
        by (rule fg_own_buf [OF fg_invD(2) [OF inv]]) (simp add: at)
      have "gB s t \<noteq> 0" by (rule fg_budget(1) [OF inv b]) (simp add: at)
      then have "gB s t - 1 \<noteq> - 1" by simp
      then show ?thesis using u(2) by (cases "u = n") (simp_all add: geff_PassBudget(2) [where sd = sd, OF at n o])
    qed
  qed
qed

text \<open>A thread that finishes dealing with its ticket tells its successor.\<close>

lemma fg_tells:
  assumes inv: "fg_inv c sd s g" and b: "budgets_ok c" and adj: "adj (gg_queue g d) t u"
    and R: "gR s t \<in> {18, 23, 24}" "25 \<le> gR (fg_step c sd t s) t" and w: "gR s t = 18 \<or> 3 \<le> gR s u"
  shows "gB (fg_step c sd t s) u \<noteq> - 1"
proof -
  note q = fg_invD(1) [OF inv]
  have d: "sd t = d" "2 \<le> gR s t" using cohort_adj [OF q adj] by simp_all
  have n: "n = u" if "gN s t = Some n" for n
    using cohort_adj_right [OF q adj] cohort_next(1) [OF q, of t n] that d(2) by simp
  consider (pass) "g_at s t = GPassBudget" | (reload) "g_at s t = GReloadNext" | (signal) "g_at s t = GSignal"
    using R(1) by (cases "g_at s t") auto
  then show ?thesis
  proof cases
    case pass
    have o: "gN s t \<noteq> None" "sd t = Remote \<longrightarrow> gh_buf_budget (g_thr s t) = gB s t - 1"
      using fg_invD(2) [OF inv, of t] pass by (auto simp: fg_own_def)
    then have N: "gN s t = Some u" using n by auto
    have "gB s t \<noteq> 0" by (rule fg_budget(1) [OF inv b]) (simp add: pass)
    then show ?thesis by (simp add: geff_PassBudget(2) [where sd = sd, OF pass N o(2)])
  next
    case reload
    then have "3 \<le> gR s u" using w by simp
    then have "gN s t = Some u" using mcs_shape_next [OF cohort_shape [OF q] adj] by simp
    then show ?thesis using R(2) by (simp add: fg_pc_await(3) [OF reload])
  next
    case signal
    have "gN s t \<noteq> None" using fg_invD(2) [OF inv, of t] signal by (auto simp: fg_own_def)
    then have "gN s t = Some u" using n by auto
    then show ?thesis using kInitBudget_bounds(2) [of c "sd t"] by (simp add: geff_Signal(2) [OF signal])
  qed
qed

section \<open>Every step keeps the invariant\<close>

lemma fg_queue_adj:
  assumes inv: "fg_inv c sd s g" and "adj (gg_queue (fg_gstep sd t s g) d) a b"
  shows "adj (gg_queue g d) a b \<or> fg_enqueues sd s t \<and> d = sd t \<and> b = t \<and> gg_queue g d \<noteq> [] \<and> a = last (gg_queue g d)"
  using assms(2) adj_tl [OF cohort_distinct [OF fg_invD(1) [OF inv]], of d a b]
  by (auto simp: fg_gstep_def adj_snoc split: if_splits)

lemma fg_told_step:
  assumes inv: "fg_inv c sd s g" and b: "budgets_ok c" and v: "fg_live sd s g"
  shows "fg_told (fg_step c sd t s) (gg_queue (fg_gstep sd t s g))"
  unfolding fg_told_def
proof (intro allI impI)
  fix d x y
  let ?s = "fg_step c sd t s"
  assume adj': "adj (gg_queue (fg_gstep sd t s g) d) x y" and R': "25 \<le> gR ?s x" and w': "\<not> gV ?s x \<or> fg_waits ?s y"
  note q = fg_invD(1) [OF inv] and O = fg_thr_other [of _ t c sd s]
  consider (join) "fg_enqueues sd s t" "d = sd t" "y = t" "gg_queue g d \<noteq> []" "x = last (gg_queue g d)"
    | (old) "adj (gg_queue g d) x y" using fg_queue_adj [OF inv adj'] by blast
  then show "gB ?s y \<noteq> - 1"
  proof cases
    case join
    then have at: "g_at s t = GSwap" by (simp add: fg_enqueues_def)
    have xq: "x \<in> set (gg_queue g d)" using join by simp
    then have x: "sd x = d" "2 \<le> gR s x" using cohort_mem [OF q, of x d] by simp_all
    then have "x \<noteq> t" using at by auto
    moreover have "\<not> fg_waits ?s y" using join(3) by (simp add: fg_waits_def geff_Swap(3) [OF at join(1)])
    ultimately have "25 \<le> gR s x" "\<not> gV s x" using R' w' O [of x] fg_valid_frame [of x t s c sd] by auto
    then have "gN s x \<noteq> None" by (rule fg_liveD(3) [OF v])
    then have "x \<noteq> last (gg_queue g (sd x))" using cohort_linked_not_last [OF q, of x] x(2) by simp
    with join x show ?thesis by simp
  next
    case old
    note A = fg_neighbours [OF inv old]
    have told: "gB s y \<noteq> - 1 \<Longrightarrow> gB ?s y \<noteq> - 1" by (rule fg_told_mono [OF inv b A(5)])
    show ?thesis
    proof (cases "x = t")
      case True
      then have yt: "y \<noteq> t" using A(1) by simp
      then have wy: "fg_waits ?s y = fg_waits s y" using O [of y] by (simp add: fg_waits_def)
      show ?thesis
      proof (cases "25 \<le> gR s t")
        case late: True
        then have "gV ?s x = gV s x" using True fg_valid_frame [of x t s c sd] by simp
        then show ?thesis using told fg_liveD(1) [OF v old] late True w' wy by blast
      next
        case False
        then have R: "gR s t \<in> {18, 23, 24}" using fg_rank_late [of c sd t s] R' True by simp
        have "gR s t = 18 \<or> 3 \<le> gR s y"
        proof (cases "gR s t = 18")
          case 18: False
          then have "gR s t = 23 \<or> gR s t = 24" using R by blast
          then have "gV s t" "gV ?s t = gV s t"
            using fg_own_valid [OF fg_invD(2) [OF inv, of t]] fg_valid_frame [of t t s c sd] by auto
          then have "fg_waits s y" using w' wy True by simp
          then show ?thesis by (auto simp: fg_waits_def)
        qed simp
        then show ?thesis using fg_tells [OF inv b, of d t y] old R R' True by simp
      qed
    next
      case xt: False
      then have x: "25 \<le> gR s x" "gV ?s x = gV s x" using R' O [of x] fg_valid_frame [of x t s c sd] by simp_all
      have "fg_waits s y \<or> \<not> gV s x"
      proof (cases "y = t")
        case True
        have "gd_ticket_valid (g_desc s (the (gP s t))) = gd_ticket_valid (g_desc s x)"
          using cohort_prev [OF q old] True by simp
        then show ?thesis using w' x(2) fg_rank_wait [of c sd t s] True by auto
      next
        case False
        then show ?thesis using w' x(2) O [of y] by (auto simp: fg_waits_def)
      qed
      then show ?thesis using told fg_liveD(1) [OF v old x(1)] by blast
    qed
  qed
qed

lemma fg_heads_step:
  assumes inv: "fg_inv c sd s g" and b: "budgets_ok c" and v: "fg_live sd s g"
  shows "fg_heads sd (fg_step c sd t s) (gg_queue (fg_gstep sd t s g))"
  unfolding fg_heads_def
proof (intro allI impI)
  fix u
  let ?s = "fg_step c sd t s" and ?Q = "gg_queue g"
  assume R': "gR ?s u = 5" and hd': "u = hd (gg_queue (fg_gstep sd t s g) (sd u))"
  note q = fg_invD(1) [OF inv]
  show "gB ?s u \<noteq> - 1"
  proof (cases "u = t")
    case True
    then have "gR s t = 4 \<or> fg_step c sd t s = s \<and> gR s t = 5"
      using R' by (cases "g_at s t"; cases "sd t") (auto simp: fg_defs fg_await_def split: if_splits)
    moreover have "gR s t = 4 \<Longrightarrow> t \<noteq> hd (?Q (sd t))" using cohort_not_head [OF q, of t] by (simp add: fg_stage_def)
    moreover have "gg_queue (fg_gstep sd t s g) = ?Q" if "gR s t = 4 \<or> gR s t = 5"
      using that by (auto simp: fg_gstep_def fg_enqueues_def fg_dequeues_def)
    ultimately show ?thesis using hd' True fg_liveD(2) [OF v, of t] by auto
  next
    case False
    then have R: "gR s u = 5" using R' fg_thr_other [of u t c sd s] by simp
    then have uq: "u \<in> set (?Q (sd u))" using cohort_mem [OF q, of u "sd u"] by simp
    have "gB s u \<noteq> - 1"
    proof (cases "u = hd (?Q (sd u))")
      case True
      then show ?thesis using fg_liveD(2) [OF v R] by simp
    next
      case nh: False
      then have deq: "fg_dequeues sd s t" "sd t = sd u" "hd (tl (?Q (sd u))) = u"
        using hd' uq by (auto simp: fg_gstep_def hd_append split: if_splits)
      then have "29 \<le> gR s t" by (auto simp: fg_dequeues_def)
      then have "t = hd (?Q (sd u))" using cohort_head [OF q, of t] deq(2) by simp
      moreover have "tl (?Q (sd u)) \<noteq> []" using uq nh by (cases "?Q (sd u)") auto
      ultimately have "adj (?Q (sd u)) t u" using deq(3) uq by (cases "?Q (sd u)") (auto simp: adj_Cons)
      then show ?thesis using fg_liveD(1) [OF v, of "sd u" t u] \<open>29 \<le> gR s t\<close> R by (simp add: fg_waits_def)
    qed
    then show ?thesis using fg_told_mono [OF inv b, of u t] R by simp
  qed
qed

lemma fg_linked_step:
  assumes inv: "fg_inv c sd s g" and v: "fg_live sd s g"
  shows "fg_linked (fg_step c sd t s)"
  unfolding fg_linked_def
proof (intro allI conjI impI)
  fix u
  let ?s = "fg_step c sd t s"
  note o = fg_invD(2) [OF inv, of t]
  show "gN ?s u \<noteq> None" if R': "25 \<le> gR ?s u" and V': "\<not> gV ?s u"
  proof (cases "u = t \<and> \<not> 25 \<le> gR s t")
    case True
    then have R: "gR s t \<in> {18, 23, 24}" using fg_rank_late [of c sd t s] R' by simp
    moreover have "\<not> (gR s t = 23 \<or> gR s t = 24)"
      using fg_own_valid [OF o] fg_valid_frame [of t t s c sd] V' True by auto
    ultimately have "gR s t = 18" by blast
    then show ?thesis using fg_next_frame [of s u t c sd] fg_own_next [OF o] True by simp
  next
    case False
    then have "25 \<le> gR s u" "gV ?s u = gV s u"
      using R' fg_thr_other [of u t c sd s] fg_valid_frame [of u t s c sd] by (cases "u = t"; simp)+
    then have "gN s u \<noteq> None" "u \<noteq> t \<or> 1 \<le> gR s t" using fg_liveD(3) [OF v, of u] V' by (simp, cases "u = t") auto
    then show ?thesis by (rule fg_next_frame)
  qed
  show "gP ?s u \<noteq> None" if R': "gR ?s u = 25"
  proof (cases "u = t")
    case True
    have "gR s t = 25 \<or> gR s t \<in> {18, 23, 24}" using R' True fg_rank_late [of c sd t s]
      by (cases "g_at s t"; cases "sd t") (auto simp: fg_defs split: if_splits)
    then have at: "g_at s t \<in> {GAwaitPred, GPassBudget, GReloadNext, GSignal}" by (cases "g_at s t") auto
    then have P: "gP ?s t = gP s t" by (elim insertE emptyE; cases "sd t"; simp add: fg_defs)
    show ?thesis
    proof (cases "g_at s t = GAwaitPred")
      case aw: True
      then show ?thesis using fg_liveD(4) [OF v, of t] P True by simp
    next
      case False
      then have "g_at ?s t = fg_await (g_thr s t) \<or> g_at ?s t = GSignal" using at fg_pc_await [of s t c sd] by auto
      then have "fg_rank (fg_await (g_thr s t)) = 25" using R' True by auto
      then have "gP s t \<noteq> None" by (auto simp: fg_await_def split: if_splits)
      then show ?thesis using P True by simp
    qed
  next
    case False
    then show ?thesis using fg_liveD(4) [OF v, of u] R' fg_thr_other [of u t c sd s] by simp
  qed
qed

text \<open>Behind a thread that still takes part in Peterson's algorithm nobody has a ticket.\<close>

lemma fg_inline_active: "fg_inline c sd s t \<Longrightarrow> fg_active s t"
  by (auto simp: fg_inline_def fg_fol_def fg_active_def)

lemma fg_behind_inactive:
  assumes inv: "fg_inv c sd s g" and bef: "before (gg_queue g d) t u" and R: "gR s t \<le> 22"
  shows "\<not> fg_inline c sd s u"
proof
  assume "fg_inline c sd s u"
  then have "fg_active s u" by (rule fg_inline_active)
  moreover have "fg_active s x \<and> 23 \<le> gR s x" if "adj (gg_queue g d) x y" "fg_active s y" for x y
  proof -
    have "23 \<le> gR s x" using fg_invD(3) [OF inv that(1)] that(2) unfolding fg_adj_def by blast
    then show ?thesis by (simp add: fg_active_def)
  qed
  ultimately have "23 \<le> gR s t"
    by (intro before_chain [of "gg_queue g d" "fg_active s" "\<lambda>x. 23 \<le> gR s x" t u] bef)
  with R show False by simp
qed

lemma fg_order_snoc:
  assumes "fg_order Q l" and "\<And>d b. before (Q d) x b \<Longrightarrow> b \<notin> set (l @ [x])"
  shows "fg_order Q (l @ [x])"
  unfolding fg_order_def
proof (intro allI impI)
  show "before (l @ [x]) a b" if "before (Q d) a b" "a \<in> set (l @ [x])" "b \<in> set (l @ [x])" for d a b
    using assms(1) assms(2) [of d b] that by (cases "a = x") (auto simp: fg_order_def before_snoc)
qed

lemma fg_order_step:
  assumes inv: "fg_inv c sd s g" and v: "fg_live sd s g"
  shows "fg_order (gg_queue (fg_gstep sd t s g)) (gg_line (fg_gstep sd t s g))"
proof -
  note q = fg_invD(1) [OF inv] and L = fg_linesD [OF fg_invD(5) [OF inv]]
  let ?Q = "gg_queue g" and ?l = "gg_line g"
  have o: "fg_order ?Q ?l" using v by (simp add: fg_live_def)
  have dist: "distinct (?Q d)" for d by (rule cohort_distinct [OF q])
  have snoc: "fg_order ?Q (?l @ [x])" if "gR s x \<le> 22" for x
  proof (rule fg_order_snoc [OF o])
    show "b \<notin> set (?l @ [x])" if "before (?Q d) x b" for d b
      using fg_behind_inactive [OF inv that \<open>gR s x \<le> 22\<close>] L(2) [of b] before_neq [OF dist that] by auto
  qed
  consider (line) "fg_draws sd s t \<or> g_at s t = GPassBudget" | (crit) "g_at s t = GCritical"
    | (enq) "fg_enqueues sd s t" | (deq) "fg_dequeues sd s t"
    | (quiet) "\<not> fg_draws sd s t" "g_at s t \<noteq> GPassBudget" "g_at s t \<noteq> GCritical" "\<not> fg_enqueues sd s t" "\<not> fg_dequeues sd s t"
    by blast
  then show ?thesis
  proof cases
    case line
    then have nq: "\<not> fg_enqueues sd s t" "\<not> fg_dequeues sd s t"
      by (auto simp: fg_draws_def fg_enqueues_def fg_dequeues_def split: if_splits)
    show ?thesis
    proof (cases "fg_draws sd s t")
      case True
      then have "gR s t \<le> 22" by (auto simp: fg_draws_def split: if_splits)
      then show ?thesis using True nq snoc by (simp add: fg_gstep_def)
    next
      case False
      then have at: "g_at s t = GPassBudget" using line by blast
      obtain n where n: "gN s t = Some n" using fg_own_next [OF fg_invD(2) [OF inv], of t] at by auto
      have "gR s n \<le> 22" using fg_behind(3) [OF inv n] at by simp
      then show ?thesis using False at n nq snoc by (simp add: fg_gstep_def)
    qed
  next
    case crit
    then have "gg_queue (fg_gstep sd t s g) = ?Q" "gg_line (fg_gstep sd t s g) = tl ?l"
      by (simp_all add: fg_gstep_def fg_enqueues_def fg_dequeues_def fg_draws_def)
    moreover have "fg_order ?Q (tl ?l)"
      unfolding fg_order_def
    proof (intro allI impI)
      show "before (tl ?l) a b" if "before (?Q d) a b" "a \<in> set (tl ?l)" "b \<in> set (tl ?l)" for d a b
        using fg_liveD(5) [OF v that(1)] tl_line [OF L(1)] that(2,3) by (intro before_tl) auto
    qed
    ultimately show ?thesis by simp
  next
    case enq
    then have at: "g_at s t = GSwap" by (simp add: fg_enqueues_def)
    have "t \<notin> set ?l" using L(2) [of t] at fg_inline_low [of s t c sd] by simp
    then have "fg_order (?Q(sd t := ?Q (sd t) @ [t])) ?l"
      using o by (auto simp: fg_order_def before_snoc split: if_splits)
    then show ?thesis using enq at by (simp add: fg_gstep_def fg_draws_def)
  next
    case deq
    have "before (?Q d) a b" if "before (tl (?Q d)) a b" for d a b using that by (cases "?Q d") auto
    then have "fg_order (?Q(sd t := tl (?Q (sd t)))) ?l"
      using o unfolding fg_order_def by (metis fun_upd_apply)
    moreover have "gg_line (fg_gstep sd t s g) = ?l" "\<not> fg_enqueues sd s t"
      using deq by (auto simp: fg_gstep_def fg_dequeues_def fg_draws_def fg_enqueues_def)
    ultimately show ?thesis using deq by (simp add: fg_gstep_def)
  next
    case quiet
    then show ?thesis using o by (simp add: fg_gstep_def)
  qed
qed

lemma fg_live_step:
  assumes "fg_inv c sd s g" and "budgets_ok c" and "fg_live sd s g"
  shows "fg_live sd (fg_step c sd t s) (fg_gstep sd t s g)"
  using fg_told_step [OF assms] fg_heads_step [OF assms] fg_linked_step [OF assms(1,3)] fg_order_step [OF assms(1,3)]
  by (simp add: fg_live_def)

end
