(* ===== verification/FARLockGProgress.thy ===== *)
theory FARLockGProgress
  imports FARLockGLive
begin

text \<open>
  In every reachable state of FARLockG with an active thread some active thread can advance on its own;
  hence the active threads can always finish.
\<close>

section \<open>Some thread is not waiting\<close>

definition fg_pet_free :: "(tid \<Rightarrow> side) \<Rightarrow> fg_state \<Rightarrow> tid \<Rightarrow> bool" where
  "fg_pet_free sd s t \<longleftrightarrow> (if sd t = Local
     then gl_remote_flag (g_lock s) \<noteq> kTrue \<or> gl_victim (g_lock s) \<noteq> kLocalVictim
     else gl_local_flag (g_lock s) \<noteq> kTrue \<or> gl_victim (g_lock s) \<noteq> kRemoteVictim)"

definition fg_ready :: "(tid \<Rightarrow> side) \<Rightarrow> fg_state \<Rightarrow> tid \<Rightarrow> bool" where
  "fg_ready sd s t \<longleftrightarrow> g_at s t \<noteq> GIdle \<and> \<not> fg_spins s t \<and>
     (g_at s t = GPetReadA \<or> g_at s t = GPetReadB \<longrightarrow> fg_pet_free sd s t)"

lemma fg_rank_ready:
  assumes "gR s t \<noteq> 0" and "gR s t \<notin> {5, 11, 12, 25, 26, 31}"
  shows "fg_ready sd s t"
  using assms by (cases "g_at s t") (auto simp: fg_ready_def fg_spins_def)

text \<open>A thread that waits to release its successor waits for one that is about to do so.\<close>

lemma fg_ready_release:
  assumes inv: "fg_inv c sd s g" and R: "29 \<le> gR s t"
  shows "\<exists>u. fg_ready sd s u"
proof (cases "gR s t = 31 \<and> gd_releasable (g_desc s t) \<noteq> kTrue")
  case True
  note q = fg_invD(1) [OF inv]
  have "t \<in> set (gg_queue g (sd t))" "t \<noteq> last (gg_queue g (sd t))"
    using cohort_mem [OF q, of t "sd t"] cohort_not_last [OF q, of t] True by (simp_all add: fg_stage_def)
  then obtain b where adj: "adj (gg_queue g (sd t)) t b" using adj_ex_right by metis
  have "gR s b < 5" using cohort_rel [OF q adj] True by simp
  moreover have "2 \<le> gR s b" by (rule fg_neighbours(5) [OF inv adj])
  ultimately have "fg_ready sd s b" by (intro fg_rank_ready) auto
  then show ?thesis by blast
next
  case False
  then have "fg_ready sd s t" using R by (cases "g_at s t") (auto simp: fg_ready_def fg_spins_def)
  then show ?thesis by blast
qed

text \<open>The first thread in line, or the head of its queue, can move.\<close>

lemma fg_ready_line:
  assumes inv: "fg_inv c sd s g" and v: "fg_live sd s g" and line: "gg_line g \<noteq> []"
  shows "\<exists>u. fg_ready sd s u"
proof -
  note q = fg_invD(1) [OF inv] and L = fg_linesD [OF fg_invD(5) [OF inv]]
  define h where "h = hd (gg_line g)"
  have hl: "h \<in> set (gg_line g)" using line by (simp add: h_def)
  then have I: "fg_inline c sd s h" using L(2) by blast
  have cur: "fg_tk s h = gl_current_ticket (g_lock s)" using batch_line_hd [OF L(3) line] by (simp add: h_def)
  consider (fol) "gR s h \<le> 7" "fg_fol c sd s h" | (pred) "gR s h = 25" | (ticket) "gR s h = 26"
    | (other) "15 \<le> gR s h" "gR s h \<notin> {25, 26}" "gR s h \<le> 28" using I by (auto simp: fg_inline_def)
  then show ?thesis
  proof cases
    case fol
    then have "fg_ready sd s h" by (cases "g_at s h") (auto simp: fg_ready_def fg_spins_def fg_fol_def)
    then show ?thesis by blast
  next
    case ticket
    then have "gT s h = gl_current_ticket (g_lock s)" using cur by (simp add: fg_tk_def)
    then have "fg_ready sd s h" using ticket by (cases "g_at s h") (auto simp: fg_ready_def fg_spins_def)
    then show ?thesis by blast
  next
    case other
    then have "fg_ready sd s h" by (intro fg_rank_ready) auto
    then show ?thesis by blast
  next
    case pred
    show ?thesis
    proof (cases "gd_granted (g_desc s h) = kTrue")
      case True
      then have "fg_ready sd s h" using pred by (cases "g_at s h") (auto simp: fg_ready_def fg_spins_def)
      then show ?thesis by blast
    next
      case False
      let ?p = "hd (gg_queue g (sd h))"
      have "h \<noteq> ?p" using cohort_granted [OF q, of h] fg_liveD(4) [OF v pred] pred False by simp
      moreover have "h \<in> set (gg_queue g (sd h))" using cohort_mem [OF q, of h "sd h"] pred by simp
      ultimately have b: "before (gg_queue g (sd h)) ?p h" by (intro before_hd)
      have "\<not> gR s ?p \<le> 22" using fg_behind_inactive [OF inv b] I by blast
      moreover have "?p \<notin> set (gg_line g)"
      proof
        assume "?p \<in> set (gg_line g)"
        then have "before (gg_line g) ?p h" using fg_liveD(5) [OF v b] hl by blast
        then show False using before_not_hd [OF L(1)] by (metis h_def)
      qed
      ultimately have "29 \<le> gR s ?p" using L(2) [of ?p] by (auto simp: fg_inline_def)
      then show ?thesis by (rule fg_ready_release [OF inv])
    qed
  qed
qed

text \<open>Of two threads in Peterson's algorithm one can move: there is only one victim.\<close>

lemma fg_flag_other:
  assumes "fg_pet c sd s" and "if d = Local then gl_local_flag (g_lock s) = kTrue else gl_remote_flag (g_lock s) = kTrue"
  shows "\<exists>u. sd u = d \<and> fg_ph c sd s u \<noteq> Out"
proof -
  obtain pl pr b where p: "side_phase sd (fg_ph c sd s) Local pl" "side_phase sd (fg_ph c sd s) Remote pr"
      "pet_core pl pr b (gl_local_flag (g_lock s)) (gl_remote_flag (g_lock s)) (gl_victim (g_lock s))"
    using assms(1) by (auto simp: fg_pet_def pet_ok_def)
  show ?thesis
  proof (cases d)
    case Local
    then have "pl \<noteq> Out" using core_flags(1) [OF p(3)] assms(2) by auto
    then show ?thesis using side_phase_Out_iff [OF p(1)] Local by auto
  next
    case Remote
    then have "pr \<noteq> Out" using core_flags(2) [OF p(3)] assms(2) by auto
    then show ?thesis using side_phase_Out_iff [OF p(2)] Remote by auto
  qed
qed

lemma fg_ready_peterson:
  assumes inv: "fg_inv c sd s g" and line: "gg_line g = []" and t: "gR s t = 11 \<or> gR s t = 12"
  shows "\<exists>u. fg_ready sd s u"
proof (cases "fg_pet_free sd s t")
  case True
  then have "fg_ready sd s t" using t by (cases "g_at s t") (auto simp: fg_ready_def fg_spins_def)
  then show ?thesis by blast
next
  case False
  let ?d = "if sd t = Local then Remote else Local"
  obtain u where u: "sd u = ?d" "fg_ph c sd s u \<noteq> Out"
    using fg_flag_other [OF fg_invD(4) [OF inv], of ?d] False by (auto simp: fg_pet_free_def split: if_splits)
  have "\<not> fg_inline c sd s u" using fg_linesD(2) [OF fg_invD(5) [OF inv], of u] line by simp
  then have "10 \<le> gR s u \<and> gR s u \<le> 14"
    using u(2) fg_phase_rank [of "g_at s u"] by (auto simp: fg_ph_def fg_inline_def split: if_splits)
  moreover have "fg_pet_free sd s u" using False u(1) by (auto simp: fg_pet_free_def split: if_splits)
  ultimately have "fg_ready sd s u" by (cases "g_at s u") (auto simp: fg_ready_def fg_spins_def)
  then show ?thesis by blast
qed

lemma fg_ready_exists:
  assumes inv: "fg_inv c sd s g" and v: "fg_live sd s g" and act: "g_at s t \<noteq> GIdle"
  shows "\<exists>u. fg_ready sd s u"
proof (cases "gg_line g = []")
  case False
  then show ?thesis by (rule fg_ready_line [OF inv v])
next
  case line: True
  note q = fg_invD(1) [OF inv]
  have no: "\<not> (15 \<le> gR s u \<and> gR s u \<le> 28)" for u
    using fg_linesD(2) [OF fg_invD(5) [OF inv], of u] line by (simp add: fg_inline_def)
  have others: "\<exists>u. fg_ready sd s u" if a: "gR s u \<noteq> 0" "gR s u \<noteq> 5" for u
  proof -
    consider "gR s u \<notin> {5, 11, 12, 25, 26, 31}" | "gR s u = 11 \<or> gR s u = 12" | "29 \<le> gR s u"
      using no [of u] a by (cases "g_at s u") auto
    then show ?thesis
    proof cases
      case 1
      then show ?thesis using fg_rank_ready [OF a(1), of sd] by auto
    next
      case 2
      then show ?thesis by (rule fg_ready_peterson [OF inv line])
    next
      case 3
      then show ?thesis by (rule fg_ready_release [OF inv])
    qed
  qed
  have t0: "gR s t \<noteq> 0" using act by (cases "g_at s t") auto
  show ?thesis
  proof (cases "gR s t = 5")
    case False
    then show ?thesis using others t0 by blast
  next
    case True
    let ?h = "hd (gg_queue g (sd t))"
    have "t \<in> set (gg_queue g (sd t))" using cohort_mem [OF q, of t "sd t"] True by simp
    then have "?h \<in> set (gg_queue g (sd t))" by (intro hd_in_line) auto
    then have h: "sd ?h = sd t" "2 \<le> gR s ?h" using cohort_mem [OF q, of ?h "sd t"] by auto
    show ?thesis
    proof (cases "gR s ?h = 5")
      case True
      then have "gB s ?h \<noteq> - 1" using fg_liveD(2) [OF v True] h(1) by simp
      with True have "fg_ready sd s ?h" by (cases "g_at s ?h") (auto simp: fg_ready_def fg_spins_def)
      then show ?thesis by blast
    next
      case False
      then show ?thesis using others [of ?h] h(2) by auto
    qed
  qed
qed

section \<open>Draining the lock\<close>

definition fg_ok :: "LockConfig \<Rightarrow> (tid \<Rightarrow> side) \<Rightarrow> fg_state \<Rightarrow> fg_ghost \<Rightarrow> bool" where
  "fg_ok c sd s g \<longleftrightarrow> fg_inv c sd s g \<and> fg_live sd s g \<and> budgets_ok c"

definition fg_rest :: "fg_state \<Rightarrow> tid \<Rightarrow> nat" where
  "fg_rest s t = (if gR s t = 0 then 0 else 33 - gR s t)"

lemma fg_rank_le: "fg_rank p \<le> 32"
  by (cases p) auto

lemma fg_rest_0 [simp]: "fg_rest s t = 0 \<longleftrightarrow> g_at s t = GIdle"
  using fg_rank_le [of "g_at s t"] by (cases "g_at s t") (auto simp: fg_rest_def)

lemma fg_rest_less:
  assumes "g_at s t \<noteq> GIdle" and "gR s t < gR s' t \<or> g_at s' t = GIdle"
  shows "fg_rest s' t < fg_rest s t"
proof -
  have "gR s t \<noteq> 0" using assms(1) by (cases "g_at s t") auto
  then show ?thesis using assms(2) fg_rank_le [of "g_at s t"] fg_rank_le [of "g_at s' t"] by (auto simp: fg_rest_def)
qed

abbreviation fg_solo ::
  "LockConfig \<Rightarrow> (tid \<Rightarrow> side) \<Rightarrow> tid \<Rightarrow> fg_state \<Rightarrow> fg_ghost \<Rightarrow> fg_state \<Rightarrow> fg_ghost \<Rightarrow> bool" where
  "fg_solo c sd \<equiv> solo (fg_step c sd) (fg_gstep sd) fg_rest"

lemma fg_step_up:
  assumes inv: "fg_inv c sd s g" and b: "budgets_ok c" and "\<not> fg_spins s t"
    and n: "g_at s t \<notin> {GIdle, GSwap, GPetReadA, GPetReadB}"
  shows "gR s t < gR (fg_step c sd t s) t \<or> g_at (fg_step c sd t s) t = GIdle"
proof -
  have aw: "fg_await (g_thr s t) = GAwaitPred \<or> fg_await (g_thr s t) = GAwaitTicket" if "15 \<le> gR s t"
    using fg_await_rank(1) [OF inv that] by simp
  have put: "g_at s t = GPut \<Longrightarrow> sd t = Remote" using fg_invD(2) [OF inv, of t] by (auto simp: fg_own_def)
  have load: "g_at s t = GLoadBudget \<Longrightarrow> gB s t \<noteq> 0" using fg_budget(1) [OF inv b, of t] by simp
  consider (aw) "g_at s t \<in> {GPassBudget, GReloadNext, GSignal}" | (put) "g_at s t = GPut" | (load) "g_at s t = GLoadBudget"
    | (plain) "g_at s t \<notin> {GPassBudget, GReloadNext, GSignal, GPut, GLoadBudget}" by blast
  then show ?thesis
  proof cases
    case aw
    then show ?thesis using fg_pc_await [of s t c sd] \<open>15 \<le> gR s t \<Longrightarrow> _\<close> by auto
  next
    case put
    then show ?thesis using \<open>g_at s t = GPut \<Longrightarrow> _\<close> by (simp add: fg_defs)
  next
    case load
    then show ?thesis using \<open>g_at s t = GLoadBudget \<Longrightarrow> _\<close> by (cases "sd t") (simp_all add: fg_defs)
  next
    case plain
    then show ?thesis using assms(3) n by (cases "g_at s t"; cases "sd t") (simp_all add: fg_defs fg_spins_def)
  qed
qed

lemma fg_swap_up:
  assumes at: "g_at s t = GSwap"
  shows "\<exists>s' g'. fg_solo c sd t s g s' g' \<and> gR s t < gR s' t"
proof (cases "fg_enqueues sd s t")
  case True
  have "gR s t < gR (fg_step c sd t s) t" using at by (simp add: geff_Swap(3) [OF at True])
  moreover have "fg_solo c sd t s g (fg_step c sd t s) (fg_gstep sd t s g)" by (rule solo_once) (simp add: at)
  ultimately show ?thesis by blast
next
  case False
  note E = geff_Swap_retry [where sd = sd, OF at False]
  let ?s = "fg_step c sd t s"
  have at': "g_at ?s t = GSwap" using at by (simp add: E)
  have "fg_enqueues sd ?s t" using at' by (simp add: fg_enqueues_def E)
  then have "gR s t < gR (fg_step c sd t ?s) t" using at by (simp add: geff_Swap(3) [OF at'])
  moreover have "fg_solo c sd t s g (fg_step c sd t ?s) (fg_gstep sd t ?s (fg_gstep sd t s g))"
    by (rule solo_twice) (use at at' in simp_all)
  ultimately show ?thesis by blast
qed

text \<open>A free participant leaves Peterson's algorithm within one polling round of its own.\<close>

lemma fg_ReadA_up:
  assumes at: "g_at s t = GPetReadA" and free: "fg_pet_free sd s t"
  shows "\<exists>s' g'. fg_solo c sd t s g s' g' \<and> g_at s' t = GTake"
proof (cases "g_at (fg_step c sd t s) t = GTake")
  case True
  moreover have "fg_solo c sd t s g (fg_step c sd t s) (fg_gstep sd t s g)" by (rule solo_once) (simp add: at)
  ultimately show ?thesis by blast
next
  case False
  let ?s = "fg_step c sd t s"
  have at': "g_at ?s t = GPetReadB" using at False by (cases "sd t") (auto simp: geff_PetReadA split: if_splits)
  have "g_at (fg_step c sd t ?s) t = GTake"
    using at at' free False
    by (cases "sd t") (auto simp: geff_PetReadB [OF at'] geff_PetReadA [OF at] fg_pet_free_def split: if_splits)
  moreover have "fg_solo c sd t s g (fg_step c sd t ?s) (fg_gstep sd t ?s (fg_gstep sd t s g))"
    by (rule solo_twice) (use at at' in simp_all)
  ultimately show ?thesis by blast
qed

lemma fg_peterson_up:
  assumes at: "g_at s t = GPetReadA \<or> g_at s t = GPetReadB" and free: "fg_pet_free sd s t"
  shows "\<exists>s' g'. fg_solo c sd t s g s' g' \<and> g_at s' t = GTake"
proof (cases "g_at s t = GPetReadA")
  case True
  then show ?thesis using fg_ReadA_up free by blast
next
  case False
  then have B: "g_at s t = GPetReadB" using at by blast
  let ?s = "fg_step c sd t s" and ?g = "fg_gstep sd t s g"
  have one: "fg_solo c sd t s g ?s ?g" by (rule solo_once) (simp add: B)
  show ?thesis
  proof (cases "g_at ?s t = GTake")
    case True
    then show ?thesis using one by blast
  next
    case False
    then have "g_at ?s t = GPetReadA" using B by (cases "sd t") (auto simp: geff_PetReadB split: if_splits)
    moreover have "fg_pet_free sd ?s t" using free unfolding fg_pet_free_def geff_PetReadB(1) [OF B] .
    ultimately obtain s' g' where s': "fg_solo c sd t ?s ?g s' g'" "g_at s' t = GTake" using fg_ReadA_up by blast
    show ?thesis using solo_trans [OF s'(1) one] s'(2) by blast
  qed
qed

lemma fg_ready_advance:
  assumes ok: "fg_ok c sd s g" and r: "fg_ready sd s t"
  shows "\<exists>s' g'. fg_solo c sd t s g s' g' \<and> (gR s t < gR s' t \<or> g_at s' t = GIdle)"
proof -
  have ok': "fg_inv c sd s g" "budgets_ok c" using ok by (simp_all add: fg_ok_def)
  consider (pet) "g_at s t = GPetReadA \<or> g_at s t = GPetReadB" | (swap) "g_at s t = GSwap"
    | (up) "g_at s t \<notin> {GIdle, GSwap, GPetReadA, GPetReadB}" using r by (auto simp: fg_ready_def)
  then show ?thesis
  proof cases
    case pet
    then have "fg_pet_free sd s t" using r by (auto simp: fg_ready_def)
    with pet obtain s' g' where "fg_solo c sd t s g s' g'" "g_at s' t = GTake" using fg_peterson_up by blast
    moreover have "gR s t < 13" using pet by auto
    ultimately show ?thesis by auto
  next
    case swap
    then show ?thesis using fg_swap_up by blast
  next
    case up
    then have "gR s t < gR (fg_step c sd t s) t \<or> g_at (fg_step c sd t s) t = GIdle"
      using r by (intro fg_step_up [OF ok']) (auto simp: fg_ready_def)
    moreover have "fg_solo c sd t s g (fg_step c sd t s) (fg_gstep sd t s g)" by (rule solo_once) (use up in auto)
    ultimately show ?thesis by blast
  qed
qed

interpretation fg_drain: draining "fg_step c sd" "fg_gstep sd" "fg_ok c sd" fg_rest for c sd
proof unfold_locales
  show "fg_ok c sd (fg_step c sd t s) (fg_gstep sd t s g)" if "fg_ok c sd s g" for s g t
    using fg_inv_step [of c sd s g t] fg_live_step [of c sd s g t] that by (simp add: fg_ok_def)
  show "fg_rest (fg_step c sd t s) u = fg_rest s u" if "u \<noteq> t" for s t u
    using that by (simp add: fg_rest_def fg_thr_other)
  show "\<exists>u s' g'. fg_rest s u \<noteq> 0 \<and> fg_solo c sd u s g s' g' \<and> fg_rest s' u < fg_rest s u"
    if ok: "fg_ok c sd s g" and t: "fg_rest s t \<noteq> 0" for s g t
  proof -
    have i: "fg_inv c sd s g" "fg_live sd s g" using ok by (simp_all add: fg_ok_def)
    obtain u where u: "fg_ready sd s u" using fg_ready_exists [OF i, of t] t by auto
    then have "g_at s u \<noteq> GIdle" by (simp add: fg_ready_def)
    then show ?thesis using fg_ready_advance [OF ok u] fg_rest_less by force
  qed
qed

interpretation fgd: lock_protocol "{t. budgets_ok c}" "fg_step c sd" fg_init "fg_gstep sd" fg_ginit
  "\<lambda>s g. fg_inv c sd s g \<and> fg_live sd s g" fg_hold for c sd
proof unfold_locales
  show "fg_inv c sd fg_init fg_ginit \<and> fg_live sd fg_init fg_ginit" using fg_inv_init fg_live_init by blast
  show "fg_inv c sd (fg_step c sd t s) (fg_gstep sd t s g) \<and> fg_live sd (fg_step c sd t s) (fg_gstep sd t s g)"
    if "fg_inv c sd s g \<and> fg_live sd s g" "t \<in> {t. budgets_ok c}" for s g t
    using fg_inv_step [of c sd s g t] fg_live_step [of c sd s g t] that by blast
  show "a = b" if "fg_inv c sd s g \<and> fg_live sd s g" "fg_hold s a" "fg_hold s b" for s g a b
    using fg_hold_line [of c sd s g a] fg_hold_line [of c sd s g b] that by simp
qed

text \<open>
  C12: Deadlock freedom of FARLockG with positive budgets: in every reachable state the threads that are
  inside \<open>Lock\<close>, the critical section or \<open>Unlock\<close> can be scheduled, they alone, so that all of them finish.
\<close>

theorem fg_deadlock_free:
  assumes "budgets_ok c" and "reachable (fg_step c sd) UNIV fg_init s"
  shows "\<exists>sched. set sched \<subseteq> {t. g_at s t \<noteq> GIdle} \<and> (\<forall>t. g_at (run (fg_step c sd) sched s) t = GIdle)"
proof -
  obtain g where "fg_inv c sd s g" "fg_live sd s g" using fgd.reachable_inv [of c sd s] assms by auto
  then have "fg_ok c sd s g" using assms(1) by (simp add: fg_ok_def)
  from fg_drain.drain [OF this] show ?thesis by simp
qed

theorem fg_deadlock_free_witness:
  defines "sd \<equiv> (\<lambda>t :: tid. if t = 3 then Remote else Local)"
    and "c \<equiv> \<lparr>local_budget = 2, remote_budget = 1\<rparr>"
    and "s \<equiv> run (fg_step \<lparr>local_budget = 2, remote_budget = 1\<rparr> (\<lambda>t. if t = 3 then Remote else Local))
      [1, 1, 1, 1, 1, 1, 1, 2, 2, 2, 3, 3, 3, 1, 1, 1, 1, 1, 1] fg_init"
  shows "fg_hold s 1 \<and> fg_fol c sd s 2 \<and>
    (\<exists>sched. set sched \<subseteq> {t. g_at s t \<noteq> GIdle} \<and> (\<forall>t. g_at (run (fg_step c sd) sched s) t = GIdle))"
proof (intro conjI)
  show "fg_hold s 1" unfolding s_def by code_simp
  show "fg_fol c sd s 2" unfolding s_def sd_def c_def by code_simp
  have "budgets_ok c" unfolding c_def by code_simp
  moreover have "reachable (fg_step c sd) UNIV fg_init s"
    unfolding sd_def c_def s_def by (rule reachable_run [OF _ reachable.start]) simp
  ultimately show "\<exists>sched. set sched \<subseteq> {t. g_at s t \<noteq> GIdle} \<and> (\<forall>t. g_at (run (fg_step c sd) sched s) t = GIdle)"
    by (rule fg_deadlock_free)
qed

end
