(* ===== verification/ALock.thy ===== *)
theory ALock
  imports LockCommon
begin

text \<open>
  The ALock of \<^verbatim>\<open>include/third_party/locks/a_lock.h\<close> with its wrapper
  \<^verbatim>\<open>include/locks/a_lock_wrap.h\<close>: one MCS queue per cohort, and Peterson's algorithm between the heads
  of the two queues, with the tail words as its flags.  A thread that leaves passes the lock to its
  successor together with its budget less one; a successor that receives the budget 0 goes through
  Peterson's algorithm again, which lets the other cohort in.

  A step of a thread is its next access to shared memory, with the granularity of the model of FARLock:
  accesses of the owning CPU and RDMA accesses interleave in any way, and RDMA atomics are not atomic
  with respect to those of the CPU.  The tails are only changed by one kind of access each, so their
  swaps are single steps; \<^verbatim>\<open>victim\<close> is changed by both, so the remote compare-and-swap on it is a read
  and, if it saw the expected value, a separate write.  The remote poll of the lock's cache line is one
  step per word it uses, in address order.
\<close>

section \<open>Data\<close>

definition LOCAL_VICTIM :: u64 where "LOCAL_VICTIM = 1"
definition REMOTE_VICTIM :: u64 where "REMOTE_VICTIM = 2"

lemma victims_distinct [simp]: "LOCAL_VICTIM \<noteq> REMOTE_VICTIM" "REMOTE_VICTIM \<noteq> LOCAL_VICTIM"
  by (simp_all add: LOCAL_VICTIM_def REMOTE_VICTIM_def)

text \<open>The local and the remote descriptor have the same fields; the budget is signed.\<close>

record ADescriptor =
  ad_budget :: u64
  ad_next :: "tid option"

record ALock =
  r_tail :: "tid option"
  l_tail :: "tid option"
  a_victim :: u64

datatype al_pc = AIdle | ASwap | ASetNext | AWaitBudget | ATestBudget | ASetBudget
  | APetVictim | APetPut | APetReadA | APetReadB | ARefill | ACritical
  | ACasTail | AWaitNext | APass | AClear

text \<open>
  A handle: its program counter, the local variable \<^verbatim>\<open>prev\<close> (\<^verbatim>\<open>prior_node\<close>), the values its
  \<^verbatim>\<open>AtomicSwap\<close> loops on the tail and on \<^verbatim>\<open>victim\<close> compare with, and the word \<^verbatim>\<open>l_tail\<close> of \<^verbatim>\<open>prealloc_\<close>.
\<close>

record ALockHandle =
  ah_pc :: al_pc
  ah_prev :: "tid option"
  ah_hint :: "tid option"
  ah_vhint :: u64
  ah_buf :: "tid option"

record al_state =
  al_lock :: ALock
  al_desc :: "tid \<Rightarrow> ADescriptor"
  al_thr :: "tid \<Rightarrow> ALockHandle"

definition al_init :: al_state where
  "al_init = \<lparr>al_lock = \<lparr>r_tail = None, l_tail = None, a_victim = 0\<rparr>,
     al_desc = (\<lambda>_. \<lparr>ad_budget = -1, ad_next = None\<rparr>),
     al_thr = (\<lambda>_. \<lparr>ah_pc = AIdle, ah_prev = None, ah_hint = None, ah_vhint = 0, ah_buf = None\<rparr>)\<rparr>"

abbreviation al_at :: "al_state \<Rightarrow> tid \<Rightarrow> al_pc" where
  "al_at s t \<equiv> ah_pc (al_thr s t)"

definition al_upd :: "tid \<Rightarrow> (ALockHandle \<Rightarrow> ALockHandle) \<Rightarrow> al_state \<Rightarrow> al_state" where
  [simp]: "al_upd t f s = s\<lparr>al_thr := (al_thr s)(t := f (al_thr s t))\<rparr>"

definition al_goto :: "al_pc \<Rightarrow> tid \<Rightarrow> al_state \<Rightarrow> al_state" where
  [simp]: "al_goto p t s = s\<lparr>al_thr := (al_thr s)(t := (al_thr s t)\<lparr>ah_pc := p\<rparr>)\<rparr>"

definition al_write :: "tid \<Rightarrow> (ADescriptor \<Rightarrow> ADescriptor) \<Rightarrow> al_state \<Rightarrow> al_state" where
  [simp]: "al_write d f s = s\<lparr>al_desc := (al_desc s)(d := f (al_desc s d))\<rparr>"

definition al_lockw :: "(ALock \<Rightarrow> ALock) \<Rightarrow> al_state \<Rightarrow> al_state" where
  [simp]: "al_lockw f s = s\<lparr>al_lock := f (al_lock s)\<rparr>"

text \<open>
  The wrapper hands the handle the budgets of the configuration, unsigned 32-bit numbers which become
  signed 64-bit ones.
\<close>

definition al_local_budget :: "LockConfig \<Rightarrow> u64" where
  "al_local_budget cfg = ucast (local_budget cfg)"

definition al_remote_budget :: "LockConfig \<Rightarrow> u64" where
  "al_remote_budget cfg = ucast (remote_budget cfg)"

section \<open>Peterson's algorithm\<close>

text \<open>
  Where Peterson's algorithm returns: \<^verbatim>\<open>Reacquire\<close> is called by a thread that was passed the lock, and
  the budget is refilled after it; the first thread of a queue calls it last.
\<close>

definition al_won :: "tid \<Rightarrow> al_state \<Rightarrow> al_state" where
  "al_won t s = al_goto (if ah_prev (al_thr s t) \<noteq> None then ARefill else ACritical) t s"

definition LocalPetersons :: "tid \<Rightarrow> al_state \<Rightarrow> al_state" where
  "LocalPetersons t s = (case al_at s t of
     APetVictim \<Rightarrow> al_goto APetReadA t (al_lockw (\<lambda>l. l\<lparr>a_victim := LOCAL_VICTIM\<rparr>) s)
   | APetReadA \<Rightarrow> if r_tail (al_lock s) = None then al_won t s else al_goto APetReadB t s
   | APetReadB \<Rightarrow> if a_victim (al_lock s) \<noteq> LOCAL_VICTIM then al_won t s else al_goto APetReadA t s
   | _ \<Rightarrow> s)"

definition RemotePetersons :: "tid \<Rightarrow> al_state \<Rightarrow> al_state" where
  "RemotePetersons t s = (case al_at s t of
     APetVictim \<Rightarrow>
       if a_victim (al_lock s) = ah_vhint (al_thr s t) then al_goto APetPut t s
       else al_upd t (\<lambda>h. h\<lparr>ah_vhint := a_victim (al_lock s)\<rparr>) s
   | APetPut \<Rightarrow> al_goto APetReadA t (al_lockw (\<lambda>l. l\<lparr>a_victim := REMOTE_VICTIM\<rparr>) s)
   | APetReadA \<Rightarrow> al_upd t (\<lambda>h. h\<lparr>ah_buf := l_tail (al_lock s), ah_pc := APetReadB\<rparr>) s
   | APetReadB \<Rightarrow>
       if ah_buf (al_thr s t) = None \<or> a_victim (al_lock s) \<noteq> REMOTE_VICTIM then al_won t s
       else al_goto APetReadA t s
   | _ \<Rightarrow> s)"

section \<open>The queues\<close>

text \<open>The start of Peterson's algorithm: \<^verbatim>\<open>AtomicSwap\<close> first compares with the hint 0.\<close>

definition al_compete :: "tid \<Rightarrow> al_state \<Rightarrow> al_state" where
  "al_compete t s = al_upd t (\<lambda>h. h\<lparr>ah_pc := APetVictim, ah_vhint := 0\<rparr>) s"

definition LockLocalMcsQueue :: "LockConfig \<Rightarrow> tid \<Rightarrow> al_state \<Rightarrow> al_state" where
  "LockLocalMcsQueue cfg t s = (case al_at s t of
     AIdle \<Rightarrow> al_goto ASwap t (al_write t (\<lambda>d. d\<lparr>ad_budget := -1, ad_next := None\<rparr>) s)
   | ASwap \<Rightarrow> al_upd t (\<lambda>h. h\<lparr>ah_prev := l_tail (al_lock s),
         ah_pc := (if l_tail (al_lock s) \<noteq> None then ASetNext else ASetBudget)\<rparr>)
       (al_lockw (\<lambda>l. l\<lparr>l_tail := Some t\<rparr>) s)
   | ASetNext \<Rightarrow> al_goto AWaitBudget t
       (al_write (the (ah_prev (al_thr s t))) (\<lambda>d. d\<lparr>ad_next := Some t\<rparr>) s)
   | AWaitBudget \<Rightarrow> if sint (ad_budget (al_desc s t)) < 0 then s else al_goto ATestBudget t s
   | ATestBudget \<Rightarrow> if ad_budget (al_desc s t) = 0 then al_compete t s else al_goto ACritical t s
   | ARefill \<Rightarrow> al_goto ACritical t (al_write t (\<lambda>d. d\<lparr>ad_budget := al_local_budget cfg\<rparr>) s)
   | ASetBudget \<Rightarrow> al_compete t (al_write t (\<lambda>d. d\<lparr>ad_budget := al_local_budget cfg\<rparr>) s)
   | _ \<Rightarrow> s)"

definition LockRemoteMcsQueue :: "LockConfig \<Rightarrow> tid \<Rightarrow> al_state \<Rightarrow> al_state" where
  "LockRemoteMcsQueue cfg t s = (case al_at s t of
     AIdle \<Rightarrow> al_upd t (\<lambda>h. h\<lparr>ah_pc := ASwap, ah_hint := None\<rparr>)
       (al_write t (\<lambda>d. d\<lparr>ad_budget := -1, ad_next := None\<rparr>) s)
   | ASwap \<Rightarrow>
       if r_tail (al_lock s) = ah_hint (al_thr s t) then
         al_upd t (\<lambda>h. h\<lparr>ah_prev := ah_hint h,
             ah_pc := (if ah_hint h \<noteq> None then ASetNext else ASetBudget)\<rparr>)
           (al_lockw (\<lambda>l. l\<lparr>r_tail := Some t\<rparr>) s)
       else al_upd t (\<lambda>h. h\<lparr>ah_hint := r_tail (al_lock s)\<rparr>) s
   | ASetNext \<Rightarrow> al_goto AWaitBudget t
       (al_write (the (ah_prev (al_thr s t))) (\<lambda>d. d\<lparr>ad_next := Some t\<rparr>) s)
   | AWaitBudget \<Rightarrow> if sint (ad_budget (al_desc s t)) < 0 then s else al_goto ATestBudget t s
   | ATestBudget \<Rightarrow> if ad_budget (al_desc s t) = 0 then al_compete t s else al_goto ACritical t s
   | ARefill \<Rightarrow> al_goto ACritical t (al_write t (\<lambda>d. d\<lparr>ad_budget := al_remote_budget cfg\<rparr>) s)
   | ASetBudget \<Rightarrow> al_compete t (al_write t (\<lambda>d. d\<lparr>ad_budget := al_remote_budget cfg\<rparr>) s)
   | _ \<Rightarrow> s)"

section \<open>Lock and Unlock\<close>

definition LocalLock :: "LockConfig \<Rightarrow> tid \<Rightarrow> al_state \<Rightarrow> al_state" where
  "LocalLock cfg t s =
     (if al_at s t \<in> {APetVictim, APetReadA, APetReadB} then LocalPetersons t s
      else LockLocalMcsQueue cfg t s)"

definition RemoteLock :: "LockConfig \<Rightarrow> tid \<Rightarrow> al_state \<Rightarrow> al_state" where
  "RemoteLock cfg t s =
     (if al_at s t \<in> {APetVictim, APetPut, APetReadA, APetReadB} then RemotePetersons t s
      else LockRemoteMcsQueue cfg t s)"

definition LocalUnlock :: "tid \<Rightarrow> al_state \<Rightarrow> al_state" where
  "LocalUnlock t s = (case al_at s t of
     ACritical \<Rightarrow> al_goto (if ad_next (al_desc s t) = None then ACasTail else APass) t s
   | ACasTail \<Rightarrow>
       if l_tail (al_lock s) = Some t then al_goto AIdle t (al_lockw (\<lambda>l. l\<lparr>l_tail := None\<rparr>) s)
       else al_goto AWaitNext t s
   | AWaitNext \<Rightarrow> if ad_next (al_desc s t) = None then s else al_goto APass t s
   | APass \<Rightarrow> al_goto AClear t (al_write (the (ad_next (al_desc s t)))
         (\<lambda>d. d\<lparr>ad_budget := ad_budget (al_desc s t) - 1\<rparr>) s)
   | AClear \<Rightarrow> al_goto AIdle t (al_write t (\<lambda>d. d\<lparr>ad_next := None\<rparr>) s)
   | _ \<Rightarrow> s)"

definition RemoteUnlock :: "tid \<Rightarrow> al_state \<Rightarrow> al_state" where
  "RemoteUnlock t s = (case al_at s t of
     ACritical \<Rightarrow>
       if r_tail (al_lock s) = Some t then al_goto AIdle t (al_lockw (\<lambda>l. l\<lparr>r_tail := None\<rparr>) s)
       else al_goto AWaitNext t s
   | AWaitNext \<Rightarrow> if ad_next (al_desc s t) = None then s else al_goto APass t s
   | APass \<Rightarrow> al_goto AIdle t (al_write (the (ad_next (al_desc s t)))
         (\<lambda>d. d\<lparr>ad_budget := ad_budget (al_desc s t) - 1\<rparr>) s)
   | _ \<Rightarrow> s)"

text \<open>
  \<open>sd t\<close> is the cohort of thread \<open>t\<close>, the outcome of \<^verbatim>\<open>local_clients_.contains(a_lock_pointer_.id())\<close>.
  A thread alternates \<open>Lock\<close> and \<open>Unlock\<close> forever.
\<close>

definition al_Lock :: "LockConfig \<Rightarrow> (tid \<Rightarrow> side) \<Rightarrow> tid \<Rightarrow> al_state \<Rightarrow> al_state" where
  "al_Lock cfg sd t s = (if sd t = Local then LocalLock cfg t s else RemoteLock cfg t s)"

definition al_Unlock :: "(tid \<Rightarrow> side) \<Rightarrow> tid \<Rightarrow> al_state \<Rightarrow> al_state" where
  "al_Unlock sd t s = (if sd t = Local then LocalUnlock t s else RemoteUnlock t s)"

definition al_step :: "LockConfig \<Rightarrow> (tid \<Rightarrow> side) \<Rightarrow> tid \<Rightarrow> al_state \<Rightarrow> al_state" where
  "al_step cfg sd t s =
     (if al_at s t \<in> {ACritical, ACasTail, AWaitNext, APass, AClear} then al_Unlock sd t s
      else al_Lock cfg sd t s)"

text \<open>The lock is held from the step that acquires it to the one that gives it up.\<close>

definition al_hold :: "al_state \<Rightarrow> tid \<Rightarrow> bool" where
  "al_hold s t \<longleftrightarrow> al_at s t \<in> {ACritical, ACasTail, AWaitNext, APass}"

text \<open>The successful swap of the tail.\<close>

definition al_enqueues :: "(tid \<Rightarrow> side) \<Rightarrow> al_state \<Rightarrow> tid \<Rightarrow> bool" where
  "al_enqueues sd s t \<longleftrightarrow> al_at s t = ASwap \<and>
     (sd t = Local \<or> r_tail (al_lock s) = ah_hint (al_thr s t))"

end
