(* ===== verification/ALockInv.thy ===== *)
theory ALockInv
  imports ALock Peterson
begin

text \<open>
  The invariant of the ALock.  The first part concerns the two MCS queues with the budgets, over the
  words they consist of (\<open>passing_ok\<close>); the second is Peterson's algorithm with the tails as flags
  (\<open>tail_core\<close>), where the head of a queue takes part for its cohort.  A successor that was handed the
  lock counts as inside until it finds its budget exhausted.
\<close>

section \<open>Queues with budgets\<close>

text \<open>
  Stages: 0 outside; 1 descriptor reset; 2 enqueued; 3 linked and waiting for a budget; from 4 at
  the head; 13 leaving and known not to be the last; 14 about to pass the lock on.
\<close>

fun al_rank :: "al_pc \<Rightarrow> nat" where
  "al_rank AIdle = 0"
| "al_rank AClear = 0"
| "al_rank ASwap = 1"
| "al_rank ASetNext = 2"
| "al_rank AWaitBudget = 3"
| "al_rank ATestBudget = 4"
| "al_rank ASetBudget = 5"
| "al_rank APetVictim = 6"
| "al_rank APetPut = 7"
| "al_rank APetReadA = 8"
| "al_rank APetReadB = 9"
| "al_rank ARefill = 10"
| "al_rank ACritical = 11"
| "al_rank ACasTail = 12"
| "al_rank AWaitNext = 13"
| "al_rank APass = 14"

record passing_view =
  pv_tail :: "side \<Rightarrow> tid option"
  pv_prev :: "tid \<Rightarrow> tid option"
  pv_next :: "tid \<Rightarrow> tid option"
  pv_budget :: "tid \<Rightarrow> u64"
  pv_stage :: "tid \<Rightarrow> nat"

definition passing_ok :: "(tid \<Rightarrow> side) \<Rightarrow> passing_view \<Rightarrow> (side \<Rightarrow> tid list) \<Rightarrow> bool" where
  "passing_ok sd v Q \<longleftrightarrow>
     (\<forall>d. mcs_shape (Q d) (pv_tail v d) (pv_prev v) (pv_next v) (\<lambda>t. 3 \<le> pv_stage v t)) \<and>
     (\<forall>d t. t \<in> set (Q d) \<longleftrightarrow> sd t = d \<and> 2 \<le> pv_stage v t) \<and>
     (\<forall>t. pv_stage v t = 1 \<longrightarrow> pv_next v t = None \<and> pv_budget v t = -1) \<and>
     (\<forall>t. 2 \<le> pv_stage v t \<longrightarrow> t \<noteq> hd (Q (sd t)) \<longrightarrow> pv_stage v t \<le> 3 \<and> pv_budget v t = -1) \<and>
     (\<forall>t. pv_stage v t = 2 \<longrightarrow> t \<noteq> hd (Q (sd t))) \<and>
     (\<forall>t. 13 \<le> pv_stage v t \<longrightarrow> t \<noteq> last (Q (sd t))) \<and>
     (\<forall>t. pv_stage v t = 14 \<longrightarrow> pv_next v t \<noteq> None)"

lemma passing_shape: "passing_ok sd v Q \<Longrightarrow>
    mcs_shape (Q d) (pv_tail v d) (pv_prev v) (pv_next v) (\<lambda>t. 3 \<le> pv_stage v t)"
  and passing_mem: "passing_ok sd v Q \<Longrightarrow> t \<in> set (Q d) \<longleftrightarrow> sd t = d \<and> 2 \<le> pv_stage v t"
  and passing_reset: "passing_ok sd v Q \<Longrightarrow> pv_stage v t = 1 \<Longrightarrow> pv_next v t = None \<and> pv_budget v t = -1"
  and passing_behind: "passing_ok sd v Q \<Longrightarrow> 2 \<le> pv_stage v t \<Longrightarrow> t \<noteq> hd (Q (sd t)) \<Longrightarrow>
    pv_stage v t \<le> 3 \<and> pv_budget v t = -1"
  and passing_unlinked: "passing_ok sd v Q \<Longrightarrow> pv_stage v t = 2 \<Longrightarrow> t \<noteq> hd (Q (sd t))"
  and passing_not_last: "passing_ok sd v Q \<Longrightarrow> 13 \<le> pv_stage v t \<Longrightarrow> t \<noteq> last (Q (sd t))"
  and passing_next: "passing_ok sd v Q \<Longrightarrow> pv_stage v t = 14 \<Longrightarrow> pv_next v t \<noteq> None"
  by (simp_all add: passing_ok_def)

lemma passing_distinct: "passing_ok sd v Q \<Longrightarrow> distinct (Q d)"
  using passing_shape mcs_shape_distinct by blast

lemma passing_head: "passing_ok sd v Q \<Longrightarrow> 4 \<le> pv_stage v t \<Longrightarrow> t = hd (Q (sd t))"
  using passing_behind [of sd v Q t] by fastforce

lemma passing_nonempty: "passing_ok sd v Q \<Longrightarrow> 2 \<le> pv_stage v t \<Longrightarrow> Q (sd t) \<noteq> []"
  using passing_mem [of sd v Q t "sd t"] by auto

lemma passing_tail: "passing_ok sd v Q \<Longrightarrow> pv_tail v d = (if Q d = [] then None else Some (last (Q d)))"
  using passing_shape by (fastforce simp: mcs_shape_def)

text \<open>The head moves on without touching the queue; only its own budget may change.\<close>

lemma passing_move:
  assumes ok: "passing_ok sd v Q" and t: "2 \<le> pv_stage v t" "t = hd (Q (sd t))" and r: "3 \<le> r"
    and "13 \<le> r \<Longrightarrow> t \<noteq> last (Q (sd t))" and "r = 14 \<Longrightarrow> pv_next v t \<noteq> None"
  shows "passing_ok sd (v\<lparr>pv_stage := (pv_stage v)(t := r), pv_budget := (pv_budget v)(t := b)\<rparr>) Q"
proof -
  have "3 \<le> pv_stage v t" using t passing_unlinked [OF ok, of t] by (cases "pv_stage v t = 2") auto
  then have "(\<lambda>u. 3 \<le> ((pv_stage v)(t := r)) u) = (\<lambda>u. 3 \<le> pv_stage v u)" using r by auto
  then show ?thesis
    using assms unfolding passing_ok_def by simp
qed

lemma passing_outside:
  assumes ok: "passing_ok sd v Q" and t: "pv_stage v t < 2" and "r < 2"
    and "r = 1 \<Longrightarrow> n = None \<and> b = -1"
  shows "passing_ok sd (v\<lparr>pv_stage := (pv_stage v)(t := r), pv_next := (pv_next v)(t := n),
    pv_budget := (pv_budget v)(t := b)\<rparr>) Q"
proof -
  have "t \<notin> set (Q d)" for d using passing_mem [OF ok] t by simp
  then have "mcs_shape (Q d) (pv_tail v d) (pv_prev v) ((pv_next v)(t := n))
      (\<lambda>u. 3 \<le> ((pv_stage v)(t := r)) u)" for d
    by (intro mcs_shape_cong [OF passing_shape [OF ok]]) auto
  then show ?thesis
    using assms unfolding passing_ok_def by simp
qed

lemma passing_enqueue:
  assumes ok: "passing_ok sd v Q" and t: "pv_stage v t = 1"
    and r: "r = (if pv_tail v (sd t) \<noteq> None then 2 else 5)"
  shows "passing_ok sd (v\<lparr>pv_tail := (pv_tail v)(sd t := Some t), pv_prev := (pv_prev v)(t := pv_tail v (sd t)),
      pv_stage := (pv_stage v)(t := r)\<rparr>) (Q(sd t := Q (sd t) @ [t]))"
    (is "passing_ok sd ?v ?Q")
proof -
  have out: "t \<notin> set (Q d)" for d using passing_mem [OF ok] t by simp
  have e: "Q (sd t) = [] \<longleftrightarrow> pv_tail v (sd t) = None" using passing_tail [OF ok, of "sd t"] by simp
  have sh: "mcs_shape (?Q d) (pv_tail ?v d) (pv_prev ?v) (pv_next ?v) (\<lambda>u. 3 \<le> pv_stage ?v u)" for d
  proof (cases "d = sd t")
    case True
    show ?thesis
    proof (cases "Q (sd t) = []")
      case True
      then show ?thesis using \<open>d = sd t\<close> e passing_reset [OF ok t] by (simp add: mcs_shape_def)
    next
      case False
      then have "mcs_shape (Q (sd t) @ [t]) (Some t) (pv_prev ?v) (pv_next ?v) (\<lambda>u. 3 \<le> pv_stage ?v u)"
        using passing_reset [OF ok t] r e out
        by (intro mcs_shape_enqueue [OF passing_shape [OF ok, of "sd t"] out]) auto
      then show ?thesis using True by simp
    qed
  next
    case False
    then show ?thesis using out by (auto intro!: mcs_shape_cong [OF passing_shape [OF ok, of d]])
  qed
  have hd: "hd (?Q d) = (if d = sd t \<and> Q d = [] then t else hd (Q d))" for d by simp
  have emp: "pv_stage v u < 2" if "Q (sd t) = []" "sd u = sd t" for u
    using passing_mem [OF ok, of u "sd t"] that by simp
  have th: "Q (sd t) \<noteq> [] \<Longrightarrow> hd (Q (sd t)) \<noteq> t" using out by (metis hd_in_line)
  have mem: "u \<in> set (?Q d) \<longleftrightarrow> sd u = d \<and> 2 \<le> pv_stage ?v u" for u d
    using passing_mem [OF ok, of u d] r t by auto
  show ?thesis
    unfolding passing_ok_def
  proof (intro conjI allI)
    fix u
    show "pv_stage ?v u = 1 \<longrightarrow> pv_next ?v u = None \<and> pv_budget ?v u = -1"
      using passing_reset [OF ok, of u] by (simp add: r)
    show "2 \<le> pv_stage ?v u \<longrightarrow> u \<noteq> hd (?Q (sd u)) \<longrightarrow> pv_stage ?v u \<le> 3 \<and> pv_budget ?v u = -1"
      using passing_behind [OF ok, of u] passing_reset [OF ok t] r e emp [of u] hd [of "sd u"] by (cases "u = t") auto
    show "pv_stage ?v u = 2 \<longrightarrow> u \<noteq> hd (?Q (sd u))"
      using passing_unlinked [OF ok, of u] r e th emp [of u] hd [of "sd u"] by (cases "u = t") auto
    show "13 \<le> pv_stage ?v u \<longrightarrow> u \<noteq> last (?Q (sd u))"
      using passing_not_last [OF ok, of u] by (auto simp: r)
    show "pv_stage ?v u = 14 \<longrightarrow> pv_next ?v u \<noteq> None"
      using passing_next [OF ok, of u] by (simp add: r)
  qed (use sh mem in auto)
qed

lemma passing_link:
  assumes ok: "passing_ok sd v Q" and t: "pv_stage v t = 2"
  obtains p where "pv_prev v t = Some p" and "p \<noteq> t" and
    "passing_ok sd (v\<lparr>pv_next := (pv_next v)(p := Some t), pv_stage := (pv_stage v)(t := 3)\<rparr>) Q"
proof -
  have tq: "t \<in> set (Q (sd t))" "t \<noteq> hd (Q (sd t))"
    using passing_mem [OF ok, of t "sd t"] passing_unlinked [OF ok t] t by auto
  obtain p where adj: "adj (Q (sd t)) p t" using adj_ex_left [OF tq] by blast
  note sh = passing_shape [OF ok, of "sd t"]
  have p: "pv_prev v t = Some p" using mcs_shape_prev [OF sh adj] .
  have pt: "p \<noteq> t" using adj_neq [OF mcs_shape_distinct [OF sh] adj] .
  have pq: "sd p = sd t" "2 \<le> pv_stage v p" using adj_setL [OF adj] passing_mem [OF ok, of p] by auto
  let ?v = "v\<lparr>pv_next := (pv_next v)(p := Some t), pv_stage := (pv_stage v)(t := 3)\<rparr>"
  have "mcs_shape (Q d) (pv_tail v d) (pv_prev v) (pv_next ?v) (\<lambda>u. 3 \<le> pv_stage ?v u)" for d
  proof (cases "d = sd t")
    case True
    then show ?thesis using pt by (auto intro!: mcs_shape_link [OF sh adj])
  next
    case False
    then have "t \<notin> set (Q d)" "p \<notin> set (Q d)" using passing_mem [OF ok] pq by auto
    then show ?thesis by (auto intro!: mcs_shape_cong [OF passing_shape [OF ok, of d]])
  qed
  moreover have "pv_stage v p = 1 \<Longrightarrow> False" using pq by simp
  ultimately have "passing_ok sd ?v Q"
    using ok t tq passing_behind [OF ok, of t] unfolding passing_ok_def by auto
  with p pt that show ?thesis by blast
qed

text \<open>The head leaves: alone, by resetting the tail, or by passing its place to its successor.\<close>

lemma passing_alone:
  assumes ok: "passing_ok sd v Q" and t: "4 \<le> pv_stage v t" and "pv_tail v (sd t) = Some t"
  shows "Q (sd t) = [t]"
    and "passing_ok sd (v\<lparr>pv_tail := (pv_tail v)(sd t := None), pv_stage := (pv_stage v)(t := 0)\<rparr>) (Q(sd t := []))"
proof -
  show q: "Q (sd t) = [t]"
    using passing_shape [OF ok, of "sd t"] assms(3) passing_head [OF ok t] mcs_shape_single by fastforce
  let ?v = "v\<lparr>pv_tail := (pv_tail v)(sd t := None), pv_stage := (pv_stage v)(t := 0)\<rparr>"
  have no: "pv_stage v u < 2" if "u \<noteq> t" "sd u = sd t" for u
    using passing_mem [OF ok, of u "sd t"] that q by simp
  have "mcs_shape ((Q(sd t := [])) d) (pv_tail ?v d) (pv_prev v) (pv_next v) (\<lambda>u. 3 \<le> pv_stage ?v u)" for d
  proof (cases "d = sd t")
    case False
    then have "t \<notin> set (Q d)" using passing_mem [OF ok] by auto
    with False show ?thesis by (auto intro!: mcs_shape_cong [OF passing_shape [OF ok, of d]])
  qed simp
  moreover have "u \<in> set ((Q(sd t := [])) d) \<longleftrightarrow> sd u = d \<and> 2 \<le> pv_stage ?v u" for u d
    using passing_mem [OF ok, of u d] no [of u] q by (cases "u = t"; cases "d = sd t") auto
  moreover have "2 \<le> pv_stage v u \<Longrightarrow> u \<noteq> t \<Longrightarrow> sd u \<noteq> sd t" for u using no [of u] by linarith
  ultimately show "passing_ok sd ?v (Q(sd t := []))"
    using ok unfolding passing_ok_def by simp
qed

lemma passing_pass:
  assumes ok: "passing_ok sd v Q" and t: "pv_stage v t = 14"
  obtains n where "pv_next v t = Some n" and "n \<noteq> t" and "sd n = sd t" and "pv_stage v n = 3"
    and "tl (Q (sd t)) \<noteq> []" and "hd (tl (Q (sd t))) = n"
    and "passing_ok sd (v\<lparr>pv_budget := (pv_budget v)(n := b), pv_stage := (pv_stage v)(t := 0)\<rparr>)
      (Q(sd t := tl (Q (sd t))))"
proof -
  let ?q = "Q (sd t)"
  note sh = passing_shape [OF ok, of "sd t"] and d = passing_distinct [OF ok, of "sd t"]
  have tq: "t \<in> set ?q" "t = hd ?q"
    using passing_mem [OF ok, of t "sd t"] passing_head [OF ok, of t] t by auto
  obtain n where n: "pv_next v t = Some n" using passing_next [OF ok t] by blast
  have adj: "adj ?q (hd ?q) n" and lk: "3 \<le> pv_stage v n"
    using mcs_shape_next_Some [OF sh tq(1) n] tq(2) by auto
  note h = mcs_shape_handover [OF sh adj]
  have nt: "n \<noteq> t" using adj_not_hd [OF d adj] tq(2) by simp
  have sn: "sd n = sd t" using adj_setR [OF adj] passing_mem [OF ok, of n] by simp
  have n3: "pv_stage v n = 3" using passing_behind [OF ok, of n] lk sn nt tq(2) by simp
  let ?v = "v\<lparr>pv_budget := (pv_budget v)(n := b), pv_stage := (pv_stage v)(t := 0)\<rparr>"
  let ?Q = "Q(sd t := tl ?q)"
  have mem: "u \<in> set (?Q e) \<longleftrightarrow> sd u = e \<and> 2 \<le> pv_stage ?v u" for u e
    using passing_mem [OF ok, of u e] tl_line [OF d, of u] tq(2) by auto
  have "mcs_shape (?Q e) (pv_tail ?v e) (pv_prev v) (pv_next v) (\<lambda>u. 3 \<le> pv_stage ?v u)" for e
  proof (cases "e = sd t")
    case True
    then show ?thesis using tl_line [OF d] tq(2) by (auto intro!: mcs_shape_cong [OF h(1)])
  next
    case False
    then have "t \<notin> set (Q e)" using passing_mem [OF ok] by auto
    with False show ?thesis by (auto intro!: mcs_shape_cong [OF passing_shape [OF ok, of e]])
  qed
  moreover have "last (tl ?q) = last ?q" using h(2) by (cases ?q) auto
  moreover have "pv_stage v u \<le> 3 \<and> pv_budget v u = -1" if "2 \<le> pv_stage v u" "u \<noteq> t" "sd u = sd t" for u
    using passing_behind [OF ok that(1)] that tq(2) by auto
  moreover have "pv_stage v u = 2 \<Longrightarrow> u \<noteq> n" for u using n3 by auto
  ultimately have "passing_ok sd ?v ?Q"
    using ok mem h(3) n3 sn unfolding passing_ok_def by (auto split: if_splits)
  then show ?thesis using that n nt sn n3 h(2,3) by blast
qed

section \<open>Peterson's algorithm over the tails\<close>

text \<open>
  \<open>pl\<close> and \<open>pr\<close> are the phases of the heads of the two queues, \<open>Out\<close> where the queue is empty; \<open>e\<close> says
  that the \<^verbatim>\<open>l_tail\<close> word in the remote head's buffer is null.
\<close>

definition tail_core :: "pet_phase \<Rightarrow> pet_phase \<Rightarrow> bool \<Rightarrow> u64 \<Rightarrow> bool" where
  "tail_core pl pr e v \<longleftrightarrow>
     (pl = In \<longrightarrow> pr \<noteq> In \<and> \<not> (pr = ReadB \<and> e)) \<and>
     (pl = In \<longrightarrow> pr = ReadA \<or> pr = ReadB \<longrightarrow> v = REMOTE_VICTIM) \<and>
     (pl = ReadA \<or> pl = ReadB \<longrightarrow> pr = In \<or> pr = ReadB \<and> e \<longrightarrow> v = LOCAL_VICTIM) \<and>
     (pl \<notin> {Out, Flagged} \<or> pr \<notin> {Out, Flagged} \<longrightarrow> v = LOCAL_VICTIM \<or> v = REMOTE_VICTIM)"

lemma tail_core_init: "tail_core Out Out e v"
  by (simp add: tail_core_def)

lemma tail_core_buf: "tail_core pl pr e v \<Longrightarrow> pr \<noteq> ReadB \<Longrightarrow> tail_core pl pr e' v"
  by (simp add: tail_core_def)

lemma tail_core_leave:
  "tail_core pl pr e v \<Longrightarrow> p \<in> {Out, Flagged} \<Longrightarrow> tail_core p pr e v"
  "tail_core pl pr e v \<Longrightarrow> p \<in> {Out, Flagged} \<Longrightarrow> tail_core pl p e' v"
  unfolding tail_core_def by (cases p; simp)+

lemma tail_core_victim:
  "tail_core Flagged pr e v \<Longrightarrow> tail_core ReadA pr e LOCAL_VICTIM"
  "tail_core pl Flagged e v \<Longrightarrow> tail_core pl ReadA e' REMOTE_VICTIM"
  by (auto simp: tail_core_def)

lemma tail_core_local_in:
  "tail_core ReadA Out e v \<Longrightarrow> tail_core In Out e v"
  "tail_core ReadA pr e v \<Longrightarrow> v \<noteq> LOCAL_VICTIM \<Longrightarrow> tail_core In pr e v"
  by (auto simp: tail_core_def)

lemma tail_core_local_poll: "tail_core ReadB pr e v \<longleftrightarrow> tail_core ReadA pr e v"
  by (simp add: tail_core_def)

lemma tail_core_remote_read: "tail_core pl ReadA e v \<Longrightarrow> tail_core pl ReadB (pl = Out) v"
  by (auto simp: tail_core_def)

lemma tail_core_remote_in:
  "tail_core pl ReadB e v \<Longrightarrow> e \<or> v \<noteq> REMOTE_VICTIM \<Longrightarrow> tail_core pl In e' v"
  by (cases e) (auto simp: tail_core_def)

lemma tail_core_remote_poll: "tail_core pl ReadB e v \<Longrightarrow> tail_core pl ReadA e' v"
  by (auto simp: tail_core_def)

lemma tail_core_exclusion: "\<not> tail_core In In e v"
  by (simp add: tail_core_def)

section \<open>The invariant\<close>

definition al_phase :: "nat \<Rightarrow> pet_phase" where
  "al_phase r = (if r \<in> {5, 6, 7} then Flagged else if r = 8 then ReadA else if r = 9 then ReadB else In)"

definition al_tail :: "side \<Rightarrow> ALock \<Rightarrow> tid option" where
  "al_tail d l = (case d of Local \<Rightarrow> l_tail l | Remote \<Rightarrow> r_tail l)"

definition al_view :: "al_state \<Rightarrow> passing_view" where
  "al_view s = \<lparr>pv_tail = (\<lambda>d. al_tail d (al_lock s)), pv_prev = (\<lambda>t. ah_prev (al_thr s t)),
     pv_next = (\<lambda>t. ad_next (al_desc s t)), pv_budget = (\<lambda>t. ad_budget (al_desc s t)),
     pv_stage = (\<lambda>t. al_rank (al_at s t))\<rparr>"

definition al_side :: "passing_view \<Rightarrow> (side \<Rightarrow> tid list) \<Rightarrow> side \<Rightarrow> pet_phase" where
  "al_side v Q d = (if Q d = [] then Out else al_phase (pv_stage v (hd (Q d))))"

definition al_inv :: "(tid \<Rightarrow> side) \<Rightarrow> al_state \<Rightarrow> (side \<Rightarrow> tid list) \<Rightarrow> bool" where
  "al_inv sd s Q \<longleftrightarrow> passing_ok sd (al_view s) Q \<and>
     tail_core (al_side (al_view s) Q Local) (al_side (al_view s) Q Remote)
       (ah_buf (al_thr s (hd (Q Remote))) = None) (a_victim (al_lock s))"

text \<open>Ghost state: the two queues, in the order of the successful swaps.\<close>

definition al_gstep :: "LockConfig \<Rightarrow> (tid \<Rightarrow> side) \<Rightarrow> tid \<Rightarrow> al_state \<Rightarrow> (side \<Rightarrow> tid list) \<Rightarrow> side \<Rightarrow> tid list" where
  "al_gstep cfg sd t s Q = (
     if al_enqueues sd s t then Q(sd t := Q (sd t) @ [t])
     else if leaves al_hold (al_step cfg sd) s t then Q(sd t := tl (Q (sd t))) else Q)"

abbreviation alR :: "al_state \<Rightarrow> tid \<Rightarrow> nat" where
  "alR s t \<equiv> al_rank (al_at s t)"

lemma al_view_simps [simp]:
  "pv_tail (al_view s) d = al_tail d (al_lock s)" "pv_prev (al_view s) t = ah_prev (al_thr s t)"
  "pv_next (al_view s) t = ad_next (al_desc s t)" "pv_budget (al_view s) t = ad_budget (al_desc s t)"
  "pv_stage (al_view s) t = alR s t"
  by (simp_all add: al_view_def)

lemma al_tail_simps [simp]: "al_tail Local l = l_tail l" "al_tail Remote l = r_tail l"
  by (simp_all add: al_tail_def)

lemma al_hold_rank: "al_hold s t \<longleftrightarrow> 11 \<le> alR s t"
  by (cases "al_at s t") (auto simp: al_hold_def)

lemma al_invD:
  "al_inv sd s Q \<Longrightarrow> passing_ok sd (al_view s) Q"
  "al_inv sd s Q \<Longrightarrow> tail_core (al_side (al_view s) Q Local) (al_side (al_view s) Q Remote)
     (ah_buf (al_thr s (hd (Q Remote))) = None) (a_victim (al_lock s))"
  by (simp_all add: al_inv_def)

lemma al_side_head:
  assumes "al_inv sd s Q" and "2 \<le> alR s t" and "t = hd (Q (sd t))"
  shows "al_side (al_view s) Q (sd t) = al_phase (alR s t)"
  using passing_nonempty [OF al_invD(1) [OF assms(1)], of t] assms(2,3) by (simp add: al_side_def)

lemma al_side_Out: "al_inv sd s Q \<Longrightarrow> al_side (al_view s) Q d = Out \<longleftrightarrow> al_tail d (al_lock s) = None"
  using passing_tail [OF al_invD(1), of sd s Q d] by (auto simp: al_side_def al_phase_def)

lemma al_hold_head:
  assumes "al_inv sd s Q" and "al_hold s t"
  shows "Q (sd t) \<noteq> [] \<and> hd (Q (sd t)) = t"
proof -
  note ok = al_invD(1) [OF assms(1)]
  have R: "11 \<le> alR s t" using assms(2) by (simp add: al_hold_rank)
  then have "t = hd (Q (sd t))" using passing_head [OF ok, of t] by simp
  moreover have "Q (sd t) \<noteq> []" using passing_nonempty [OF ok, of t] R by simp
  ultimately show ?thesis by metis
qed

lemma al_hold_in:
  assumes "al_inv sd s Q" and "al_hold s t"
  shows "al_side (al_view s) Q (sd t) = In"
proof -
  have R: "11 \<le> alR s t" using assms(2) by (simp add: al_hold_rank)
  have "t = hd (Q (sd t))" using al_hold_head [OF assms] by metis
  with assms(1) R have "al_side (al_view s) Q (sd t) = al_phase (alR s t)"
    by (intro al_side_head) simp_all
  then show ?thesis using R by (simp add: al_phase_def)
qed

lemma al_inv_mutex:
  assumes "al_inv sd s Q" and "al_hold s a" and "al_hold s b"
  shows "a = b"
proof (cases "sd a = sd b")
  case True
  then show ?thesis using al_hold_head [OF assms(1,2)] al_hold_head [OF assms(1,3)] by metis
next
  case False
  then have "al_side (al_view s) Q Local = In \<and> al_side (al_view s) Q Remote = In"
    using al_hold_in [OF assms(1,2)] al_hold_in [OF assms(1,3)] by (cases "sd a"; cases "sd b") auto
  then show ?thesis using al_invD(2) [OF assms(1)] tail_core_exclusion by metis
qed

end
