(* ===== verification/ALockThms.thy ===== *)
theory ALockThms
  imports ALockInv
begin

text \<open>
  Every step of the ALock keeps its invariant; hence mutual exclusion, the order of entry inside a
  cohort, and the bounds of the budget.
\<close>

section \<open>Steps\<close>

lemmas al_ops = al_step_def al_Lock_def al_Unlock_def LocalLock_def RemoteLock_def LocalUnlock_def
  RemoteUnlock_def LockLocalMcsQueue_def LockRemoteMcsQueue_def LocalPetersons_def RemotePetersons_def
  al_won_def al_compete_def

lemmas al_ghost = al_gstep_def al_enqueues_def leaves_def al_hold_def

text \<open>A step that leaves the queues alone: the head of a queue moves on, perhaps with a new budget.\<close>

lemma al_inv_move:
  assumes inv: "al_inv sd s Q" and t: "2 \<le> alR s t" "t = hd (Q (sd t))" and r: "3 \<le> r"
    and last: "13 \<le> r \<Longrightarrow> t \<noteq> last (Q (sd t))" and nx: "r = 14 \<Longrightarrow> ad_next (al_desc s t) \<noteq> None"
    and v: "al_view s' = (al_view s)\<lparr>pv_stage := (pv_stage (al_view s))(t := r),
      pv_budget := (pv_budget (al_view s))(t := b)\<rparr>"
    and buf: "\<And>u. u \<noteq> t \<or> sd t = Local \<Longrightarrow> ah_buf (al_thr s' u) = ah_buf (al_thr s u)"
    and L: "\<And>pr e. sd t = Local \<Longrightarrow> pr = Out \<longleftrightarrow> r_tail (al_lock s) = None \<Longrightarrow>
      tail_core (al_phase (alR s t)) pr e (a_victim (al_lock s)) \<Longrightarrow>
      tail_core (al_phase r) pr e (a_victim (al_lock s'))"
    and R: "\<And>pl. sd t = Remote \<Longrightarrow> pl = Out \<longleftrightarrow> l_tail (al_lock s) = None \<Longrightarrow>
      tail_core pl (al_phase (alR s t)) (ah_buf (al_thr s t) = None) (a_victim (al_lock s)) \<Longrightarrow>
      tail_core pl (al_phase r) (ah_buf (al_thr s' t) = None) (a_victim (al_lock s'))"
  shows "al_inv sd s' Q"
proof -
  have "passing_ok sd (al_view s') Q"
    unfolding v using passing_move [OF al_invD(1) [OF inv], of t r b] t r last nx by simp
  moreover have ne: "Q (sd t) \<noteq> []" using passing_nonempty [OF al_invD(1) [OF inv], of t] t(1) by simp
  have own: "al_side (al_view s') Q (sd t) = al_phase r"
    using ne t(2) [symmetric] by (simp add: al_side_def v)
  have other: "al_side (al_view s') Q d = al_side (al_view s) Q d" if "d \<noteq> sd t" for d
  proof (cases "Q d = []")
    case False
    then have "hd (Q d) \<noteq> t" using passing_mem [OF al_invD(1) [OF inv], of "hd (Q d)" d] that by auto
    then show ?thesis by (simp add: al_side_def v)
  qed (simp add: al_side_def)
  note core = al_invD(2) [OF inv] and ph = al_side_head [OF inv t]
  have "tail_core (al_side (al_view s') Q Local) (al_side (al_view s') Q Remote)
      (ah_buf (al_thr s' (hd (Q Remote))) = None) (a_victim (al_lock s'))"
  proof (cases "sd t")
    case Local
    then show ?thesis
      using L [OF _ al_side_Out [OF inv, of Remote, simplified]] core ph own other [of Remote] buf by simp
  next
    case Remote
    then have "hd (Q Remote) = t" using t(2) by simp
    with Remote show ?thesis
      using R [OF _ al_side_Out [OF inv, of Local, simplified]] core ph own other [of Local] by simp
  qed
  ultimately show ?thesis by (simp add: al_inv_def)
qed

text \<open>A step of a thread that is not in a queue, or not at the head, does not concern Peterson's algorithm.\<close>

lemma al_inv_aside:
  assumes inv: "al_inv sd s Q" and ok: "passing_ok sd (al_view s') Q"
    and t: "\<And>d. Q d \<noteq> [] \<Longrightarrow> hd (Q d) \<noteq> t"
    and stage: "\<And>u. u \<noteq> t \<Longrightarrow> alR s' u = alR s u"
    and buf: "\<And>u. ah_buf (al_thr s' u) = ah_buf (al_thr s u)"
    and vic: "a_victim (al_lock s') = a_victim (al_lock s)"
  shows "al_inv sd s' Q"
proof -
  have "al_side (al_view s') Q d = al_side (al_view s) Q d" for d
    using t [of d] stage by (simp add: al_side_def)
  then show ?thesis using ok al_invD(2) [OF inv] buf vic by (simp add: al_inv_def)
qed

lemma al_not_head:
  assumes "al_inv sd s Q" and "alR s t < 3" and "Q d \<noteq> []"
  shows "hd (Q d) \<noteq> t"
proof
  assume h: "hd (Q d) = t"
  note ok = al_invD(1) [OF assms(1)]
  have "sd t = d" "2 \<le> alR s t" using passing_mem [OF ok, of t d] h assms(3) by auto
  then show False using passing_unlinked [OF ok, of t] h assms(2) by simp
qed

lemma al_view_outside:
  assumes "alR s t < 2" and "alR (al_step cfg sd t s) t < 2"
  shows "al_view (al_step cfg sd t s) = (al_view s)
    \<lparr>pv_stage := (pv_stage (al_view s))(t := alR (al_step cfg sd t s) t),
     pv_next := (pv_next (al_view s))(t := ad_next (al_desc (al_step cfg sd t s) t)),
     pv_budget := (pv_budget (al_view s))(t := ad_budget (al_desc (al_step cfg sd t s) t))\<rparr>"
  using assms by (cases "al_at s t"; cases "sd t") (auto simp: al_ops al_view_def fun_eq_iff split: if_splits)

lemma al_inv_outside:
  assumes inv: "al_inv sd s Q" and at: "alR s t < 2" and e: "\<not> al_enqueues sd s t"
  shows "al_inv sd (al_step cfg sd t s) (al_gstep cfg sd t s Q)"
proof -
  let ?s = "al_step cfg sd t s"
  have r: "alR ?s t < 2" and n: "alR ?s t = 1 \<Longrightarrow> ad_next (al_desc ?s t) = None \<and> ad_budget (al_desc ?s t) = -1"
    using at e passing_reset [OF al_invD(1) [OF inv], of t]
    by (cases "al_at s t"; cases "sd t"; auto simp: al_ops al_enqueues_def)+
  have "passing_ok sd (al_view ?s) Q"
    unfolding al_view_outside [OF at r] using passing_outside [OF al_invD(1) [OF inv], of t] at r n by simp
  moreover have "al_gstep cfg sd t s Q = Q"
    using at e by (cases "al_at s t") (auto simp: al_ghost)
  moreover have "u \<noteq> t \<Longrightarrow> alR ?s u = alR s u" "ah_buf (al_thr ?s u) = ah_buf (al_thr s u)"
      "a_victim (al_lock ?s) = a_victim (al_lock s)" for u
    using at by (cases "al_at s t"; cases "sd t"; auto simp: al_ops)+
  ultimately show ?thesis
    using al_inv_aside [OF inv, of ?s t] al_not_head [OF inv, of t] at by simp
qed

lemma al_inv_enqueue:
  assumes inv: "al_inv sd s Q" and e: "al_enqueues sd s t"
  shows "al_inv sd (al_step cfg sd t s) (al_gstep cfg sd t s Q)"
proof -
  let ?s = "al_step cfg sd t s" and ?r = "if al_tail (sd t) (al_lock s) \<noteq> None then 2 else 5 :: nat"
  note ok = al_invD(1) [OF inv]
  have at: "al_at s t = ASwap" using e by (simp add: al_enqueues_def)
  have g: "al_gstep cfg sd t s Q = Q(sd t := Q (sd t) @ [t])" (is "_ = ?Q") using e by (simp add: al_gstep_def)
  have v: "al_view ?s = (al_view s)\<lparr>pv_tail := (pv_tail (al_view s))(sd t := Some t),
      pv_prev := (pv_prev (al_view s))(t := pv_tail (al_view s) (sd t)),
      pv_stage := (pv_stage (al_view s))(t := ?r)\<rparr>"
    using e at by (cases "sd t") (auto simp: al_ops al_view_def al_tail_def al_enqueues_def fun_eq_iff split: side.splits)
  have "passing_ok sd (al_view ?s) ?Q"
    unfolding v using passing_enqueue [OF ok, of t ?r] at by simp
  moreover have keep: "ah_buf (al_thr ?s u) = ah_buf (al_thr s u)" "a_victim (al_lock ?s) = a_victim (al_lock s)" for u
    using e at by (cases "sd t"; auto simp: al_ops)+
  moreover have "al_side (al_view ?s) ?Q d = (if d = sd t \<and> Q d = [] then Flagged else al_side (al_view s) Q d)" for d
    using al_not_head [OF inv, of t d] at passing_tail [OF ok, of "sd t"] by (simp add: al_side_def v al_phase_def)
  moreover have "al_side (al_view s) Q d = Out" if "Q d = []" for d using that by (simp add: al_side_def)
  ultimately show ?thesis
    using al_invD(2) [OF inv] tail_core_leave(1) [of _ _ _ _ Flagged] tail_core_leave(2) [of _ _ _ _ Flagged]
    unfolding al_inv_def g by (cases "sd t"; cases "Q (sd t) = []") auto
qed

lemma al_inv_link:
  assumes inv: "al_inv sd s Q" and at: "al_at s t = ASetNext"
  shows "al_inv sd (al_step cfg sd t s) (al_gstep cfg sd t s Q)"
proof -
  let ?s = "al_step cfg sd t s"
  obtain p where p: "ah_prev (al_thr s t) = Some p"
    and ok: "passing_ok sd ((al_view s)\<lparr>pv_next := (pv_next (al_view s))(p := Some t),
      pv_stage := (pv_stage (al_view s))(t := 3)\<rparr>) Q"
    using passing_link [OF al_invD(1) [OF inv], of t] at by auto
  have "al_view ?s = (al_view s)\<lparr>pv_next := (pv_next (al_view s))(p := Some t),
      pv_stage := (pv_stage (al_view s))(t := 3)\<rparr>"
    using at p by (cases "sd t") (auto simp: al_ops al_view_def fun_eq_iff)
  moreover have "al_gstep cfg sd t s Q = Q" using at by (simp add: al_ghost)
  moreover have "u \<noteq> t \<Longrightarrow> alR ?s u = alR s u" "ah_buf (al_thr ?s u) = ah_buf (al_thr s u)"
      "a_victim (al_lock ?s) = a_victim (al_lock s)" for u
    using at by (cases "sd t"; simp add: al_ops)+
  ultimately show ?thesis
    using al_inv_aside [OF inv, of ?s t] al_not_head [OF inv, of t] ok at by simp
qed

lemma al_inv_alone:
  assumes inv: "al_inv sd s Q" and at: "al_at s t \<in> {ACritical, ACasTail}"
    and l: "leaves al_hold (al_step cfg sd) s t"
  shows "al_inv sd (al_step cfg sd t s) (al_gstep cfg sd t s Q)"
proof -
  let ?s = "al_step cfg sd t s"
  note ok = al_invD(1) [OF inv]
  have tail: "al_tail (sd t) (al_lock s) = Some t"
    and pc: "al_at s t = (if sd t = Local then ACasTail else ACritical)"
    using at l by (cases "sd t"; auto simp: al_ops leaves_def al_hold_def split: if_splits)+
  have v: "al_view ?s = (al_view s)\<lparr>pv_tail := (pv_tail (al_view s))(sd t := None),
      pv_stage := (pv_stage (al_view s))(t := 0)\<rparr>"
    using pc tail by (cases "sd t") (simp_all add: al_ops al_view_def al_tail_def fun_eq_iff split: side.splits)
  note p = passing_alone [OF ok, of t, simplified, OF _ tail]
  have "al_gstep cfg sd t s Q = Q(sd t := [])"
    using at l p(1) by (auto simp: al_gstep_def al_enqueues_def)
  moreover have "4 \<le> alR s t" using at by auto
  then have "passing_ok sd (al_view ?s) (Q(sd t := []))" unfolding v by (rule p(2))
  moreover have "ah_buf (al_thr ?s u) = ah_buf (al_thr s u)" "a_victim (al_lock ?s) = a_victim (al_lock s)" for u
    using pc tail by (cases "sd t"; simp add: al_ops)+
  moreover have "al_side (al_view ?s) (Q(sd t := [])) d = (if d = sd t then Out else al_side (al_view s) Q d)" for d
    using passing_mem [OF ok, of t d] by (cases "Q d") (auto simp: al_side_def v)
  ultimately show ?thesis
    using al_invD(2) [OF inv] tail_core_leave(1) [of _ _ _ _ Out] tail_core_leave(2) [of _ _ _ _ Out]
    unfolding al_inv_def by (cases "sd t") auto
qed

lemma al_inv_pass:
  assumes inv: "al_inv sd s Q" and at: "al_at s t = APass"
  shows "al_inv sd (al_step cfg sd t s) (al_gstep cfg sd t s Q)"
proof -
  let ?s = "al_step cfg sd t s" and ?Q = "Q(sd t := tl (Q (sd t)))" and ?b = "ad_budget (al_desc s t) - 1"
  note ok = al_invD(1) [OF inv]
  obtain n where n: "ad_next (al_desc s t) = Some n" "n \<noteq> t" "sd n = sd t" "alR s n = 3"
      "tl (Q (sd t)) \<noteq> []" "hd (tl (Q (sd t))) = n"
    and ok': "passing_ok sd ((al_view s)\<lparr>pv_budget := (pv_budget (al_view s))(n := ?b),
      pv_stage := (pv_stage (al_view s))(t := 0)\<rparr>) ?Q"
    using passing_pass [OF ok, of t ?b] at by auto
  have v: "al_view ?s = (al_view s)\<lparr>pv_budget := (pv_budget (al_view s))(n := ?b),
      pv_stage := (pv_stage (al_view s))(t := 0)\<rparr>"
    using at n by (cases "sd t") (auto simp: al_ops al_view_def fun_eq_iff)
  have "al_gstep cfg sd t s Q = ?Q" using at n by (cases "sd t") (simp_all add: al_ghost al_ops)
  moreover have "ah_buf (al_thr ?s u) = ah_buf (al_thr s u)" "a_victim (al_lock ?s) = a_victim (al_lock s)" for u
    using at by (cases "sd t"; simp add: al_ops)+
  moreover have "al_side (al_view ?s) ?Q d = al_side (al_view s) Q d" for d
  proof (cases "d = sd t")
    case True
    have "al_side (al_view s) Q (sd t) = In" using al_hold_in [OF inv, of t] at by (simp add: al_hold_def)
    then show ?thesis using True n by (simp add: al_side_def v al_phase_def)
  next
    case False
    then show ?thesis using passing_mem [OF ok, of t d] by (cases "Q d") (auto simp: al_side_def v)
  qed
  moreover have "al_side (al_view s) Q (sd t) = In" using al_hold_in [OF inv, of t] at by (simp add: al_hold_def)
  ultimately show ?thesis
    using al_invD(2) [OF inv] ok' v tail_core_buf unfolding al_inv_def by (cases "sd t") auto
qed

text \<open>The steps of the head between its arrival there and its leaving.\<close>

lemma al_view_move:
  assumes "3 \<le> alR s t" and "3 \<le> alR (al_step cfg sd t s) t"
  shows "al_view (al_step cfg sd t s) = (al_view s)
    \<lparr>pv_stage := (pv_stage (al_view s))(t := alR (al_step cfg sd t s) t),
     pv_budget := (pv_budget (al_view s))(t := ad_budget (al_desc (al_step cfg sd t s) t))\<rparr>"
  using assms by (cases "al_at s t"; cases "sd t") (simp_all add: al_ops al_view_def fun_eq_iff al_tail_def
      split: if_splits side.splits)

lemma al_core_local:
  assumes "3 \<le> alR s t" and "3 \<le> alR (al_step cfg sd t s) t" and "sd t = Local"
    and "pr = Out \<longleftrightarrow> r_tail (al_lock s) = None"
    and "tail_core (al_phase (alR s t)) pr e (a_victim (al_lock s))"
  shows "tail_core (al_phase (alR (al_step cfg sd t s) t)) pr e (a_victim (al_lock (al_step cfg sd t s)))"
  using assms
  by (cases "al_at s t") (auto simp: al_ops al_phase_def tail_core_local_poll
      intro: tail_core_leave tail_core_victim tail_core_local_in split: if_splits)

lemma al_core_remote:
  assumes "3 \<le> alR s t" and "3 \<le> alR (al_step cfg sd t s) t" and "sd t = Remote"
    and "pl = Out \<longleftrightarrow> l_tail (al_lock s) = None"
    and "tail_core pl (al_phase (alR s t)) (ah_buf (al_thr s t) = None) (a_victim (al_lock s))"
  shows "tail_core pl (al_phase (alR (al_step cfg sd t s) t))
    (ah_buf (al_thr (al_step cfg sd t s) t) = None) (a_victim (al_lock (al_step cfg sd t s)))"
proof (cases "al_at s t = APetReadA")
  case True
  then show ?thesis
    using assms tail_core_remote_read [of pl "ah_buf (al_thr s t) = None"] by (simp add: al_ops al_phase_def)
next
  case False
  with assms show ?thesis
    by (cases "al_at s t") (auto simp: al_ops al_phase_def
        intro: tail_core_leave tail_core_victim tail_core_remote_in tail_core_remote_poll split: if_splits)
qed

lemma al_step_frame:
  "u \<noteq> t \<Longrightarrow> al_thr (al_step cfg sd t s) u = al_thr s u"
  "sd t = Local \<Longrightarrow> ah_buf (al_thr (al_step cfg sd t s) t) = ah_buf (al_thr s t)"
  by (cases "al_at s t"; simp add: al_ops)+

lemma al_inv_head:
  assumes inv: "al_inv sd s Q" and R: "3 \<le> alR s t" and h: "t = hd (Q (sd t))"
    and R': "3 \<le> alR (al_step cfg sd t s) t"
  shows "al_inv sd (al_step cfg sd t s) Q"
proof (rule al_inv_move [OF inv _ h R' _ _ al_view_move [OF R R']])
  note ok = al_invD(1) [OF inv]
  show "2 \<le> alR s t" using R by simp
  show "t \<noteq> last (Q (sd t))" if "13 \<le> alR (al_step cfg sd t s) t"
  proof -
    have "13 \<le> alR s t \<or> al_tail (sd t) (al_lock s) \<noteq> Some t \<or> ad_next (al_desc s t) \<noteq> None"
      using that R by (cases "al_at s t"; cases "sd t") (auto simp: al_ops split: if_splits)
    then show ?thesis
      using passing_not_last [OF ok, of t] passing_tail [OF ok, of "sd t"] passing_nonempty [OF ok, of t] R
        mcs_shape_last [OF passing_shape [OF ok, of "sd t"]] by fastforce
  qed
  show "ad_next (al_desc s t) \<noteq> None" if "alR (al_step cfg sd t s) t = 14"
    using that R passing_next [OF ok, of t] by (cases "al_at s t"; cases "sd t") (auto simp: al_ops split: if_splits)
  show "ah_buf (al_thr (al_step cfg sd t s) u) = ah_buf (al_thr s u)" if "u \<noteq> t \<or> sd t = Local" for u
    using that al_step_frame by (cases "u = t") auto
qed (use al_core_local [OF R R'] al_core_remote [OF R R'] in auto)

lemma al_waiting_behind:
  assumes "al_inv sd s Q" and "3 \<le> alR s t" and "t \<noteq> hd (Q (sd t))"
  shows "al_step cfg sd t s = s" and "al_at s t = AWaitBudget"
proof -
  have "alR s t = 3" "ad_budget (al_desc s t) = -1"
    using passing_behind [OF al_invD(1) [OF assms(1)], of t] assms(2,3) by auto
  moreover from this(1) show "al_at s t = AWaitBudget" by (cases "al_at s t") auto
  ultimately show "al_step cfg sd t s = s" by (cases "sd t") (simp_all add: al_ops)
qed

lemma al_inv_step: "al_inv sd s Q \<Longrightarrow> al_inv sd (al_step cfg sd t s) (al_gstep cfg sd t s Q)"
proof -
  assume inv: "al_inv sd s Q"
  consider (out) "alR s t < 2" "\<not> al_enqueues sd s t" | (enqueue) "al_enqueues sd s t"
    | (link) "al_at s t = ASetNext" | (pass) "al_at s t = APass"
    | (alone) "al_at s t \<in> {ACritical, ACasTail}" "leaves al_hold (al_step cfg sd) s t"
    | (behind) "3 \<le> alR s t" "t \<noteq> hd (Q (sd t))"
    | (head) "3 \<le> alR s t" "t = hd (Q (sd t))" "al_at s t \<noteq> APass"
        "\<not> (al_at s t \<in> {ACritical, ACasTail} \<and> leaves al_hold (al_step cfg sd) s t)"
    by (cases "al_at s t") auto
  then show ?thesis
  proof cases
    case head
    then have R': "3 \<le> alR (al_step cfg sd t s) t"
      by (cases "al_at s t"; cases "sd t") (auto simp: al_ops leaves_def al_hold_def split: if_splits)
    have "\<not> leaves al_hold (al_step cfg sd) s t"
      using head by (cases "al_at s t"; cases "sd t") (auto simp: al_ops leaves_def al_hold_def split: if_splits)
    then have "al_gstep cfg sd t s Q = Q" using head by (auto simp: al_gstep_def al_enqueues_def)
    then show ?thesis using al_inv_head [OF inv head(1,2) R'] by simp
  next
    case behind
    then show ?thesis
      using al_waiting_behind(1) [OF inv behind, of cfg] al_waiting_behind(2) [OF inv behind] inv by (simp add: al_ghost)
  qed (use inv in \<open>auto intro: al_inv_outside al_inv_enqueue al_inv_link al_inv_pass al_inv_alone\<close>)
qed

section \<open>The contracts\<close>

lemma al_inv_init: "al_inv sd al_init (\<lambda>_. [])"
  by (simp add: al_inv_def passing_ok_def al_side_def tail_core_def al_init_def al_view_def al_tail_def
      split: side.splits)

interpretation al: lock_protocol UNIV "al_step cfg sd" al_init "al_gstep cfg sd" "\<lambda>_. []" "al_inv sd" al_hold
  for cfg sd
  by unfold_locales (auto intro: al_inv_init al_inv_step al_inv_mutex)

text \<open>Inside the cohort \<open>d\<close> the line is the cohort's queue.\<close>

definition al_owner :: "(tid \<Rightarrow> side) \<Rightarrow> side \<Rightarrow> al_state \<Rightarrow> tid \<Rightarrow> bool" where
  "al_owner sd d s t \<longleftrightarrow> sd t = d \<and> al_hold s t"

definition al_joins :: "(tid \<Rightarrow> side) \<Rightarrow> side \<Rightarrow> al_state \<Rightarrow> tid \<Rightarrow> bool" where
  "al_joins sd d s t \<longleftrightarrow> sd t = d \<and> al_enqueues sd s t"

lemma al_owner_enters: "enters (al_owner sd d) (al_step cfg sd) s t \<longleftrightarrow> sd t = d \<and> enters al_hold (al_step cfg sd) s t"
  by (auto simp: enters_def al_owner_def)

interpretation al_cohort: fifo_protocol UNIV "al_step cfg sd" al_init "al_gstep cfg sd" "\<lambda>_. []" "al_inv sd"
  "al_owner sd d" "al_joins sd d" "\<lambda>Q. Q d" for cfg sd d
proof unfold_locales
  show "al_inv sd al_init (\<lambda>_. [])" by (rule al_inv_init)
  show "al_inv sd (al_step cfg sd t s) (al_gstep cfg sd t s Q)" if "al_inv sd s Q" for s Q t
    using that by (rule al_inv_step)
  show "\<not> al_owner sd d al_init t" for t by (simp add: al_owner_def al_hold_def al_init_def)
  show "al_owner sd d s u" if "t \<noteq> u" "al_owner sd d (al_step cfg sd t s) u" for s t u
    using that al_step_frame(1) [of u t cfg sd s] by (simp add: al_owner_def al_hold_def)
  show "al_owner sd d (al_step cfg sd t s) u" if "t \<noteq> u" "al_owner sd d s u" for s t u
    using that al_step_frame(1) [of u t cfg sd s] by (simp add: al_owner_def al_hold_def)
  show "Q d \<noteq> [] \<and> hd (Q d) = t" if "al_inv sd s Q" "al_owner sd d s t" for s Q t
    using that al_hold_head [of sd s Q t] by (auto simp: al_owner_def)
qed (auto simp: al_gstep_def al_joins_def al_owner_def leaves_def al_enqueues_def al_hold_def)

section \<open>Properties\<close>

text \<open>
  C14: Mutual exclusion of the ALock in every interleaving of any number of local and remote threads,
  for all budgets.
\<close>

theorem al_mutual_exclusion:
  assumes "reachable (al_step cfg sd) UNIV al_init s" and "al_hold s a" and "al_hold s b"
  shows "a = b"
  using assms by (rule al.mutual_exclusion)

theorem al_mutual_exclusion_witness:
  defines "s \<equiv> run (al_step \<lparr>local_budget = 1, remote_budget = 1\<rparr> (\<lambda>t. if t = 1 then Local else Remote))
    [1, 1, 1, 1, 2, 2, 2, 2, 2, 2, 1, 1, 2] al_init"
  shows "al_hold s 1 \<and> \<not> al_hold s 2 \<and> al_at s 2 = APetReadB"
proof -
  have r: "reachable (al_step \<lparr>local_budget = 1, remote_budget = 1\<rparr> (\<lambda>t. if t = 1 then Local else Remote))
      UNIV al_init s"
    unfolding s_def by (rule reachable_run [OF _ reachable.start]) simp
  have h: "al_hold s 1" and a: "al_at s 2 = APetReadB" unfolding s_def by code_simp+
  have "\<not> al_hold s 2" using al_mutual_exclusion [OF r h, of 2] by auto
  with h a show ?thesis by blast
qed

text \<open>
  C15: Inside a cohort, the ALock is acquired in the order in which the threads swapped themselves into
  the cohort's queue.
\<close>

theorem al_cohort_order:
  "prefix (filter (\<lambda>t. sd t = d) (events (enters al_hold (al_step cfg sd)) (al_step cfg sd) sched al_init))
     (filter (\<lambda>t. sd t = d) (events (al_enqueues sd) (al_step cfg sd) sched al_init))"
  using al_cohort.first_come_first_served [of sched sd d cfg]
  unfolding events_filter al_owner_enters [abs_def] al_joins_def [abs_def] by simp

end
