(* ===== verification/ALockLive.thy ===== *)
theory ALockLive
  imports ALockThms Draining
begin

text \<open>
  The budgets of the ALock and its deadlock freedom.  With positive budgets in the configuration, the
  thread that holds the lock always has a budget between 1 and the configured one, so what it passes on
  is never negative and its successor never takes it for a budget that has not been passed yet; hence the
  threads at the lock can always finish.
\<close>

section \<open>Budgets\<close>

definition al_budget :: "LockConfig \<Rightarrow> side \<Rightarrow> int" where
  "al_budget cfg d = (case d of Local \<Rightarrow> uint (local_budget cfg) | Remote \<Rightarrow> uint (remote_budget cfg))"

definition al_positive :: "LockConfig \<Rightarrow> bool" where
  "al_positive cfg \<longleftrightarrow> 0 < local_budget cfg \<and> 0 < remote_budget cfg"

lemma sint_ucast_32_64: "sint (ucast (b :: u32) :: u64) = uint b"
proof -
  have "uint b < 2 ^ 63" using unsigned_less [of b, where ?'a = int] by simp
  moreover have "- (2 ^ 63) \<le> (0 :: int)" by simp
  then have "- (2 ^ 63) \<le> uint b" using unsigned_greater_eq [of b] by (rule order_trans)
  ultimately show ?thesis by (simp add: signed_ucast_eq signed_take_bit_int_eq_self)
qed

lemma sint_pred:
  assumes "1 \<le> sint (w :: u64)"
  shows "sint (w - 1) = sint w - 1"
proof -
  have "- (2 ^ 63) \<le> (0 :: int)" by simp
  then have "- (2 ^ 63) \<le> sint w - 1" using assms by linarith
  moreover have "sint w - 1 < 2 ^ 63" using sint_lt [of w] by simp
  ultimately show ?thesis by (simp add: sint_word_diff signed_take_bit_int_eq_self)
qed

lemma al_sint_budget [simp]:
  "sint (al_local_budget cfg) = al_budget cfg Local" "sint (al_remote_budget cfg) = al_budget cfg Remote"
  by (simp_all add: al_local_budget_def al_remote_budget_def al_budget_def sint_ucast_32_64)

lemma al_positive_budget: "al_positive cfg \<Longrightarrow> 1 \<le> al_budget cfg d"
  unfolding al_positive_def al_budget_def word_less_def by (cases d) auto

text \<open>What a thread in stage \<open>r\<close> knows of its budget; \<open>h\<close> says that it is at the head of its queue.\<close>

definition budget_ok :: "int \<Rightarrow> nat \<Rightarrow> bool \<Rightarrow> tid option \<Rightarrow> int \<Rightarrow> bool" where
  "budget_ok I r h p B \<longleftrightarrow>
     (r = 3 \<and> h \<or> r = 4 \<longrightarrow> 0 \<le> B \<and> B \<le> I) \<and>
     (2 \<le> r \<and> r \<le> 4 \<longrightarrow> p \<noteq> None) \<and>
     (6 \<le> r \<and> r \<le> 9 \<and> p = None \<longrightarrow> B = I) \<and>
     (11 \<le> r \<longrightarrow> 1 \<le> B \<and> B \<le> I)"

definition al_budgets :: "LockConfig \<Rightarrow> (tid \<Rightarrow> side) \<Rightarrow> al_state \<Rightarrow> (side \<Rightarrow> tid list) \<Rightarrow> bool" where
  "al_budgets cfg sd s Q \<longleftrightarrow> (\<forall>t. budget_ok (al_budget cfg (sd t)) (alR s t) (t = hd (Q (sd t)))
     (ah_prev (al_thr s t)) (sint (ad_budget (al_desc s t))))"

lemma al_budgets_init: "al_budgets cfg sd al_init Q"
  by (simp add: al_budgets_def budget_ok_def al_init_def)

lemma al_budget_own:
  assumes b: "budget_ok (al_budget cfg (sd t)) (alR s t) h (ah_prev (al_thr s t)) (sint (ad_budget (al_desc s t)))"
    and h: "alR s t = 3 \<Longrightarrow> h' \<Longrightarrow> h" "alR s t = 2 \<Longrightarrow> \<not> h'" and I: "1 \<le> al_budget cfg (sd t)"
    and n: "alR s t \<noteq> 14" and w: "alR s t = 3 \<Longrightarrow> \<not> h \<Longrightarrow> ad_budget (al_desc s t) = -1"
  shows "budget_ok (al_budget cfg (sd t)) (alR (al_step cfg sd t s) t) h' (ah_prev (al_thr (al_step cfg sd t s) t))
    (sint (ad_budget (al_desc (al_step cfg sd t s) t)))"
proof -
  have z: "sint x \<noteq> 0" if "x \<noteq> 0" for x :: u64 using that by (simp add: signed_eq_0_iff)
  show ?thesis
    using assms z [of "ad_budget (al_desc s t)"] unfolding budget_ok_def
    by (cases "sd t"; cases "al_at s t") (auto simp: al_ops)
qed

lemma al_budgets_frame:
  assumes b: "al_budgets cfg sd s Q" and thr: "\<And>u. u \<noteq> t \<Longrightarrow> al_thr s' u = al_thr s u"
    and bud: "\<And>u. u \<noteq> t \<Longrightarrow> ad_budget (al_desc s' u) = ad_budget (al_desc s u)"
    and hd: "\<And>u. u \<noteq> t \<Longrightarrow> alR s u = 3 \<Longrightarrow> u = hd (Q' (sd u)) \<Longrightarrow> u = hd (Q (sd u))"
    and own: "budget_ok (al_budget cfg (sd t)) (alR s' t) (t = hd (Q' (sd t))) (ah_prev (al_thr s' t))
      (sint (ad_budget (al_desc s' t)))"
  shows "al_budgets cfg sd s' Q'"
  unfolding al_budgets_def
proof
  fix u
  show "budget_ok (al_budget cfg (sd u)) (alR s' u) (u = hd (Q' (sd u))) (ah_prev (al_thr s' u))
      (sint (ad_budget (al_desc s' u)))"
  proof (cases "u = t")
    case False
    have "budget_ok (al_budget cfg (sd u)) (alR s u) (u = hd (Q (sd u))) (ah_prev (al_thr s u))
        (sint (ad_budget (al_desc s u)))"
      using b by (simp add: al_budgets_def)
    then show ?thesis using hd [OF False] unfolding budget_ok_def thr [OF False] bud [OF False] by blast
  qed (use own in simp)
qed

lemma al_budget_frame:
  "u \<noteq> t \<Longrightarrow> al_at s t \<noteq> APass \<Longrightarrow> ad_budget (al_desc (al_step cfg sd t s) u) = ad_budget (al_desc s u)"
  by (cases "al_at s t"; cases "sd t") (simp_all add: al_ops)

lemma al_gstep_head:
  assumes inv: "al_inv sd s Q" and at: "al_at s t \<noteq> APass" and u: "2 \<le> alR s u"
    and h: "u = hd (al_gstep cfg sd t s Q (sd u))" and stay: "\<not> leaves al_hold (al_step cfg sd) s t \<or> u \<noteq> t"
  shows "u = hd (Q (sd u))"
proof -
  note ok = al_invD(1) [OF inv]
  have uq: "u \<in> set (Q (sd u))" using passing_mem [OF ok, of u "sd u"] u by simp
  consider (enq) "al_enqueues sd s t" | (leave) "\<not> al_enqueues sd s t" "leaves al_hold (al_step cfg sd) s t"
    | (none) "\<not> al_enqueues sd s t" "\<not> leaves al_hold (al_step cfg sd) s t" by blast
  then show ?thesis
  proof cases
    case enq
    then show ?thesis using h uq by (cases "sd u = sd t") (auto simp: al_gstep_def hd_append split: if_splits)
  next
    case leave
    then have pc: "al_at s t \<in> {ACritical, ACasTail}" and tail: "al_tail (sd t) (al_lock s) = Some t"
      using at by (cases "al_at s t"; cases "sd t"; auto simp: leaves_def al_hold_def al_ops split: if_splits)+
    have "Q (sd t) = [t]" using passing_alone(1) [OF ok, of t] pc tail by auto
    then have "sd u \<noteq> sd t" using uq stay leave(2) by auto
    then show ?thesis using h leave by (simp add: al_gstep_def)
  qed (use h in \<open>simp add: al_gstep_def\<close>)
qed

lemma al_budgets_step:
  assumes inv: "al_inv sd s Q" and b: "al_budgets cfg sd s Q" and pos: "al_positive cfg"
  shows "al_budgets cfg sd (al_step cfg sd t s) (al_gstep cfg sd t s Q)"
proof (cases "al_at s t = APass")
  case False
  note ok = al_invD(1) [OF inv]
  have hd: "u = hd (Q (sd u))" if "alR s u = 3 \<or> alR s u = 2" "u = hd (al_gstep cfg sd t s Q (sd u))" for u
  proof -
    have "\<not> leaves al_hold (al_step cfg sd) s t \<or> u \<noteq> t" using that(1) by (auto simp: leaves_def al_hold_rank)
    then show ?thesis using al_gstep_head [OF inv False _ that(2)] that(1) by auto
  qed
  have own: "budget_ok (al_budget cfg (sd t)) (alR s t) (t = hd (Q (sd t))) (ah_prev (al_thr s t))
      (sint (ad_budget (al_desc s t)))"
    using b by (simp add: al_budgets_def)
  have n: "alR s t \<noteq> 14" using False by (cases "al_at s t") auto
  show ?thesis
  proof (rule al_budgets_frame [OF b al_step_frame(1) al_budget_frame])
    show "budget_ok (al_budget cfg (sd t)) (alR (al_step cfg sd t s) t) (t = hd (al_gstep cfg sd t s Q (sd t)))
        (ah_prev (al_thr (al_step cfg sd t s) t)) (sint (ad_budget (al_desc (al_step cfg sd t s) t)))"
      by (rule al_budget_own [where h = "t = hd (Q (sd t))" and sd = sd and cfg = cfg and t = t and s = s, OF own])
         (use hd [of t] n al_positive_budget [OF pos, of "sd t"] passing_unlinked [OF ok, of t] passing_behind [OF ok, of t] in auto)
  qed (use False hd in auto)
next
  case True
  note ok = al_invD(1) [OF inv]
  obtain n where n: "ad_next (al_desc s t) = Some n" "n \<noteq> t" "sd n = sd t" "alR s n = 3"
      "hd (tl (Q (sd t))) = n"
    using passing_pass [OF ok, of t 0] True by auto
  let ?B = "sint (ad_budget (al_desc s t))"
  have B: "1 \<le> ?B" "?B \<le> al_budget cfg (sd t)"
    and p: "ah_prev (al_thr s n) \<noteq> None"
    using b [unfolded al_budgets_def, rule_format, of t] b [unfolded al_budgets_def, rule_format, of n] True n(4)
    by (auto simp: budget_ok_def)
  have d: "sint (ad_budget (al_desc s t) - 1) = ?B - 1" using B(1) by (rule sint_pred)
  let ?s = "al_step cfg sd t s"
  have S: "alR ?s u = (if u = t then 0 else alR s u)" "ah_prev (al_thr ?s u) = ah_prev (al_thr s u)"
      "ad_budget (al_desc ?s u) = (if u = n then ad_budget (al_desc s t) - 1 else ad_budget (al_desc s u))" for u
    using True n by (cases "sd t"; simp add: al_ops)+
  have Q: "al_gstep cfg sd t s Q = Q(sd t := tl (Q (sd t)))"
    using True n by (cases "sd t") (simp_all add: al_ghost al_ops)
  show ?thesis
    unfolding al_budgets_def
  proof
    fix u
    have "budget_ok (al_budget cfg (sd u)) (alR s u) (u = hd (Q (sd u))) (ah_prev (al_thr s u))
        (sint (ad_budget (al_desc s u)))"
      using b by (simp add: al_budgets_def)
    moreover have "u = hd (Q (sd u))" if "u = hd ((Q(sd t := tl (Q (sd t)))) (sd u))" "u \<noteq> n"
      using that n(5) by (cases "sd u = sd t") auto
    ultimately show "budget_ok (al_budget cfg (sd u)) (alR ?s u) (u = hd (al_gstep cfg sd t s Q (sd u)))
        (ah_prev (al_thr ?s u)) (sint (ad_budget (al_desc ?s u)))"
      unfolding Q S using B p n(3,4) d by (auto simp: budget_ok_def)
  qed
qed

section \<open>Some thread is not waiting\<close>

text \<open>The program points that only one cohort reaches.\<close>

definition al_sides :: "(tid \<Rightarrow> side) \<Rightarrow> al_state \<Rightarrow> bool" where
  "al_sides sd s \<longleftrightarrow> (\<forall>t. (al_at s t = APetPut \<longrightarrow> sd t = Remote) \<and>
     (al_at s t = ACasTail \<or> al_at s t = AClear \<longrightarrow> sd t = Local))"

lemma al_sides_step:
  assumes "al_sides sd s"
  shows "al_sides sd (al_step cfg sd t s)"
proof -
  have "(al_at (al_step cfg sd t s) t = APetPut \<longrightarrow> sd t = Remote) \<and>
      (al_at (al_step cfg sd t s) t = ACasTail \<or> al_at (al_step cfg sd t s) t = AClear \<longrightarrow> sd t = Local)"
    using assms [unfolded al_sides_def, rule_format, of t]
    by (cases "al_at s t"; cases "sd t") (simp_all add: al_ops)
  then show ?thesis
    using assms al_step_frame(1) [of _ t cfg sd s] unfolding al_sides_def by metis
qed

definition al_ok :: "LockConfig \<Rightarrow> (tid \<Rightarrow> side) \<Rightarrow> al_state \<Rightarrow> (side \<Rightarrow> tid list) \<Rightarrow> bool" where
  "al_ok cfg sd s Q \<longleftrightarrow> al_positive cfg \<and> al_inv sd s Q \<and> al_budgets cfg sd s Q \<and> al_sides sd s"

lemma al_ok_step: "al_ok cfg sd s Q \<Longrightarrow> al_ok cfg sd (al_step cfg sd t s) (al_gstep cfg sd t s Q)"
  by (simp add: al_ok_def al_inv_step al_budgets_step al_sides_step)

lemma al_ok_reachable:
  assumes "reachable (al_step cfg sd) UNIV al_init s" and "al_positive cfg"
  shows "\<exists>Q. al_ok cfg sd s Q"
  using assms(1)
proof (induction rule: reachable.induct)
  case start
  show ?case using assms(2) al_inv_init al_budgets_init
    by (auto simp: al_ok_def al_sides_def al_init_def)
next
  case (move s t)
  then show ?case using al_ok_step by blast
qed

text \<open>The wait of Peterson's algorithm is over for thread \<open>t\<close>.\<close>

definition al_free :: "(tid \<Rightarrow> side) \<Rightarrow> al_state \<Rightarrow> tid \<Rightarrow> bool" where
  "al_free sd s t \<longleftrightarrow> (if sd t = Local
     then r_tail (al_lock s) = None \<or> a_victim (al_lock s) \<noteq> LOCAL_VICTIM
     else l_tail (al_lock s) = None \<or> a_victim (al_lock s) \<noteq> REMOTE_VICTIM)"

definition al_ready :: "(tid \<Rightarrow> side) \<Rightarrow> al_state \<Rightarrow> tid \<Rightarrow> bool" where
  "al_ready sd s t \<longleftrightarrow> (case al_at s t of
     AIdle \<Rightarrow> False
   | AWaitBudget \<Rightarrow> 0 \<le> sint (ad_budget (al_desc s t))
   | AWaitNext \<Rightarrow> ad_next (al_desc s t) \<noteq> None
   | APetReadA \<Rightarrow> al_free sd s t
   | APetReadB \<Rightarrow> al_free sd s t
   | _ \<Rightarrow> True)"

text \<open>A thread that waits for its successor to appear waits for one that is about to do so.\<close>

lemma al_ready_next:
  assumes inv: "al_inv sd s Q" and at: "al_at s t = AWaitNext"
  shows "\<exists>u. al_ready sd s u"
proof (cases "ad_next (al_desc s t)")
  case None
  note ok = al_invD(1) [OF inv]
  have "t \<in> set (Q (sd t))" "t \<noteq> last (Q (sd t))"
    using passing_mem [OF ok, of t "sd t"] passing_not_last [OF ok, of t] at by auto
  then obtain b where adj: "adj (Q (sd t)) t b" using adj_ex_right by metis
  have "\<not> 3 \<le> alR s b" using mcs_shape_next [OF passing_shape [OF ok] adj] None by (auto split: if_splits)
  moreover have "2 \<le> alR s b" using adj_setR [OF adj] passing_mem [OF ok, of b] by simp
  ultimately have "al_at s b = ASetNext" by (cases "al_at s b") auto
  then have "al_ready sd s b" by (simp add: al_ready_def)
  then show ?thesis by blast
next
  case (Some n)
  then have "al_ready sd s t" using at by (simp add: al_ready_def)
  then show ?thesis by blast
qed

text \<open>A head of a queue that is not in Peterson's polling loop.\<close>

lemma al_ready_head:
  assumes ok: "al_ok cfg sd s Q" and t: "2 \<le> alR s t" "t = hd (Q (sd t))"
    and at: "al_at s t \<noteq> APetReadA" "al_at s t \<noteq> APetReadB"
  shows "\<exists>u. al_ready sd s u"
proof (cases "al_at s t = AWaitNext")
  case True
  then show ?thesis using al_ready_next ok by (auto simp: al_ok_def)
next
  case False
  have "0 \<le> sint (ad_budget (al_desc s t))" if "alR s t = 3"
    using ok t(2) that unfolding al_ok_def al_budgets_def budget_ok_def by blast
  then have "al_ready sd s t" using False at t(1) by (cases "al_at s t") (simp_all add: al_ready_def)
  then show ?thesis by blast
qed

lemma al_queue_head:
  assumes inv: "al_inv sd s Q" and "Q d \<noteq> []"
  shows "sd (hd (Q d)) = d" and "2 \<le> alR s (hd (Q d))"
  using passing_mem [OF al_invD(1) [OF inv], of "hd (Q d)" d] assms(2) by auto

lemma al_ready_peterson:
  assumes ok: "al_ok cfg sd s Q" and at: "al_at s t = APetReadA \<or> al_at s t = APetReadB"
  shows "\<exists>u. al_ready sd s u"
proof (cases "al_free sd s t")
  case True
  then have "al_ready sd s t" using at by (auto simp: al_ready_def)
  then show ?thesis by blast
next
  case False
  have inv: "al_inv sd s Q" using ok by (simp add: al_ok_def)
  define e where "e = (case sd t of Local \<Rightarrow> Remote | Remote \<Rightarrow> Local)"
  let ?h = "hd (Q e)"
  have "al_tail e (al_lock s) \<noteq> None" using False by (cases "sd t") (auto simp: al_free_def e_def)
  then have "Q e \<noteq> []" using passing_tail [OF al_invD(1) [OF inv], of e] by auto
  then have h: "sd ?h = e" "2 \<le> alR s ?h" using al_queue_head [OF inv] by auto
  show ?thesis
  proof (cases "al_at s ?h = APetReadA \<or> al_at s ?h = APetReadB")
    case True
    have "al_free sd s ?h" using False h(1) by (cases "sd t") (auto simp: al_free_def e_def)
    then have "al_ready sd s ?h" using True by (auto simp: al_ready_def)
    then show ?thesis by blast
  next
    case False
    then show ?thesis using al_ready_head [OF ok, of ?h] h by auto
  qed
qed

lemma al_ready_exists:
  assumes ok: "al_ok cfg sd s Q" and act: "al_at s t \<noteq> AIdle"
  shows "\<exists>u. al_ready sd s u"
proof -
  have inv: "al_inv sd s Q" using ok by (simp add: al_ok_def)
  have heads: "\<exists>u. al_ready sd s u" if "2 \<le> alR s u" "u = hd (Q (sd u))" for u
    using al_ready_head [OF ok that] al_ready_peterson [OF ok, of u] by blast
  show ?thesis
  proof (cases "3 \<le> alR s t")
    case True
    let ?h = "hd (Q (sd t))"
    have "Q (sd t) \<noteq> []" using passing_nonempty [OF al_invD(1) [OF inv], of t] True by simp
    then have "sd ?h = sd t" "2 \<le> alR s ?h" using al_queue_head [OF inv] by auto
    then show ?thesis using heads [of ?h] by simp
  next
    case False
    then have "al_ready sd s t" using act by (cases "al_at s t") (auto simp: al_ready_def)
    then show ?thesis by blast
  qed
qed

section \<open>Draining the lock\<close>

text \<open>What a thread has still to do.\<close>

definition al_rest :: "al_state \<Rightarrow> tid \<Rightarrow> nat" where
  "al_rest s t = (if al_at s t = AIdle then 0 else if al_at s t = AClear then 1 else 16 - alR s t)"

lemma al_rest_0 [simp]: "al_rest s t = 0 \<longleftrightarrow> al_at s t = AIdle"
  by (cases "al_at s t") (auto simp: al_rest_def)

abbreviation al_solo :: "LockConfig \<Rightarrow> (tid \<Rightarrow> side) \<Rightarrow> tid \<Rightarrow> al_state \<Rightarrow> (side \<Rightarrow> tid list) \<Rightarrow> al_state \<Rightarrow> (side \<Rightarrow> tid list) \<Rightarrow> bool" where
  "al_solo cfg sd \<equiv> solo (al_step cfg sd) (al_gstep cfg sd) al_rest"

lemma al_step_less:
  assumes "al_ready sd s t" and "al_at s t \<notin> {ASwap, APetVictim, APetReadA, APetReadB}" and "al_sides sd s"
  shows "al_rest (al_step cfg sd t s) t < al_rest s t"
  using assms(1,2) assms(3) [unfolded al_sides_def, rule_format, of t]
  by (cases "al_at s t"; cases "sd t") (simp_all add: al_ops al_ready_def al_rest_def)

text \<open>\<open>t\<close> can get by steps of its own to a point from which it has less than \<open>n\<close> to do.\<close>

definition al_gets :: "LockConfig \<Rightarrow> (tid \<Rightarrow> side) \<Rightarrow> tid \<Rightarrow> nat \<Rightarrow> al_state \<Rightarrow> bool" where
  "al_gets cfg sd t n s \<longleftrightarrow> (\<forall>g. \<exists>s' g'. al_solo cfg sd t s g s' g' \<and> al_rest s' t < n)"

lemma al_gets_now: "al_rest s t < n \<Longrightarrow> al_gets cfg sd t n s"
  unfolding al_gets_def using solo.stay by metis

lemma al_gets_later:
  assumes "al_at s t \<noteq> AIdle" and "al_gets cfg sd t n (al_step cfg sd t s)"
  shows "al_gets cfg sd t n s"
  unfolding al_gets_def
proof
  fix g
  have one: "al_solo cfg sd t s g (al_step cfg sd t s) (al_gstep cfg sd t s g)"
    by (rule solo_once) (use assms(1) in simp)
  from assms(2) obtain s' g' where "al_solo cfg sd t (al_step cfg sd t s) (al_gstep cfg sd t s g) s' g'" "al_rest s' t < n"
    unfolding al_gets_def by blast
  then show "\<exists>s' g'. al_solo cfg sd t s g s' g' \<and> al_rest s' t < n" using solo_trans [OF _ one] by blast
qed

lemma al_gets_one: "al_at s t \<noteq> AIdle \<Longrightarrow> al_rest (al_step cfg sd t s) t < n \<Longrightarrow> al_gets cfg sd t n s"
  by (rule al_gets_later [OF _ al_gets_now])

text \<open>The compare-and-swap loops end at the second attempt when no other thread interferes.\<close>

lemma al_swap_remote:
  assumes "al_at s t = ASwap" and "sd t = Remote" and "r_tail (al_lock s) = ah_hint (al_thr s t)"
  shows "al_at (al_step cfg sd t s) t = (if ah_hint (al_thr s t) \<noteq> None then ASetNext else ASetBudget)"
  using assms by (simp add: al_ops)

lemma al_gets_swap:
  assumes at: "al_at s t = ASwap"
  shows "al_gets cfg sd t (al_rest s t) s"
proof (cases "al_enqueues sd s t")
  case True
  then have "al_rest (al_step cfg sd t s) t < al_rest s t"
    using at by (cases "sd t") (simp_all add: al_ops al_rest_def al_enqueues_def)
  then show ?thesis using at by (simp add: al_gets_one)
next
  case False
  let ?s = "al_step cfg sd t s"
  have r: "sd t = Remote" using False at by (cases "sd t") (simp_all add: al_enqueues_def)
  have at': "al_at ?s t = ASwap" and hint: "r_tail (al_lock ?s) = ah_hint (al_thr ?s t)"
    using False at r by (simp_all add: al_ops al_enqueues_def)
  have "al_rest (al_step cfg sd t ?s) t < al_rest s t"
    using at' r hint at by (simp add: al_swap_remote al_rest_def)
  then show ?thesis using at at' by (simp add: al_gets_later [OF _ al_gets_one])
qed

lemma al_gets_victim:
  assumes at: "al_at s t = APetVictim"
  shows "al_gets cfg sd t (al_rest s t) s"
proof (cases "al_rest (al_step cfg sd t s) t < al_rest s t")
  case True
  then show ?thesis using at by (simp add: al_gets_one)
next
  case False
  let ?s = "al_step cfg sd t s"
  have r: "sd t = Remote" using False at by (cases "sd t") (simp_all add: al_ops al_rest_def)
  have at': "al_at ?s t = APetVictim" "a_victim (al_lock ?s) = ah_vhint (al_thr ?s t)"
    using False at r by (simp_all add: al_ops al_rest_def split: if_splits)
  have "al_at (al_step cfg sd t u) t = APetPut"
    if "al_at u t = APetVictim" "a_victim (al_lock u) = ah_vhint (al_thr u t)" for u
    using that r by (simp add: al_ops)
  from this [OF at'] have "al_rest (al_step cfg sd t ?s) t < al_rest s t" using at by (simp add: al_rest_def)
  then show ?thesis using at at' by (simp add: al_gets_later [OF _ al_gets_one])
qed

text \<open>A free participant leaves Peterson's algorithm within two polling rounds of its own.\<close>

lemma al_poll_A:
  assumes "al_at s t = APetReadA" and "al_free sd s t"
  shows "al_rest (al_step cfg sd t s) t < 7 \<or> al_at (al_step cfg sd t s) t = APetReadB \<and>
    (if sd t = Local then a_victim (al_lock (al_step cfg sd t s)) \<noteq> LOCAL_VICTIM
     else ah_buf (al_thr (al_step cfg sd t s) t) = None \<or> a_victim (al_lock (al_step cfg sd t s)) \<noteq> REMOTE_VICTIM)"
  using assms by (cases "sd t") (auto simp: al_ops al_rest_def al_free_def)

lemma al_poll_B:
  assumes "al_at s t = APetReadB"
    and "if sd t = Local then a_victim (al_lock s) \<noteq> LOCAL_VICTIM
     else ah_buf (al_thr s t) = None \<or> a_victim (al_lock s) \<noteq> REMOTE_VICTIM"
  shows "al_rest (al_step cfg sd t s) t < 7"
  using assms by (cases "sd t") (auto simp: al_ops al_rest_def)

lemma al_poll_again:
  assumes "al_at s t = APetReadB" and "al_free sd s t"
  shows "al_rest (al_step cfg sd t s) t < 7 \<or>
    al_at (al_step cfg sd t s) t = APetReadA \<and> al_free sd (al_step cfg sd t s) t"
  using assms by (cases "sd t") (auto simp: al_ops al_rest_def al_free_def)

lemma al_gets_A:
  assumes "al_at s t = APetReadA" and "al_free sd s t"
  shows "al_gets cfg sd t 7 s"
proof (cases "al_rest (al_step cfg sd t s) t < 7")
  case True
  then show ?thesis using assms(1) by (simp add: al_gets_one)
next
  case False
  then have b: "al_at (al_step cfg sd t s) t = APetReadB"
    and "al_rest (al_step cfg sd t (al_step cfg sd t s)) t < 7"
    using al_poll_A [OF assms, of cfg] al_poll_B [of "al_step cfg sd t s" t sd cfg] by blast+
  then have "al_gets cfg sd t 7 (al_step cfg sd t s)" by (simp add: al_gets_one)
  then show ?thesis using assms(1) by (simp add: al_gets_later)
qed

lemma al_gets_peterson:
  assumes at: "al_at s t = APetReadA \<or> al_at s t = APetReadB" and free: "al_free sd s t"
  shows "al_gets cfg sd t (al_rest s t) s"
proof -
  have "al_gets cfg sd t 7 s"
  proof (cases "al_at s t = APetReadA")
    case True
    then show ?thesis using al_gets_A free by blast
  next
    case False
    then have B: "al_at s t = APetReadB" using at by blast
    have "al_gets cfg sd t 7 (al_step cfg sd t s)"
      using al_poll_again [OF B free, of cfg] al_gets_now al_gets_A by blast
    then show ?thesis using B by (simp add: al_gets_later)
  qed
  moreover have "7 \<le> al_rest s t" using at by (auto simp: al_rest_def)
  ultimately show ?thesis unfolding al_gets_def using order_less_le_trans by blast
qed

lemma al_ready_advance:
  assumes "al_sides sd s" and r: "al_ready sd s t"
  shows "al_gets cfg sd t (al_rest s t) s"
proof -
  consider "al_at s t = ASwap" | "al_at s t = APetVictim" | "al_at s t = APetReadA \<or> al_at s t = APetReadB"
    | "al_at s t \<notin> {ASwap, APetVictim, APetReadA, APetReadB}" by auto
  then show ?thesis
  proof cases
    case 3
    then show ?thesis using al_gets_peterson r by (auto simp: al_ready_def)
  next
    case 4
    have "al_at s t \<noteq> AIdle" using r by (auto simp: al_ready_def)
    then show ?thesis using al_step_less [OF r 4 assms(1)] by (simp add: al_gets_one)
  qed (simp_all add: al_gets_swap al_gets_victim)
qed

interpretation al_drain: draining "al_step cfg sd" "al_gstep cfg sd" "al_ok cfg sd" al_rest for cfg sd
proof unfold_locales
  show "al_ok cfg sd (al_step cfg sd t s) (al_gstep cfg sd t s Q)" if "al_ok cfg sd s Q" for s Q t
    using that by (rule al_ok_step)
  show "al_rest (al_step cfg sd t s) u = al_rest s u" if "u \<noteq> t" for s t u
    using that by (simp add: al_rest_def al_step_frame(1))
  show "\<exists>u s' g'. al_rest s u \<noteq> 0 \<and> al_solo cfg sd u s Q s' g' \<and> al_rest s' u < al_rest s u"
    if ok: "al_ok cfg sd s Q" and t: "al_rest s t \<noteq> 0" for s Q t
  proof -
    obtain u where u: "al_ready sd s u" using al_ready_exists [OF ok, of t] t by auto
    have "al_gets cfg sd u (al_rest s u) s" using al_ready_advance [OF _ u] ok by (simp add: al_ok_def)
    moreover have "al_rest s u \<noteq> 0" using u by (auto simp: al_ready_def)
    ultimately show ?thesis unfolding al_gets_def by blast
  qed
qed

section \<open>Properties\<close>

text \<open>
  C17: With positive budgets in the configuration, a thread that holds the ALock has a budget between 1
  and the configured budget of its cohort: the budget never wraps around, and what is passed on
  is never mistaken for the \<open>-1\<close> of a thread that has to wait.
\<close>

theorem al_budget_bounds:
  assumes "reachable (al_step cfg sd) UNIV al_init s"
    and "0 < local_budget cfg" and "0 < remote_budget cfg" and "al_hold s t"
  shows "1 \<le> sint (ad_budget (al_desc s t)) \<and> sint (ad_budget (al_desc s t)) \<le>
    (if sd t = Local then uint (local_budget cfg) else uint (remote_budget cfg))"
proof -
  obtain Q where "al_ok cfg sd s Q" using al_ok_reachable [OF assms(1)] assms(2,3) by (auto simp: al_positive_def)
  then have "budget_ok (al_budget cfg (sd t)) (alR s t) (t = hd (Q (sd t))) (ah_prev (al_thr s t))
      (sint (ad_budget (al_desc s t)))"
    by (simp add: al_ok_def al_budgets_def)
  then have "1 \<le> sint (ad_budget (al_desc s t)) \<and> sint (ad_budget (al_desc s t)) \<le> al_budget cfg (sd t)"
    using assms(4) by (simp add: budget_ok_def al_hold_rank)
  then show ?thesis by (cases "sd t") (simp_all add: al_budget_def)
qed

theorem al_budget_bounds_witness:
  "al_hold (run (al_step \<lparr>local_budget = 5, remote_budget = 5\<rparr> (\<lambda>_. Local)) [1, 1, 1, 1, 1] al_init) 1 \<and>
   1 \<le> sint (ad_budget (al_desc (run (al_step \<lparr>local_budget = 5, remote_budget = 5\<rparr> (\<lambda>_. Local))
     [1, 1, 1, 1, 1] al_init) 1))"
proof -
  let ?step = "al_step \<lparr>local_budget = 5, remote_budget = 5\<rparr> (\<lambda>_. Local)"
  let ?s = "run ?step [1, 1, 1, 1, 1] al_init"
  have r: "reachable ?step UNIV al_init ?s" by (rule reachable_run [OF _ reachable.start]) simp
  have h: "al_hold ?s 1" by code_simp
  show ?thesis using al_budget_bounds [OF r _ _ h] h by (simp del: run_simps)
qed

text \<open>
  C16: Deadlock freedom of the ALock with positive budgets: in every reachable state, the threads that are
  inside \<open>Lock\<close>, the critical section or \<open>Unlock\<close> can be scheduled, they alone, so that all of them finish.
\<close>

theorem al_deadlock_free:
  assumes "reachable (al_step cfg sd) UNIV al_init s" and "0 < local_budget cfg" and "0 < remote_budget cfg"
  shows "\<exists>sched. set sched \<subseteq> {t. al_at s t \<noteq> AIdle} \<and> (\<forall>t. al_at (run (al_step cfg sd) sched s) t = AIdle)"
proof -
  obtain Q where "al_ok cfg sd s Q" using al_ok_reachable [OF assms(1)] assms(2,3) by (auto simp: al_positive_def)
  from al_drain.drain [OF this] show ?thesis by simp
qed

theorem al_deadlock_free_witness:
  defines "step \<equiv> al_step \<lparr>local_budget = 1, remote_budget = 1\<rparr> (\<lambda>t. if t = 1 then Local else Remote)"
  shows "\<exists>sched. set sched \<subseteq> {t. al_at (run step [1, 2, 1, 2, 2, 1, 2] al_init) t \<noteq> AIdle} \<and>
    (\<forall>t. al_at (run step sched (run step [1, 2, 1, 2, 2, 1, 2] al_init)) t = AIdle)"
  unfolding step_def
  by (rule al_deadlock_free) (simp_all del: run_simps add: reachable_run [OF _ reachable.start])

text \<open>
  The budgets have to be positive: with a local budget of zero, which nothing rejects, the first
  thread passes on \<open>0 - 1\<close>, which its successor takes for \<open>not passed yet\<close>.  Two local threads reach a
  state in which both wait forever although nobody holds the lock.
\<close>

theorem al_zero_budget_deadlock:
  "\<exists>s. reachable (al_step \<lparr>local_budget = 0, remote_budget = 1\<rparr> (\<lambda>_. Local)) {1, 2} al_init s \<and>
     al_step \<lparr>local_budget = 0, remote_budget = 1\<rparr> (\<lambda>_. Local) 1 s = s \<and>
     al_step \<lparr>local_budget = 0, remote_budget = 1\<rparr> (\<lambda>_. Local) 2 s = s \<and>
     al_at s 1 \<noteq> AIdle \<and> al_at s 2 \<noteq> AIdle \<and> \<not> al_hold s 1 \<and> \<not> al_hold s 2"
proof -
  let ?step = "al_step \<lparr>local_budget = 0, remote_budget = 1\<rparr> (\<lambda>_. Local)"
  let ?s = "run ?step [1, 1, 1, 1, 1, 2, 2, 2, 1, 1, 1, 1, 1, 1] al_init"
  have "reachable ?step {1, 2} al_init ?s" by (rule reachable_run [OF _ reachable.start]) simp
  moreover have a: "al_at ?s 1 = AWaitBudget \<and> ad_budget (al_desc ?s 1) = -1" by code_simp
  moreover have b: "al_at ?s 2 = AWaitBudget \<and> ad_budget (al_desc ?s 2) = -1" by code_simp
  moreover have "?step t s = s" if "al_at s t = AWaitBudget \<and> ad_budget (al_desc s t) = -1" for s t
    using that by (simp add: al_ops)
  ultimately show ?thesis by (intro exI [of _ ?s]) (simp add: al_hold_def del: run_simps)
qed

end
