(* ===== verification/McsLock.thy ===== *)
theory McsLock
  imports McsQueue
begin

text \<open>
  The RDMA MCS lock of \<^verbatim>\<open>include/third_party/locks/rdma_mcs_lock.h\<close>.  The host's tail word (field
  \<^verbatim>\<open>next\<close> of the lock, at \<^verbatim>\<open>NEXT_PTR_OFFSET\<close>) is only changed by RDMA atomics; each thread spins on
  its own descriptor.
\<close>

section \<open>Model\<close>

text \<open>A descriptor; its 8-bit \<^verbatim>\<open>locked\<close> flag is \<open>1\<close> while its owner has to wait.\<close>

record RdmaMcsLock =
  mcs_locked :: u8
  mcs_next :: "tid option"

datatype mcs_pc = McsIdle | McsSwap | McsSetLocked | McsLink | McsSpin | McsCritical
  | McsWaitNext | McsHandover

record mcs_handle =
  mcs_pc :: mcs_pc
  mcs_prev :: "tid option"
  mcs_hint :: "tid option"

record mcs_state =
  mcs_tail :: "tid option"
  mcs_desc :: "tid \<Rightarrow> RdmaMcsLock"
  mcs_thr :: "tid \<Rightarrow> mcs_handle"

definition mcs_init :: mcs_state where
  "mcs_init = \<lparr>mcs_tail = None, mcs_desc = (\<lambda>_. \<lparr>mcs_locked = 0, mcs_next = None\<rparr>),
     mcs_thr = (\<lambda>_. \<lparr>mcs_pc = McsIdle, mcs_prev = None, mcs_hint = None\<rparr>)\<rparr>"

definition mcs_upd :: "tid \<Rightarrow> (mcs_handle \<Rightarrow> mcs_handle) \<Rightarrow> mcs_state \<Rightarrow> mcs_state" where
  [simp]: "mcs_upd t f s = s\<lparr>mcs_thr := (mcs_thr s)(t := f (mcs_thr s t))\<rparr>"

definition mcs_write :: "tid \<Rightarrow> (RdmaMcsLock \<Rightarrow> RdmaMcsLock) \<Rightarrow> mcs_state \<Rightarrow> mcs_state" where
  [simp]: "mcs_write d f s = s\<lparr>mcs_desc := (mcs_desc s)(d := f (mcs_desc s d))\<rparr>"

definition mcs_goto :: "mcs_pc \<Rightarrow> tid \<Rightarrow> mcs_state \<Rightarrow> mcs_state" where
  [simp]: "mcs_goto p t = mcs_upd t (mcs_pc_update (\<lambda>_. p))"

text \<open>
  \<open>Lock\<close>.  \<^verbatim>\<open>AtomicSwap\<close> is the loop of \<^verbatim>\<open>MemoryPool::Exchange\<close>: compare-and-swap against the value
  last seen (first the hint 0) until it succeeds.  A non-null predecessor makes the thread mark its
  descriptor, link itself behind the predecessor and spin.
\<close>

definition mcs_Lock :: "tid \<Rightarrow> mcs_state \<Rightarrow> mcs_state" where
  "mcs_Lock t s = (case mcs_pc (mcs_thr s t) of
     McsIdle \<Rightarrow> mcs_upd t (\<lambda>h. h\<lparr>mcs_pc := McsSwap, mcs_hint := None\<rparr>)
       (mcs_write t (\<lambda>d. d\<lparr>mcs_locked := 0, mcs_next := None\<rparr>) s)
   | McsSwap \<Rightarrow>
       if mcs_tail s = mcs_hint (mcs_thr s t) then
         mcs_upd t (\<lambda>h. h\<lparr>mcs_prev := mcs_hint h,
             mcs_pc := (if mcs_hint h = None then McsCritical else McsSetLocked)\<rparr>)
           (s\<lparr>mcs_tail := Some t\<rparr>)
       else mcs_upd t (\<lambda>h. h\<lparr>mcs_hint := mcs_tail s\<rparr>) s
   | McsSetLocked \<Rightarrow> mcs_goto McsLink t (mcs_write t (\<lambda>d. d\<lparr>mcs_locked := 1\<rparr>) s)
   | McsLink \<Rightarrow> (case mcs_prev (mcs_thr s t) of
         Some p \<Rightarrow> mcs_goto McsSpin t (mcs_write p (\<lambda>d. d\<lparr>mcs_next := Some t\<rparr>) s)
       | None \<Rightarrow> s)
   | McsSpin \<Rightarrow> if mcs_locked (mcs_desc s t) = 1 then s else mcs_goto McsCritical t s
   | _ \<Rightarrow> s)"

text \<open>
  \<open>Unlock\<close>: compare-and-swap the tail from the own descriptor to 0; otherwise wait for the successor
  to appear and clear its \<^verbatim>\<open>locked\<close> word.
\<close>

definition mcs_Unlock :: "tid \<Rightarrow> mcs_state \<Rightarrow> mcs_state" where
  "mcs_Unlock t s = (case mcs_pc (mcs_thr s t) of
     McsCritical \<Rightarrow>
       if mcs_tail s = Some t then mcs_goto McsIdle t (s\<lparr>mcs_tail := None\<rparr>)
       else mcs_goto McsWaitNext t s
   | McsWaitNext \<Rightarrow> if mcs_next (mcs_desc s t) = None then s else mcs_goto McsHandover t s
   | McsHandover \<Rightarrow> (case mcs_next (mcs_desc s t) of
         Some n \<Rightarrow> mcs_goto McsIdle t (mcs_write n (\<lambda>d. d\<lparr>mcs_locked := 0\<rparr>) s)
       | None \<Rightarrow> s)
   | _ \<Rightarrow> s)"

text \<open>The lock is held from the step that acquires it to the one that gives it up.\<close>

definition mcs_hold :: "mcs_state \<Rightarrow> tid \<Rightarrow> bool" where
  "mcs_hold s t \<longleftrightarrow> mcs_pc (mcs_thr s t) \<in> {McsCritical, McsWaitNext, McsHandover}"

definition mcs_step :: "tid \<Rightarrow> mcs_state \<Rightarrow> mcs_state" where
  "mcs_step t s = (if mcs_hold s t then mcs_Unlock t s else mcs_Lock t s)"

definition mcs_arrive :: "mcs_state \<Rightarrow> tid \<Rightarrow> bool" where
  "mcs_arrive s t \<longleftrightarrow> mcs_pc (mcs_thr s t) = McsSwap \<and> mcs_tail s = mcs_hint (mcs_thr s t)"

section \<open>Invariant\<close>

text \<open>Ghost state: the queue, in the order of the successful swaps.\<close>

definition mcs_gstep :: "tid \<Rightarrow> mcs_state \<Rightarrow> tid list \<Rightarrow> tid list" where
  "mcs_gstep t s g = (
     if mcs_arrive s t then g @ [t]
     else if leaves mcs_hold mcs_step s t then tl g else g)"

abbreviation mcs_at :: "mcs_state \<Rightarrow> tid \<Rightarrow> mcs_pc" where
  "mcs_at s t \<equiv> mcs_pc (mcs_thr s t)"

text \<open>The position of a program point in the protocol.\<close>

fun mcs_rank :: "mcs_pc \<Rightarrow> nat" where
  "mcs_rank McsIdle = 0"
| "mcs_rank McsSwap = 1"
| "mcs_rank McsSetLocked = 2"
| "mcs_rank McsLink = 3"
| "mcs_rank McsSpin = 4"
| "mcs_rank McsCritical = 5"
| "mcs_rank McsWaitNext = 6"
| "mcs_rank McsHandover = 7"

abbreviation mcs_R :: "mcs_state \<Rightarrow> tid \<Rightarrow> nat" where
  "mcs_R s t \<equiv> mcs_rank (mcs_at s t)"

definition mcs_queue :: "mcs_state \<Rightarrow> tid list \<Rightarrow> bool" where
  "mcs_queue s q \<longleftrightarrow> mcs_shape q (mcs_tail s) (\<lambda>t. mcs_prev (mcs_thr s t))
     (\<lambda>t. mcs_next (mcs_desc s t)) (\<lambda>t. 4 \<le> mcs_R s t)"

text \<open>
  Enqueued threads are those past their swap; only the head may hold the lock, and a thread that has
  not linked itself yet is never the head; a spinning thread is released exactly when it is the head.
\<close>

definition mcs_inv :: "mcs_state \<Rightarrow> tid list \<Rightarrow> bool" where
  "mcs_inv s q \<longleftrightarrow>
     mcs_queue s q \<and>
     (\<forall>t. t \<in> set q \<longleftrightarrow> 2 \<le> mcs_R s t) \<and>
     (\<forall>t. mcs_R s t = 1 \<longrightarrow> mcs_next (mcs_desc s t) = None) \<and>
     (\<forall>t. 5 \<le> mcs_R s t \<longrightarrow> t = hd q) \<and>
     (\<forall>t. 2 \<le> mcs_R s t \<longrightarrow> mcs_R s t \<le> 3 \<longrightarrow> t \<noteq> hd q) \<and>
     (\<forall>t. 3 \<le> mcs_R s t \<longrightarrow> mcs_R s t \<le> 4 \<longrightarrow>
        mcs_locked (mcs_desc s t) = (if t = hd q then 0 else 1)) \<and>
     (\<forall>t. 6 \<le> mcs_R s t \<longrightarrow> mcs_tail s \<noteq> Some t) \<and>
     (\<forall>t. mcs_R s t = 7 \<longrightarrow> mcs_next (mcs_desc s t) \<noteq> None)"

lemmas mcs_defs = mcs_step_def mcs_Lock_def mcs_Unlock_def mcs_gstep_def mcs_arrive_def mcs_hold_def
  leaves_def

lemma mcs_inv_Idle:
  assumes "mcs_inv s q" and "mcs_at s t = McsIdle"
  shows "mcs_inv (mcs_step t s) (mcs_gstep t s q)"
proof -
  have t: "t \<notin> set q" using assms by (simp add: mcs_inv_def)
  have "mcs_queue (mcs_step t s) q"
    using assms t unfolding mcs_queue_def mcs_inv_def by (auto simp: mcs_defs elim!: mcs_shape_cong)
  then show ?thesis
    using assms t by (simp add: mcs_inv_def mcs_defs)
qed

lemma mcs_inv_Swap:
  assumes inv: "mcs_inv s q" and at: "mcs_at s t = McsSwap"
  shows "mcs_inv (mcs_step t s) (mcs_gstep t s q)"
proof (cases "mcs_arrive s t")
  case True
  have t: "t \<notin> set q" using inv at by (simp add: mcs_inv_def)
  have tail: "mcs_tail s = (if q = [] then None else Some (last q))"
    using inv by (simp add: mcs_inv_def mcs_queue_def mcs_shape_def)
  have hint: "mcs_hint (mcs_thr s t) = mcs_tail s" using True by (simp add: mcs_arrive_def)
  have nxt: "mcs_next (mcs_desc s t) = None" using inv at by (simp add: mcs_inv_def)
  have E: "mcs_gstep t s q = q @ [t]" using True by (simp add: mcs_gstep_def)
  have sh: "mcs_queue (mcs_step t s) (q @ [t])"
  proof (cases "q = []")
    case True
    then show ?thesis using at hint tail nxt by (simp add: mcs_queue_def mcs_defs mcs_shape_def)
  next
    case False
    then show ?thesis
      using inv at hint nxt t tail unfolding mcs_queue_def mcs_inv_def
      by (auto simp: mcs_defs elim!: mcs_shape_enqueue)
  qed
  have hd: "hd (q @ [t]) = (if q = [] then t else hd q)" by simp
  have emp: "\<not> 3 \<le> mcs_R s u \<and> \<not> 5 \<le> mcs_R s u \<and> \<not> 6 \<le> mcs_R s u \<and> mcs_R s u \<noteq> 7" if "q = []" for u
  proof -
    have "\<not> 2 \<le> mcs_R s u" using inv that by (simp add: mcs_inv_def)
    then show ?thesis by simp
  qed
  have th: "q \<noteq> [] \<Longrightarrow> hd q \<noteq> t" using t by auto
  show ?thesis
    unfolding E mcs_inv_def
  proof (intro conjI)
    show "mcs_queue (mcs_step t s) (q @ [t])" by (rule sh)
  qed (use inv at hint tail t emp th in \<open>auto simp: mcs_defs hd mcs_inv_def\<close>)
next
  case False
  with assms show ?thesis
    unfolding mcs_inv_def mcs_queue_def by (auto simp: mcs_defs elim!: mcs_shape_cong)
qed

lemma mcs_inv_SetLocked:
  assumes inv: "mcs_inv s q" and at: "mcs_at s t = McsSetLocked"
  shows "mcs_inv (mcs_step t s) (mcs_gstep t s q)"
proof -
  have "mcs_queue (mcs_step t s) q"
    using inv at unfolding mcs_inv_def mcs_queue_def by (auto simp: mcs_defs elim!: mcs_shape_cong)
  then show ?thesis using inv at by (simp add: mcs_defs mcs_inv_def)
qed

lemma mcs_inv_Spin:
  assumes inv: "mcs_inv s q" and at: "mcs_at s t = McsSpin"
  shows "mcs_inv (mcs_step t s) (mcs_gstep t s q)"
proof -
  have sh: "mcs_queue (mcs_step t s) q"
    using inv at unfolding mcs_inv_def mcs_queue_def by (auto simp: mcs_defs elim!: mcs_shape_cong)
  have "mcs_locked (mcs_desc s t) = (if t = hd q then 0 else 1)"
    using inv at by (simp add: mcs_inv_def)
  then show ?thesis
    using inv at sh by (cases "t = hd q") (simp_all add: mcs_defs mcs_inv_def)
qed

lemma mcs_inv_Link:
  assumes inv: "mcs_inv s q" and at: "mcs_at s t = McsLink"
  shows "mcs_inv (mcs_step t s) (mcs_gstep t s q)"
proof -
  have sh: "mcs_queue s q" and t: "t \<in> set q" "t \<noteq> hd q"
    using inv at by (auto simp: mcs_inv_def)
  obtain p where adj: "adj q p t" using adj_ex_left [OF t] by blast
  then have p: "mcs_prev (mcs_thr s t) = Some p"
    using sh by (auto simp: mcs_queue_def dest: mcs_shape_prev)
  have pt: "p \<noteq> t"
    using sh adj by (auto simp: mcs_queue_def dest: mcs_shape_distinct adj_neq)
  have pR: "mcs_R s p \<noteq> 1" using adj_setL [OF adj] inv by (auto simp: mcs_inv_def)
  have "mcs_queue (mcs_step t s) q"
    using sh at p pt unfolding mcs_queue_def by (auto simp: mcs_defs elim!: mcs_shape_link [OF _ adj])
  then show ?thesis
    using inv at p pt pR t by (simp add: mcs_defs mcs_inv_def)
qed

lemma mcs_inv_Critical:
  assumes inv: "mcs_inv s q" and at: "mcs_at s t = McsCritical"
  shows "mcs_inv (mcs_step t s) (mcs_gstep t s q)"
proof (cases "mcs_tail s = Some t")
  case True
  have "t = hd q" using inv at by (simp add: mcs_inv_def)
  then have q: "q = [t]"
    using inv True by (auto simp: mcs_inv_def mcs_queue_def intro: mcs_shape_single)
  have no: "\<not> 2 \<le> mcs_R s u \<and> \<not> 3 \<le> mcs_R s u \<and> \<not> 5 \<le> mcs_R s u \<and> \<not> 6 \<le> mcs_R s u \<and> mcs_R s u \<noteq> 7"
    if "u \<noteq> t" for u
  proof -
    have "\<not> 2 \<le> mcs_R s u" using inv that q by (simp add: mcs_inv_def)
    then show ?thesis by simp
  qed
  have g: "mcs_gstep t s q = []" using True at q by (simp add: mcs_defs)
  show ?thesis
    unfolding g using inv at True no by (simp add: mcs_defs mcs_inv_def mcs_queue_def)
next
  case False
  have "mcs_queue (mcs_step t s) q"
    using inv at False unfolding mcs_inv_def mcs_queue_def by (auto simp: mcs_defs elim!: mcs_shape_cong)
  then show ?thesis
    using inv at False by (simp add: mcs_defs mcs_inv_def)
qed

lemma mcs_inv_WaitNext:
  assumes inv: "mcs_inv s q" and at: "mcs_at s t = McsWaitNext"
  shows "mcs_inv (mcs_step t s) (mcs_gstep t s q)"
proof -
  have "mcs_queue (mcs_step t s) q"
    using inv at unfolding mcs_inv_def mcs_queue_def by (auto simp: mcs_defs elim!: mcs_shape_cong)
  then show ?thesis
    using inv at by (simp add: mcs_defs mcs_inv_def)
qed

lemma mcs_inv_Handover:
  assumes inv: "mcs_inv s q" and at: "mcs_at s t = McsHandover"
  shows "mcs_inv (mcs_step t s) (mcs_gstep t s q)"
proof -
  have sh: "mcs_queue s q" and t: "t \<in> set q" "t = hd q"
    using inv at by (auto simp: mcs_inv_def)
  have "mcs_next (mcs_desc s t) \<noteq> None" using inv at by (simp add: mcs_inv_def)
  then obtain n where n: "mcs_next (mcs_desc s t) = Some n" by blast
  have adj: "adj q (hd q) n" and lk: "4 \<le> mcs_R s n"
    using sh t n mcs_shape_next_Some unfolding mcs_queue_def by metis+
  note h = mcs_shape_handover [OF sh [unfolded mcs_queue_def] adj]
  have d: "distinct q" using sh by (auto simp: mcs_queue_def dest: mcs_shape_distinct)
  have nt: "n \<noteq> t" using adj_not_hd [OF d adj] t(2) by simp
  have others: "\<not> 5 \<le> mcs_R s u \<and> \<not> 6 \<le> mcs_R s u \<and> mcs_R s u \<noteq> 7" if "u \<noteq> t" for u
  proof -
    have "\<not> 5 \<le> mcs_R s u" using inv that t(2) by (auto simp: mcs_inv_def)
    then show ?thesis by simp
  qed
  have g: "mcs_gstep t s q = tl q" using at n by (simp add: mcs_defs)
  have tlt: "u \<in> set (tl q) \<Longrightarrow> u \<noteq> t" for u using tl_line [OF d] t(2) by blast
  have tail: "mcs_tail (mcs_step t s) = mcs_tail s" using at n by (simp add: mcs_defs)
  have "mcs_queue (mcs_step t s) (tl q)"
    unfolding mcs_queue_def tail
    by (rule mcs_shape_cong [OF h(1)]; drule tlt) (use at n in \<open>simp_all add: mcs_defs\<close>)
  note q' = this
  have R: "mcs_R (mcs_step t s) u = (if u = t then 0 else mcs_R s u)" for u
    using at n by (simp add: mcs_defs)
  have D: "mcs_desc (mcs_step t s) u = (if u = n then (mcs_desc s n)\<lparr>mcs_locked := 0\<rparr> else mcs_desc s u)" for u
    using at n by (simp add: mcs_defs)
  have lock: "mcs_locked (mcs_desc s u) = 1" if "3 \<le> mcs_R s u" "mcs_R s u \<le> 4" "u \<noteq> t" for u
    using inv that t(2) by (simp add: mcs_inv_def)
  have mem: "u \<in> set q \<longleftrightarrow> 2 \<le> mcs_R s u" for u using inv by (simp add: mcs_inv_def)
  have nx: "mcs_R s u = 1 \<Longrightarrow> mcs_next (mcs_desc s u) = None" for u using inv by (simp add: mcs_inv_def)
  show ?thesis
    unfolding g mcs_inv_def h(3) tail
  proof (intro conjI allI impI)
    show "mcs_queue (mcs_step t s) (tl q)" by (rule q')
    show "u \<in> set (tl q) \<longleftrightarrow> 2 \<le> mcs_R (mcs_step t s) u" for u
      unfolding tl_line [OF d] mem R t(2) [symmetric] by simp
  qed (use lk nt others lock nx in \<open>auto simp: R D split: if_splits\<close>)
qed

lemma mcs_inv_step: "mcs_inv s q \<Longrightarrow> mcs_inv (mcs_step t s) (mcs_gstep t s q)"
  by (cases "mcs_at s t")
     (auto intro: mcs_inv_Idle mcs_inv_Swap mcs_inv_SetLocked mcs_inv_Spin mcs_inv_Link mcs_inv_Critical
        mcs_inv_WaitNext mcs_inv_Handover)

interpretation mcs: fifo_protocol UNIV mcs_step mcs_init mcs_gstep "[]" mcs_inv mcs_hold mcs_arrive
  "\<lambda>q. q"
proof unfold_locales
  show "mcs_inv mcs_init []" by (simp add: mcs_inv_def mcs_queue_def mcs_init_def)
  show "mcs_inv (mcs_step t s) (mcs_gstep t s q)" if "mcs_inv s q" for s q t
    using that by (rule mcs_inv_step)
  show "q \<noteq> [] \<and> hd q = t" if "mcs_inv s q" "mcs_hold s t" for s q t
  proof -
    have "5 \<le> mcs_R s t" using that(2) by (auto simp: mcs_hold_def)
    moreover from this have "2 \<le> mcs_R s t" by simp
    ultimately have "t = hd q" "t \<in> set q" using that(1) by (auto simp: mcs_inv_def)
    then show ?thesis by auto
  qed
qed (auto simp: mcs_defs mcs_init_def split: mcs_pc.splits if_splits option.splits)

section \<open>Properties\<close>

text \<open>C18: Mutual exclusion of the RDMA MCS lock in every interleaving of any number of threads.\<close>

theorem mcs_mutual_exclusion:
  assumes "reachable mcs_step UNIV mcs_init s" and "mcs_hold s a" and "mcs_hold s b"
  shows "a = b"
  using assms by (rule mcs.mutual_exclusion)

theorem mcs_mutual_exclusion_witness:
  "reachable mcs_step UNIV mcs_init (run mcs_step [1, 2, 1, 2, 2, 2, 2, 2] mcs_init) \<and>
   mcs_hold (run mcs_step [1, 2, 1, 2, 2, 2, 2, 2] mcs_init) 1 \<and>
   \<not> mcs_hold (run mcs_step [1, 2, 1, 2, 2, 2, 2, 2] mcs_init) 2"
proof -
  let ?s = "run mcs_step [1, 2, 1, 2, 2, 2, 2, 2] mcs_init"
  have r: "reachable mcs_step UNIV mcs_init ?s" by (rule reachable_run [OF _ reachable.start]) simp
  have h: "mcs_hold ?s 1" by code_simp
  have "\<not> mcs_hold ?s 2" using mcs_mutual_exclusion [OF r h, of 2] by auto
  with r h show ?thesis by blast
qed

text \<open>
  C19: The MCS lock is first come, first served: along every schedule the lock is acquired in the order
  of the successful swaps of the tail word.
\<close>

theorem mcs_first_come_first_served:
  "prefix (events (enters mcs_hold mcs_step) mcs_step sched mcs_init)
     (events mcs_arrive mcs_step sched mcs_init)"
  by (rule mcs.first_come_first_served) simp

end
