(* ===== verification/WordMemory.thy ===== *)
theory WordMemory
  imports Verbs
begin

text \<open>
  What the lock handlers need of the memory they work on: single words that can be read, written, added
  to, compared and swapped.  The locale \<open>word_memory\<close> states it; \<^verbatim>\<open>MemoryPool\<close> provides it for the words of a
  node that serves requests.
\<close>

section \<open>The interface\<close>

text \<open>The word at \<open>a\<close> becomes \<open>v\<close>; all words that were ready stay ready, and the others keep their value.\<close>

definition stored :: "(Pointer \<Rightarrow> 's \<Rightarrow> bool) \<Rightarrow> (Pointer \<Rightarrow> 's \<Rightarrow> u64) \<Rightarrow> Pointer \<Rightarrow> u64 \<Rightarrow> 's \<Rightarrow> 's \<Rightarrow> bool" where
  "stored ready word a v s s' \<longleftrightarrow> (\<forall>b. ready b s \<longrightarrow> ready b s' \<and> word b s' = (if b = a then v else word b s))"

lemma stored_at: "stored ready word a v s s' \<Longrightarrow> ready a s \<Longrightarrow> ready a s' \<and> word a s' = v"
  by (simp add: stored_def)

lemma stored_other: "stored ready word a v s s' \<Longrightarrow> ready b s \<Longrightarrow> b \<noteq> a \<Longrightarrow> ready b s' \<and> word b s' = word b s"
  by (simp add: stored_def)

lemma stored_trans:
  "stored ready word a v s s1 \<Longrightarrow> stored ready word a v' s1 s2 \<Longrightarrow> stored ready word a v' s s2"
  by (simp add: stored_def)

locale word_memory =
  fixes ready :: "Pointer \<Rightarrow> 's \<Rightarrow> bool"
    and word :: "Pointer \<Rightarrow> 's \<Rightarrow> u64"
    and rd :: "Pointer \<Rightarrow> 's \<Rightarrow> (u64, 's) result"
    and wrt :: "Pointer \<Rightarrow> u64 \<Rightarrow> 's \<Rightarrow> (unit, 's) result"
    and cas :: "Pointer \<Rightarrow> u64 \<Rightarrow> u64 \<Rightarrow> 's \<Rightarrow> (bool \<times> u64, 's) result"
    and faa :: "Pointer \<Rightarrow> u64 \<Rightarrow> 's \<Rightarrow> (u64, 's) result"
    and xchg :: "Pointer \<Rightarrow> u64 \<Rightarrow> u64 \<Rightarrow> 's \<Rightarrow> (u64, 's) result"
  assumes rd_word: "ready a s \<Longrightarrow> \<exists>s'. rd a s = Some (Inr (word a s, s')) \<and> stored ready word a (word a s) s s'"
    and wrt_word: "ready a s \<Longrightarrow> \<exists>s'. wrt a v s = Some (Inr ((), s')) \<and> stored ready word a v s s'"
    and cas_word: "ready a s \<Longrightarrow> \<exists>s'. cas a x y s = Some (Inr ((word a s = x, word a s), s')) \<and>
      stored ready word a (if word a s = x then y else word a s) s s'"
    and faa_word: "ready a s \<Longrightarrow> \<exists>s'. faa a d s = Some (Inr (word a s, s')) \<and> stored ready word a (word a s + d) s s'"
    and xchg_word: "ready a s \<Longrightarrow> \<exists>s'. xchg a v h s = Some (Inr (word a s, s')) \<and> stored ready word a v s s'"
begin

text \<open>Waiting for a word to have a value ends at once or, with nobody else at work, never.\<close>

lemma await_word:
  assumes "ready a s" and "word a s = x"
  shows "\<exists>s'. spin_until (\<lambda>s. bnd (rd a s) (\<lambda>v s. Some (Inr (v = x, s)))) s = Some (Inr ((), s')) \<and>
    stored ready word a x s s'"
  using rd_word [OF assms(1)] assms(2) spin_until_true [of "\<lambda>s. bnd (rd a s) (\<lambda>v s. Some (Inr (v = x, s)))" s] by auto

lemma await_never:
  assumes "ready a s" and "word a s \<noteq> x"
  shows "spin_until (\<lambda>s. bnd (rd a s) (\<lambda>v s. Some (Inr (v = x, s)))) s = None"
proof (rule spin_until_never [where I = "\<lambda>s. ready a s \<and> word a s \<noteq> x"])
  show "\<exists>s'. bnd (rd a s) (\<lambda>v s. Some (Inr (v = x, s))) = Some (Inr (False, s')) \<and> ready a s' \<and> word a s' \<noteq> x"
    if "ready a s \<and> word a s \<noteq> x" for s
    using rd_word [of a s] that by (auto dest: stored_at)
qed (use assms in simp)

text \<open>Taking a lock word by compare-and-swap.\<close>

lemma take_word:
  assumes "ready a s" and "word a s = x"
  shows "\<exists>s'. spin_until (\<lambda>s. bnd (cas a x y s) (\<lambda>(ok, v) s. Some (Inr (v = x, s)))) s = Some (Inr ((), s')) \<and>
    stored ready word a y s s'"
  using cas_word [OF assms(1), of x y] assms(2)
    spin_until_true [of "\<lambda>s. bnd (cas a x y s) (\<lambda>(ok, v) s. Some (Inr (v = x, s)))" s] by auto

lemma take_never:
  assumes "ready a s" and "word a s \<noteq> x"
  shows "spin_until (\<lambda>s. bnd (cas a x y s) (\<lambda>(ok, v) s. Some (Inr (v = x, s)))) s = None"
proof (rule spin_until_never [where I = "\<lambda>s. ready a s \<and> word a s \<noteq> x"])
  show "\<exists>s'. bnd (cas a x y s) (\<lambda>(ok, v) s. Some (Inr (v = x, s))) = Some (Inr (False, s')) \<and> ready a s' \<and> word a s' \<noteq> x"
    if "ready a s \<and> word a s \<noteq> x" for s
    using cas_word [of a s x y] that by (auto dest: stored_at)
qed (use assms in simp)

end

end
