(* ===== verification/MemoryPoolThms.thy ===== *)
theory MemoryPoolThms
  imports MemoryPool WordMemory
begin

text \<open>
  What the memory pool promises: its allocator hands out each free chunk once, the constructor carves the
  ring of landing buffers out of the first chunks, every operation keeps the ring in order, and over a
  network that serves requests the remote operations read, write and update the word they address.
\<close>

section \<open>The allocator\<close>

definition pool_chunks :: "'n MemoryPool \<Rightarrow> u64 list \<Rightarrow> bool" where
  "pool_chunks p cs \<longleftrightarrow> chain (pmem p) (free_next p) cs"

interpretation pool: chunk_allocator pool_chunks node_id Allocate push_chunk
proof unfold_locales
  show "Allocate p = (ptr_null, p)" if "pool_chunks p []" for p :: "'n MemoryPool"
    using that by (simp add: pool_chunks_def Allocate_def)
  show "\<exists>p'. Allocate p = (ptr_make (node_id p) c, p') \<and> pool_chunks p' cs \<and> node_id p' = node_id p"
    if "pool_chunks p (c # cs)" for p :: "'n MemoryPool" and c cs
    using that by (auto simp: pool_chunks_def Allocate_def)
  show "pool_chunks (push_chunk q p) (ptr_address q # cs) \<and> node_id (push_chunk q p) = node_id p"
    if "pool_chunks p cs" "ptr_address q \<noteq> 0" "ptr_address q \<notin> set cs" for p :: "'n MemoryPool" and q cs
    using that chain_push [of "pmem p" "free_next p" cs "ptr_address q"]
    by (simp add: pool_chunks_def push_chunk_def poke_def)
qed

section \<open>The ring of buffers\<close>

definition slots :: "u16 \<Rightarrow> nat \<Rightarrow> u64 \<Rightarrow> Pointer list" where
  "slots nid bpc c = map (\<lambda>j. ptr_add (ptr_make nid c) (of_nat j * 8)) [0..<bpc]"

lemma ptr_make_bool: "c \<noteq> 0 \<Longrightarrow> ptr_bool (ptr_make nid c)"
  by (simp add: ptr_bool_def ptr_make_def) (metis or_eq_0_iff)

lemma take_slots: "take n (slots nid bpc c) = map (\<lambda>j. ptr_add (ptr_make nid c) (of_nat j * 8)) [0..<min bpc n]"
  by (cases "n \<le> bpc") (simp_all add: slots_def take_map min_def)

lemma carve_buffers_ok:
  assumes "pool_chunks p cs" and "0 < bpc" and "n \<le> bpc * length cs"
  shows "\<exists>p'. carve_buffers bpc n p = Some (Inr ((), p')) \<and>
    local_buffer_pointers p' = local_buffer_pointers p @ take n (concat (map (slots (node_id p) bpc) cs)) \<and>
    pool_chunks p' (drop ((n + bpc - 1) div bpc) cs) \<and>
    p' = p\<lparr>local_buffer_pointers := local_buffer_pointers p', free_next := free_next p'\<rparr>"
  using assms
proof (induction cs arbitrary: n p)
  case Nil
  then show ?case using Nil.prems by (simp add: carve_buffers.simps)
next
  case (Cons c cs)
  show ?case
  proof (cases "n = 0")
    case True
    then show ?thesis using Cons.prems(1,2) by (simp add: carve_buffers.simps)
  next
    case False
    let ?p1 = "p\<lparr>free_next := pmem p c\<rparr>"
    let ?p2 = "?p1\<lparr>local_buffer_pointers := local_buffer_pointers p @ take n (slots (node_id p) bpc c)\<rparr>"
    have c: "c \<noteq> 0" "free_next p = c" "chain (pmem p) (pmem p c) cs"
      using Cons.prems(1) by (auto simp: pool_chunks_def)
    have step: "carve_buffers bpc n p = carve_buffers bpc (n - min bpc n) ?p2"
      using False Cons.prems(2) c
      by (subst carve_buffers.simps) (simp add: Allocate_def ptr_make_bool take_slots)
    have "pool_chunks ?p2 cs" using c by (simp add: pool_chunks_def)
    moreover have "n - min bpc n \<le> bpc * length cs" using Cons.prems(3) by auto
    ultimately obtain p' where p': "carve_buffers bpc (n - min bpc n) ?p2 = Some (Inr ((), p'))"
      "local_buffer_pointers p' = local_buffer_pointers ?p2 @
        take (n - min bpc n) (concat (map (slots (node_id ?p2) bpc) cs))"
      "pool_chunks p' (drop ((n - min bpc n + bpc - 1) div bpc) cs)"
      "p' = ?p2\<lparr>local_buffer_pointers := local_buffer_pointers p', free_next := free_next p'\<rparr>"
      using Cons.IH [of ?p2 "n - min bpc n"] Cons.prems(2) by blast
    have len: "length (slots (node_id p) bpc c) = bpc" by (simp add: slots_def)
    have buf: "local_buffer_pointers p' =
        local_buffer_pointers p @ take n (concat (map (slots (node_id p) bpc) (c # cs)))"
      unfolding p'(2) using len by (auto simp: min_def)
    have div: "(n + bpc - 1) div bpc = Suc ((n - min bpc n + bpc - 1) div bpc)"
      using False Cons.prems(2) by (cases "n \<le> bpc") (auto simp: min_def div_if Suc_diff_le le_div_geq)
    have fin: "p' = p\<lparr>local_buffer_pointers := local_buffer_pointers p', free_next := free_next p'\<rparr>"
      using p'(4) by (metis (no_types, lifting) MemoryPool.surjective MemoryPool.update_convs(1,2))
    show ?thesis
      unfolding step using p'(1,3) buf div fin by auto
  qed
qed

lemma carve_buffers_short:
  assumes "pool_chunks p cs" and "0 < bpc" and "bpc * length cs < n"
  shows "carve_buffers bpc n p = Some (Inl OutOfMemory)"
  using assms
proof (induction cs arbitrary: n p)
  case Nil
  then show ?case
    by (subst carve_buffers.simps) (simp add: pool_chunks_def Allocate_def ptr_bool_def ptr_null_def)
next
  case (Cons c cs)
  let ?p2 = "p\<lparr>free_next := pmem p c, local_buffer_pointers := local_buffer_pointers p @ take n (slots (node_id p) bpc c)\<rparr>"
  have c: "c \<noteq> 0" "free_next p = c" "pool_chunks ?p2 cs"
    using Cons.prems(1) by (auto simp: pool_chunks_def)
  have m: "min bpc n = bpc" "bpc * length cs < n - bpc" "n \<noteq> 0" using Cons.prems(2,3) by auto
  have "carve_buffers bpc n p = carve_buffers bpc (n - bpc) ?p2"
    using m Cons.prems(2) c(1,2)
    by (subst carve_buffers.simps) (simp add: Allocate_def ptr_make_bool take_slots)
  then show ?case using Cons.IH [OF c(3) Cons.prems(2) m(2)] by simp
qed

lemma chunk_bounds: "kMinChunkSize = 64" "kMaxChunkSize = 4096"
  by (simp_all add: kMinChunkSize_def kMaxChunkSize_def push_bit_eq_mult)

text \<open>
  Invariant of a pool: the ring is complete and the index points into it, every buffer is on this node,
  and a word fits a chunk.
\<close>

definition pool_ok :: "'n MemoryPool \<Rightarrow> bool" where
  "pool_ok p \<longleftrightarrow> length (local_buffer_pointers p) = unat (buffer_count p) \<and> buffer_index p < buffer_count p \<and>
     (\<forall>b \<in> set (local_buffer_pointers p). IsLocal b p) \<and> 8 \<le> chunk_size p"

text \<open>Two states of a pool that differ only in the ring index, the request counter and the world.\<close>

definition pool_same :: "'n MemoryPool \<Rightarrow> 'n MemoryPool \<Rightarrow> bool" where
  "pool_same p p' \<longleftrightarrow> free_next p' = free_next p \<and> local_buffer_pointers p' = local_buffer_pointers p \<and>
     chunk_size p' = chunk_size p \<and> node_id p' = node_id p \<and> lkey p' = lkey p \<and> target_map p' = target_map p \<and>
     buffer_count p' = buffer_count p \<and> (buffer_index p < buffer_count p \<longrightarrow> buffer_index p' < buffer_count p)"

lemma pool_same_refl [simp]: "pool_same p p"
  and pool_same_world [simp]: "pool_same p (p\<lparr>pworld := w\<rparr>)"
  and pool_same_poke [simp]: "pool_same p (poke a v p)"
  and pool_same_request [simp]: "pool_same p (p\<lparr>request_id := r\<rparr>)"
  by (simp_all add: pool_same_def poke_def)

lemma pool_same_trans: "pool_same p p1 \<Longrightarrow> pool_same p1 p2 \<Longrightarrow> pool_same p p2"
  by (simp add: pool_same_def)

lemma pool_same_ok: "pool_same p p' \<Longrightarrow> pool_ok p \<Longrightarrow> pool_ok p'"
  by (simp add: pool_same_def pool_ok_def IsLocal_def)

lemma pool_same_next: "pool_same p (snd (next_buffer p))"
proof -
  have "(buffer_index p + 1) mod buffer_count p < buffer_count p" if "buffer_index p < buffer_count p"
  proof -
    have "buffer_count p \<noteq> 0" using that by auto
    then show ?thesis by (simp add: word_mod_less_divisor word_gt_0)
  qed
  then show ?thesis by (simp add: pool_same_def next_buffer_def)
qed

lemma next_buffer_in: "pool_ok p \<Longrightarrow> fst (next_buffer p) \<in> set (local_buffer_pointers p)"
  by (simp add: pool_ok_def next_buffer_def word_less_nat_alt)

lemma slots_local:
  assumes "unat c + 8 * bpc \<le> 2 ^ 48" and "b \<in> set (slots nid bpc c)"
  shows "ptr_id b = nid"
proof -
  obtain j where j: "b = ptr_add (ptr_make nid c) (of_nat j * 8)" "j < bpc" using assms(2) by (auto simp: slots_def)
  have o: "unat (of_nat j * 8 :: u64) = 8 * j"
    using assms(1) j(2) by (simp add: unat_word_ariths unsigned_of_nat take_bit_eq_mod)
  have c: "c < 2 ^ 48" using assms(1) j(2) by (simp add: word_less_nat_alt)
  have "(of_nat j * 8 :: u64) < 2 ^ 48" using assms(1) j(2) o by (simp add: word_less_nat_alt)
  from ptr_add_fields [OF this, of "ptr_make nid c"] show ?thesis
    using ptr_make_fields [OF c, of nid] o assms(1) j by simp
qed

lemma MemoryPool_new_ring:
  assumes "kMinChunkSize \<le> csize" and "csize \<le> kMaxChunkSize" and "chain (w_mem w) fl cs"
    and "\<forall>c \<in> set cs. unat c + unat csize \<le> 2 ^ 48" and "0 < bcount"
  shows "if unat bcount \<le> unat csize div 8 * length cs
    then \<exists>p. MemoryPool_new fl csize nid key ts bcount w = Some (Inr ((), p)) \<and> pool_ok p \<and> node_id p = nid \<and>
      target_map p = ts \<and> pworld p = w \<and> chunk_size p = csize \<and>
      local_buffer_pointers p = take (unat bcount) (concat (map (slots nid (unat csize div 8)) cs)) \<and>
      pool_chunks p (drop ((unat bcount + unat csize div 8 - 1) div (unat csize div 8)) cs)
    else MemoryPool_new fl csize nid key ts bcount w = Some (Inl OutOfMemory)"
proof -
  let ?bpc = "unat csize div 8"
  let ?p = "\<lparr>free_next = fl, local_buffer_pointers = [], request_id = 0, chunk_size = csize, node_id = nid,
         lkey = key, target_map = ts, buffer_count = bcount, buffer_index = 0, pworld = w\<rparr>"
  have csz: "64 \<le> unat csize" using assms(1) by (simp add: chunk_bounds word_le_nat_alt)
  have bpc: "unat (csize div 8) = ?bpc" "0 < ?bpc" using csz by (simp_all add: unat_div_distrib)
  have new: "MemoryPool_new fl csize nid key ts bcount w = carve_buffers ?bpc (unat bcount) ?p"
    using assms(1,2) bpc by (simp add: MemoryPool_new_def)
  have ch: "pool_chunks ?p cs" using assms(3) by (simp add: pool_chunks_def)
  show ?thesis
  proof (cases "unat bcount \<le> ?bpc * length cs")
    case True
    from carve_buffers_ok [OF ch bpc(2) True] obtain p where
      p: "carve_buffers ?bpc (unat bcount) ?p = Some (Inr ((), p))"
      "local_buffer_pointers p = take (unat bcount) (concat (map (slots nid ?bpc) cs))"
      "pool_chunks p (drop ((unat bcount + ?bpc - 1) div ?bpc) cs)"
      "p = ?p\<lparr>local_buffer_pointers := local_buffer_pointers p, free_next := free_next p\<rparr>" by auto
    have same: "node_id p = nid" "target_map p = ts" "pworld p = w" "chunk_size p = csize" "buffer_count p = bcount"
      "buffer_index p = 0" by (subst p(4), simp)+
    have "length (concat (map (slots nid ?bpc) cs)) = ?bpc * length cs"
      by (simp add: length_concat comp_def slots_def sum_list_triv)
    then have "length (local_buffer_pointers p) = unat bcount" using p(2) True by simp
    moreover have "ptr_id b = nid" if b: "b \<in> set (local_buffer_pointers p)" for b
    proof -
      obtain c where c: "c \<in> set cs" "b \<in> set (slots nid ?bpc c)" using in_set_takeD [OF b [unfolded p(2)]] by auto
      have "8 * ?bpc \<le> unat csize" by simp
      then show ?thesis using slots_local [OF _ c(2)] assms(4) c(1) by (meson add_left_mono le_trans)
    qed
    ultimately have "pool_ok p"
      using same assms(5) csz by (simp add: pool_ok_def IsLocal_def word_le_nat_alt)
    then show ?thesis using True new p same by simp
  next
    case False
    then show ?thesis using carve_buffers_short [OF ch bpc(2)] new by simp
  qed
qed

text \<open>
  The constructor carves the landing buffers, one word each, out of the first free chunks in order; the
  ring is complete and on this node, the remaining chunks stay free, and with too few chunks the process
  ends with an out-of-memory error.
\<close>

theorem MemoryPool_new_carves:
  assumes "kMinChunkSize \<le> csize" and "csize \<le> kMaxChunkSize" and "chain (w_mem w) fl cs"
    and "\<forall>c \<in> set cs. unat c + unat csize \<le> 2 ^ 48" and "0 < bcount"
  shows "if unat bcount \<le> unat csize div 8 * length cs
    then \<exists>p. MemoryPool_new fl csize nid key ts bcount w = Some (Inr ((), p)) \<and> pool_ok p \<and> node_id p = nid \<and>
      target_map p = ts \<and> pworld p = w \<and> chunk_size p = csize \<and>
      local_buffer_pointers p = take (unat bcount) (concat (map (slots nid (unat csize div 8)) cs)) \<and>
      pool_chunks p (drop ((unat bcount + unat csize div 8 - 1) div (unat csize div 8)) cs)
    else MemoryPool_new fl csize nid key ts bcount w = Some (Inl OutOfMemory)"
  using assms by (rule MemoryPool_new_ring)

theorem MemoryPool_new_carves_witness:
  "\<exists>p. MemoryPool_new 128 64 1 3 [] 10 \<lparr>w_mem = (\<lambda>a. if a = 128 then 64 else 0), w_rest = ()\<rparr> = Some (Inr ((), p)) \<and>
     pool_ok p \<and> length (local_buffer_pointers p) = 10"
proof -
  let ?w = "\<lparr>w_mem = (\<lambda>a. if a = 128 then 64 else 0), w_rest = ()\<rparr> :: unit world"
  have "chain (w_mem ?w) 128 [128, 64]" by simp
  then obtain p where p: "MemoryPool_new 128 64 1 3 [] 10 ?w = Some (Inr ((), p))" "pool_ok p"
    "local_buffer_pointers p = take 10 (concat (map (slots 1 8) [128, 64]))"
    using MemoryPool_new_carves [of 64 ?w 128 "[128, 64]" 10 1 3 "[]"] by (auto simp: chunk_bounds)
  then show ?thesis by (simp add: slots_def)
qed

section \<open>Every operation keeps the pool\<close>

lemma wait_same: "wait_completion vb c p = Some (Inr (u, p')) \<Longrightarrow> pool_same p p'"
  by (auto simp: wait_completion_def split: option.splits if_splits)

lemma post_wait_same: "post_wait vb target wr p = Some (Inr (u, p')) \<Longrightarrow> pool_same p p'"
  by (auto simp: post_wait_def split: prod.splits if_splits dest: wait_same intro: pool_same_trans [OF pool_same_world])

lemma post_retry_same: "post_retry vb target k wr p = Some (Inr (u, p')) \<Longrightarrow> pool_same p p'"
proof (induction k arbitrary: wr p)
  case 0
  then show ?case by (subst (asm) post_retry.simps) (auto split: prod.splits if_splits)
next
  case (Suc k)
  from Suc.prems show ?case
    by (subst (asm) post_retry.simps)
       (auto split: prod.splits if_splits dest!: Suc.IH intro: pool_same_trans [OF pool_same_world])
qed

lemma cas_loop_same:
  assumes "cas_loop vb target prev wr p = Some (Inr (u, p'))"
  shows "pool_same p p'"
proof -
  have "\<forall>u p'. r = Inr (u, p') \<longrightarrow> pool_same p p'" if "cas_loop vb target prev wr p = Some r" for r
  proof (rule cas_loop.raw_induct [where P = "\<lambda>vb target prev wr p r. \<forall>u p'. r = Inr (u, p') \<longrightarrow> pool_same p p'",
        OF _ that], intro allI impI)
    fix loop vb target prev wr p r u p'
    assume IH: "\<And>vb target prev wr p r. loop vb target prev wr p = Some r \<Longrightarrow> \<forall>u p'. r = Inr (u, p') \<longrightarrow> pool_same p p'"
      and run: "(case post_wait vb target wr p of None \<Rightarrow> None | Some (Inl e) \<Rightarrow> Some (Inl e)
        | Some (Inr (u, p1)) \<Rightarrow> if pmem p1 prev = wr_compare_add wr then Some (Inr (pmem p1 prev, p1))
            else loop vb target prev (wr\<lparr>wr_compare_add := pmem p1 prev\<rparr>) p1) = Some r"
      and r: "r = Inr (u, p')"
    from run r obtain q where q: "post_wait vb target wr p = Some (Inr ((), q))"
      by (auto split: option.splits sum.splits)
    then show "pool_same p p'"
      using run r IH [of vb target prev "wr\<lparr>wr_compare_add := pmem q prev\<rparr>" q r] post_wait_same [OF q]
      by (auto split: if_splits intro: pool_same_trans)
  qed
  with assms show ?thesis by blast
qed

lemma Read_same: "Read vb t l n f p = Some (Inr (u, p')) \<Longrightarrow> pool_same p p'"
  by (auto simp: Read_def Let_def split: if_splits dest!: post_wait_same intro: pool_same_trans [OF pool_same_request])

lemma Write_same: "Write vb t l n f sig p = Some (Inr (u, p')) \<Longrightarrow> pool_same p p'"
  by (auto simp: Write_def Let_def bnd_Inr split: if_splits dest!: post_retry_same wait_same
      intro: pool_same_trans [OF pool_same_request] pool_same_trans)

lemma Send_same: "Send vb i l n p = Some (Inr (u, p')) \<Longrightarrow> pool_same p p'"
  by (auto simp: Send_def Let_def split: if_splits dest!: post_wait_same intro: pool_same_trans [OF pool_same_request])

lemma Receive_same: "Receive vb i l n p = Some (Inr (u, p')) \<Longrightarrow> pool_same p p'"
  by (auto simp: Receive_def Let_def split: if_splits prod.splits dest!: wait_same
      intro: pool_same_trans [OF pool_same_trans [OF pool_same_request pool_same_world]])

text \<open>What the word operations do after taking the next buffer.\<close>

lemma same_after_next: "pool_same (snd (next_buffer p)) p' \<Longrightarrow> pool_same p p'"
  using pool_same_next pool_same_trans by blast

lemmas pool_same_rules = same_after_next pool_same_trans [OF pool_same_request] pool_same_trans [OF pool_same_poke]

lemma word_ops_same:
  "Read64 vb t f p = Some (Inr (v, p')) \<Longrightarrow> pool_same p p'"
  "Write64 vb t x f sig p = Some (Inr ((), p')) \<Longrightarrow> pool_same p p'"
  "CompareAndSwap vb t x y f p = Some (Inr (ok, p')) \<Longrightarrow> pool_same p p'"
  "CompareAndSwap_ref vb t x y p = Some (Inr (okv, p')) \<Longrightarrow> pool_same p p'"
  "FetchAndAdd vb t x f p = Some (Inr (v, p')) \<Longrightarrow> pool_same p p'"
  "Exchange vb t x h p = Some (Inr (v, p')) \<Longrightarrow> pool_same p p'"
  "Send64 vb i x p = Some (Inr ((), p')) \<Longrightarrow> pool_same p p'"
  "Receive64 vb i p = Some (Inr (v, p')) \<Longrightarrow> pool_same p p'"
  by (cases "next_buffer p", use pool_same_next [of p] in
      \<open>auto simp: Read64_def Write64_def CompareAndSwap_def CompareAndSwap_ref_def FetchAndAdd_def Exchange_def
        Send64_def Receive64_def Let_def bnd_Inr split: if_splits
        dest!: Read_same Write_same Send_same Receive_same post_wait_same cas_loop_same
        intro: pool_same_trans pool_same_rules\<close>)+

section \<open>Requests that are served\<close>

text \<open>
  The documented effect of a completed request of one word.  \<open>get\<close> reads the memory of the target node off
  the world and \<open>put\<close> replaces it.
\<close>

definition perform ::
  "('n world \<Rightarrow> memory) \<Rightarrow> (memory \<Rightarrow> 'n world \<Rightarrow> 'n world) \<Rightarrow> ibv_send_wr \<Rightarrow> 'n world \<Rightarrow> 'n world" where
  "perform get put wr w =
     (let r = wr_remote_addr wr; l = sge_addr (wr_sge wr); old = get w r;
          land = (\<lambda>w. w\<lparr>w_mem := (w_mem w)(l := old)\<rparr>)
      in case wr_opcode wr of
        IBV_WR_RDMA_READ \<Rightarrow> land w
      | IBV_WR_RDMA_WRITE \<Rightarrow> put ((get w)(r := w_mem w l)) w
      | IBV_WR_ATOMIC_CMP_AND_SWP \<Rightarrow>
          land (put ((get w)(r := if old = wr_compare_add wr then wr_swap wr else old)) w)
      | IBV_WR_ATOMIC_FETCH_AND_ADD \<Rightarrow> land (put ((get w)(r := old + wr_compare_add wr)) w)
      | IBV_WR_SEND \<Rightarrow> w)"

text \<open>
  The verbs library serves target \<open>t\<close>: a signalled one-word request with the target's key is accepted and
  completes successfully with that effect, and no other node interferes.
\<close>

definition serves :: "'n verbs \<Rightarrow> ('n world \<Rightarrow> memory) \<Rightarrow> (memory \<Rightarrow> 'n world \<Rightarrow> 'n world) \<Rightarrow> TargetContext \<Rightarrow> bool" where
  "serves vb get put t \<longleftrightarrow> (\<forall>wr w. wr_signaled wr \<and> wr_opcode wr \<noteq> IBV_WR_SEND \<and> sge_length (wr_sge wr) = 8 \<and>
      wr_rkey wr = t_rkey t \<longrightarrow>
     (\<exists>w1 wc. vb_post_send vb (t_qp t) wr w = (0, w1) \<and> wc_status wc = IBV_WC_SUCCESS \<and>
        poll_loop vb (t_send_cq t) w1 = Some (1, wc, perform get put wr w)))"

definition view :: "('n world \<Rightarrow> memory) \<Rightarrow> (memory \<Rightarrow> 'n world \<Rightarrow> 'n world) \<Rightarrow> bool" where
  "view get put \<longleftrightarrow> (\<forall>m w. get (put m w) = m)"

text \<open>Landing in local address \<open>l\<close> does not change what the target node has at \<open>r\<close>.\<close>

definition apart :: "('n world \<Rightarrow> memory) \<Rightarrow> u64 \<Rightarrow> u64 \<Rightarrow> bool" where
  "apart get l r \<longleftrightarrow> (\<forall>w v. get (w\<lparr>w_mem := (w_mem w)(l := v)\<rparr>) r = get w r)"

text \<open>Landing in any of the ring's buffers leaves the target's word at \<open>r\<close> alone.\<close>

definition clear_of_buffers :: "('n world \<Rightarrow> memory) \<Rightarrow> 'n MemoryPool \<Rightarrow> u64 \<Rightarrow> bool" where
  "clear_of_buffers get p r \<longleftrightarrow> (\<forall>b \<in> set (local_buffer_pointers p). apart get (ptr_address b) r)"

text \<open>All that the word operations need of their surroundings.\<close>

definition word_ready ::
  "'n verbs \<Rightarrow> ('n world \<Rightarrow> memory) \<Rightarrow> (memory \<Rightarrow> 'n world \<Rightarrow> 'n world) \<Rightarrow> Pointer \<Rightarrow> 'n MemoryPool \<Rightarrow> bool" where
  "word_ready vb get put ptr p \<longleftrightarrow> pool_ok p \<and> targets ptr p \<and> view get put \<and> serves vb get put (target_of ptr p) \<and>
     clear_of_buffers get p (ptr_address ptr)"

text \<open>What they achieve: the target's memory, where no buffer is in the way, changes at the pointer only.\<close>

definition word_effect ::
  "('n world \<Rightarrow> memory) \<Rightarrow> Pointer \<Rightarrow> u64 \<Rightarrow> 'n MemoryPool \<Rightarrow> 'n MemoryPool \<Rightarrow> bool" where
  "word_effect get ptr v p p' \<longleftrightarrow> pool_same p p' \<and>
     (\<forall>r. clear_of_buffers get p r \<longrightarrow> get (pworld p') r = (if r = ptr_address ptr then v else get (pworld p) r))"

lemma word_effect_at:
  assumes "word_effect get ptr v p p'" and "word_ready vb get put ptr p"
  shows "pool_ok p'" and "get (pworld p') (ptr_address ptr) = v"
  using assms pool_same_ok by (auto simp: word_effect_def word_ready_def)

lemma word_ready_same: "pool_same p p' \<Longrightarrow> word_ready vb get put ptr p \<Longrightarrow> word_ready vb get put ptr p'"
  using pool_same_ok by (auto simp: word_ready_def pool_same_def targets_def target_of_def clear_of_buffers_def)

lemma serves_post:
  assumes "serves vb get put t" and "wr_signaled wr" and "wr_opcode wr \<noteq> IBV_WR_SEND"
    and "sge_length (wr_sge wr) = 8" and "wr_rkey wr = t_rkey t"
  obtains w1 wc where "vb_post_send vb (t_qp t) wr w = (0, w1)" and "wc_status wc = IBV_WC_SUCCESS"
    and "poll_loop vb (t_send_cq t) w1 = Some (1, wc, perform get put wr w)"
  using assms unfolding serves_def by blast

lemma post_wait_served:
  assumes "serves vb get put t" and "wr_signaled wr" and "wr_opcode wr \<noteq> IBV_WR_SEND"
    and "sge_length (wr_sge wr) = 8" and "wr_rkey wr = t_rkey t"
  shows "post_wait vb t wr p = Some (Inr ((), p\<lparr>pworld := perform get put wr (pworld p)\<rparr>))"
proof -
  obtain w1 wc where "vb_post_send vb (t_qp t) wr (pworld p) = (0, w1)" "wc_status wc = IBV_WC_SUCCESS"
      "poll_loop vb (t_send_cq t) w1 = Some (1, wc, perform get put wr (pworld p))"
    using serves_post [OF assms] .
  then show ?thesis by (simp add: post_wait_def wait_completion_def)
qed

lemma word_ready_buffer:
  assumes "word_ready vb get put ptr p" and "next_buffer p = (b, p1)"
  shows "pool_same p p1" and "IsLocal b p1" and "b \<in> set (local_buffer_pointers p)"
    and "pworld p1 = pworld p" and "target_of ptr p1 = target_of ptr p" and "targets ptr p1" and "8 \<le> chunk_size p1"
proof -
  have ok: "pool_ok p" using assms(1) by (simp add: word_ready_def)
  have p1: "p1 = p\<lparr>buffer_index := (buffer_index p + 1) mod buffer_count p\<rparr>"
    using assms(2) by (simp add: next_buffer_def)
  show same: "pool_same p p1" using pool_same_next [of p] assms(2) by simp
  show b: "b \<in> set (local_buffer_pointers p)" using next_buffer_in [OF ok] assms(2) by simp
  show "IsLocal b p1" using ok b p1 by (simp add: pool_ok_def IsLocal_def)
  show "pworld p1 = pworld p" "target_of ptr p1 = target_of ptr p" "targets ptr p1"
    using p1 assms(1) by (simp_all add: target_of_def targets_def word_ready_def)
  show "8 \<le> chunk_size p1" using pool_same_ok [OF same ok] by (simp add: pool_ok_def)
qed

lemma word_ready_enter: "word_ready vb get put ptr p \<Longrightarrow> 8 \<le> chunk_size p \<and> targets ptr p \<and> serves vb get put (target_of ptr p)"
  by (simp add: word_ready_def pool_ok_def)

lemma clear_landing:
  "clear_of_buffers get p r \<Longrightarrow> b \<in> set (local_buffer_pointers p) \<Longrightarrow>
    get (w\<lparr>w_mem := (w_mem w)(ptr_address b := v)\<rparr>) r = get w r"
  by (simp add: clear_of_buffers_def apart_def)

lemma Read64_effect:
  assumes "word_ready vb get put ptr p"
  shows "\<exists>p'. Read64 vb ptr f p = Some (Inr (get (pworld p) (ptr_address ptr), p')) \<and>
    word_effect get ptr (get (pworld p) (ptr_address ptr)) p p'"
proof -
  obtain b p1 where nb: "next_buffer p = (b, p1)" by fastforce
  note B = word_ready_buffer [OF assms nb] and R = word_ready_enter [OF assms]
  let ?wr = "\<lparr>wr_id = request_id p1, wr_sge = sge_of b 8 p1, wr_opcode = IBV_WR_RDMA_READ, wr_signaled = True,
    wr_fence = f, wr_remote_addr = ptr_address ptr, wr_rkey = t_rkey (target_of ptr p), wr_compare_add = 0, wr_swap = 0\<rparr>"
  let ?p2 = "p1\<lparr>request_id := request_id p1 + 1\<rparr>\<lparr>pworld := perform get put ?wr (pworld p)\<rparr>"
  have pw: "post_wait vb (target_of ptr p) ?wr (p1\<lparr>request_id := request_id p1 + 1\<rparr>) = Some (Inr ((), ?p2))"
    using post_wait_served [of vb get put "target_of ptr p" ?wr "p1\<lparr>request_id := request_id p1 + 1\<rparr>"] R B(4)
    by (simp add: sge_of_def)
  have "Read vb ptr b 8 f p1 = Some (Inr ((), ?p2))"
    using B pw by (simp add: Read_def Let_def)
  moreover have "pool_same p ?p2" by (rule pool_same_trans [OF B(1)]) (simp add: pool_same_def)
  then have "word_effect get ptr (get (pworld p) (ptr_address ptr)) p ?p2"
    using clear_landing [OF _ B(3)] by (simp add: word_effect_def perform_def sge_of_def)
  ultimately show ?thesis using nb R by (simp add: Read64_def perform_def sge_of_def)
qed

lemma Write64_effect:
  assumes "word_ready vb get put ptr p"
  shows "\<exists>p'. Write64 vb ptr v f True p = Some (Inr ((), p')) \<and> word_effect get ptr v p p'"
proof -
  obtain b p1 where nb: "next_buffer p = (b, p1)" by fastforce
  note B = word_ready_buffer [OF assms nb] and R = word_ready_enter [OF assms]
  let ?q = "poke (ptr_address b) v p1"
  let ?q1 = "?q\<lparr>request_id := request_id ?q + 1\<rparr>"
  let ?wr = "\<lparr>wr_id = request_id ?q, wr_sge = sge_of b 8 ?q, wr_opcode = IBV_WR_RDMA_WRITE, wr_signaled = True,
    wr_fence = f, wr_remote_addr = ptr_address ptr, wr_rkey = t_rkey (target_of ptr ?q), wr_compare_add = 0, wr_swap = 0\<rparr>"
  have t: "target_of ptr ?q = target_of ptr p" "targets ptr ?q" "IsLocal b ?q" "8 \<le> chunk_size ?q"
    using B by (simp_all add: poke_def target_of_def targets_def IsLocal_def)
  obtain w1 wc where s: "vb_post_send vb (t_qp (target_of ptr p)) ?wr (pworld ?q) = (0, w1)"
      "wc_status wc = IBV_WC_SUCCESS"
      "poll_loop vb (t_send_cq (target_of ptr p)) w1 = Some (1, wc, perform get put ?wr (pworld ?q))"
    by (rule serves_post [of vb get put "target_of ptr p" ?wr "pworld ?q"])
       (use R t(1) in \<open>simp_all add: sge_of_def\<close>)
  let ?p2 = "?q1\<lparr>pworld := perform get put ?wr (pworld ?q)\<rparr>"
  have "post_retry vb (target_of ptr p) 1000000 ?wr ?q1 = Some (Inr (True, ?q1\<lparr>pworld := w1\<rparr>))"
    using s(1) by (subst post_retry.simps) simp
  then have "Write vb ptr b 8 f True ?q = Some (Inr ((), ?p2))"
    using t s(2,3) by (simp add: Write_def Let_def wait_completion_def)
  moreover have "pool_same p ?p2" by (rule pool_same_trans [OF B(1)]) (simp add: pool_same_def poke_def)
  then have "word_effect get ptr v p ?p2"
    using assms clear_landing [OF _ B(3)] B(4)
    by (simp add: word_effect_def perform_def sge_of_def poke_def view_def word_ready_def Let_def)
  ultimately show ?thesis using nb R by (simp add: Write64_def)
qed

text \<open>One atomic request: the old value lands in the buffer and the target word is updated.\<close>

lemma atomic_served:
  fixes get :: "'n world \<Rightarrow> memory"
  assumes "word_ready vb get put ptr p" and nb: "next_buffer p = (b, p1)" and k: "k \<in> {IBV_WR_ATOMIC_CMP_AND_SWP, IBV_WR_ATOMIC_FETCH_AND_ADD}"
    and q: "pool_same p q" and wr: "wr = (atomic_wr k ptr b x y f p1)\<lparr>wr_compare_add := x'\<rparr>"
  shows "\<exists>q'. post_wait vb (target_of ptr p) wr q = Some (Inr ((), q')) \<and>
    pmem q' (ptr_address b) = get (pworld q) (ptr_address ptr) \<and>
    word_effect get ptr (let old = get (pworld q) (ptr_address ptr) in
      if k = IBV_WR_ATOMIC_FETCH_AND_ADD then old + x' else if old = x' then y else old) q q'"
proof -
  note B = word_ready_buffer [OF assms(1) nb] and R = word_ready_enter [OF assms(1)]
  let ?q' = "q\<lparr>pworld := perform get put wr (pworld q)\<rparr>"
  have bq: "b \<in> set (local_buffer_pointers q)" using q B(3) by (simp add: pool_same_def)
  have "post_wait vb (target_of ptr p) wr q = Some (Inr ((), ?q'))"
    by (rule post_wait_served) (use R k wr B(5) in \<open>auto simp: atomic_wr_def sge_of_def\<close>)
  moreover have v: "get (put m w) = m" for m w using assms(1) by (simp add: word_ready_def view_def)
  moreover have "pmem ?q' (ptr_address b) = get (pworld q) (ptr_address ptr)"
    using k wr by (auto simp: perform_def atomic_wr_def sge_of_def Let_def)
  moreover have "word_effect get ptr (let old = get (pworld q) (ptr_address ptr) in
      if k = IBV_WR_ATOMIC_FETCH_AND_ADD then old + x' else if old = x' then y else old) q ?q'"
    using k wr v by (auto simp: word_effect_def clear_landing [OF _ bq] perform_def atomic_wr_def sge_of_def Let_def)
  ultimately show ?thesis by blast
qed

lemma atomic_wr_same: "atomic_wr k ptr b x y f p1 = (atomic_wr k ptr b x y f p1)\<lparr>wr_compare_add := x\<rparr>"
  by (simp add: atomic_wr_def)

lemma word_effect_trans:
  assumes "word_effect get ptr v p q" and "word_effect get ptr v' q q'"
  shows "word_effect get ptr v' p q'"
proof -
  have "clear_of_buffers get p r \<Longrightarrow> clear_of_buffers get q r" for r
    using assms(1) by (simp add: word_effect_def pool_same_def clear_of_buffers_def)
  with assms show ?thesis unfolding word_effect_def by (metis pool_same_trans)
qed

lemma word_effect_start: "pool_same p p1 \<Longrightarrow> pworld p1 = pworld p \<Longrightarrow> word_effect get ptr (get (pworld p) (ptr_address ptr)) p p1"
  by (auto simp: word_effect_def)

text \<open>The first request of an atomic operation, after the buffer is chosen and the request numbered.\<close>

lemma atomic_first:
  assumes "word_ready vb get put ptr p" and nb: "next_buffer p = (b, p1)" and k: "k \<in> {IBV_WR_ATOMIC_CMP_AND_SWP, IBV_WR_ATOMIC_FETCH_AND_ADD}"
  shows "\<exists>q. post_wait vb (target_of ptr p) (atomic_wr k ptr b x y f p1) (p1\<lparr>request_id := request_id p1 + 1\<rparr>) = Some (Inr ((), q)) \<and>
    pmem q (ptr_address b) = get (pworld p) (ptr_address ptr) \<and>
    word_effect get ptr (let old = get (pworld p) (ptr_address ptr) in
      if k = IBV_WR_ATOMIC_FETCH_AND_ADD then old + x else if old = x then y else old) p q"
proof -
  note B = word_ready_buffer [OF assms(1) nb]
  let ?p1 = "p1\<lparr>request_id := request_id p1 + 1\<rparr>"
  have s: "pool_same p ?p1" by (rule pool_same_trans [OF B(1) pool_same_request])
  have w: "pworld ?p1 = pworld p" using B(4) by simp
  show ?thesis
    using atomic_served [OF assms(1) nb k s atomic_wr_same, of x y f] word_effect_trans [OF word_effect_start [OF s w]]
    unfolding w by blast
qed

lemma FetchAndAdd_effect:
  assumes "word_ready vb get put ptr p"
  shows "\<exists>p'. FetchAndAdd vb ptr a f p = Some (Inr (get (pworld p) (ptr_address ptr), p')) \<and>
    word_effect get ptr (get (pworld p) (ptr_address ptr) + a) p p'"
proof -
  obtain b p1 where nb: "next_buffer p = (b, p1)" by fastforce
  show ?thesis
    using atomic_first [OF assms nb, of IBV_WR_ATOMIC_FETCH_AND_ADD a 0 f] nb word_ready_enter [OF assms]
    by (auto simp: FetchAndAdd_def Let_def)
qed

lemma CompareAndSwap_effect:
  assumes "word_ready vb get put ptr p"
  defines "old \<equiv> get (pworld p) (ptr_address ptr)"
  shows "\<exists>p'. CompareAndSwap vb ptr x y f p = Some (Inr (old = x, p')) \<and> word_effect get ptr (if old = x then y else old) p p'"
    and "\<exists>p'. CompareAndSwap_ref vb ptr x y p = Some (Inr ((old = x, old), p')) \<and> word_effect get ptr (if old = x then y else old) p p'"
proof -
  obtain b p1 where nb: "next_buffer p = (b, p1)" by fastforce
  note one = atomic_first [OF assms(1) nb, of IBV_WR_ATOMIC_CMP_AND_SWP x y]
  show "\<exists>p'. CompareAndSwap vb ptr x y f p = Some (Inr (old = x, p')) \<and> word_effect get ptr (if old = x then y else old) p p'"
    using one [of f] nb word_ready_enter [OF assms(1)] by (auto simp: CompareAndSwap_def Let_def old_def)
  show "\<exists>p'. CompareAndSwap_ref vb ptr x y p = Some (Inr ((old = x, old), p')) \<and> word_effect get ptr (if old = x then y else old) p p'"
    using one [of True] nb word_ready_enter [OF assms(1)] by (auto simp: CompareAndSwap_ref_def Let_def old_def)
qed

text \<open>
  The loop of \<^verbatim>\<open>Exchange\<close> cut off after \<open>n\<close> compare-and-swaps: a result of the cut-off loop is the result of
  the loop, reached with at most \<open>n\<close> of them.
\<close>

primrec cas_rounds ::
  "nat \<Rightarrow> 'n verbs \<Rightarrow> TargetContext \<Rightarrow> u64 \<Rightarrow> ibv_send_wr \<Rightarrow> 'n MemoryPool \<Rightarrow> (u64, 'n) pool_result" where
  "cas_rounds 0 vb target prev wr p = None"
| "cas_rounds (Suc n) vb target prev wr p = (case post_wait vb target wr p of None \<Rightarrow> None
     | Some (Inl e) \<Rightarrow> Some (Inl e)
     | Some (Inr (u, p1)) \<Rightarrow>
         if pmem p1 prev = wr_compare_add wr then Some (Inr (pmem p1 prev, p1))
         else cas_rounds n vb target prev (wr\<lparr>wr_compare_add := pmem p1 prev\<rparr>) p1)"

definition Exchange_rounds :: "nat \<Rightarrow> 'n verbs \<Rightarrow> Pointer \<Rightarrow> u64 \<Rightarrow> u64 \<Rightarrow> 'n MemoryPool \<Rightarrow> (u64, 'n) pool_result" where
  "Exchange_rounds n vb target_ptr desired hint p =
     (if \<not> 8 \<le> chunk_size p \<or> \<not> targets target_ptr p then Some (Inl AssertFailed)
      else let (bptr, p1) = next_buffer p;
               wr = atomic_wr IBV_WR_ATOMIC_CMP_AND_SWP target_ptr bptr hint desired True p1
           in cas_rounds n vb (target_of target_ptr p) (ptr_address bptr) wr (p1\<lparr>request_id := request_id p1 + 1\<rparr>))"

lemma cas_rounds_loop:
  "cas_rounds n vb target prev wr p = Some r \<Longrightarrow> cas_loop vb target prev wr p = Some r"
proof (induction n arbitrary: wr p)
  case (Suc n)
  then show ?case by (subst cas_loop.simps) (auto split: option.splits sum.splits if_splits)
qed simp

lemma Exchange_rounds_loop:
  "Exchange_rounds n vb ptr v hint p = Some r \<Longrightarrow> Exchange vb ptr v hint p = Some r"
  by (auto simp: Exchange_rounds_def Exchange_def Let_def split: if_splits prod.splits intro: cas_rounds_loop)

lemma Exchange_rounds_effect:
  assumes "word_ready vb get put ptr p"
  defines "old \<equiv> get (pworld p) (ptr_address ptr)"
  shows "\<exists>p'. Exchange_rounds (if old = hint then 1 else 2) vb ptr v hint p = Some (Inr (old, p')) \<and> word_effect get ptr v p p'"
    and "old \<noteq> hint \<Longrightarrow> Exchange_rounds 1 vb ptr v hint p = None"
proof -
  obtain b p1 where nb: "next_buffer p = (b, p1)" by fastforce
  note R = word_ready_enter [OF assms(1)]
  let ?wr = "atomic_wr IBV_WR_ATOMIC_CMP_AND_SWP ptr b hint v True p1" and ?p1 = "p1\<lparr>request_id := request_id p1 + 1\<rparr>"
  let ?rounds = "\<lambda>n. cas_rounds n vb (target_of ptr p) (ptr_address b)"
  have run: "Exchange_rounds n vb ptr v hint p = ?rounds n ?wr ?p1" for n
    using nb R by (simp add: Exchange_rounds_def Let_def)
  obtain q where q: "post_wait vb (target_of ptr p) ?wr ?p1 = Some (Inr ((), q))"
    "pmem q (ptr_address b) = old" "word_effect get ptr (if old = hint then v else old) p q"
    using atomic_first [OF assms(1) nb, of IBV_WR_ATOMIC_CMP_AND_SWP hint v True] unfolding old_def Let_def by auto
  have h: "wr_compare_add ?wr = hint" by (simp add: atomic_wr_def)
  have first: "?rounds (Suc n) ?wr ?p1 =
      (if old = hint then Some (Inr (old, q)) else ?rounds n (?wr\<lparr>wr_compare_add := old\<rparr>) q)" for n
    using q(1,2) h by simp
  have "\<exists>p'. ?rounds (Suc 0) (?wr\<lparr>wr_compare_add := old\<rparr>) q = Some (Inr (old, p')) \<and> word_effect get ptr v p p'" if "old \<noteq> hint"
  proof -
    have same: "pool_same p q" using q(3) by (simp add: word_effect_def)
    have qo: "get (pworld q) (ptr_address ptr) = old" using word_effect_at(2) [OF q(3) assms(1)] that by simp
    obtain q' where q': "post_wait vb (target_of ptr p) (?wr\<lparr>wr_compare_add := old\<rparr>) q = Some (Inr ((), q'))"
      "pmem q' (ptr_address b) = old" "word_effect get ptr v q q'"
      using atomic_served [where k = IBV_WR_ATOMIC_CMP_AND_SWP and x = hint and y = v and f = True and x' = old, OF assms(1) nb _ same refl]
        qo by (auto simp: Let_def)
    have "word_effect get ptr v p q'" using word_effect_trans [OF _ q'(3)] q(3) by blast
    with q'(1,2) show ?thesis by simp
  qed
  then show "\<exists>p'. Exchange_rounds (if old = hint then 1 else 2) vb ptr v hint p = Some (Inr (old, p')) \<and> word_effect get ptr v p p'"
    using q(3) unfolding run by (simp add: numeral_2_eq_2 first del: cas_rounds.simps(2)) auto
  show "Exchange_rounds 1 vb ptr v hint p = None" if "old \<noteq> hint"
    unfolding run One_nat_def first using that by simp
qed

lemma Exchange_effect:
  assumes "word_ready vb get put ptr p"
  shows "\<exists>p'. Exchange vb ptr v hint p = Some (Inr (get (pworld p) (ptr_address ptr), p')) \<and> word_effect get ptr v p p'"
  using Exchange_rounds_effect(1) [OF assms] Exchange_rounds_loop by blast

text \<open>
  The words of node \<open>nid\<close> that a pool can reach: its memory is read off the world by \<open>get\<close>.
\<close>

definition on_node ::
  "'n verbs \<Rightarrow> ('n world \<Rightarrow> memory) \<Rightarrow> (memory \<Rightarrow> 'n world \<Rightarrow> 'n world) \<Rightarrow> u16 \<Rightarrow> Pointer \<Rightarrow> 'n MemoryPool \<Rightarrow> bool" where
  "on_node vb get put nid a p \<longleftrightarrow> word_ready vb get put a p \<and> ptr_id a = nid"

abbreviation word_at :: "('n world \<Rightarrow> memory) \<Rightarrow> Pointer \<Rightarrow> 'n MemoryPool \<Rightarrow> u64" where
  "word_at get a p \<equiv> get (pworld p) (ptr_address a)"

lemma effect_stored:
  assumes e: "word_effect get a v p p'" and a: "on_node vb get put nid a p"
  shows "stored (on_node vb get put nid) (word_at get) a v p p'"
proof -
  have same: "pool_same p p'" using e by (simp add: word_effect_def)
  have "word_at get b p' = (if b = a then v else word_at get b p)" if "on_node vb get put nid b p" for b
    using e that a ptr_fields_eqI [of b a] by (auto simp: on_node_def word_ready_def word_effect_def)
  then show ?thesis using word_ready_same [OF same] by (simp add: stored_def on_node_def)
qed

interpretation pool_words: word_memory "on_node vb get put nid" "word_at get" "\<lambda>a. Read64 vb a f"
  "\<lambda>a v. Write64 vb a v f True" "CompareAndSwap_ref vb" "\<lambda>a d. FetchAndAdd vb a d f" "Exchange vb"
  for vb get put nid f
proof unfold_locales
  fix a p x y v d h
  assume a: "on_node vb get put nid a p"
  then have w: "word_ready vb get put a p" by (simp add: on_node_def)
  note eff = effect_stored [OF _ a]
  show "\<exists>p'. Read64 vb a f p = Some (Inr (word_at get a p, p')) \<and>
      stored (on_node vb get put nid) (word_at get) a (word_at get a p) p p'"
    using Read64_effect [OF w] eff by blast
  show "\<exists>p'. Write64 vb a v f True p = Some (Inr ((), p')) \<and> stored (on_node vb get put nid) (word_at get) a v p p'"
    using Write64_effect [OF w] eff by blast
  show "\<exists>p'. CompareAndSwap_ref vb a x y p = Some (Inr ((word_at get a p = x, word_at get a p), p')) \<and>
      stored (on_node vb get put nid) (word_at get) a (if word_at get a p = x then y else word_at get a p) p p'"
    using CompareAndSwap_effect(2) [OF w] eff by blast
  show "\<exists>p'. FetchAndAdd vb a d f p = Some (Inr (word_at get a p, p')) \<and>
      stored (on_node vb get put nid) (word_at get) a (word_at get a p + d) p p'"
    using FetchAndAdd_effect [OF w] eff by blast
  show "\<exists>p'. Exchange vb a v h p = Some (Inr (word_at get a p, p')) \<and>
      stored (on_node vb get put nid) (word_at get) a v p p'"
    using Exchange_effect [OF w] eff by blast
qed

text \<open>
  Reading a word returns the word of the target node and changes nothing there.
\<close>

theorem Read64_served:
  assumes "word_ready vb get put ptr p"
  shows "\<exists>p'. Read64 vb ptr f p = Some (Inr (get (pworld p) (ptr_address ptr), p')) \<and> pool_ok p' \<and>
    (\<forall>r. clear_of_buffers get p r \<longrightarrow> get (pworld p') r = get (pworld p) r)"
proof -
  obtain p' where p': "Read64 vb ptr f p = Some (Inr (get (pworld p) (ptr_address ptr), p'))"
    "word_effect get ptr (get (pworld p) (ptr_address ptr)) p p'"
    using Read64_effect [OF assms] by blast
  then show ?thesis using word_effect_at(1) [OF p'(2) assms] by (auto simp: word_effect_def)
qed

text \<open>
  Writing a word, signalled, stores it at the target node before the call returns, and changes no
  other word there.
\<close>

theorem Write64_served:
  assumes "word_ready vb get put ptr p"
  shows "\<exists>p'. Write64 vb ptr v f True p = Some (Inr ((), p')) \<and> pool_ok p' \<and> get (pworld p') (ptr_address ptr) = v \<and>
    (\<forall>r. clear_of_buffers get p r \<and> r \<noteq> ptr_address ptr \<longrightarrow> get (pworld p') r = get (pworld p) r)"
proof -
  obtain p' where p': "Write64 vb ptr v f True p = Some (Inr ((), p'))" "word_effect get ptr v p p'"
    using Write64_effect [OF assms] by blast
  then show ?thesis using word_effect_at [OF p'(2) assms] by (auto simp: word_effect_def)
qed

text \<open>\<^verbatim>\<open>FetchAndAdd\<close> returns the old word and adds to it, modulo \<open>2 ^ 64\<close>.\<close>

theorem FetchAndAdd_served:
  assumes "word_ready vb get put ptr p"
  shows "\<exists>p'. FetchAndAdd vb ptr a f p = Some (Inr (get (pworld p) (ptr_address ptr), p')) \<and> pool_ok p' \<and>
    get (pworld p') (ptr_address ptr) = get (pworld p) (ptr_address ptr) + a"
  using FetchAndAdd_effect [OF assms, of a f] word_effect_at [OF _ assms] by blast

text \<open>
  \<^verbatim>\<open>CompareAndSwap\<close> reports whether the word was the expected one and replaces it exactly then; the
  overload used by the ported locks also reports the value found.
\<close>

theorem CompareAndSwap_served:
  assumes "word_ready vb get put ptr p"
  defines "old \<equiv> get (pworld p) (ptr_address ptr)"
  shows "(\<exists>p'. CompareAndSwap vb ptr x y f p = Some (Inr (old = x, p')) \<and> pool_ok p' \<and>
      get (pworld p') (ptr_address ptr) = (if old = x then y else old)) \<and>
    (\<exists>p'. CompareAndSwap_ref vb ptr x y p = Some (Inr ((old = x, old), p')) \<and> pool_ok p' \<and>
      get (pworld p') (ptr_address ptr) = (if old = x then y else old))"
  using CompareAndSwap_effect [OF assms(1), of x y] word_effect_at [OF _ assms(1)] unfolding old_def by blast

text \<open>
  C23: \<^verbatim>\<open>Exchange\<close> ends, as long as nobody interferes and the word is one the pool can reach: it stores the new
  word and returns the one it replaced, whatever the hint was.  Its loop, cut off after one
  compare-and-swap when the hint is the word and after two otherwise, gives that same result, and with a
  wrong hint one is not enough.
\<close>

theorem Exchange_served:
  assumes "word_ready vb get put ptr p"
  defines "old \<equiv> get (pworld p) (ptr_address ptr)"
  shows "(\<exists>p'. Exchange vb ptr v hint p = Some (Inr (old, p')) \<and>
      Exchange_rounds (if old = hint then 1 else 2) vb ptr v hint p = Some (Inr (old, p')) \<and>
      pool_ok p' \<and> get (pworld p') (ptr_address ptr) = v) \<and>
    (old \<noteq> hint \<longrightarrow> Exchange_rounds 1 vb ptr v hint p = None)"
  using Exchange_rounds_effect [OF assms(1), where v = v and hint = hint] Exchange_rounds_loop
    word_effect_at [OF _ assms(1)] unfolding old_def by blast

section \<open>A network in which the operations can be run\<close>

text \<open>One remote node whose memory is the rest of the world; requests take effect when they are posted.\<close>

definition put_rest :: "memory \<Rightarrow> memory world \<Rightarrow> memory world" where
  "put_rest m w = w\<lparr>w_rest := m\<rparr>"

definition one_node_net :: "memory verbs" where
  "one_node_net = \<lparr>vb_post_send = (\<lambda>q wr w. (0, perform w_rest put_rest wr w)), vb_post_recv = (\<lambda>q wr w. (0, w)),
     vb_poll_cq = (\<lambda>c w. (1, \<lparr>wc_status = 0, wc_wr_id = 0\<rparr>, w)), vb_modify_qp = (\<lambda>q attr flags w. (0, w)),
     vb_create_cq = (\<lambda>n w. (Some 0, w)), vb_create_qp = (\<lambda>a w. (Some 0, w)), vb_qp_num = (\<lambda>q. 0)\<rparr>"

definition one_target :: TargetContext where
  "one_target = \<lparr>t_rkey = 7, t_address = 0, t_recv_cq = 0, t_send_cq = 0, t_qp = 0\<rparr>"

definition demo_pool :: "memory MemoryPool" where
  "demo_pool = \<lparr>free_next = 0, local_buffer_pointers = [ptr_make 1 4096, ptr_make 1 4104], request_id = 0, chunk_size = 64,
     node_id = 1, lkey = 3, target_map = [one_target], buffer_count = 2, buffer_index = 1,
     pworld = \<lparr>w_mem = (\<lambda>_. 0), w_rest = (\<lambda>a. if a = 8192 then 5 else 0)\<rparr>\<rparr>"

lemma demo_ready: "word_ready one_node_net w_rest put_rest (ptr_make 0 8192) demo_pool"
proof -
  have "pool_ok demo_pool" by code_simp
  moreover have "targets (ptr_make 0 8192) demo_pool" by code_simp
  moreover have "serves one_node_net w_rest put_rest t" for t
    by (simp add: serves_def one_node_net_def poll_loop.simps IBV_WC_SUCCESS_def)
  ultimately show ?thesis by (simp add: word_ready_def view_def put_rest_def apart_def clear_of_buffers_def)
qed

lemma demo_word: "w_rest (pworld demo_pool) (ptr_address (ptr_make 0 8192)) = 5"
  by code_simp

theorem Read64_served_witness:
  "\<exists>p'. Read64 one_node_net (ptr_make 0 8192) True demo_pool = Some (Inr (5, p')) \<and> pool_ok p'"
  using Read64_served [OF demo_ready, of True] demo_word by auto

theorem Write64_served_witness:
  "\<exists>p'. Write64 one_node_net (ptr_make 0 8192) 9 True True demo_pool = Some (Inr ((), p')) \<and>
     w_rest (pworld p') (ptr_address (ptr_make 0 8192)) = 9"
  using Write64_served [OF demo_ready, of 9 True] by auto

theorem FetchAndAdd_served_witness:
  "\<exists>p'. FetchAndAdd one_node_net (ptr_make 0 8192) 2 True demo_pool = Some (Inr (5, p')) \<and>
     w_rest (pworld p') (ptr_address (ptr_make 0 8192)) = 7"
  using FetchAndAdd_served [OF demo_ready, of 2 True] demo_word by auto

theorem CompareAndSwap_served_witness:
  "\<exists>p'. CompareAndSwap one_node_net (ptr_make 0 8192) 5 6 True demo_pool = Some (Inr (True, p')) \<and>
     w_rest (pworld p') (ptr_address (ptr_make 0 8192)) = 6"
  using CompareAndSwap_served [OF demo_ready, of 5 6 True] demo_word by auto

theorem Exchange_served_witness:
  "(\<exists>p'. Exchange one_node_net (ptr_make 0 8192) 6 0 demo_pool = Some (Inr (5, p')) \<and>
     Exchange_rounds 2 one_node_net (ptr_make 0 8192) 6 0 demo_pool = Some (Inr (5, p')) \<and>
     w_rest (pworld p') (ptr_address (ptr_make 0 8192)) = 6) \<and>
   Exchange_rounds 1 one_node_net (ptr_make 0 8192) 6 0 demo_pool = None"
  using Exchange_served [OF demo_ready, of 6 0] demo_word by auto

section \<open>Further properties\<close>

text \<open>
  C22: Allocation hands out the free chunks front to back, each once, and then null pointers; freeing a
  chunk makes it the next one handed out.
\<close>

theorem pool_allocation:
  assumes "chain (pmem p) (free_next p) cs"
  shows "(\<exists>p'. allocate_many Allocate (length cs) p = (map (ptr_make (node_id p)) cs, p') \<and> Allocate p' = (ptr_null, p')) \<and>
    (\<forall>q. ptr_address q \<noteq> 0 \<and> ptr_address q \<notin> set cs \<longrightarrow>
      (\<exists>p'. Allocate (push_chunk q p) = (ptr_make (node_id p) (ptr_address q), p') \<and> chain (pmem p') (free_next p') cs))"
proof -
  have r: "pool_chunks p cs" using assms by (simp add: pool_chunks_def)
  obtain p' where "allocate_many Allocate (length cs) p = (map (ptr_make (node_id p)) cs, p')" "pool_chunks p' []"
    using pool.allocate_many_front [of p cs "[]"] r by auto
  moreover from this(2) have "Allocate p' = (ptr_null, p')" by (rule pool.alloc_empty)
  ultimately show ?thesis
    using pool.free_then_alloc [OF r] by (auto simp: pool_chunks_def)
qed

theorem pool_allocation_witness:
  "\<exists>p'. allocate_many Allocate 2 (demo_pool\<lparr>free_next := 128,
       pworld := \<lparr>w_mem = (\<lambda>a. if a = 128 then 64 else 0), w_rest = (\<lambda>_. 0)\<rparr>\<rparr>) = ([ptr_make 1 128, ptr_make 1 64], p')"
proof -
  let ?p = "demo_pool\<lparr>free_next := 128, pworld := \<lparr>w_mem = (\<lambda>a. if a = 128 then 64 else 0), w_rest = (\<lambda>_. 0)\<rparr>\<rparr>"
  have "chain (pmem ?p) (free_next ?p) [128, 64]" by code_simp
  moreover have "length [128, 64 :: u64] = 2" "node_id ?p = 1" by (simp_all add: demo_pool_def)
  ultimately show ?thesis using pool_allocation [of ?p "[128, 64]"] by (simp only: list.map) blast
qed

text \<open>C24: No operation on words breaks the ring of buffers, whatever the network answers.\<close>

theorem word_ops_keep_ok:
  assumes "pool_ok p"
  shows "(Read64 vb t f p = Some (Inr (v, p')) \<longrightarrow> pool_ok p') \<and>
    (Write64 vb t x f sig p = Some (Inr ((), p')) \<longrightarrow> pool_ok p') \<and>
    (CompareAndSwap vb t x y f p = Some (Inr (b, p')) \<longrightarrow> pool_ok p') \<and>
    (CompareAndSwap_ref vb t x y p = Some (Inr (bv, p')) \<longrightarrow> pool_ok p') \<and>
    (FetchAndAdd vb t x f p = Some (Inr (v, p')) \<longrightarrow> pool_ok p') \<and>
    (Exchange vb t x h p = Some (Inr (v, p')) \<longrightarrow> pool_ok p') \<and>
    (Send64 vb i x p = Some (Inr ((), p')) \<longrightarrow> pool_ok p') \<and>
    (Receive64 vb i p = Some (Inr (v, p')) \<longrightarrow> pool_ok p')"
  by (intro conjI impI; rule pool_same_ok [OF _ assms]; erule word_ops_same)

theorem word_ops_keep_ok_witness:
  "\<exists>p'. FetchAndAdd one_node_net (ptr_make 0 8192) 2 True demo_pool = Some (Inr (5, p')) \<and> pool_ok p'"
proof -
  have "pool_ok demo_pool" by code_simp
  note keep = word_ops_keep_ok [OF this, of one_node_net "ptr_make 0 8192" True 5]
  show ?thesis using FetchAndAdd_effect [OF demo_ready, of 2 True] demo_word keep by auto
qed

end
