(* ===== verification/SpinLock.thy ===== *)
theory SpinLock
  imports Interleaving
begin

text \<open>
  The RDMA test-and-set lock of \<^verbatim>\<open>include/third_party/locks/rdma_spin_lock.h\<close>: one word, taken by a
  compare-and-swap loop and released by a plain RDMA write.
\<close>

section \<open>Model\<close>

definition UNLOCKED :: u64 where "UNLOCKED = 0"
definition LOCKED :: u64 where "LOCKED = 1"

record RdmaSpinLock =
  spin_lock :: u64

datatype spin_pc = SpinIdle | SpinTry | SpinCritical

record spin_state =
  spin_mem :: RdmaSpinLock
  spin_at :: "tid \<Rightarrow> spin_pc"

definition spin_init :: spin_state where
  "spin_init = \<lparr>spin_mem = \<lparr>spin_lock = UNLOCKED\<rparr>, spin_at = (\<lambda>_. SpinIdle)\<rparr>"

text \<open>
  \<^verbatim>\<open>rdma_capability::CompareAndSwap\<close> returns the value found; it stores the new value when that is
  the expected one.
\<close>

definition spin_cas :: "u64 \<Rightarrow> u64 \<Rightarrow> u64 \<Rightarrow> u64 \<times> u64" where
  "spin_cas found expected swap = (found, if found = expected then swap else found)"

definition spin_Lock :: "tid \<Rightarrow> spin_state \<Rightarrow> spin_state" where
  "spin_Lock t s = (case spin_at s t of
     SpinIdle \<Rightarrow> s\<lparr>spin_at := (spin_at s)(t := SpinTry)\<rparr>
   | SpinTry \<Rightarrow>
       (let (found, word) = spin_cas (spin_lock (spin_mem s)) UNLOCKED LOCKED;
            s' = s\<lparr>spin_mem := \<lparr>spin_lock = word\<rparr>\<rparr>
        in if found \<noteq> UNLOCKED then s' else s'\<lparr>spin_at := (spin_at s)(t := SpinCritical)\<rparr>)
   | SpinCritical \<Rightarrow> s)"

definition spin_Unlock :: "tid \<Rightarrow> spin_state \<Rightarrow> spin_state" where
  "spin_Unlock t s = s\<lparr>spin_mem := \<lparr>spin_lock = UNLOCKED\<rparr>, spin_at := (spin_at s)(t := SpinIdle)\<rparr>"

definition spin_step :: "tid \<Rightarrow> spin_state \<Rightarrow> spin_state" where
  "spin_step t s = (if spin_at s t = SpinCritical then spin_Unlock t s else spin_Lock t s)"

definition spin_hold :: "spin_state \<Rightarrow> tid \<Rightarrow> bool" where
  "spin_hold s t \<longleftrightarrow> spin_at s t = SpinCritical"

section \<open>Invariant\<close>

definition spin_inv :: "spin_state \<Rightarrow> unit \<Rightarrow> bool" where
  "spin_inv s g \<longleftrightarrow>
     spin_lock (spin_mem s) = (if \<exists>t. spin_hold s t then LOCKED else UNLOCKED) \<and>
     (\<forall>a b. spin_hold s a \<longrightarrow> spin_hold s b \<longrightarrow> a = b)"

lemmas spin_defs = spin_step_def spin_Lock_def spin_Unlock_def spin_cas_def Let_def

lemma spin_inv_step:
  assumes "spin_inv s g"
  shows "spin_inv (spin_step t s) g"
proof (cases "spin_at s t")
  case SpinIdle
  then have "spin_hold (spin_step t s) = spin_hold s"
    by (auto simp: spin_defs spin_hold_def fun_eq_iff)
  moreover have "spin_mem (spin_step t s) = spin_mem s"
    using SpinIdle by (simp add: spin_defs)
  ultimately show ?thesis using assms by (simp add: spin_inv_def)
next
  case SpinTry
  with assms show ?thesis
    by (auto simp: spin_defs spin_inv_def spin_hold_def LOCKED_def UNLOCKED_def split: if_splits)
next
  case SpinCritical
  then have "spin_at s u = SpinCritical \<longleftrightarrow> u = t" for u
    using assms by (auto simp: spin_inv_def spin_hold_def)
  with SpinCritical show ?thesis
    by (simp add: spin_defs spin_inv_def spin_hold_def)
qed

interpretation spin: lock_protocol UNIV spin_step spin_init "\<lambda>t s g. g" "()" spin_inv spin_hold
proof unfold_locales
  show "spin_inv spin_init ()" by (simp add: spin_inv_def spin_init_def spin_hold_def)
  show "spin_inv (spin_step t s) g" if "spin_inv s g" for s g t
    using that by (rule spin_inv_step)
  show "a = b" if "spin_inv s g" "spin_hold s a" "spin_hold s b" for s g a b
    using that by (auto simp: spin_inv_def)
qed

section \<open>Properties\<close>

text \<open>Mutual exclusion of the RDMA spin lock in every interleaving.\<close>

theorem spin_mutual_exclusion:
  assumes "reachable spin_step UNIV spin_init s" and "spin_hold s a" and "spin_hold s b"
  shows "a = b"
  using assms by (rule spin.mutual_exclusion)

theorem spin_mutual_exclusion_witness:
  "reachable spin_step UNIV spin_init (run spin_step [1, 2, 2, 1] spin_init) \<and>
   spin_hold (run spin_step [1, 2, 2, 1] spin_init) 2 \<and> \<not> spin_hold (run spin_step [1, 2, 2, 1] spin_init) 1"
proof -
  let ?s = "run spin_step [1, 2, 2, 1] spin_init"
  have r: "reachable spin_step UNIV spin_init ?s" by (rule reachable_run [OF _ reachable.start]) simp
  have h: "spin_hold ?s 2" by code_simp
  have "\<not> spin_hold ?s 1" using spin_mutual_exclusion [OF r h, of 1] by auto
  with r h show ?thesis by blast
qed

end
