(* ===== verification/TicketLock.thy ===== *)
theory TicketLock
  imports Interleaving
begin

text \<open>
  The RDMA ticket lock of \<^verbatim>\<open>include/locks/rdma_ticket_lock.h\<close>.  Both fields of the lock are only
  changed by RDMA fetch-and-add, so each access is one atomic step.
\<close>

section \<open>Model\<close>

record RdmaTicketLock =
  tkt_ticket :: u64
  tkt_turn :: u64

datatype tkt_pc = TktIdle | TktSpin | TktCritical

record tkt_state =
  tkt_lock :: RdmaTicketLock
  tkt_at :: "tid \<Rightarrow> tkt_pc"
  tkt_mine :: "tid \<Rightarrow> u64"

text \<open>The lock table is zeroed before use (\<^verbatim>\<open>Benchmark::AllocateLocalLocks\<close>).\<close>

definition tkt_init :: tkt_state where
  "tkt_init = \<lparr>tkt_lock = \<lparr>tkt_ticket = 0, tkt_turn = 0\<rparr>,
     tkt_at = (\<lambda>_. TktIdle), tkt_mine = (\<lambda>_. 0)\<rparr>"

text \<open>
  \<open>Lock\<close>: \<^verbatim>\<open>my_ticket = FetchAndAdd(ticket_, 1)\<close>, then spin while \<^verbatim>\<open>Read(turn_) != my_ticket\<close>.
\<close>

definition tkt_Lock :: "tid \<Rightarrow> tkt_state \<Rightarrow> tkt_state" where
  "tkt_Lock t s = (case tkt_at s t of
     TktIdle \<Rightarrow> s\<lparr>tkt_mine := (tkt_mine s)(t := tkt_ticket (tkt_lock s)),
                  tkt_lock := (tkt_lock s)\<lparr>tkt_ticket := tkt_ticket (tkt_lock s) + 1\<rparr>,
                  tkt_at := (tkt_at s)(t := TktSpin)\<rparr>
   | TktSpin \<Rightarrow> if tkt_turn (tkt_lock s) \<noteq> tkt_mine s t then s
                else s\<lparr>tkt_at := (tkt_at s)(t := TktCritical)\<rparr>
   | TktCritical \<Rightarrow> s)"

text \<open>\<open>Unlock\<close>: \<^verbatim>\<open>FetchAndAdd(turn_, 1)\<close>.\<close>

definition tkt_Unlock :: "tid \<Rightarrow> tkt_state \<Rightarrow> tkt_state" where
  "tkt_Unlock t s =
     s\<lparr>tkt_lock := (tkt_lock s)\<lparr>tkt_turn := tkt_turn (tkt_lock s) + 1\<rparr>,
       tkt_at := (tkt_at s)(t := TktIdle)\<rparr>"

text \<open>
  \<open>IsLocked\<close> reads both words with one RDMA read, which is not atomic: \<open>ticket_\<close> in state \<open>s\<close> and \<open>turn_\<close>
  in state \<open>s'\<close>.
\<close>

definition tkt_IsLocked :: "tkt_state \<Rightarrow> tkt_state \<Rightarrow> bool" where
  "tkt_IsLocked s s' \<longleftrightarrow> tkt_ticket (tkt_lock s) \<noteq> tkt_turn (tkt_lock s')"

text \<open>A thread alternates \<open>Lock\<close> and \<open>Unlock\<close> forever.\<close>

definition tkt_step :: "tid \<Rightarrow> tkt_state \<Rightarrow> tkt_state" where
  "tkt_step t s = (if tkt_at s t = TktCritical then tkt_Unlock t s else tkt_Lock t s)"

definition tkt_hold :: "tkt_state \<Rightarrow> tid \<Rightarrow> bool" where
  "tkt_hold s t \<longleftrightarrow> tkt_at s t = TktCritical"

definition tkt_arrive :: "tkt_state \<Rightarrow> tid \<Rightarrow> bool" where
  "tkt_arrive s t \<longleftrightarrow> tkt_at s t = TktIdle"

section \<open>Invariant\<close>

text \<open>Ghost state: the threads with an outstanding ticket, oldest first.\<close>

definition tkt_gstep :: "tid \<Rightarrow> tkt_state \<Rightarrow> tid list \<Rightarrow> tid list" where
  "tkt_gstep t s g = (case tkt_at s t of
     TktIdle \<Rightarrow> g @ [t] | TktSpin \<Rightarrow> g | TktCritical \<Rightarrow> tl g)"

definition tkt_inv :: "tkt_state \<Rightarrow> tid list \<Rightarrow> bool" where
  "tkt_inv s g \<longleftrightarrow>
     ticket_line (tkt_turn (tkt_lock s)) (tkt_ticket (tkt_lock s)) (tkt_mine s) g \<and>
     (\<forall>t. t \<in> set g \<longleftrightarrow> tkt_at s t \<noteq> TktIdle) \<and>
     (\<forall>t. tkt_at s t = TktCritical \<longrightarrow> tkt_mine s t = tkt_turn (tkt_lock s))"

lemmas tkt_defs = tkt_step_def tkt_Lock_def tkt_Unlock_def tkt_gstep_def

lemma tkt_head:
  "tkt_inv s g \<Longrightarrow> tkt_hold s t \<Longrightarrow> g \<noteq> [] \<and> hd g = t"
  unfolding tkt_inv_def tkt_hold_def by (metis tkt_pc.distinct(3) ticket_line_head)

lemma tkt_inv_step:
  assumes "tkt_inv s g"
  shows "tkt_inv (tkt_step t s) (tkt_gstep t s g)"
proof (cases "tkt_at s t")
  case TktIdle
  with assms show ?thesis
    by (auto simp: tkt_defs tkt_inv_def intro: ticket_line_join)
next
  case TktSpin
  with assms show ?thesis
    by (auto simp: tkt_defs tkt_inv_def)
next
  case TktCritical
  then have h: "g \<noteq> []" "hd g = t"
    using tkt_head [OF assms] by (auto simp: tkt_hold_def)
  have "distinct g" using assms by (auto simp: tkt_inv_def dest: ticket_line_distinct)
  then have tl: "u \<in> set (tl g) \<longleftrightarrow> u \<in> set g \<and> u \<noteq> t" for u
    using h by (cases g) auto
  have only: "tkt_at s u = TktCritical \<Longrightarrow> u = t" for u
    using tkt_head [OF assms, of u] h by (auto simp: tkt_hold_def)
  have "ticket_line (tkt_turn (tkt_lock s) + 1) (tkt_ticket (tkt_lock s)) (tkt_mine s) (tl g)"
    using assms h(1) by (auto simp: tkt_inv_def intro: ticket_line_serve)
  moreover have "\<forall>u. u \<in> set (tl g) \<longleftrightarrow> ((tkt_at s)(t := TktIdle)) u \<noteq> TktIdle"
    using assms by (auto simp: tl tkt_inv_def)
  moreover have "\<forall>u. ((tkt_at s)(t := TktIdle)) u \<noteq> TktCritical"
    using only by auto
  ultimately show ?thesis
    using TktCritical by (simp add: tkt_defs tkt_inv_def del: fun_upd_apply)
qed

interpretation tkt: fifo_protocol UNIV tkt_step tkt_init tkt_gstep "[]" tkt_inv tkt_hold tkt_arrive
  "\<lambda>g. g"
proof unfold_locales
  show "tkt_inv tkt_init []" by (simp add: tkt_inv_def tkt_init_def)
  show "tkt_inv (tkt_step t s) (tkt_gstep t s g)" if "tkt_inv s g" for s g t
    using that by (rule tkt_inv_step)
  show "g \<noteq> [] \<and> hd g = t" if "tkt_inv s g" "tkt_hold s t" for s g t
    using that by (rule tkt_head)
qed (auto simp: tkt_defs tkt_hold_def tkt_arrive_def tkt_init_def leaves_def
       split: tkt_pc.splits if_splits)

section \<open>Properties\<close>

text \<open>
  C20: Mutual exclusion of the RDMA ticket lock: whatever the interleaving of any number of threads,
  two threads are never both between \<open>Lock\<close> and \<open>Unlock\<close>, wrap-around of the 64-bit counters
  included.
\<close>

theorem tkt_mutual_exclusion:
  assumes "reachable tkt_step UNIV tkt_init s" and "tkt_hold s a" and "tkt_hold s b"
  shows "a = b"
  using assms by (rule tkt.mutual_exclusion)

theorem tkt_mutual_exclusion_witness:
  "reachable tkt_step UNIV tkt_init (run tkt_step [1, 2, 1, 2] tkt_init) \<and>
   tkt_hold (run tkt_step [1, 2, 1, 2] tkt_init) 1 \<and> \<not> tkt_hold (run tkt_step [1, 2, 1, 2] tkt_init) 2"
proof -
  let ?s = "run tkt_step [1, 2, 1, 2] tkt_init"
  have r: "reachable tkt_step UNIV tkt_init ?s" by (rule reachable_run [OF _ reachable.start]) simp
  have h: "tkt_hold ?s 1" by code_simp
  have "\<not> tkt_hold ?s 2" using tkt_mutual_exclusion [OF r h, of 2] by auto
  with r h show ?thesis by blast
qed

text \<open>
  C21: The ticket lock is first come, first served: along every schedule it is acquired in the order of
  the fetch-and-adds on \<^verbatim>\<open>ticket_\<close>.
\<close>

theorem tkt_first_come_first_served:
  "prefix (events (enters tkt_hold tkt_step) tkt_step sched tkt_init)
     (events tkt_arrive tkt_step sched tkt_init)"
  by (rule tkt.first_come_first_served) simp

lemma ticket_line_empty_iff:
  assumes "ticket_line cur nxt tk xs" and "length xs < 2 ^ 64"
  shows "nxt = cur \<longleftrightarrow> xs = []"
proof -
  have "of_nat (length xs) = (0 :: u64) \<longleftrightarrow> length xs = 0"
  proof
    assume "of_nat (length xs) = (0 :: u64)"
    then have "unat (0 :: u64) = length xs" by (rule of_nat_inverse) (use assms(2) in simp)
    then show "length xs = 0" by simp
  qed simp
  with assms(1) show ?thesis by (auto simp: ticket_line_def)
qed

text \<open>
  \<^verbatim>\<open>IsLocked\<close> of the ticket lock answers whether some thread holds or awaits the lock, in every
  reachable state in which some thread is idle (with all \<open>2 ^ 64\<close> threads waiting the counters have
  wrapped around to equality).
\<close>

theorem tkt_IsLocked_iff:
  assumes "reachable tkt_step UNIV tkt_init s" and "tkt_at s u = TktIdle"
  shows "tkt_IsLocked s s \<longleftrightarrow> (\<exists>t. tkt_at s t \<noteq> TktIdle)"
proof -
  obtain g where g: "tkt_inv s g" using tkt.reachable_inv [OF assms(1)] by blast
  then have line: "ticket_line (tkt_turn (tkt_lock s)) (tkt_ticket (tkt_lock s)) (tkt_mine s) g"
    and mem: "\<And>t. t \<in> set g \<longleftrightarrow> tkt_at s t \<noteq> TktIdle" by (auto simp: tkt_inv_def)
  have "set g \<subset> UNIV" using mem [of u] assms(2) by auto
  then have "card (set g) < card (UNIV :: tid set)" by (intro psubset_card_mono) simp_all
  then have "length g < 2 ^ 64"
    using ticket_line_distinct [OF line] by (simp only: distinct_card card_tid)
  then have "tkt_IsLocked s s \<longleftrightarrow> g \<noteq> []"
    using ticket_line_empty_iff [OF line] by (simp add: tkt_IsLocked_def)
  also have "\<dots> \<longleftrightarrow> (\<exists>t. tkt_at s t \<noteq> TktIdle)"
    using mem by (metis last_in_set list.set(1) empty_iff)
  finally show ?thesis .
qed

theorem tkt_IsLocked_iff_witness:
  "tkt_at (run tkt_step [1, 2] tkt_init) 3 = TktIdle \<and>
   tkt_IsLocked (run tkt_step [1, 2] tkt_init) (run tkt_step [1, 2] tkt_init)"
proof -
  let ?s = "run tkt_step [1, 2] tkt_init"
  have r: "reachable tkt_step UNIV tkt_init ?s" by (rule reachable_run [OF _ reachable.start]) simp
  have i: "tkt_at ?s 3 = TktIdle" by code_simp
  have "tkt_at ?s 1 \<noteq> TktIdle" by code_simp
  then show ?thesis using tkt_IsLocked_iff [OF r i] i by blast
qed

end
