(* ===== verification/PoolLocks.thy ===== *)
theory PoolLocks
  imports MemoryPoolThms SpinLock TicketLock LockCommon
begin

text \<open>
  The ticket lock and the spin lock as programs over the memory pool: which words they touch, through
  which calls, and what a caller observes.  The spin lock reaches the pool through \<^verbatim>\<open>rdma_capability\<close>
  (\<^verbatim>\<open>include/third_party/remus/rdma/rdma.h\<close>) and is wrapped by \<^verbatim>\<open>RdmaSpinHandler\<close>
  (\<^verbatim>\<open>include/locks/rdma_spin_lock_wrap.h\<close>).  The theories \<open>TicketLock\<close> and \<open>SpinLock\<close> interleave the steps of
  many threads; here each of those steps is shown to be what the pool call does to the lock's words.
\<close>

section \<open>The capability adapter\<close>

definition to_Pointer :: "rdma_ptr \<Rightarrow> Pointer" where
  "to_Pointer p = ptr_of_raw (rraw p)"

definition cap_Allocate :: "'n MemoryPool \<Rightarrow> rdma_ptr \<times> 'n MemoryPool" where
  "cap_Allocate p = (let (a, p') = Allocate p in (rptr_of_raw (praw a), p'))"

definition cap_Write :: "'n verbs \<Rightarrow> rdma_ptr \<Rightarrow> u64 \<Rightarrow> rdma_ptr \<Rightarrow> 'n MemoryPool \<Rightarrow> (unit, 'n) pool_result" where
  "cap_Write vb ptr val prealloc p = Write64 vb (to_Pointer ptr) val True True p"

definition cap_CompareAndSwap :: "'n verbs \<Rightarrow> rdma_ptr \<Rightarrow> u64 \<Rightarrow> u64 \<Rightarrow> 'n MemoryPool \<Rightarrow> (u64, 'n) pool_result" where
  "cap_CompareAndSwap vb ptr expected swap p =
     bnd (CompareAndSwap_ref vb (to_Pointer ptr) expected swap p) (\<lambda>(ok, expected) p. Some (Inr (expected, p)))"

definition cap_FetchAndAdd :: "'n verbs \<Rightarrow> rdma_ptr \<Rightarrow> u64 \<Rightarrow> 'n MemoryPool \<Rightarrow> (u64, 'n) pool_result" where
  "cap_FetchAndAdd vb ptr val p = FetchAndAdd vb (to_Pointer ptr) val True p"

definition cap_AtomicSwap :: "'n verbs \<Rightarrow> rdma_ptr \<Rightarrow> u64 \<Rightarrow> u64 \<Rightarrow> 'n MemoryPool \<Rightarrow> (u64, 'n) pool_result" where
  "cap_AtomicSwap vb ptr swap hint p = Exchange vb (to_Pointer ptr) swap hint p"

text \<open>\<open>sz\<close> is the size of the object; what is returned is the address it was read to.\<close>

definition cap_Read :: "'n verbs \<Rightarrow> rdma_ptr \<Rightarrow> rdma_ptr \<Rightarrow> u64 \<Rightarrow> 'n MemoryPool \<Rightarrow> (rdma_ptr, 'n) pool_result" where
  "cap_Read vb ptr prealloc sz p =
     bnd (Read vb (to_Pointer ptr) (to_Pointer prealloc) sz True p) (\<lambda>_ p. Some (Inr (rptr_of_raw (rraw prealloc), p)))"

section \<open>The spin lock's handle\<close>

record RdmaSpinLockHandle =
  sh_lock :: rdma_ptr
  sh_local :: rdma_ptr

definition spin_handle_Init :: "'n MemoryPool \<Rightarrow> RdmaSpinLockHandle \<times> 'n MemoryPool" where
  "spin_handle_Init p = (let (l, p') = cap_Allocate p in (\<lparr>sh_lock = rptr_of_raw 0, sh_local = l\<rparr>, p'))"

text \<open>The condition of the loop of \<^verbatim>\<open>Lock\<close>, evaluated once: true ends the loop.\<close>

definition spin_handle_round :: "'n verbs \<Rightarrow> RdmaSpinLockHandle \<Rightarrow> 'n MemoryPool \<Rightarrow> (bool, 'n) pool_result" where
  "spin_handle_round vb h p = bnd (cap_CompareAndSwap vb (sh_lock h) UNLOCKED LOCKED p) (\<lambda>v p. Some (Inr (v = UNLOCKED, p)))"

definition spin_handle_Lock ::
  "'n verbs \<Rightarrow> rdma_ptr \<Rightarrow> RdmaSpinLockHandle \<Rightarrow> 'n MemoryPool \<Rightarrow> (RdmaSpinLockHandle, 'n) pool_result" where
  "spin_handle_Lock vb lock h p =
     (let h' = h\<lparr>sh_lock := rptr_make (ucast (rptr_id lock)) (rptr_address lock)\<rparr>
      in bnd (spin_until (spin_handle_round vb h') p) (\<lambda>_ p. Some (Inr (h', p))))"

definition spin_handle_Unlock ::
  "'n verbs \<Rightarrow> rdma_ptr \<Rightarrow> RdmaSpinLockHandle \<Rightarrow> 'n MemoryPool \<Rightarrow> (unit, 'n) pool_result" where
  "spin_handle_Unlock vb lock h p =
     (if rptr_address lock \<noteq> rptr_address (sh_lock h) then Some (Inl AssertFailed)
      else cap_Write vb (sh_lock h) UNLOCKED (sh_local h) p)"

definition spin_IsLocked :: "'n verbs \<Rightarrow> rdma_ptr \<Rightarrow> 'n MemoryPool \<Rightarrow> (bool, 'n) pool_result" where
  "spin_IsLocked vb lock p =
     bnd (cap_Read vb lock (rptr_of_raw 0) 64 p) (\<lambda>v p. Some (Inr (if rraw v = UNLOCKED then False else True, p)))"

section \<open>The wrapper\<close>

definition RdmaSpinHandler_new :: "LockConfig \<Rightarrow> 'n MemoryPool \<Rightarrow> RdmaSpinLockHandle \<times> 'n MemoryPool" where
  "RdmaSpinHandler_new config p = spin_handle_Init p"

definition RdmaSpinHandler_Lock ::
  "'n verbs \<Rightarrow> Pointer \<Rightarrow> RdmaSpinLockHandle \<Rightarrow> 'n MemoryPool \<Rightarrow> (RdmaSpinLockHandle, 'n) pool_result" where
  "RdmaSpinHandler_Lock vb lock h p = spin_handle_Lock vb (rptr_of_raw (praw lock)) h p"

definition RdmaSpinHandler_Unlock ::
  "'n verbs \<Rightarrow> Pointer \<Rightarrow> RdmaSpinLockHandle \<Rightarrow> 'n MemoryPool \<Rightarrow> (unit, 'n) pool_result" where
  "RdmaSpinHandler_Unlock vb lock h p = spin_handle_Unlock vb (rptr_of_raw (praw lock)) h p"

section \<open>The ticket lock's handler\<close>

definition kTicketOffset :: u64 where "kTicketOffset = 0"
definition kTurnOffset :: u64 where "kTurnOffset = 32"

text \<open>\<^verbatim>\<open>Lock\<close> draws a ticket and then evaluates the condition of its loop until the turn is its own.\<close>

definition ticket_handler_draw :: "'n verbs \<Rightarrow> Pointer \<Rightarrow> 'n MemoryPool \<Rightarrow> (u64, 'n) pool_result" where
  "ticket_handler_draw vb lock p = FetchAndAdd vb (ptr_add lock kTicketOffset) 1 True p"

definition ticket_handler_round :: "'n verbs \<Rightarrow> Pointer \<Rightarrow> u64 \<Rightarrow> 'n MemoryPool \<Rightarrow> (bool, 'n) pool_result" where
  "ticket_handler_round vb lock my_ticket p =
     bnd (Read64 vb (ptr_add lock kTurnOffset) True p) (\<lambda>v p. Some (Inr (v = my_ticket, p)))"

definition ticket_handler_Lock :: "'n verbs \<Rightarrow> Pointer \<Rightarrow> 'n MemoryPool \<Rightarrow> (unit, 'n) pool_result" where
  "ticket_handler_Lock vb lock p =
     bnd (ticket_handler_draw vb lock p) (\<lambda>my_ticket p. spin_until (ticket_handler_round vb lock my_ticket) p)"

definition ticket_handler_Unlock :: "'n verbs \<Rightarrow> Pointer \<Rightarrow> 'n MemoryPool \<Rightarrow> (unit, 'n) pool_result" where
  "ticket_handler_Unlock vb lock p =
     bnd (FetchAndAdd vb (ptr_add lock kTurnOffset) 1 True p) (\<lambda>_ p. Some (Inr ((), p)))"

text \<open>The handler's scratch copy of a lock: a chunk of the pool.\<close>

definition ticket_handler_new :: "LockConfig \<Rightarrow> 'n MemoryPool \<Rightarrow> Pointer \<times> 'n MemoryPool" where
  "ticket_handler_new config p = Allocate p"

definition ticket_handler_IsLocked :: "'n verbs \<Rightarrow> Pointer \<Rightarrow> Pointer \<Rightarrow> 'n MemoryPool \<Rightarrow> (bool, 'n) pool_result" where
  "ticket_handler_IsLocked vb lock_pointer lock p =
     bnd (Read vb lock lock_pointer 64 True p) (\<lambda>_ p.
       Some (Inr (pmem p (ptr_address lock_pointer + kTicketOffset) \<noteq> pmem p (ptr_address lock_pointer + kTurnOffset), p)))"

section \<open>The words of a lock\<close>

lemma rptr_remake: "rptr_make (ucast (rptr_id q)) (rptr_address q) = q"
proof (rule rptr_fields_eqI)
  have d: "bit (rraw q) n \<Longrightarrow> n < 64" for n using bit_imp_le_length [of "rraw q" n] by simp
  show "rptr_id (rptr_make (ucast (rptr_id q)) (rptr_address q)) = rptr_id q"
    by (rule bit_word_eqI) (auto simp: rptr_id_drop rptr_address_take rptr_make_def kAddressBitmask_mask bit_drop_bit_eq
        bit_take_bit_iff bit_or_iff bit_and_iff bit_mask_iff bit_push_bit_iff bit_ucast_iff dest: d)
  show "rptr_address (rptr_make (ucast (rptr_id q)) (rptr_address q)) = rptr_address q"
    by (rule bit_word_eqI) (auto simp: rptr_address_take rptr_make_def kAddressBitmask_mask
        bit_take_bit_iff bit_or_iff bit_and_iff bit_mask_iff bit_push_bit_iff bit_ucast_iff dest: d)
qed

lemma to_Pointer_raw [simp]: "to_Pointer (rptr_of_raw (praw a)) = a"
  by (simp add: to_Pointer_def rptr_of_raw_def ptr_of_raw_def)

abbreviation took :: "Pointer \<Rightarrow> RdmaSpinLockHandle \<Rightarrow> RdmaSpinLockHandle" where
  "took lock h \<equiv> h\<lparr>sh_lock := rptr_of_raw (praw lock)\<rparr>"

lemma spin_round_cas:
  "spin_handle_round vb (took lock h) p = bnd (CompareAndSwap_ref vb lock UNLOCKED LOCKED p) (\<lambda>(ok, v) p. Some (Inr (v = UNLOCKED, p)))"
  by (auto simp: spin_handle_round_def cap_CompareAndSwap_def bnd_def split: option.splits sum.splits)

lemma spin_handle_Lock_loop:
  "RdmaSpinHandler_Lock vb lock h p =
     bnd (spin_until (spin_handle_round vb (took lock h)) p) (\<lambda>_ p. Some (Inr (took lock h, p)))"
  by (simp add: RdmaSpinHandler_Lock_def spin_handle_Lock_def rptr_remake Let_def)

lemma spin_handle_loop:
  "RdmaSpinHandler_Lock vb lock h p =
     bnd (spin_until (\<lambda>p. bnd (CompareAndSwap_ref vb lock UNLOCKED LOCKED p) (\<lambda>(ok, v) p. Some (Inr (v = UNLOCKED, p)))) p)
       (\<lambda>_ p. Some (Inr (took lock h, p)))"
  unfolding spin_handle_Lock_loop using spin_round_cas [of vb lock h] by presburger

text \<open>
  The spin lock on the pool: on a free lock \<^verbatim>\<open>Lock\<close> returns with the lock word set, and \<^verbatim>\<open>Unlock\<close> then
  clears it again; on a held lock \<^verbatim>\<open>Lock\<close> does not return as long as nobody else acts.
\<close>

theorem spin_handler_cycle:
  assumes "on_node vb get put nid lock p"
  shows "(word_at get lock p = UNLOCKED \<longrightarrow>
      (\<exists>h' p' p''. RdmaSpinHandler_Lock vb lock h p = Some (Inr (h', p')) \<and> word_at get lock p' = LOCKED \<and>
         RdmaSpinHandler_Unlock vb lock h' p' = Some (Inr ((), p'')) \<and> word_at get lock p'' = UNLOCKED)) \<and>
    (word_at get lock p \<noteq> UNLOCKED \<longrightarrow> RdmaSpinHandler_Lock vb lock h p = None)"
proof (intro conjI impI)
  assume "word_at get lock p = UNLOCKED"
  from pool_words.take_word [OF assms this, of LOCKED] obtain p' where
    l: "RdmaSpinHandler_Lock vb lock h p = Some (Inr (h\<lparr>sh_lock := rptr_of_raw (praw lock)\<rparr>, p'))"
    and p': "on_node vb get put nid lock p'" "word_at get lock p' = LOCKED"
    using assms unfolding spin_handle_loop by (auto simp: stored_def)
  from pool_words.wrt_word [OF p'(1), of UNLOCKED True] obtain p'' where
    "Write64 vb lock UNLOCKED True True p' = Some (Inr ((), p''))" "word_at get lock p'' = UNLOCKED"
    using p'(1) by (auto simp: stored_def)
  with l p' show "\<exists>h' p' p''. RdmaSpinHandler_Lock vb lock h p = Some (Inr (h', p')) \<and> word_at get lock p' = LOCKED \<and>
         RdmaSpinHandler_Unlock vb lock h' p' = Some (Inr ((), p'')) \<and> word_at get lock p'' = UNLOCKED"
    by (simp add: RdmaSpinHandler_Unlock_def spin_handle_Unlock_def cap_Write_def)
next
  assume "word_at get lock p \<noteq> UNLOCKED"
  then show "RdmaSpinHandler_Lock vb lock h p = None"
    using pool_words.take_never [OF assms] by (simp add: spin_handle_loop)
qed

text \<open>
  C26: The handle's \<^verbatim>\<open>Lock\<close> and \<^verbatim>\<open>Unlock\<close> on the pool do the steps of the spin lock in \<open>SpinLock\<close>, for a lock word that the
  pool can reach and that holds what the state says.  One round of the loop of \<^verbatim>\<open>Lock\<close> changes the lock
  word as the step of a thread that tries does, and leaves it reachable; when the step enters the critical
  section, \<^verbatim>\<open>Lock\<close> returns there with the lock noted in the handle, and otherwise \<^verbatim>\<open>Lock\<close> goes on from where
  the round ended.  \<^verbatim>\<open>Unlock\<close> by that handle changes the word as the step out of the critical section does.
\<close>

theorem spin_handler_refines:
  fixes h :: RdmaSpinLockHandle
  assumes "on_node vb get put nid lock p" and "spin_lock (spin_mem s) = word_at get lock p"
  defines "h' \<equiv> h\<lparr>sh_lock := rptr_of_raw (praw lock)\<rparr>"
  shows "(spin_at s t = SpinTry \<longrightarrow>
      (\<exists>p'. spin_handle_round vb h' p = Some (Inr (spin_at (spin_step t s) t = SpinCritical, p')) \<and>
         on_node vb get put nid lock p' \<and> spin_lock (spin_mem (spin_step t s)) = word_at get lock p' \<and>
         RdmaSpinHandler_Lock vb lock h p =
           (if spin_at (spin_step t s) t = SpinCritical then Some (Inr (h', p')) else RdmaSpinHandler_Lock vb lock h p'))) \<and>
    (spin_at s t = SpinCritical \<longrightarrow>
      (\<exists>p'. RdmaSpinHandler_Unlock vb lock h' p = Some (Inr ((), p')) \<and>
         on_node vb get put nid lock p' \<and> spin_lock (spin_mem (spin_step t s)) = word_at get lock p'))"
proof (intro conjI impI)
  assume t: "spin_at s t = SpinTry"
  obtain p1 where c: "CompareAndSwap_ref vb lock UNLOCKED LOCKED p =
      Some (Inr ((word_at get lock p = UNLOCKED, word_at get lock p), p1))" "on_node vb get put nid lock p1"
    "word_at get lock p1 = (if word_at get lock p = UNLOCKED then LOCKED else word_at get lock p)"
    using pool_words.cas_word [OF assms(1), of UNLOCKED LOCKED] assms(1) by (auto simp: stored_def)
  have r: "spin_handle_round vb h' p = Some (Inr (spin_at (spin_step t s) t = SpinCritical, p1))"
    using c(1) t assms(2) unfolding h'_def spin_round_cas by (simp add: spin_defs)
  have "RdmaSpinHandler_Lock vb lock h p =
      (if spin_at (spin_step t s) t = SpinCritical then Some (Inr (h', p1)) else RdmaSpinHandler_Lock vb lock h p1)"
    using r unfolding spin_handle_Lock_loop h'_def by (subst spin_until.simps) simp
  moreover have "spin_lock (spin_mem (spin_step t s)) = word_at get lock p1"
    using c(3) t assms(2) by (simp add: spin_defs)
  ultimately show "\<exists>p'. spin_handle_round vb h' p = Some (Inr (spin_at (spin_step t s) t = SpinCritical, p')) \<and>
         on_node vb get put nid lock p' \<and> spin_lock (spin_mem (spin_step t s)) = word_at get lock p' \<and>
         RdmaSpinHandler_Lock vb lock h p =
           (if spin_at (spin_step t s) t = SpinCritical then Some (Inr (h', p')) else RdmaSpinHandler_Lock vb lock h p')"
    using r c(2) by blast
next
  assume "spin_at s t = SpinCritical"
  moreover obtain p2 where "Write64 vb lock UNLOCKED True True p = Some (Inr ((), p2))" "on_node vb get put nid lock p2"
      "word_at get lock p2 = UNLOCKED"
    using pool_words.wrt_word [OF assms(1), of UNLOCKED True] assms(1) by (auto simp: stored_def)
  ultimately show "\<exists>p'. RdmaSpinHandler_Unlock vb lock h' p = Some (Inr ((), p')) \<and>
         on_node vb get put nid lock p' \<and> spin_lock (spin_mem (spin_step t s)) = word_at get lock p'"
    by (simp add: h'_def spin_defs RdmaSpinHandler_Unlock_def spin_handle_Unlock_def cap_Write_def)
qed

text \<open>
  \<^verbatim>\<open>IsLocked\<close> of the spin lock never answers true, whether the lock is held or not: it compares the
  address that the lock was read to, the null pointer, with \<^verbatim>\<open>UNLOCKED\<close>, instead of the word read.
\<close>

theorem spin_IsLocked_never_true: "spin_IsLocked vb lock p \<noteq> Some (Inr (True, p'))"
  by (auto simp: spin_IsLocked_def cap_Read_def bnd_Inr rptr_of_raw_def UNLOCKED_def)

section \<open>The ticket lock on the pool\<close>

definition tkt_words :: "('n world \<Rightarrow> memory) \<Rightarrow> Pointer \<Rightarrow> 'n MemoryPool \<Rightarrow> RdmaTicketLock" where
  "tkt_words get lock p = \<lparr>tkt_ticket = word_at get (ptr_add lock kTicketOffset) p,
     tkt_turn = word_at get (ptr_add lock kTurnOffset) p\<rparr>"

lemma offsets_differ: "ptr_add lock kTicketOffset \<noteq> ptr_add lock kTurnOffset"
  by (simp add: ptr_add_def ptr_of_raw_def kTicketOffset_def kTurnOffset_def)

lemma ticket_turn_words:
  assumes "on_node vb get put nid (ptr_add lock kTicketOffset) p" and "on_node vb get put nid (ptr_add lock kTurnOffset) p"
  shows ticket_faa: "\<exists>p'. FetchAndAdd vb (ptr_add lock kTicketOffset) d True p = Some (Inr (tkt_ticket (tkt_words get lock p), p')) \<and>
      on_node vb get put nid (ptr_add lock kTicketOffset) p' \<and> on_node vb get put nid (ptr_add lock kTurnOffset) p' \<and>
      tkt_words get lock p' = (tkt_words get lock p)\<lparr>tkt_ticket := tkt_ticket (tkt_words get lock p) + d\<rparr>"
    and turn_faa: "\<exists>p'. FetchAndAdd vb (ptr_add lock kTurnOffset) d True p = Some (Inr (tkt_turn (tkt_words get lock p), p')) \<and>
      on_node vb get put nid (ptr_add lock kTicketOffset) p' \<and> on_node vb get put nid (ptr_add lock kTurnOffset) p' \<and>
      tkt_words get lock p' = (tkt_words get lock p)\<lparr>tkt_turn := tkt_turn (tkt_words get lock p) + d\<rparr>"
    and turn_read: "\<exists>p'. Read64 vb (ptr_add lock kTurnOffset) True p = Some (Inr (tkt_turn (tkt_words get lock p), p')) \<and>
      on_node vb get put nid (ptr_add lock kTicketOffset) p' \<and> on_node vb get put nid (ptr_add lock kTurnOffset) p' \<and>
      tkt_words get lock p' = tkt_words get lock p"
  using pool_words.faa_word [OF assms(1), of d True] pool_words.faa_word [OF assms(2), of d True]
    pool_words.rd_word [OF assms(2), of True] assms offsets_differ [of lock] offsets_differ [of lock, symmetric]
  by (auto simp: tkt_words_def stored_def)

text \<open>The two words of a ticket lock are on node \<open>nid\<close> and can be reached.\<close>

abbreviation tkt_ready ::
  "'n verbs \<Rightarrow> ('n world \<Rightarrow> memory) \<Rightarrow> (memory \<Rightarrow> 'n world \<Rightarrow> 'n world) \<Rightarrow> u16 \<Rightarrow> Pointer \<Rightarrow> 'n MemoryPool \<Rightarrow> bool" where
  "tkt_ready vb get put nid lock p \<equiv>
     on_node vb get put nid (ptr_add lock kTicketOffset) p \<and> on_node vb get put nid (ptr_add lock kTurnOffset) p"

text \<open>
  C27: The handler's \<^verbatim>\<open>Lock\<close> and \<^verbatim>\<open>Unlock\<close> on the pool do the steps of the ticket lock in \<open>TicketLock\<close>, for a lock
  whose two words the pool can reach and that hold what the state says.  \<^verbatim>\<open>Lock\<close> begins with the draw, which
  returns the ticket that the step of an idle thread stores and changes the words as that step does, and
  goes on with the loop for that ticket.  One round of the loop changes nothing; the loop ends there when
  the step enters the critical section and goes on otherwise.  \<^verbatim>\<open>Unlock\<close> changes the words as the step out of
  the critical section does.
\<close>

theorem ticket_handler_refines:
  fixes t :: tid
  assumes "tkt_ready vb get put nid lock p" and "tkt_lock s = tkt_words get lock p"
  defines "mine \<equiv> tkt_mine (tkt_step t s) t"
  shows "(tkt_at s t = TktIdle \<longrightarrow>
      (\<exists>p'. ticket_handler_draw vb lock p = Some (Inr (mine, p')) \<and>
         tkt_ready vb get put nid lock p' \<and> tkt_lock (tkt_step t s) = tkt_words get lock p' \<and>
         ticket_handler_Lock vb lock p = spin_until (ticket_handler_round vb lock mine) p')) \<and>
    (tkt_at s t = TktSpin \<longrightarrow>
      (\<exists>p'. ticket_handler_round vb lock (tkt_mine s t) p = Some (Inr (tkt_at (tkt_step t s) t = TktCritical, p')) \<and>
         tkt_ready vb get put nid lock p' \<and> tkt_lock (tkt_step t s) = tkt_words get lock p' \<and>
         spin_until (ticket_handler_round vb lock (tkt_mine s t)) p =
           (if tkt_at (tkt_step t s) t = TktCritical then Some (Inr ((), p'))
            else spin_until (ticket_handler_round vb lock (tkt_mine s t)) p'))) \<and>
    (tkt_at s t = TktCritical \<longrightarrow>
      (\<exists>p'. ticket_handler_Unlock vb lock p = Some (Inr ((), p')) \<and>
         tkt_ready vb get put nid lock p' \<and> tkt_lock (tkt_step t s) = tkt_words get lock p'))"
proof (intro conjI impI)
  note R = conjunct1 [OF assms(1)] conjunct2 [OF assms(1)]
  assume "tkt_at s t = TktIdle"
  then show "\<exists>p'. ticket_handler_draw vb lock p = Some (Inr (mine, p')) \<and>
         tkt_ready vb get put nid lock p' \<and> tkt_lock (tkt_step t s) = tkt_words get lock p' \<and>
         ticket_handler_Lock vb lock p = spin_until (ticket_handler_round vb lock mine) p'"
    using ticket_faa [OF R, of 1] assms(2) by (auto simp: tkt_defs mine_def ticket_handler_draw_def ticket_handler_Lock_def)
next
  note R = conjunct1 [OF assms(1)] conjunct2 [OF assms(1)]
  assume t: "tkt_at s t = TktSpin"
  obtain p1 where p1: "Read64 vb (ptr_add lock kTurnOffset) True p = Some (Inr (tkt_turn (tkt_words get lock p), p1))"
    "tkt_ready vb get put nid lock p1" "tkt_words get lock p1 = tkt_words get lock p"
    using turn_read [OF R] by blast
  have r: "ticket_handler_round vb lock (tkt_mine s t) p = Some (Inr (tkt_at (tkt_step t s) t = TktCritical, p1))"
    using p1(1) t assms(2) by (auto simp: ticket_handler_round_def tkt_defs)
  then have "spin_until (ticket_handler_round vb lock (tkt_mine s t)) p =
      (if tkt_at (tkt_step t s) t = TktCritical then Some (Inr ((), p1))
       else spin_until (ticket_handler_round vb lock (tkt_mine s t)) p1)"
    by (subst spin_until.simps) simp
  moreover have "tkt_lock (tkt_step t s) = tkt_words get lock p1" using p1(3) t assms(2) by (simp add: tkt_defs)
  ultimately show "\<exists>p'. ticket_handler_round vb lock (tkt_mine s t) p = Some (Inr (tkt_at (tkt_step t s) t = TktCritical, p')) \<and>
         tkt_ready vb get put nid lock p' \<and> tkt_lock (tkt_step t s) = tkt_words get lock p' \<and>
         spin_until (ticket_handler_round vb lock (tkt_mine s t)) p =
           (if tkt_at (tkt_step t s) t = TktCritical then Some (Inr ((), p'))
            else spin_until (ticket_handler_round vb lock (tkt_mine s t)) p')"
    using r p1(2) by blast
next
  note R = conjunct1 [OF assms(1)] conjunct2 [OF assms(1)]
  assume "tkt_at s t = TktCritical"
  then show "\<exists>p'. ticket_handler_Unlock vb lock p = Some (Inr ((), p')) \<and>
         tkt_ready vb get put nid lock p' \<and> tkt_lock (tkt_step t s) = tkt_words get lock p'"
    using turn_faa [OF R, of 1] assms(2) by (auto simp: tkt_defs ticket_handler_Unlock_def)
qed

text \<open>
  The ticket lock on the pool: when nobody holds or awaits the lock, \<^verbatim>\<open>Lock\<close> returns, and \<^verbatim>\<open>Unlock\<close> leaves
  the lock free again with both counters one higher, modulo \<open>2 ^ 64\<close>; otherwise \<^verbatim>\<open>Lock\<close> does not return as
  long as nobody else acts.
\<close>

theorem ticket_handler_cycle:
  assumes "on_node vb get put nid (ptr_add lock kTicketOffset) p" and "on_node vb get put nid (ptr_add lock kTurnOffset) p"
    and "tkt_words get lock p = \<lparr>tkt_ticket = n, tkt_turn = k\<rparr>"
  shows "(n = k \<longrightarrow> (\<exists>p' p''. ticket_handler_Lock vb lock p = Some (Inr ((), p')) \<and>
        tkt_words get lock p' = \<lparr>tkt_ticket = n + 1, tkt_turn = k\<rparr> \<and>
        ticket_handler_Unlock vb lock p' = Some (Inr ((), p'')) \<and>
        tkt_words get lock p'' = \<lparr>tkt_ticket = n + 1, tkt_turn = k + 1\<rparr>)) \<and>
    (n \<noteq> k \<longrightarrow> ticket_handler_Lock vb lock p = None)"
proof -
  obtain q where q: "FetchAndAdd vb (ptr_add lock kTicketOffset) 1 True p = Some (Inr (n, q))"
    "on_node vb get put nid (ptr_add lock kTicketOffset) q" "on_node vb get put nid (ptr_add lock kTurnOffset) q"
    "tkt_words get lock q = \<lparr>tkt_ticket = n + 1, tkt_turn = k\<rparr>"
    using ticket_faa [OF assms(1,2), of 1] assms(3) by auto
  have k: "word_at get (ptr_add lock kTurnOffset) q = k" using q(4) by (simp add: tkt_words_def)
  show ?thesis
  proof (intro conjI impI)
    assume "n = k"
    with k have "word_at get (ptr_add lock kTurnOffset) q = n" by simp
    from pool_words.await_word [OF q(3) this, of True] obtain p' where
      p': "spin_until (\<lambda>p. bnd (Read64 vb (ptr_add lock kTurnOffset) True p) (\<lambda>v p. Some (Inr (v = n, p)))) q = Some (Inr ((), p'))"
      and st: "stored (on_node vb get put nid) (word_at get) (ptr_add lock kTurnOffset) n q p'" by blast
    have r: "on_node vb get put nid (ptr_add lock kTicketOffset) p'" "on_node vb get put nid (ptr_add lock kTurnOffset) p'"
      "tkt_words get lock p' = \<lparr>tkt_ticket = n + 1, tkt_turn = k\<rparr>"
      using st q(2,3,4) \<open>n = k\<close> offsets_differ [of lock] by (auto simp: stored_def tkt_words_def)
    obtain p'' where "ticket_handler_Unlock vb lock p' = Some (Inr ((), p''))"
        "tkt_words get lock p'' = \<lparr>tkt_ticket = n + 1, tkt_turn = k + 1\<rparr>"
      using turn_faa [OF r(1,2), of 1] r(3) by (auto simp: ticket_handler_Unlock_def)
    with p' q(1) r(3) show "\<exists>p' p''. ticket_handler_Lock vb lock p = Some (Inr ((), p')) \<and>
        tkt_words get lock p' = \<lparr>tkt_ticket = n + 1, tkt_turn = k\<rparr> \<and>
        ticket_handler_Unlock vb lock p' = Some (Inr ((), p'')) \<and>
        tkt_words get lock p'' = \<lparr>tkt_ticket = n + 1, tkt_turn = k + 1\<rparr>"
      by (simp add: ticket_handler_Lock_def ticket_handler_draw_def ticket_handler_round_def [abs_def])
  next
    assume "n \<noteq> k"
    then show "ticket_handler_Lock vb lock p = None"
      using pool_words.await_never [OF q(3), of n True] k q(1) by (simp add: ticket_handler_Lock_def ticket_handler_draw_def ticket_handler_round_def [abs_def])
  qed
qed

section \<open>The properties on a concrete network\<close>

lemma demo_on_node: "ptr_id a = 0 \<Longrightarrow> on_node one_node_net w_rest put_rest 0 a demo_pool"
proof -
  assume a: "ptr_id a = 0"
  have "serves one_node_net w_rest put_rest t" for t
    by (simp add: serves_def one_node_net_def poll_loop.simps IBV_WC_SUCCESS_def)
  moreover have "pool_ok demo_pool" by code_simp
  moreover have "targets a demo_pool" using a by (simp add: targets_def demo_pool_def)
  ultimately show ?thesis
    using a by (simp add: on_node_def word_ready_def view_def put_rest_def apart_def clear_of_buffers_def)
qed

lemma demo_lock_words:
  "ptr_id (ptr_make 0 8256) = 0" "ptr_id (ptr_make 0 8192) = 0"
  "ptr_id (ptr_add (ptr_make 0 8256) kTicketOffset) = 0" "ptr_id (ptr_add (ptr_make 0 8256) kTurnOffset) = 0"
  "word_at w_rest (ptr_make 0 8256) demo_pool = UNLOCKED" "word_at w_rest (ptr_make 0 8192) demo_pool \<noteq> UNLOCKED"
  "tkt_words w_rest (ptr_make 0 8256) demo_pool = \<lparr>tkt_ticket = 0, tkt_turn = 0\<rparr>"
  by code_simp+

theorem spin_handler_cycle_witness:
  "\<forall>h. (\<exists>h' p' p''. RdmaSpinHandler_Lock one_node_net (ptr_make 0 8256) h demo_pool = Some (Inr (h', p')) \<and>
     word_at w_rest (ptr_make 0 8256) p' = LOCKED \<and>
     RdmaSpinHandler_Unlock one_node_net (ptr_make 0 8256) h' p' = Some (Inr ((), p'')) \<and>
     word_at w_rest (ptr_make 0 8256) p'' = UNLOCKED) \<and>
   RdmaSpinHandler_Lock one_node_net (ptr_make 0 8192) h demo_pool = None"
  using spin_handler_cycle [OF demo_on_node [OF demo_lock_words(1)]] spin_handler_cycle [OF demo_on_node [OF demo_lock_words(2)]]
    demo_lock_words(5,6) by blast

text \<open>On a free lock the round takes it and \<^verbatim>\<open>Lock\<close> returns; on a held one the round fails.\<close>

theorem spin_handler_refines_witness:
  "\<forall>h. (\<exists>p'. RdmaSpinHandler_Lock one_node_net (ptr_make 0 8256) h demo_pool =
       Some (Inr (h\<lparr>sh_lock := rptr_of_raw (praw (ptr_make 0 8256))\<rparr>, p')) \<and> word_at w_rest (ptr_make 0 8256) p' = LOCKED) \<and>
     (\<exists>p'. spin_handle_round one_node_net (h\<lparr>sh_lock := rptr_of_raw (praw (ptr_make 0 8192))\<rparr>) demo_pool = Some (Inr (False, p')))"
proof
  fix h
  let ?s = "run spin_step [1] spin_init" and ?s' = "(run spin_step [1] spin_init)\<lparr>spin_mem := \<lparr>spin_lock = 5\<rparr>\<rparr>"
  have s: "spin_lock (spin_mem ?s) = UNLOCKED" "spin_at ?s 1 = SpinTry" "spin_lock (spin_mem (spin_step 1 ?s)) = LOCKED"
    "spin_at (spin_step 1 ?s) 1 = SpinCritical" by code_simp+
  have s': "spin_lock (spin_mem ?s') = word_at w_rest (ptr_make 0 8192) demo_pool" "spin_at ?s' 1 = SpinTry"
    "(spin_at (spin_step 1 ?s') 1 = SpinCritical) = False" by code_simp+
  have e: "spin_lock (spin_mem ?s) = word_at w_rest (ptr_make 0 8256) demo_pool" using s(1) demo_lock_words(5) by (rule trans [OF _ sym])
  have "\<exists>p'. RdmaSpinHandler_Lock one_node_net (ptr_make 0 8256) h demo_pool = Some (Inr (took (ptr_make 0 8256) h, p')) \<and>
      word_at w_rest (ptr_make 0 8256) p' = LOCKED"
    using spin_handler_refines [OF demo_on_node [OF demo_lock_words(1)] e, where t = 1 and h = h] unfolding s by auto
  moreover have "\<exists>p'. spin_handle_round one_node_net (took (ptr_make 0 8192) h) demo_pool = Some (Inr (False, p'))"
    using spin_handler_refines [OF demo_on_node [OF demo_lock_words(2)] s'(1), where t = 1 and h = h] s'(2) unfolding s'(3) by auto
  ultimately show "(\<exists>p'. RdmaSpinHandler_Lock one_node_net (ptr_make 0 8256) h demo_pool = Some (Inr (took (ptr_make 0 8256) h, p')) \<and>
      word_at w_rest (ptr_make 0 8256) p' = LOCKED) \<and>
      (\<exists>p'. spin_handle_round one_node_net (took (ptr_make 0 8192) h) demo_pool = Some (Inr (False, p')))" by blast
qed

theorem ticket_handler_refines_witness:
  "\<exists>p'. ticket_handler_draw one_node_net (ptr_make 0 8256) demo_pool = Some (Inr (0, p')) \<and>
     tkt_words w_rest (ptr_make 0 8256) p' = \<lparr>tkt_ticket = 1, tkt_turn = 0\<rparr> \<and>
     (\<exists>p''. ticket_handler_Lock one_node_net (ptr_make 0 8256) demo_pool = Some (Inr ((), p'')) \<and>
        tkt_words w_rest (ptr_make 0 8256) p'' = \<lparr>tkt_ticket = 1, tkt_turn = 0\<rparr>)"
proof -
  let ?s = "tkt_step 1 tkt_init" and ?l = "ptr_make 0 8256"
  have s: "tkt_lock tkt_init = tkt_words w_rest ?l demo_pool" "tkt_at tkt_init 1 = TktIdle"
    "tkt_mine ?s 1 = 0" "tkt_lock ?s = \<lparr>tkt_ticket = 1, tkt_turn = 0\<rparr>" "tkt_at ?s 1 = TktSpin"
    "tkt_at (tkt_step 1 ?s) 1 = TktCritical" "tkt_lock (tkt_step 1 ?s) = \<lparr>tkt_ticket = 1, tkt_turn = 0\<rparr>"
    using demo_lock_words(7) by (simp_all add: tkt_init_def tkt_defs)
  from ticket_handler_refines [where vb = one_node_net and get = w_rest and put = put_rest and nid = 0 and lock = ?l and p = demo_pool and s = tkt_init and t = 1] s(1-4)
  obtain p' where p': "ticket_handler_draw one_node_net ?l demo_pool = Some (Inr (0, p'))"
    "tkt_ready one_node_net w_rest put_rest 0 ?l p'" "tkt_words w_rest ?l p' = \<lparr>tkt_ticket = 1, tkt_turn = 0\<rparr>"
    "ticket_handler_Lock one_node_net ?l demo_pool = spin_until (ticket_handler_round one_node_net ?l 0) p'"
    using demo_on_node [OF demo_lock_words(3)] demo_on_node [OF demo_lock_words(4)] by metis
  from ticket_handler_refines [OF p'(2), where s = ?s and t = 1] s(3-7) p'(3) have "\<exists>p''. spin_until (ticket_handler_round one_node_net ?l 0) p' = Some (Inr ((), p'')) \<and>
      tkt_words w_rest ?l p'' = \<lparr>tkt_ticket = 1, tkt_turn = 0\<rparr>" by auto
  with p' show ?thesis by auto
qed

theorem ticket_handler_cycle_witness:
  "\<exists>p' p''. ticket_handler_Lock one_node_net (ptr_make 0 8256) demo_pool = Some (Inr ((), p')) \<and>
     ticket_handler_Unlock one_node_net (ptr_make 0 8256) p' = Some (Inr ((), p'')) \<and>
     tkt_words w_rest (ptr_make 0 8256) p'' = \<lparr>tkt_ticket = 1, tkt_turn = 1\<rparr>"
  using ticket_handler_cycle [OF demo_on_node [OF demo_lock_words(3)] demo_on_node [OF demo_lock_words(4)] demo_lock_words(7)]
  by auto

end
