(* ===== verification/Listener.thy ===== *)
theory Listener
  imports Verbs
begin

text \<open>
  The accepting side of connection set-up (\<^verbatim>\<open>include/rdma/listener.h\<close>): a thread that waits on its sockets
  with \<^verbatim>\<open>select\<close>, accepts clients, answers each connection context with its own and records a queue pair per
  client id, until as many clients as expected are connected.
\<close>

section \<open>Model\<close>

text \<open>
  The object's fields and the local variables of \<^verbatim>\<open>HandleConnectionRequests\<close>; \<open>client_sockets\<close> is a
  \<^verbatim>\<open>std::set<int>\<close>, kept in ascending order.
\<close>

record 'n Listener =
  l_self :: Node
  expected_clients :: int
  connected_clients :: int
  clients :: "u32 \<Rightarrow> TargetContext option"
  l_mr_addr :: u64
  l_mr_rkey :: u32
  stop_listening :: bool
  l_ib_port :: int
  l_lid :: u16
  l_gid :: "u8 list"
  l_gid_index :: int
  listener_fd :: int
  master_set :: "int set"
  max_fd :: int
  client_sockets :: "int list"
  lworld :: "'n world"

type_synonym ('a, 'n) listener_result = "('a, 'n Listener) result"

definition Listener_new ::
  "Node \<Rightarrow> int \<Rightarrow> u64 \<Rightarrow> u32 \<Rightarrow> u16 \<Rightarrow> int \<Rightarrow> u8 list \<Rightarrow> int \<Rightarrow> 'n world \<Rightarrow> 'n Listener" where
  "Listener_new self expected mr_addr mr_rkey lid gid_index gid ib_port w =
     \<lparr>l_self = self, expected_clients = expected, connected_clients = 0, clients = Map.empty, l_mr_addr = mr_addr,
      l_mr_rkey = mr_rkey, stop_listening = False, l_ib_port = ib_port, l_lid = lid, l_gid = gid,
      l_gid_index = gid_index, listener_fd = 0, master_set = {}, max_fd = 0, client_sockets = [], lworld = w\<rparr>"

abbreviation lcall :: "('n world \<Rightarrow> ('a, 'n world) result) \<Rightarrow> 'n Listener \<Rightarrow> ('a, 'n) listener_result" where
  "lcall \<equiv> call lworld (\<lambda>w. lworld_update (\<lambda>_. w))"

definition CreateListeningEndpoint :: "'n sockets \<Rightarrow> 'n Listener \<Rightarrow> (unit, 'n) listener_result" where
  "CreateListeningEndpoint so l =
     (let (fd, w) = so_socket so (lworld l)
      in if fd < 0 then Some (Inl SocketFailed)
         else let (rv, w) = so_setsockopt so fd w
              in if rv < 0 then Some (Inl SocketFailed)
                 else let (rv, w) = so_bind so fd (l_self l) w
                      in if rv < 0 then Some (Inl BindFailed)
                         else let (rv, w) = so_listen so fd (expected_clients l) w
                              in if rv < 0 then Some (Inl ListenFailed)
                                 else Some (Inr ((), l\<lparr>listener_fd := fd, lworld := w\<rparr>)))"

text \<open>The context sent back: the client's, with the fields that describe this end replaced.\<close>

definition reply_of :: "'n verbs \<Rightarrow> qp \<Rightarrow> ConnectionContext \<Rightarrow> 'n Listener \<Rightarrow> ConnectionContext" where
  "reply_of vb q ctx l = ctx\<lparr>cc_address := l_mr_addr l, cc_rkey := l_mr_rkey l, cc_qp_num := vb_qp_num vb q,
     cc_lid := l_lid l, cc_gid := take 16 (l_gid l)\<rparr>"

text \<open>Enter the client with id \<^verbatim>\<open>ctx.id\<close> into the map and answer it.\<close>

definition register_client ::
  "'n verbs \<Rightarrow> 'n sockets \<Rightarrow> int \<Rightarrow> ConnectionContext \<Rightarrow> qp \<Rightarrow> TargetContext \<Rightarrow> 'n Listener \<Rightarrow> (unit, 'n) listener_result" where
  "register_client vb so fd ctx q target_ctx l =
     (let l = l\<lparr>connected_clients := connected_clients l - (if clients l (cc_id ctx) \<noteq> None then 1 else 0),
            clients := (clients l)(cc_id ctx \<mapsto> target_ctx)\<rparr>;
          (sent, w) = so_send so fd (reply_of vb q ctx l) (lworld l)
      in if sent \<noteq> sizeof_ConnectionContext then Some (Inl SendFailed)
         else Some (Inr ((), l\<lparr>lworld := w, connected_clients := connected_clients l + 1\<rparr>)))"

text \<open>A client's context has arrived on \<open>fd\<close>.\<close>

definition accept_client :: "'n verbs \<Rightarrow> 'n sockets \<Rightarrow> int \<Rightarrow> ConnectionContext \<Rightarrow> 'n Listener \<Rightarrow> (unit, 'n) listener_result" where
  "accept_client vb so fd ctx l =
     bnd (lcall (CreateCq vb) l) (\<lambda>rcq l.
     bnd (lcall (CreateQp vb rcq rcq) l) (\<lambda>q l.
     bnd (lcall (ConnectQp vb rcq rcq q ctx (l_gid_index l) (l_ib_port l)) l) (\<lambda>target_ctx l.
       register_client vb so fd ctx q target_ctx l)))"

definition drop_client :: "'n sockets \<Rightarrow> int \<Rightarrow> 'n Listener \<Rightarrow> 'n Listener" where
  "drop_client so fd l =
     (let cs = remove1 fd (client_sockets l)
      in l\<lparr>lworld := so_close so fd (lworld l), master_set := master_set l - {fd}, client_sockets := cs,
           max_fd := (if cs \<noteq> [] then max (listener_fd l) (last cs) else listener_fd l)\<rparr>)"

text \<open>The loop over the sockets; those in \<open>read_fds\<close> have data or were closed by the client.\<close>

fun serve_clients :: "'n verbs \<Rightarrow> 'n sockets \<Rightarrow> int set \<Rightarrow> int list \<Rightarrow> 'n Listener \<Rightarrow> (unit, 'n) listener_result" where
  "serve_clients vb so read_fds [] l = Some (Inr ((), l))"
| "serve_clients vb so read_fds (fd # fds) l =
     (if fd \<notin> read_fds then serve_clients vb so read_fds fds l
      else case so_recv so fd (lworld l) of (bytes, ctx, w) \<Rightarrow>
        let l = l\<lparr>lworld := w\<rparr>
        in if bytes < 0 then Some (Inl RecvFailed)
           else if bytes = 0 then serve_clients vb so read_fds fds (drop_client so fd l)
           else if bytes \<noteq> sizeof_ConnectionContext then Some (Inl BadContext)
           else bnd (accept_client vb so fd ctx l) (\<lambda>_ l. serve_clients vb so read_fds fds l))"

definition accept_socket :: "'n sockets \<Rightarrow> 'n Listener \<Rightarrow> (unit, 'n) listener_result" where
  "accept_socket so l =
     (let (client_fd, w) = so_accept so (listener_fd l) (lworld l)
      in if client_fd < 0 then Some (Inl AcceptFailed)
         else Some (Inr ((), l\<lparr>lworld := w, master_set := insert client_fd (master_set l),
           client_sockets := insort_insert client_fd (client_sockets l), max_fd := max (max_fd l) client_fd\<rparr>)))"

definition close_all :: "'n sockets \<Rightarrow> 'n Listener \<Rightarrow> 'n Listener" where
  "close_all so l = l\<lparr>lworld := so_close so (listener_fd l) (fold (so_close so) (client_sockets l) (lworld l)),
     listener_fd := 0, stop_listening := True\<rparr>"

text \<open>One round of the loop; the value tells whether the thread ends.\<close>

definition listen_round :: "'n verbs \<Rightarrow> 'n sockets \<Rightarrow> 'n Listener \<Rightarrow> (bool, 'n) listener_result" where
  "listen_round vb so l =
     (if connected_clients l = expected_clients l then Some (Inr (True, close_all so l))
      else let (activity, interrupted, read_fds, w) = so_select so (max_fd l + 1) (master_set l) (lworld l);
               l = l\<lparr>lworld := w\<rparr>
           in if activity < 0 \<and> \<not> interrupted then Some (Inl SelectFailed)
              else if activity = 0 then Some (Inr (False, l))
              else bnd (if listener_fd l \<in> read_fds then accept_socket so l else Some (Inr ((), l))) (\<lambda>_ l.
                   bnd (serve_clients vb so read_fds (client_sockets l) l) (\<lambda>_ l. Some (Inr (False, l)))))"

definition HandleConnectionRequests :: "'n verbs \<Rightarrow> 'n sockets \<Rightarrow> 'n Listener \<Rightarrow> (unit, 'n) listener_result" where
  "HandleConnectionRequests vb so l =
     spin_until (listen_round vb so) (l\<lparr>master_set := {listener_fd l}, max_fd := listener_fd l, client_sockets := []\<rparr>)"

text \<open>\<^verbatim>\<open>Start\<close> runs the loop in a thread of its own and \<^verbatim>\<open>Wait\<close> joins it.\<close>

definition Start_Wait :: "'n verbs \<Rightarrow> 'n sockets \<Rightarrow> 'n Listener \<Rightarrow> (unit, 'n) listener_result" where
  "Start_Wait vb so l = bnd (CreateListeningEndpoint so l) (\<lambda>_ l. HandleConnectionRequests vb so l)"

definition ClearCache :: "'n Listener \<Rightarrow> 'n Listener" where
  "ClearCache l = l\<lparr>clients := Map.empty\<rparr>"

definition GetClients :: "'n Listener \<Rightarrow> u32 \<Rightarrow> TargetContext option" where
  "GetClients l = clients l"

section \<open>Invariants\<close>

text \<open>The counter is the number of distinct client ids, even when a client connects again.\<close>

definition clients_counted :: "'n Listener \<Rightarrow> bool" where
  "clients_counted l \<longleftrightarrow> connected_clients l = int (card (dom (clients l)))"

text \<open>What \<^verbatim>\<open>select\<close> is given: the listening socket and the clients' sockets, all below the bound passed along.\<close>

definition sockets_ok :: "'n Listener \<Rightarrow> bool" where
  "sockets_ok l \<longleftrightarrow> master_set l = insert (listener_fd l) (set (client_sockets l)) \<and> sorted (client_sockets l) \<and>
     distinct (client_sockets l) \<and> listener_fd l \<notin> set (client_sockets l) \<and> (\<forall>fd \<in> master_set l. fd \<le> max_fd l)"

text \<open>What a round keeps, for clients whose ids satisfy \<open>P\<close>.\<close>

definition listener_ok :: "(u32 \<Rightarrow> bool) \<Rightarrow> int \<Rightarrow> 'n Listener \<Rightarrow> bool" where
  "listener_ok P n l \<longleftrightarrow> clients_counted l \<and> sockets_ok l \<and> (\<forall>i \<in> dom (clients l). P i) \<and> expected_clients l = n"

text \<open>
  \<^verbatim>\<open>accept\<close> returns a descriptor of its own, and the contexts received carry ids that satisfy \<open>P\<close>.
\<close>

definition net_ok :: "'n sockets \<Rightarrow> (u32 \<Rightarrow> bool) \<Rightarrow> bool" where
  "net_ok so P \<longleftrightarrow> (\<forall>fd w. fst (so_accept so fd w) \<noteq> fd) \<and>
     (\<forall>fd w. fst (so_recv so fd w) = sizeof_ConnectionContext \<longrightarrow> P (cc_id (fst (snd (so_recv so fd w)))))"

lemma register_client_table:
  assumes "register_client vb so fd ctx q t l = Some (Inr (u, l'))"
  shows "\<exists>w. l' = l\<lparr>clients := (clients l)(cc_id ctx \<mapsto> t), lworld := w,
    connected_clients := connected_clients l + (if clients l (cc_id ctx) = None then 1 else 0)\<rparr>"
proof -
  let ?l = "l\<lparr>connected_clients := connected_clients l - (if clients l (cc_id ctx) \<noteq> None then 1 else 0),
    clients := (clients l)(cc_id ctx \<mapsto> t)\<rparr>"
  obtain sent w where "so_send so fd (reply_of vb q ctx ?l) (lworld l) = (sent, w)" by fastforce
  then show ?thesis
    using assms by (cases "clients l (cc_id ctx)") (auto simp: register_client_def Let_def split: if_splits)
qed

lemma accept_client_table:
  assumes "accept_client vb so fd ctx l = Some (Inr (u, l'))"
  shows "\<exists>t w. l' = l\<lparr>clients := (clients l)(cc_id ctx \<mapsto> t), lworld := w,
    connected_clients := connected_clients l + (if clients l (cc_id ctx) = None then 1 else 0)\<rparr> \<and>
    t_address t = cc_address ctx \<and> t_rkey t = cc_rkey ctx"
proof -
  from assms obtain rcq q w2 t w3 where
      c: "ConnectQp vb rcq rcq q ctx (l_gid_index l) (l_ib_port l) w2 = Some (Inr (t, w3))"
    and r: "register_client vb so fd ctx q t (l\<lparr>lworld := w3\<rparr>) = Some (Inr (u, l'))"
    by (auto simp: accept_client_def bnd_Inr call_Inr)
  from register_client_table [OF r] obtain w where "l' = l\<lparr>clients := (clients l)(cc_id ctx \<mapsto> t), lworld := w,
      connected_clients := connected_clients l + (if clients l (cc_id ctx) = None then 1 else 0)\<rparr>" by auto
  moreover have "t_address t = cc_address ctx" "t_rkey t = cc_rkey ctx" using ConnectQp_target [OF c] by simp_all
  ultimately show ?thesis by blast
qed

lemma accept_client_ok:
  assumes "accept_client vb so fd ctx l = Some (Inr (u, l'))" and "listener_ok P n l" and "P (cc_id ctx)"
  shows "listener_ok P n l'" and "client_sockets l' = client_sockets l" and "listener_fd l' = listener_fd l"
proof -
  obtain t w where l': "l' = l\<lparr>clients := (clients l)(cc_id ctx \<mapsto> t), lworld := w,
    connected_clients := connected_clients l + (if clients l (cc_id ctx) = None then 1 else 0)\<rparr>"
    using accept_client_table [OF assms(1)] by blast
  have "card (insert (cc_id ctx) (dom (clients l))) =
      card (dom (clients l)) + (if clients l (cc_id ctx) = None then 1 else 0)"
    by (simp add: card_insert_if domIff)
  then show "listener_ok P n l'"
    using assms(2,3) l' by (auto simp: listener_ok_def clients_counted_def sockets_ok_def)
  show "client_sockets l' = client_sockets l" "listener_fd l' = listener_fd l" by (simp_all add: l')
qed

lemma drop_client_ok:
  assumes "listener_ok P n l" and "fd \<in> set (client_sockets l)"
  shows "listener_ok P n (drop_client so fd l)"
proof -
  let ?cs = "remove1 fd (client_sockets l)"
  have s: "sorted ?cs" "distinct ?cs" "set ?cs = set (client_sockets l) - {fd}" "fd \<noteq> listener_fd l"
    using assms by (auto simp: listener_ok_def sockets_ok_def sorted_remove1)
  have "x \<le> last ?cs" if "x \<in> set ?cs" for x
    using that s(1) by (metis append_butlast_last_id empty_iff empty_set in_set_conv_decomp insert_iff list.set(2)
        set_append sorted_append UnE order_refl)
  then have "\<forall>x \<in> set ?cs. x \<le> max (listener_fd l) (last ?cs)" by (metis max.coboundedI2)
  moreover have "master_set l - {fd} = insert (listener_fd l) (set ?cs)"
    using assms s by (auto simp: listener_ok_def sockets_ok_def)
  ultimately show ?thesis
    using assms(1) s by (simp add: listener_ok_def sockets_ok_def clients_counted_def drop_client_def Let_def del: set_remove1_eq)
       (metis empty_iff empty_set max.cobounded1 order_refl)
qed

lemma accept_socket_ok:
  assumes "accept_socket so l = Some (Inr (u, l'))" and "net_ok so P" and "listener_ok P n l"
  shows "listener_ok P n l'"
proof -
  from assms(1) obtain fd w where a: "so_accept so (listener_fd l) (lworld l) = (fd, w)"
    and l': "l' = l\<lparr>lworld := w, master_set := insert fd (master_set l),
           client_sockets := insort_insert fd (client_sockets l), max_fd := max (max_fd l) fd\<rparr>"
    by (auto simp: accept_socket_def split: prod.splits if_splits)
  have "fd \<noteq> listener_fd l" using assms(2) a unfolding net_ok_def by (metis fst_conv)
  then show ?thesis
    using assms(3) by (auto simp: l' listener_ok_def sockets_ok_def clients_counted_def set_insort_insert
        sorted_insort_insert distinct_insort_insert max_def intro: order_trans)
qed

lemma serve_clients_ok:
  assumes "serve_clients vb so rd fds l = Some (Inr (u, l'))" and "net_ok so P" and "listener_ok P n l"
    and "distinct fds" and "set fds \<subseteq> set (client_sockets l)"
  shows "listener_ok P n l'"
  using assms
proof (induction fds arbitrary: l)
  case (Cons fd fds)
  obtain bytes ctx w where r: "so_recv so fd (lworld l) = (bytes, ctx, w)" by (cases "so_recv so fd (lworld l)") auto
  let ?l = "l\<lparr>lworld := w\<rparr>"
  have ok: "listener_ok P n ?l" using Cons.prems(3) by (simp add: listener_ok_def clients_counted_def sockets_ok_def)
  consider "fd \<notin> rd" | "fd \<in> rd" "bytes = 0" | "fd \<in> rd" "bytes = sizeof_ConnectionContext" "bytes \<noteq> 0"
    using Cons.prems(1) r by (auto simp: Let_def split: if_splits)
  then show ?case
  proof cases
    case 1
    then show ?thesis using Cons by simp
  next
    case 2
    have fd: "fd \<in> set (client_sockets ?l)" using Cons.prems(5) by simp
    have "set fds \<subseteq> set (client_sockets (drop_client so fd ?l))"
      using Cons.prems(3,4,5) by (auto simp: drop_client_def Let_def listener_ok_def sockets_ok_def)
    then show ?thesis
      using Cons.IH [OF _ Cons.prems(2) drop_client_ok [OF ok fd]] Cons.prems(1,4) 2 r by (simp add: Let_def)
  next
    case 3
    have "P (cc_id ctx)" using Cons.prems(2) 3(2) r unfolding net_ok_def by (metis fst_conv snd_conv)
    moreover from Cons.prems(1) 3 r obtain l1 where a: "accept_client vb so fd ctx ?l = Some (Inr ((), l1))"
      "serve_clients vb so rd fds l1 = Some (Inr (u, l'))"
      by (auto simp: Let_def bnd_Inr sizeof_ConnectionContext_def split: if_splits)
    ultimately show ?thesis
      using Cons.IH [OF a(2) Cons.prems(2)] accept_client_ok [OF a(1) ok] Cons.prems(4,5) by auto
  qed
qed simp

lemma listen_round_ok:
  assumes "listen_round vb so l = Some (Inr (False, l'))" and "net_ok so P" and ok: "listener_ok P n l"
  shows "listener_ok P n l'"
proof -
  obtain act intr rd w where sel: "so_select so (max_fd l + 1) (master_set l) (lworld l) = (act, intr, rd, w)"
    by (cases "so_select so (max_fd l + 1) (master_set l) (lworld l)") auto
  let ?l = "l\<lparr>lworld := w\<rparr>"
  have okw: "listener_ok P n ?l" using ok by (simp add: listener_ok_def clients_counted_def sockets_ok_def)
  consider "l' = ?l" | l1 where "(if listener_fd l \<in> rd then accept_socket so ?l else Some (Inr ((), ?l))) = Some (Inr ((), l1))"
      "serve_clients vb so rd (client_sockets l1) l1 = Some (Inr ((), l'))"
    using assms(1) sel by (auto simp: listen_round_def Let_def bnd_Inr split: if_splits)
  then show ?thesis
  proof cases
    case 1
    then show ?thesis using okw by simp
  next
    case 2
    have "listener_ok P n l1" using 2(1) accept_socket_ok [OF _ assms(2) okw] okw by (auto split: if_splits)
    then show ?thesis
      using serve_clients_ok [OF 2(2) assms(2)] by (simp add: listener_ok_def sockets_ok_def)
  qed
qed

lemma listener_start_ok:
  assumes "clients l = Map.empty" and "connected_clients l = 0"
  shows "listener_ok P (expected_clients l) (l\<lparr>master_set := {listener_fd l}, max_fd := listener_fd l, client_sockets := []\<rparr>)"
  using assms by (simp add: listener_ok_def clients_counted_def sockets_ok_def)

text \<open>With nobody to wait for the listener returns at once.\<close>

lemma HandleConnectionRequests_none:
  assumes "connected_clients l = expected_clients l"
  shows "HandleConnectionRequests vb so l = Some (Inr ((), close_all so
    (l\<lparr>master_set := {listener_fd l}, max_fd := listener_fd l, client_sockets := []\<rparr>)))"
  unfolding HandleConnectionRequests_def by (rule spin_until_true) (simp add: listen_round_def assms)

section \<open>Properties\<close>

text \<open>
  C35: Every round of the listener keeps its invariant: the counter of connected clients equals the number
  of distinct client ids, also when a client connects twice, and the descriptors given to \<^verbatim>\<open>select\<close> are
  exactly the listening socket and the open client sockets, none above \<^verbatim>\<open>max_fd\<close>.
\<close>

theorem listen_round_invariant:
  assumes "net_ok so P" and "listener_ok P n l" and "listen_round vb so l = Some (Inr (False, l'))"
  shows "listener_ok P n l'"
  using assms(3,1,2) by (rule listen_round_ok)

lemma card_ids: "card {i :: u32. int (unat i) < n} \<le> nat n"
proof -
  have "unat ` {i :: u32. int (unat i) < n} \<subseteq> {..<nat n}" by (auto simp: zless_nat_eq_int_zless)
  moreover have "inj_on unat {i :: u32. int (unat i) < n}" by (simp add: inj_on_def word_unat_eq_iff)
  ultimately show ?thesis using card_inj_on_le [of unat "{i :: u32. int (unat i) < n}" "{..<nat n}"] by simp
qed

text \<open>The loop is left in a state that satisfies its invariant.\<close>

lemma listener_exit:
  assumes "net_ok so P" and "clients l = Map.empty" and "connected_clients l = 0"
    and "HandleConnectionRequests vb so l = Some (Inr ((), l'))"
  shows "\<exists>l0. listener_ok P (expected_clients l) l0 \<and> connected_clients l0 = expected_clients l \<and> l' = close_all so l0"
proof -
  obtain l0 where l0: "listener_ok P (expected_clients l) l0" "listen_round vb so l0 = Some (Inr (True, l'))"
    using spin_until_exit [OF assms(4) [unfolded HandleConnectionRequests_def], where I = "listener_ok P (expected_clients l)"]
      listener_start_ok [OF assms(2,3)] listen_round_ok [OF _ assms(1)] by metis
  then have "connected_clients l0 = expected_clients l \<and> l' = close_all so l0"
    by (auto simp: listen_round_def Let_def bnd_Inr listener_ok_def split: if_splits prod.splits)
  with l0(1) show ?thesis by blast
qed

text \<open>A whole connection context with id \<open>i\<close> arrives on some socket in some state of the network.\<close>

definition presented :: "'n sockets \<Rightarrow> u32 \<Rightarrow> bool" where
  "presented so i \<longleftrightarrow> (\<exists>fd w ctx w'. so_recv so fd w = (sizeof_ConnectionContext, ctx, w') \<and> cc_id ctx = i)"

lemma net_presented: "(\<forall>fd w. fst (so_accept so fd w) \<noteq> fd) \<Longrightarrow> net_ok so (presented so)"
  unfolding net_ok_def presented_def by (metis prod.collapse)

text \<open>
  C34: The listener ends only when as many different clients are connected as it expects: when a listener
  with no clients yet returns from \<^verbatim>\<open>HandleConnectionRequests\<close>, it has stopped listening, its counter and the
  number of ids in its map are both the expected number, and every id in the map was presented by a
  client in a whole connection context.  The only assumption on the sockets is that \<^verbatim>\<open>accept\<close> returns a
  descriptor other than the listening one.
\<close>

theorem listener_complete:
  assumes "\<forall>fd w. fst (so_accept so fd w) \<noteq> fd" and "clients l = Map.empty" and "connected_clients l = 0"
    and "HandleConnectionRequests vb so l = Some (Inr ((), l'))"
  shows "stop_listening l' \<and> connected_clients l' = expected_clients l \<and>
    int (card (dom (clients l'))) = expected_clients l \<and> (\<forall>i. clients l' i \<noteq> None \<longrightarrow> presented so i)"
  using listener_exit [OF net_presented [OF assms(1)] assms(2-4)]
  by (auto simp: close_all_def listener_ok_def clients_counted_def dom_def)

text \<open>When all ids presented are below the expected number, these are exactly the ids in the map.\<close>

lemma listener_ids:
  assumes "net_ok so (\<lambda>i. int (unat i) < expected_clients l)" and "clients l = Map.empty" and "connected_clients l = 0"
    and "HandleConnectionRequests vb so l = Some (Inr ((), l'))"
  shows "clients l' i \<noteq> None \<longleftrightarrow> int (unat i) < expected_clients l"
proof -
  let ?n = "expected_clients l" and ?P = "\<lambda>i :: u32. int (unat i) < expected_clients l"
  obtain l0 where l0: "listener_ok ?P ?n l0" "connected_clients l0 = ?n" "l' = close_all so l0"
    using listener_exit [OF assms] by blast
  have sub: "dom (clients l0) \<subseteq> {i. ?P i}" using l0(1) by (auto simp: listener_ok_def)
  have "card {i. ?P i} \<le> nat ?n" by (rule card_ids)
  also have "nat ?n = card (dom (clients l0))" using l0(1,2) by (simp add: listener_ok_def clients_counted_def)
  finally have "dom (clients l0) = {i. ?P i}" using sub by (simp add: card_subset_eq card_seteq)
  then show ?thesis by (auto simp: l0(3) close_all_def dom_def)
qed

text \<open>A network with one client, of id 0, which sends its context as soon as it is accepted.\<close>

definition one_client :: "(qp \<Rightarrow> qp_state) sockets" where
  "one_client = \<lparr>so_socket = (\<lambda>w. (3, w)), so_setsockopt = (\<lambda>fd w. (0, w)), so_bind = (\<lambda>fd n w. (0, w)),
     so_listen = (\<lambda>fd n w. (0, w)), so_select = (\<lambda>n fds w. (2, False, {3, 7}, w)), so_accept = (\<lambda>fd w. (fd + 4, w)),
     so_connect = (\<lambda>fd n w. (0, w)),
     so_recv = (\<lambda>fd w. (38, \<lparr>cc_address = 4096, cc_id = 0, cc_rkey = 9, cc_qp_num = 1, cc_lid = 2, cc_gid = []\<rparr>, w)),
     so_send = (\<lambda>fd ctx w. (38, w)), so_close = (\<lambda>fd w. w)\<rparr>"

definition demo_listener :: "(qp \<Rightarrow> qp_state) Listener" where
  "demo_listener = (Listener_new \<lparr>n_ip = ''10.0.0.1'', n_port = 18515\<rparr> 1 64 5 2 0 [] 1
     \<lparr>w_mem = (\<lambda>_. 0), w_rest = (\<lambda>_. IBV_QPS_RESET)\<rparr>)\<lparr>listener_fd := 3\<rparr>"

lemma one_client_ok: "net_ok one_client (\<lambda>i. int (unat i) < 1)"
  by (simp add: net_ok_def one_client_def)

lemma demo_rounds:
  "\<exists>l1. listen_round qp_only_verbs one_client (demo_listener\<lparr>master_set := {3}, max_fd := 3, client_sockets := []\<rparr>) =
      Some (Inr (False, l1)) \<and> listen_round qp_only_verbs one_client l1 = Some (Inr (True, close_all one_client l1))"
  by (simp add: listen_round_def demo_listener_def Listener_new_def one_client_def accept_socket_def insort_insert_key_def
      accept_client_def call_def CreateCq_def CreateQp_def qp_only_verbs_def ConnectQp_def ModifyQpToInit_def
      ModifyQpToRtr_def ModifyQpToRts_def rtr_attr_def rc_next_def register_client_def sizeof_ConnectionContext_def)

lemma demo_listener_returns:
  "\<exists>l'. HandleConnectionRequests qp_only_verbs one_client demo_listener = Some (Inr ((), l'))"
proof -
  have fd: "listener_fd demo_listener = 3" by (simp add: demo_listener_def)
  obtain l1 where "listen_round qp_only_verbs one_client (demo_listener\<lparr>master_set := {3}, max_fd := 3, client_sockets := []\<rparr>) =
      Some (Inr (False, l1))" "listen_round qp_only_verbs one_client l1 = Some (Inr (True, close_all one_client l1))"
    using demo_rounds by blast
  then show ?thesis
    unfolding HandleConnectionRequests_def fd by (subst spin_until.simps, subst spin_until.simps) simp
qed

theorem listener_complete_witness:
  "\<exists>l'. HandleConnectionRequests qp_only_verbs one_client demo_listener = Some (Inr ((), l')) \<and> stop_listening l' \<and>
     connected_clients l' = 1 \<and> dom (clients l') = {0}"
proof -
  obtain l' where l': "HandleConnectionRequests qp_only_verbs one_client demo_listener = Some (Inr ((), l'))"
    using demo_listener_returns by blast
  have e: "expected_clients demo_listener = 1" "clients demo_listener = Map.empty" "connected_clients demo_listener = 0"
    by (simp_all add: demo_listener_def Listener_new_def)
  have "\<forall>fd w. fst (so_accept one_client fd w) \<noteq> fd" by (simp add: one_client_def)
  note r = listener_complete [OF this e(2,3) l', unfolded e(1)]
  have "presented one_client i \<Longrightarrow> i = 0" for i by (auto simp: presented_def one_client_def)
  then have "dom (clients l') \<subseteq> {0}" using r by blast
  moreover have "card (dom (clients l')) = 1" using r by simp
  ultimately have "dom (clients l') = {0}" by (auto simp: subset_singleton_iff)
  then show ?thesis using l' r by blast
qed

theorem listen_round_invariant_witness:
  "\<exists>l1. listen_round qp_only_verbs one_client (demo_listener\<lparr>master_set := {3}, max_fd := 3, client_sockets := []\<rparr>) =
      Some (Inr (False, l1)) \<and> listener_ok (\<lambda>i. int (unat i) < 1) 1 l1"
proof -
  let ?l = "demo_listener\<lparr>master_set := {3}, max_fd := 3, client_sockets := []\<rparr>"
  have "listener_ok (\<lambda>i. int (unat i) < 1) 1 ?l"
    by (simp add: listener_ok_def clients_counted_def sockets_ok_def demo_listener_def Listener_new_def)
  then show ?thesis using demo_rounds listen_round_invariant [OF one_client_ok] by blast
qed

end
