(* ===== verification/Connector.thy ===== *)
theory Connector
  imports Listener
begin

text \<open>
  The connecting side of connection set-up (\<^verbatim>\<open>include/rdma/connector.h\<close>): one socket per server, opened with
  exponential backoff and reused for further connections, over which connection contexts are exchanged.
\<close>

section \<open>Model\<close>

definition kMinBackoffUs :: u32 where "kMinBackoffUs = 100"
definition kMaxBackoffUs :: u32 where "kMaxBackoffUs = 5000000"

record 'n Connector =
  connected_servers :: "string \<Rightarrow> int option"
  c_self :: Node
  c_ib_port :: int
  c_lid :: u16
  c_mr_addr :: u64
  c_mr_rkey :: u32
  c_gid :: "u8 list"
  c_gid_index :: int
  backoff_us :: u32
  cworld :: "'n world"

type_synonym ('a, 'n) connector_result = "('a, 'n Connector) result"

definition Connector_new :: "Node \<Rightarrow> u64 \<Rightarrow> u32 \<Rightarrow> u16 \<Rightarrow> int \<Rightarrow> u8 list \<Rightarrow> int \<Rightarrow> 'n world \<Rightarrow> 'n Connector" where
  "Connector_new self mr_addr mr_rkey lid gid_index gid ib_port w =
     \<lparr>connected_servers = Map.empty, c_self = self, c_ib_port = ib_port, c_lid = lid, c_mr_addr = mr_addr,
      c_mr_rkey = mr_rkey, c_gid = gid, c_gid_index = gid_index, backoff_us = 0, cworld = w\<rparr>"

abbreviation ccall :: "('n world \<Rightarrow> ('a, 'n world) result) \<Rightarrow> 'n Connector \<Rightarrow> ('a, 'n) connector_result" where
  "ccall \<equiv> call cworld (\<lambda>w. cworld_update (\<lambda>_. w))"

text \<open>This end of a connection over queue pair \<open>q\<close>, as sent to the peer.\<close>

definition own_context :: "'n verbs \<Rightarrow> qp \<Rightarrow> u32 \<Rightarrow> 'n Connector \<Rightarrow> ConnectionContext" where
  "own_context vb q i c = \<lparr>cc_address = c_mr_addr c, cc_id = i, cc_rkey = c_mr_rkey c, cc_qp_num = vb_qp_num vb q,
     cc_lid = c_lid c, cc_gid = take 16 (c_gid c)\<rparr>"

definition ConnectLoopback :: "'n verbs \<Rightarrow> 'n Connector \<Rightarrow> (TargetContext, 'n) connector_result" where
  "ConnectLoopback vb c =
     bnd (ccall (CreateCq vb) c) (\<lambda>rcq c.
     bnd (ccall (CreateQp vb rcq rcq) c) (\<lambda>q c.
       ccall (ConnectQp vb rcq rcq q (own_context vb q 0 c) (c_gid_index c) (c_ib_port c)) c))"

text \<open>32-bit arithmetic, as in the source.\<close>

definition next_backoff :: "u32 \<Rightarrow> u32 \<Rightarrow> u32" where
  "next_backoff i b = (if 0 < b then min ((b + (100 * i)) * 2) kMaxBackoffUs else kMinBackoffUs)"

definition try_connect :: "'n sockets \<Rightarrow> int \<Rightarrow> Node \<Rightarrow> u32 \<Rightarrow> 'n Connector \<Rightarrow> (bool, 'n) connector_result" where
  "try_connect so fd remote i c =
     (let (ret, w) = so_connect so fd remote (cworld c); c = c\<lparr>cworld := w\<rparr>
      in if ret = 0 then Some (Inr (True, c))
         else Some (Inr (False, c\<lparr>backoff_us := next_backoff i (backoff_us c)\<rparr>)))"

definition server_socket :: "'n sockets \<Rightarrow> Node \<Rightarrow> u32 \<Rightarrow> 'n Connector \<Rightarrow> (int, 'n) connector_result" where
  "server_socket so remote i c = (case connected_servers c (n_ip remote) of
     Some fd \<Rightarrow> Some (Inr (fd, c))
   | None \<Rightarrow> (let (fd, w) = so_socket so (cworld c)
       in if fd < 0 then Some (Inl SocketFailed)
          else bnd (spin_until (try_connect so fd remote i) (c\<lparr>cworld := w\<rparr>)) (\<lambda>_ c. Some (Inr (fd, c)))))"

definition exchange_contexts :: "'n sockets \<Rightarrow> int \<Rightarrow> ConnectionContext \<Rightarrow> 'n Connector \<Rightarrow> (ConnectionContext, 'n) connector_result" where
  "exchange_contexts so fd ctx c =
     (let (sent, w) = so_send so fd ctx (cworld c)
      in if sent \<noteq> sizeof_ConnectionContext then Some (Inl SendFailed)
         else let (bytes, ctx, w) = so_recv so fd w
              in if bytes \<noteq> sizeof_ConnectionContext then Some (Inl BadContext)
                 else Some (Inr (ctx, c\<lparr>cworld := w\<rparr>)))"

definition Connect :: "'n verbs \<Rightarrow> 'n sockets \<Rightarrow> Node \<Rightarrow> u32 \<Rightarrow> 'n Connector \<Rightarrow> (TargetContext, 'n) connector_result" where
  "Connect vb so remote i c =
     bnd (server_socket so remote i c) (\<lambda>client_fd c.
     bnd (ccall (CreateCq vb) c) (\<lambda>rcq c.
     bnd (ccall (CreateQp vb rcq rcq) c) (\<lambda>q c.
     bnd (exchange_contexts so client_fd (own_context vb q i c) c) (\<lambda>ctx c.
     bnd (ccall (ConnectQp vb rcq rcq q ctx (c_gid_index c) (c_ib_port c)) c) (\<lambda>target_ctx c.
       Some (Inr (target_ctx, c\<lparr>connected_servers := (connected_servers c)(n_ip remote \<mapsto> client_fd)\<rparr>)))))))"

text \<open>\<^verbatim>\<open>servers\<close> are the keys of the hash map, in the order of its iteration.\<close>

definition Connector_ClearCache :: "'n sockets \<Rightarrow> string list \<Rightarrow> 'n Connector \<Rightarrow> 'n Connector" where
  "Connector_ClearCache so servers c = c\<lparr>connected_servers := Map.empty,
     cworld := fold (\<lambda>ip w. case connected_servers c ip of None \<Rightarrow> w | Some fd \<Rightarrow> so_close so fd w) servers (cworld c)\<rparr>"

section \<open>Properties\<close>

lemma backoff_consts: "unat kMinBackoffUs = 100" "unat kMaxBackoffUs = 5000000"
  by (simp_all add: kMinBackoffUs_def kMaxBackoffUs_def)

lemma unat_min: "unat (min a b) = min (unat a) (unat (b :: u32))"
  by (simp add: min_def word_le_nat_alt)

lemma next_backoff_nat:
  assumes "unat i \<le> 21000000" and "b \<le> kMaxBackoffUs" and "0 < b"
  shows "unat (next_backoff i b) = min ((unat b + 100 * unat i) * 2) 5000000"
proof -
  have b: "unat b \<le> 5000000" using assms(2) by (simp add: word_le_nat_alt backoff_consts)
  have "unat (100 * i) = 100 * unat i" using assms(1) by (simp add: unat_word_ariths)
  then have "unat (b + 100 * i) = unat b + 100 * unat i" using assms(1) b by (simp add: unat_word_ariths)
  then have "unat ((b + 100 * i) * 2) = (unat b + 100 * unat i) * 2" using assms(1) b by (simp add: unat_word_ariths)
  then show ?thesis using assms(3) by (simp add: next_backoff_def unat_min backoff_consts)
qed

text \<open>
  The time between two attempts stays within its bounds and, for client ids up to 21 million, where the
  32-bit arithmetic does not wrap around, at least doubles until it reaches the upper bound.
\<close>

theorem backoff_bounded:
  assumes "b \<le> kMaxBackoffUs"
  shows "next_backoff i b \<le> kMaxBackoffUs \<and>
    (unat i \<le> 21000000 \<longrightarrow> kMinBackoffUs \<le> b \<or> b = 0 \<longrightarrow>
       kMinBackoffUs \<le> next_backoff i b \<and> min (2 * unat b) 5000000 \<le> unat (next_backoff i b))"
proof (intro conjI impI)
  show "next_backoff i b \<le> kMaxBackoffUs"
    by (simp add: next_backoff_def) (simp add: kMinBackoffUs_def kMaxBackoffUs_def)
  assume i: "unat i \<le> 21000000" and b: "kMinBackoffUs \<le> b \<or> b = 0"
  show "min (2 * unat b) 5000000 \<le> unat (next_backoff i b)"
    using next_backoff_nat [OF i assms] by (cases "b = 0") (auto simp: word_neq_0_conv)
  then show "kMinBackoffUs \<le> next_backoff i b"
    using b by (cases "b = 0") (auto simp: word_le_nat_alt backoff_consts next_backoff_def)
qed

theorem backoff_bounded_witness:
  "kMinBackoffUs \<le> next_backoff 3 3200 \<and> 6400 \<le> unat (next_backoff 3 3200)"
proof -
  have "(3200 :: u32) \<le> kMaxBackoffUs" "kMinBackoffUs \<le> (3200 :: u32)" "unat (3 :: u32) \<le> 21000000"
    "min (2 * unat (3200 :: u32)) 5000000 = 6400" by (simp_all add: kMinBackoffUs_def kMaxBackoffUs_def)
  then show ?thesis using backoff_bounded [of 3200 3] by metis
qed

text \<open>
  The server at the other end of a socket is a \<^verbatim>\<open>Listener\<close>; \<open>srv fd w\<close> is its state in the client's world, \<open>vbs\<close> and
  \<open>sos\<close> the libraries on its side, and \<open>sent\<close> reads off its world what it sent last.  The two are linked when
  whatever the client sends in full, and then gets an answer to, is what the server's \<open>accept_client\<close> was
  run on, the answer is what the server sent there, and setting up a queue pair of the client's does
  not change the server.  What the two ends put into the contexts, and what they keep of them, is left open.
\<close>

definition linked ::
  "'n verbs \<Rightarrow> 'n sockets \<Rightarrow> 'm verbs \<Rightarrow> 'm sockets \<Rightarrow> (int \<Rightarrow> 'n world \<Rightarrow> 'm Listener) \<Rightarrow>
   ('m world \<Rightarrow> ConnectionContext) \<Rightarrow> bool" where
  "linked vb so vbs sos srv sent \<longleftrightarrow>
     (\<forall>fd ctx w. sent (snd (so_send sos fd ctx w)) = ctx) \<and>
     (\<forall>fd ctx w w1 ctx' w2. so_send so fd ctx w = (sizeof_ConnectionContext, w1) \<longrightarrow>
        so_recv so fd w1 = (sizeof_ConnectionContext, ctx', w2) \<longrightarrow>
        (\<exists>fds. accept_client vbs sos fds ctx (srv fd w) = Some (Inr ((), srv fd w2)) \<and> ctx' = sent (lworld (srv fd w2)))) \<and>
     (\<forall>fd q attr flags w. srv fd (snd (vb_modify_qp vb q attr flags w)) = srv fd w)"

lemma server_socket_fields:
  assumes "server_socket so remote i c = Some (Inr (fd, c'))"
  shows "c_mr_addr c' = c_mr_addr c \<and> c_mr_rkey c' = c_mr_rkey c"
proof (cases "connected_servers c (n_ip remote)")
  case None
  let ?I = "\<lambda>d. c_mr_addr d = c_mr_addr c \<and> c_mr_rkey d = c_mr_rkey c"
  obtain w where w: "spin_until (try_connect so fd remote i) (c\<lparr>cworld := w\<rparr>) = Some (Inr ((), c'))"
    using assms None by (auto simp: server_socket_def bnd_Inr split: prod.splits if_splits)
  have keep: "?I d \<Longrightarrow> try_connect so fd remote i d = Some (Inr (b, d')) \<Longrightarrow> ?I d'" for d b d'
    by (cases "so_connect so fd remote (cworld d)") (auto simp: try_connect_def Let_def split: if_splits)
  have start: "?I (c\<lparr>cworld := w\<rparr>)" by simp
  obtain d where "?I d" "try_connect so fd remote i d = Some (Inr (True, c'))"
    using spin_until_exit [where I = ?I, OF w start] keep by blast
  then show ?thesis by (rule keep)
qed (use assms in \<open>simp add: server_socket_def\<close>)

text \<open>The server answers with its own region and key.\<close>

lemma register_client_sends:
  assumes "register_client vb so fd ctx q t l = Some (Inr (u, l'))" and "\<forall>fd ctx w. sent (snd (so_send so fd ctx w)) = ctx"
  shows "cc_address (sent (lworld l')) = l_mr_addr l \<and> cc_rkey (sent (lworld l')) = l_mr_rkey l"
proof -
  define l1 where "l1 = l\<lparr>connected_clients := connected_clients l - (if clients l (cc_id ctx) \<noteq> None then 1 else 0),
    clients := (clients l)(cc_id ctx \<mapsto> t)\<rparr>"
  obtain n w where sw: "so_send so fd (reply_of vb q ctx l1) (lworld l1) = (n, w)" by fastforce
  then have "lworld l' = w" using assms(1) unfolding register_client_def l1_def [symmetric]
    by (auto simp: Let_def split: if_splits)
  moreover have "sent w = reply_of vb q ctx l1" using assms(2) sw by (metis snd_conv)
  ultimately show ?thesis by (simp add: reply_of_def l1_def)
qed

lemma accept_client_sends:
  assumes "accept_client vb so fd ctx l = Some (Inr (u, l'))" and "\<forall>fd ctx w. sent (snd (so_send so fd ctx w)) = ctx"
  shows "cc_address (sent (lworld l')) = l_mr_addr l' \<and> cc_rkey (sent (lworld l')) = l_mr_rkey l'"
proof -
  from assms(1) obtain q t w where "register_client vb so fd ctx q t (l\<lparr>lworld := w\<rparr>) = Some (Inr (u, l'))"
    by (auto simp: accept_client_def bnd_Inr call_Inr)
  from register_client_sends [OF this assms(2)] show ?thesis
    using accept_client_table [OF assms(1)] by auto
qed

text \<open>A part \<open>f\<close> of the world that \<^verbatim>\<open>ibv_modify_qp\<close> does not change is not changed by the set-up of a queue pair.\<close>

lemma ConnectQp_keeps:
  assumes "ConnectQp vb rcq scq q ctx g ib w = Some (Inr (t, w'))" and "\<forall>q attr flags w. f (snd (vb_modify_qp vb q attr flags w)) = f w"
  shows "f w' = f w"
proof -
  have k: "vb_modify_qp vb q attr flags w1 = (0, w2) \<Longrightarrow> f w2 = f w1" for attr flags w1 w2
    using assms(2) [rule_format, of q attr flags w1] by simp
  have i: "f w2 = f w1" if "ModifyQpToInit vb q p w1 = Some (Inr (u, w2))" for p w1 u w2
    using that by (auto simp: ModifyQpToInit_def Let_def split: prod.split_asm if_split_asm intro: k)
  have r: "f w2 = f w1" if "ModifyQpToRtr vb q n lid gid g ib w1 = Some (Inr (u, w2))" for n lid gid w1 u w2
    using that by (auto simp: ModifyQpToRtr_def Let_def split: prod.split_asm if_split_asm intro: k)
  have s: "f w2 = f w1" if "ModifyQpToRts vb q w1 = Some (Inr (u, w2))" for w1 u w2
    using that by (auto simp: ModifyQpToRts_def Let_def split: prod.split_asm if_split_asm intro: k)
  show ?thesis using assms(1) by (auto simp: ConnectQp_def bnd_Inr dest!: i r s)
qed

text \<open>
  C36: The two ends of a connection agree.  When \<^verbatim>\<open>Connect\<close> returns over a network that links it to a
  \<^verbatim>\<open>Listener\<close>, its target has the listener's region and key, the listener has entered a target with the
  connector's region and key under the id that \<^verbatim>\<open>Connect\<close> was given, and the socket to that listener is kept for
  the next connection to the same server.
\<close>

theorem handshake:
  assumes "Connect vb so remote i c = Some (Inr (t, c'))" and "linked vb so vbs sos srv sent"
  shows "\<exists>fd s. server_socket so remote j c' = Some (Inr (fd, c')) \<and>
    t_address t = l_mr_addr (srv fd (cworld c')) \<and> t_rkey t = l_mr_rkey (srv fd (cworld c')) \<and>
    clients (srv fd (cworld c')) i = Some s \<and> t_address s = c_mr_addr c \<and> t_rkey s = c_mr_rkey c"
proof -
  from assms(1) obtain fd c1 q rcq ctx c2 w w' where
      s: "server_socket so remote i c = Some (Inr (fd, c1))"
    and x: "exchange_contexts so fd (own_context vb q i (c1\<lparr>cworld := w\<rparr>)) (c1\<lparr>cworld := w\<rparr>) = Some (Inr (ctx, c2))"
    and k: "ConnectQp vb rcq rcq q ctx (c_gid_index c2) (c_ib_port c2) (cworld c2) = Some (Inr (t, w'))"
    and c': "c' = c2\<lparr>cworld := w', connected_servers := (connected_servers c2)(n_ip remote \<mapsto> fd)\<rparr>"
    by (auto simp: Connect_def bnd_Inr call_Inr)
  let ?own = "own_context vb q i (c1\<lparr>cworld := w\<rparr>)" and ?srv = "srv fd (cworld c2)"
  obtain w1 where "so_send so fd ?own w = (sizeof_ConnectionContext, w1)"
    "so_recv so fd w1 = (sizeof_ConnectionContext, ctx, cworld c2)"
    using x by (auto simp: exchange_contexts_def Let_def split: if_splits prod.splits)
  then obtain fds where acc: "accept_client vbs sos fds ?own (srv fd w) = Some (Inr ((), ?srv))"
    and ctx: "ctx = sent (lworld ?srv)" using assms(2) unfolding linked_def by blast
  have own: "cc_id ?own = i" "cc_address ?own = c_mr_addr c" "cc_rkey ?own = c_mr_rkey c"
    using server_socket_fields [OF s] by (simp_all add: own_context_def)
  have "srv fd (cworld c') = ?srv"
    using ConnectQp_keeps [OF k, of "srv fd"] assms(2) by (simp add: linked_def c')
  moreover have "t_address t = l_mr_addr ?srv" "t_rkey t = l_mr_rkey ?srv"
    using ConnectQp_target [OF k] accept_client_sends [OF acc] assms(2) by (simp_all add: ctx linked_def)
  moreover have "\<exists>s. clients ?srv i = Some s \<and> t_address s = c_mr_addr c \<and> t_rkey s = c_mr_rkey c"
    using accept_client_table [OF acc] own by auto
  moreover have "server_socket so remote j c' = Some (Inr (fd, c'))" by (simp add: c' server_socket_def)
  ultimately show ?thesis by auto
qed

section \<open>A client and a server\<close>

text \<open>Verbs that always succeed, and sockets of a server that remember the context sent last.\<close>

definition echo_verbs :: "'n verbs" where
  "echo_verbs = \<lparr>vb_post_send = (\<lambda>q wr w. (0, w)), vb_post_recv = (\<lambda>q wr w. (0, w)),
     vb_poll_cq = (\<lambda>c w. (1, \<lparr>wc_status = 0, wc_wr_id = 0\<rparr>, w)), vb_modify_qp = (\<lambda>q attr flags w. (0, w)),
     vb_create_cq = (\<lambda>n w. (Some 0, w)), vb_create_qp = (\<lambda>a w. (Some 0, w)), vb_qp_num = (\<lambda>q. 17)\<rparr>"

definition echo_sockets :: "ConnectionContext sockets" where
  "echo_sockets = \<lparr>so_socket = (\<lambda>w. (5, w)), so_setsockopt = (\<lambda>fd w. (0, w)), so_bind = (\<lambda>fd n w. (0, w)),
     so_listen = (\<lambda>fd n w. (0, w)), so_select = (\<lambda>n fds w. (0, False, {}, w)), so_accept = (\<lambda>fd w. (fd + 1, w)),
     so_connect = (\<lambda>fd n w. (0, w)), so_recv = (\<lambda>fd w. (38, w_rest w, w)),
     so_send = (\<lambda>fd ctx w. (38, w\<lparr>w_rest := ctx\<rparr>)), so_close = (\<lambda>fd w. w)\<rparr>"

text \<open>The client's sockets: the context on its way to the server, and the server, which takes it when the client waits for the answer.\<close>

definition client_sockets_to :: "int \<Rightarrow> (ConnectionContext \<times> ConnectionContext Listener) sockets" where
  "client_sockets_to fds = \<lparr>so_socket = (\<lambda>w. (5, w)), so_setsockopt = (\<lambda>fd w. (0, w)), so_bind = (\<lambda>fd n w. (0, w)),
     so_listen = (\<lambda>fd n w. (0, w)), so_select = (\<lambda>n fds w. (0, False, {}, w)), so_accept = (\<lambda>fd w. (fd + 1, w)),
     so_connect = (\<lambda>fd n w. (0, w)),
     so_recv = (\<lambda>fd w. case accept_client echo_verbs echo_sockets fds (fst (w_rest w)) (snd (w_rest w)) of
        Some (Inr (_, l)) \<Rightarrow> (38, w_rest (lworld l), w\<lparr>w_rest := (fst (w_rest w), l)\<rparr>)
      | _ \<Rightarrow> (0, fst (w_rest w), w)),
     so_send = (\<lambda>fd ctx w. (38, w\<lparr>w_rest := (ctx, snd (w_rest w))\<rparr>)), so_close = (\<lambda>fd w. w)\<rparr>"

definition no_context :: ConnectionContext where
  "no_context = \<lparr>cc_address = 0, cc_id = 0, cc_rkey = 0, cc_qp_num = 0, cc_lid = 0, cc_gid = []\<rparr>"

definition demo_server :: "ConnectionContext Listener" where
  "demo_server = (Listener_new \<lparr>n_ip = ''10.0.0.1'', n_port = 18515\<rparr> 1 64 5 2 0 [] 1 \<lparr>w_mem = (\<lambda>_. 0), w_rest = no_context\<rparr>)
     \<lparr>listener_fd := 3\<rparr>"

definition demo_connector :: "(ConnectionContext \<times> ConnectionContext Listener) Connector" where
  "demo_connector = Connector_new \<lparr>n_ip = ''10.0.0.2'', n_port = 18515\<rparr> 8192 6 3 0 [] 1
     \<lparr>w_mem = (\<lambda>_. 0), w_rest = (no_context, demo_server)\<rparr>"

lemma demo_linked: "linked echo_verbs (client_sockets_to 7) echo_verbs echo_sockets (\<lambda>fd w. snd (w_rest w)) w_rest"
  unfolding linked_def
proof (intro conjI allI impI)
  fix fd ctx ctx' and w w1 w2 :: "(ConnectionContext \<times> ConnectionContext Listener) world"
  assume w1: "so_send (client_sockets_to 7) fd ctx w = (sizeof_ConnectionContext, w1)"
    and w2: "so_recv (client_sockets_to 7) fd w1 = (sizeof_ConnectionContext, ctx', w2)"
  then show "\<exists>fds. accept_client echo_verbs echo_sockets fds ctx (snd (w_rest w)) = Some (Inr ((), snd (w_rest w2))) \<and>
      ctx' = w_rest (lworld (snd (w_rest w2)))"
    by (intro exI [of _ 7]) (auto simp: client_sockets_to_def sizeof_ConnectionContext_def split: option.splits sum.splits)
qed (simp_all add: echo_verbs_def echo_sockets_def)

lemmas echo_connect = Connect_def server_socket_def try_connect_def spin_until.simps call_def CreateCq_def CreateQp_def
  echo_verbs_def exchange_contexts_def sizeof_ConnectionContext_def ConnectQp_def ModifyQpToInit_def ModifyQpToRtr_def
  ModifyQpToRts_def

lemma demo_connects:
  "\<exists>t c'. Connect echo_verbs (client_sockets_to 7) (l_self demo_server) 4 demo_connector = Some (Inr (t, c')) \<and>
     l_mr_addr (snd (w_rest (cworld c'))) = 64 \<and> c_mr_addr demo_connector = 8192"
  by (simp add: echo_connect demo_connector_def Connector_new_def client_sockets_to_def accept_client_def register_client_def
      echo_sockets_def demo_server_def Listener_new_def reply_of_def)

theorem handshake_witness:
  "\<exists>t c' s. Connect echo_verbs (client_sockets_to 7) (l_self demo_server) 4 demo_connector = Some (Inr (t, c')) \<and>
     t_address t = 64 \<and> clients (snd (w_rest (cworld c'))) 4 = Some s \<and> t_address s = 8192 \<and> t_rkey s = c_mr_rkey demo_connector"
proof -
  obtain t c' where c: "Connect echo_verbs (client_sockets_to 7) (l_self demo_server) 4 demo_connector = Some (Inr (t, c'))"
    and a: "l_mr_addr (snd (w_rest (cworld c'))) = 64" "c_mr_addr demo_connector = 8192"
    using demo_connects by blast
  from handshake [OF c demo_linked, unfolded a] c show ?thesis by blast
qed

end
