(* ===== verification/PortScan.thy ===== *)
theory PortScan
  imports Verbs
begin

text \<open>
  \<^verbatim>\<open>Manager::FindActivePort\<close> (\<^verbatim>\<open>include/rdma/manager.h\<close>): the first port, in the order of the device list, that
  is active and has a non-zero global identifier.  What the verbs library answers to the queries is data
  here: a list of devices with their ports and identifier tables.
\<close>

section \<open>Model\<close>

type_synonym gid = "u8 list"

text \<open>\<open>None\<close> in the table: \<^verbatim>\<open>ibv_query_gid\<close> failed.\<close>

record port =
  port_query_ok :: bool
  port_active :: bool
  port_lid :: u16
  port_gids :: "gid option list"

record device =
  dev_opens :: bool
  dev_query_ok :: bool
  dev_ports :: "port list"

text \<open>The fields of \<^verbatim>\<open>Manager\<close> that the scan sets; a context is the index of its device.\<close>

record port_choice =
  pc_gid_index :: int
  pc_gid :: gid
  pc_lid :: u16
  pc_ib_port :: int
  pc_ctx :: "nat option"

definition gid_zero :: "gid \<Rightarrow> bool" where
  "gid_zero g \<longleftrightarrow> (\<forall>b \<in> set g. b = 0)"

fun scan_gids :: "int \<Rightarrow> gid option list \<Rightarrow> port_choice \<Rightarrow> port_choice" where
  "scan_gids k [] s = s"
| "scan_gids k (None # gs) s = scan_gids (k + 1) gs s"
| "scan_gids k (Some g # gs) s =
     (if gid_zero g then scan_gids (k + 1) gs s else s\<lparr>pc_gid_index := k, pc_gid := g\<rparr>)"

fun scan_ports :: "int \<Rightarrow> port list \<Rightarrow> port_choice \<Rightarrow> port_choice" where
  "scan_ports j [] s = s"
| "scan_ports j (p # ps) s =
     (if \<not> port_query_ok p then scan_ports (j + 1) ps s
      else if port_active p then
        (let s = scan_gids 0 (port_gids p) s
         in if pc_gid_index s = - 1 then scan_ports (j + 1) ps s
            else s\<lparr>pc_lid := port_lid p, pc_ib_port := j\<rparr>)
      else scan_ports (j + 1) ps s)"

fun scan_devices :: "nat \<Rightarrow> device list \<Rightarrow> port_choice \<Rightarrow> port_choice" where
  "scan_devices i [] s = s"
| "scan_devices i (d # ds) s =
     (if \<not> dev_opens d then scan_devices (Suc i) ds s
      else if \<not> dev_query_ok d then scan_devices (Suc i) ds s
      else let s = scan_ports 1 (dev_ports d) s
           in if pc_ib_port s = 0 then scan_devices (Suc i) ds s else s\<lparr>pc_ctx := Some i\<rparr>)"

definition FindActivePort :: "device list \<Rightarrow> port_choice \<Rightarrow> rdma_error + bool \<times> port_choice" where
  "FindActivePort devs s =
     (if devs = [] then Inl NoDevices
      else let s = scan_devices 0 devs (s\<lparr>pc_gid_index := - 1\<rparr>) in Inr (pc_ctx s \<noteq> None, s))"

section \<open>The reference\<close>

text \<open>
  Usable identifiers, ports and devices with their numbers, in the order of the scan; the first is number \<open>n\<close>.
\<close>

definition usable_gids :: "nat \<Rightarrow> gid option list \<Rightarrow> (int \<times> gid) list" where
  "usable_gids n gs = [(int k, g). (k, Some g) \<leftarrow> enumerate n gs, \<not> gid_zero g]"

definition usable_ports :: "nat \<Rightarrow> port list \<Rightarrow> (int \<times> port \<times> int \<times> gid) list" where
  "usable_ports n ps = [(int j, p, hd (usable_gids 0 (port_gids p))).
     (j, p) \<leftarrow> enumerate n ps, port_query_ok p \<and> port_active p \<and> usable_gids 0 (port_gids p) \<noteq> []]"

definition usable :: "nat \<Rightarrow> device list \<Rightarrow> (nat \<times> int \<times> port \<times> int \<times> gid) list" where
  "usable n ds = [(i, hd (usable_ports 1 (dev_ports d))).
     (i, d) \<leftarrow> enumerate n ds, dev_opens d \<and> dev_query_ok d \<and> usable_ports 1 (dev_ports d) \<noteq> []]"

lemma usable_simps [simp]:
  "usable_gids n [] = []"
  "usable_gids n (None # gs) = usable_gids (Suc n) gs"
  "usable_gids n (Some g # gs) = (if gid_zero g then [] else [(int n, g)]) @ usable_gids (Suc n) gs"
  "usable_ports n [] = []"
  "usable_ports n (p # ps) = (if port_query_ok p \<and> port_active p \<and> usable_gids 0 (port_gids p) \<noteq> []
     then [(int n, p, hd (usable_gids 0 (port_gids p)))] else []) @ usable_ports (Suc n) ps"
  "usable n [] = []"
  "usable n (d # ds) = (if dev_opens d \<and> dev_query_ok d \<and> usable_ports 1 (dev_ports d) \<noteq> []
     then [(n, hd (usable_ports 1 (dev_ports d)))] else []) @ usable (Suc n) ds"
  by (simp_all add: usable_gids_def usable_ports_def usable_def)

lemma usable_numbers:
  "(k, g) \<in> set (usable_gids n gs) \<Longrightarrow> int n \<le> k" "(j, x) \<in> set (usable_ports n ps) \<Longrightarrow> int n \<le> j"
  by (auto simp: usable_gids_def usable_ports_def in_set_enumerate_eq split: option.splits if_splits)

lemma scan_gids_usable:
  "scan_gids (int n) gs s = (case usable_gids n gs of [] \<Rightarrow> s | (k, g) # _ \<Rightarrow> s\<lparr>pc_gid_index := k, pc_gid := g\<rparr>)"
proof (induction gs arbitrary: n)
  case (Cons x gs)
  from Cons [of "Suc n"] show ?case by (cases x) (simp_all add: add.commute)
qed simp

lemma scan_ports_usable:
  assumes "pc_gid_index s = - 1"
  shows "scan_ports (int n) ps s = (case usable_ports n ps of [] \<Rightarrow> s
    | (j, p, k, g) # _ \<Rightarrow> s\<lparr>pc_gid_index := k, pc_gid := g, pc_lid := port_lid p, pc_ib_port := j\<rparr>)"
proof (induction ps arbitrary: n)
  case (Cons p ps)
  note IH = Cons [of "Suc n", simplified, unfolded add.commute [of 1]] and gids = scan_gids_usable [of 0 "port_gids p" s, simplified]
  show ?case
  proof (cases "usable_gids 0 (port_gids p)")
    case Nil
    then show ?thesis using IH gids assms by simp
  next
    case (Cons kg rest)
    obtain k g where kg: "kg = (k, g)" by fastforce
    have "0 \<le> k" using usable_numbers(1) [of k g 0 "port_gids p"] Cons kg by simp
    then show ?thesis using IH gids assms Cons kg by (simp add: Let_def)
  qed
qed simp

lemma scan_devices_usable:
  assumes "pc_gid_index s = - 1" and "pc_ib_port s = 0"
  shows "scan_devices n ds s = (case usable n ds of [] \<Rightarrow> s
    | (i, j, p, k, g) # _ \<Rightarrow> s\<lparr>pc_gid_index := k, pc_gid := g, pc_lid := port_lid p, pc_ib_port := j, pc_ctx := Some i\<rparr>)"
proof (induction ds arbitrary: n)
  case (Cons d ds)
  note IH = Cons [of "Suc n"] and scan = scan_ports_usable [OF assms(1), of 1 "dev_ports d", simplified]
  show ?case
  proof (cases "usable_ports 1 (dev_ports d)")
    case Nil
    then show ?thesis using IH scan assms by simp
  next
    case (Cons x rest)
    obtain j p k g where x: "x = (j, p, k, g)" by (cases x) auto
    have "1 \<le> j" using usable_numbers(2) [of j "(p, k, g)" 1 "dev_ports d"] Cons x by simp
    then show ?thesis using IH Cons x scan by (simp add: Let_def)
  qed
qed simp

section \<open>Property\<close>

text \<open>
  C32: \<^verbatim>\<open>FindActivePort\<close> computes the head of the list of usable ports: it chooses the first one in the order
  of devices, ports and identifiers, sets its numbers together, and reports failure, leaving the fields
  alone, exactly when there is none.
\<close>

theorem FindActivePort_first_usable:
  assumes "devs \<noteq> []" and "pc_ib_port s = 0" and "pc_ctx s = None"
  shows "FindActivePort devs s = Inr (case usable 0 devs of [] \<Rightarrow> (False, s\<lparr>pc_gid_index := - 1\<rparr>)
    | (i, j, p, k, g) # _ \<Rightarrow> (True, s\<lparr>pc_gid_index := k, pc_gid := g, pc_lid := port_lid p, pc_ib_port := j, pc_ctx := Some i\<rparr>))"
  using scan_devices_usable [of "s\<lparr>pc_gid_index := - 1\<rparr>" 0 devs] assms
  by (auto simp: FindActivePort_def Let_def split: list.splits)

theorem FindActivePort_first_usable_witness:
  "FindActivePort [\<lparr>dev_opens = True, dev_query_ok = True, dev_ports = [
      \<lparr>port_query_ok = True, port_active = False, port_lid = 4, port_gids = [Some [1]]\<rparr>]\<rparr>,
     \<lparr>dev_opens = True, dev_query_ok = True, dev_ports = [
      \<lparr>port_query_ok = True, port_active = True, port_lid = 5, port_gids = [None, Some [0, 0]]\<rparr>,
      \<lparr>port_query_ok = True, port_active = True, port_lid = 6, port_gids = [Some [0, 0], Some [0, 7]]\<rparr>]\<rparr>]
     \<lparr>pc_gid_index = 9, pc_gid = [], pc_lid = 0, pc_ib_port = 0, pc_ctx = None\<rparr> =
   Inr (True, \<lparr>pc_gid_index = 1, pc_gid = [0, 7], pc_lid = 6, pc_ib_port = 2, pc_ctx = Some 1\<rparr>)"
  (is "FindActivePort ?ds ?s = _")
proof -
  have "usable 0 ?ds = [(1, 2, \<lparr>port_query_ok = True, port_active = True, port_lid = 6, port_gids = [Some [0, 0], Some [0, 7]]\<rparr>, 1, [0, 7])]"
    by code_simp
  then show ?thesis using FindActivePort_first_usable [of ?ds ?s] by simp
qed

end
