(* ===== verification/MemInfo.thy ===== *)
theory MemInfo
  imports Prelude "HOL-Library.Sublist"
begin

text \<open>
  \<^verbatim>\<open>Manager::GetTotalFreeHugePageSize\<close> (\<^verbatim>\<open>include/rdma/manager.h\<close>): the free huge pages according to
  \<^verbatim>\<open>/proc/meminfo\<close>, in bytes.  The file is the list of its lines, or nothing when it cannot be opened.
\<close>

section \<open>Strings\<close>

text \<open>\<^verbatim>\<open>line.find(pat) != npos\<close>, \<^verbatim>\<open>find_first_of("0123456789")\<close> with \<^verbatim>\<open>substr\<close>, and \<^verbatim>\<open>std::stoul\<close>.\<close>

fun contains :: "string \<Rightarrow> string \<Rightarrow> bool" where
  "contains pat [] \<longleftrightarrow> pat = []"
| "contains pat (c # cs) \<longleftrightarrow> prefix pat (c # cs) \<or> contains pat cs"

definition is_digit :: "char \<Rightarrow> bool" where
  "is_digit c \<longleftrightarrow> 48 \<le> (of_char c :: nat) \<and> (of_char c :: nat) \<le> 57"

definition from_digit :: "string \<Rightarrow> string" where
  "from_digit = dropWhile (\<lambda>c. \<not> is_digit c)"

definition digits_value :: "string \<Rightarrow> nat" where
  "digits_value ds = foldl (\<lambda>n c. 10 * n + (of_char c - 48)) 0 ds"

text \<open>The argument starts with a digit.  A value that does not fit raises \<^verbatim>\<open>std::out_of_range\<close>.\<close>

definition stoul :: "string \<Rightarrow> u64 option" where
  "stoul s = (let n = digits_value (takeWhile is_digit s) in if n < 2 ^ 64 then Some (of_nat n) else None)"

section \<open>The scan\<close>

record huge_pages =
  hugepage_size :: u64
  free_hugepages :: u64
  size_unit :: u64

definition scan_number :: "string \<Rightarrow> u64 \<Rightarrow> u64 option" where
  "scan_number line old = (if from_digit line = [] then Some old else stoul (from_digit line))"

definition scan_line :: "string \<Rightarrow> huge_pages \<Rightarrow> huge_pages option" where
  "scan_line line h =
     (if contains ''Hugepagesize'' line then
        (case scan_number line (hugepage_size h) of None \<Rightarrow> None
         | Some n \<Rightarrow> (let h = h\<lparr>hugepage_size := n\<rparr>
             in Some (if \<not> contains ''kB'' line then h\<lparr>size_unit := 0\<rparr> else h)))
      else if contains ''HugePages_Free'' line then
        (case scan_number line (free_hugepages h) of None \<Rightarrow> None | Some n \<Rightarrow> Some (h\<lparr>free_hugepages := n\<rparr>))
      else Some h)"

fun scan_lines :: "string list \<Rightarrow> huge_pages \<Rightarrow> huge_pages option" where
  "scan_lines [] h = Some h"
| "scan_lines (l # ls) h = (case scan_line l h of None \<Rightarrow> None | Some h' \<Rightarrow> scan_lines ls h')"

text \<open>\<open>None\<close> stands for the exception of \<^verbatim>\<open>std::stoul\<close>; the product is computed modulo \<open>2 ^ 64\<close>.\<close>

definition GetTotalFreeHugePageSize :: "string list option \<Rightarrow> u64 option" where
  "GetTotalFreeHugePageSize meminfo = (case meminfo of None \<Rightarrow> Some 0
     | Some ls \<Rightarrow> (case scan_lines ls \<lparr>hugepage_size = 0, free_hugepages = 0, size_unit = 1024\<rparr> of None \<Rightarrow> None
         | Some h \<Rightarrow> Some (hugepage_size h * free_hugepages h * size_unit h)))"

section \<open>Reading numbers back\<close>

text \<open>Decimal digits, as the kernel prints them.\<close>

fun print_nat :: "nat \<Rightarrow> string" where
  "print_nat n = (if n < 10 then [char_of (48 + n)] else print_nat (n div 10) @ [char_of (48 + n mod 10)])"

declare print_nat.simps [simp del]

lemma of_char_digit: "d < 10 \<Longrightarrow> (of_char (char_of (48 + d) :: char) :: nat) = 48 + d"
  by (simp add: take_bit_nat_eq_self)

lemma print_nat_digits: "\<forall>c \<in> set (print_nat n). is_digit c"
proof (induction n rule: print_nat.induct)
  case (1 n)
  then show ?case
    by (subst print_nat.simps) (auto simp: is_digit_def of_char_digit)
qed

lemma print_nat_nonempty: "print_nat n \<noteq> []"
  by (subst print_nat.simps) simp

lemma digits_value_snoc: "digits_value (ds @ [c]) = 10 * digits_value ds + (of_char c - 48)"
  by (simp add: digits_value_def)

lemma digits_value_print: "digits_value (print_nat n) = n"
proof (induction n rule: print_nat.induct)
  case (1 n)
  show ?case
  proof (cases "n < 10")
    case True
    then show ?thesis by (subst print_nat.simps) (simp add: digits_value_def of_char_digit del: of_char_of)
  next
    case False
    then show ?thesis
      using 1 by (subst print_nat.simps) (simp add: digits_value_snoc of_char_digit del: of_char_of)
  qed
qed

lemma stoul_print:
  assumes "rest = [] \<or> \<not> is_digit (hd rest)" and "n < 2 ^ 64"
  shows "stoul (print_nat n @ rest) = Some (of_nat n)"
proof -
  have "takeWhile is_digit (print_nat n @ rest) = print_nat n"
    using print_nat_digits [of n] assms(1) by (cases rest) (simp_all add: takeWhile_append)
  then show ?thesis using assms(2) by (simp add: stoul_def digits_value_print)
qed

lemma scan_number_print:
  assumes "\<forall>c \<in> set label. \<not> is_digit c" and "rest = [] \<or> \<not> is_digit (hd rest)" and "n < 2 ^ 64"
  shows "scan_number (label @ print_nat n @ rest) old = Some (of_nat n)"
proof -
  have "from_digit (label @ print_nat n @ rest) = print_nat n @ rest"
    using assms(1) print_nat_digits [of n] print_nat_nonempty [of n]
    by (cases "print_nat n") (auto simp: from_digit_def dropWhile_append3)
  then show ?thesis using stoul_print [OF assms(2,3)] print_nat_nonempty [of n] by (simp add: scan_number_def)
qed

section \<open>Properties\<close>

lemma contains_iff: "contains pat s \<longleftrightarrow> sublist pat s"
  by (induction s) (simp_all add: sublist_Cons_right)

lemma contains_subset: "contains pat s \<Longrightarrow> set pat \<subseteq> set s"
  unfolding contains_iff by (rule set_mono_sublist)

text \<open>The two lines of interest, as Linux writes them, and lines that mention neither.\<close>

definition free_line :: "nat \<Rightarrow> nat \<Rightarrow> string" where
  "free_line k n = ''HugePages_Free:'' @ replicate k CHR '' '' @ print_nat n"

definition size_line :: "nat \<Rightarrow> nat \<Rightarrow> string" where
  "size_line k n = ''Hugepagesize:'' @ replicate k CHR '' '' @ print_nat n @ '' kB''"

definition unrelated :: "string \<Rightarrow> bool" where
  "unrelated l \<longleftrightarrow> \<not> contains ''Hugepagesize'' l \<and> \<not> contains ''HugePages_Free'' l"

lemma scan_unrelated: "\<forall>l \<in> set ls. unrelated l \<Longrightarrow> scan_lines (ls @ rest) h = scan_lines rest h"
  by (induction ls) (auto simp: unrelated_def scan_line_def)

lemma no_digit: "\<not> is_digit CHR '' ''" "\<not> is_digit CHR '':''" "\<forall>c \<in> set ''HugePages_Free:''. \<not> is_digit c"
  "\<forall>c \<in> set ''Hugepagesize:''. \<not> is_digit c"
  by code_simp+

lemma scan_free_line:
  assumes "n < 2 ^ 64"
  shows "scan_line (free_line k n) h = Some (h\<lparr>free_hugepages := of_nat n\<rparr>)"
proof -
  have "CHR ''z'' \<notin> set (free_line k n)"
    using print_nat_digits [of n] by (auto simp: free_line_def is_digit_def)
  then have no: "\<not> contains ''Hugepagesize'' (free_line k n)" using contains_subset by fastforce
  have yes: "contains ''HugePages_Free'' (free_line k n)"
    unfolding contains_iff sublist_def free_line_def
    by (rule exI [of _ "[]"], rule exI [of _ "'':'' @ replicate k CHR '' '' @ print_nat n"]) simp
  have "scan_number (free_line k n) (free_hugepages h) = Some (of_nat n)"
    using scan_number_print [of "''HugePages_Free:'' @ replicate k CHR '' ''" "[]" n] assms no_digit
    by (auto simp: free_line_def)
  with no yes show ?thesis by (simp add: scan_line_def)
qed

lemma scan_size_line:
  assumes "n < 2 ^ 64"
  shows "scan_line (size_line k n) h = Some (h\<lparr>hugepage_size := of_nat n\<rparr>)"
proof -
  have "contains ''Hugepagesize'' (size_line k n)" unfolding contains_iff sublist_def size_line_def
    by (rule exI [of _ "[]"], rule exI [of _ "'':'' @ replicate k CHR '' '' @ print_nat n @ '' kB''"]) simp
  moreover have "contains ''kB'' (size_line k n)" unfolding contains_iff sublist_def size_line_def
    by (rule exI [of _ "''Hugepagesize:'' @ replicate k CHR '' '' @ print_nat n @ '' ''"], rule exI [of _ "[]"]) simp
  moreover have "scan_number (size_line k n) (hugepage_size h) = Some (of_nat n)"
    using scan_number_print [of "''Hugepagesize:'' @ replicate k CHR '' ''" "'' kB''" n] assms no_digit
    by (auto simp: size_line_def)
  ultimately show ?thesis by (simp add: scan_line_def Let_def)
qed

text \<open>
  C33: The numbers printed in \<^verbatim>\<open>/proc/meminfo\<close> are read back: with the two lines in the kernel's order among
  lines that mention neither key, the result is the number of free pages times their size in bytes, modulo
  \<open>2 ^ 64\<close>.
\<close>

theorem huge_page_size_read_back:
  assumes "\<forall>l \<in> set (pre @ mid @ post). unrelated l" and "n < 2 ^ 64" and "kb < 2 ^ 64"
  shows "GetTotalFreeHugePageSize (Some (pre @ free_line i n # mid @ size_line j kb # post)) = Some (of_nat (kb * n * 1024))"
proof -
  have "scan_lines (pre @ free_line i n # mid @ size_line j kb # post) h =
      Some (h\<lparr>free_hugepages := of_nat n, hugepage_size := of_nat kb\<rparr>)" for h
    using assms scan_unrelated [of pre] scan_unrelated [of mid] scan_unrelated [of post "[]"]
    by (simp add: scan_free_line scan_size_line)
  then show ?thesis by (simp add: GetTotalFreeHugePageSize_def)
qed

theorem huge_page_size_read_back_witness:
  "GetTotalFreeHugePageSize (Some [''MemTotal:       65536 kB'', free_line 5 512, ''HugePages_Rsvd:        0'',
     size_line 7 2048, ''Hugetlb:         1048576 kB'']) = Some 1073741824"
proof -
  have u: "unrelated ''MemTotal:       65536 kB''" "unrelated ''HugePages_Rsvd:        0''"
    "unrelated ''Hugetlb:         1048576 kB''" by code_simp+
  show ?thesis
    using huge_page_size_read_back [of "[''MemTotal:       65536 kB'']" "[''HugePages_Rsvd:        0'']"
        "[''Hugetlb:         1048576 kB'']" 512 2048 5 7] u by simp
qed

end
