(* ===== verification/Region.thy ===== *)
theory Region
  imports Verbs MemInfo
begin

text \<open>
  The registered memory region of \<^verbatim>\<open>include/rdma/manager.h\<close>: rounding of the chunk size, allocation and
  registration (\<^verbatim>\<open>InitMemoryRegion\<close>), and its division into a shared free list and one free list per thread
  (\<^verbatim>\<open>InitFreeLists\<close>).
\<close>

section \<open>Chunk size\<close>

fun bit_length :: "nat \<Rightarrow> nat" where
  "bit_length n = (if n = 0 then 0 else Suc (bit_length (n div 2)))"

declare bit_length.simps [simp del]

text \<open>\<^verbatim>\<open>__builtin_clzll\<close>, which is undefined at 0.\<close>

definition clzll :: "u64 \<Rightarrow> nat option" where
  "clzll x = (if x = 0 then None else Some (64 - bit_length (unat x)))"

text \<open>
  \<^verbatim>\<open>1 << (64 - __builtin_clzll(chunk_size - 1))\<close>: a shift of an \<^verbatim>\<open>int\<close>, undefined from 32 on; a shift by 31 gives
  the most negative \<^verbatim>\<open>int\<close>, which becomes a huge \<^verbatim>\<open>size_t\<close>.  Then the clamping.
\<close>

definition round_chunk_size :: "u64 \<Rightarrow> u64 option" where
  "round_chunk_size chunk_size = (case clzll (chunk_size - 1) of None \<Rightarrow> None
     | Some z \<Rightarrow> (let k = 64 - z
         in if 32 \<le> k then None else Some (if k = 31 then - (2 ^ 31) else 2 ^ k)))"

definition align_chunk_size :: "u64 \<Rightarrow> u64 option" where
  "align_chunk_size chunk_size = (case round_chunk_size chunk_size of None \<Rightarrow> None
     | Some cs \<Rightarrow> Some (if cs < kMinChunkSize then kMinChunkSize else if kMaxChunkSize < cs then kMaxChunkSize else cs))"

section \<open>The region\<close>

text \<open>The operating system and the verbs library, as far as the region is concerned.\<close>

record region_os =
  os_alloc_pd :: bool
  os_meminfo :: "string list option"
  os_mmap :: "u64 \<Rightarrow> u64 option"
  os_aligned_alloc :: "u64 \<Rightarrow> u64 \<Rightarrow> u64 option"
  os_reg_mr :: "u64 \<Rightarrow> u64 \<Rightarrow> (u64 \<times> u32 \<times> u32) option"

record region =
  r_base :: u64
  r_chunk_size :: u64
  r_huge :: bool
  r_lkey :: u32
  r_rkey :: u32

definition InitMemoryRegion :: "region_os \<Rightarrow> u64 \<Rightarrow> u64 \<Rightarrow> rdma_error + region" where
  "InitMemoryRegion os chunk_size desired_size =
     (if \<not> os_alloc_pd os then Inl NoProtectionDomain
      else case align_chunk_size chunk_size of None \<Rightarrow> Inl ShiftOutOfRange
      | Some cs \<Rightarrow>
        (if desired_size mod cs \<noteq> 0 then Inl BadRegionSize
         else case GetTotalFreeHugePageSize (os_meminfo os) of None \<Rightarrow> Inl RegionFailed
         | Some huge_page_size \<Rightarrow>
           (let huge = desired_size \<le> huge_page_size
            in case (if huge then os_mmap os desired_size else os_aligned_alloc os cs desired_size) of None \<Rightarrow> Inl RegionFailed
            | Some region_base \<Rightarrow>
              (case os_reg_mr os region_base desired_size of None \<Rightarrow> Inl RegisterFailed
               | Some (addr, lk, rk) \<Rightarrow>
                 (if addr \<noteq> region_base then Inl AssertFailed
                  else Inr \<lparr>r_base = region_base, r_chunk_size = cs, r_huge = huge, r_lkey = lk, r_rkey = rk\<rparr>)))))"

section \<open>Free lists\<close>

text \<open>\<open>n\<close> rounds of the inner loops: link the current chunk to the one behind it.\<close>

fun link_chunks :: "nat \<Rightarrow> u64 \<Rightarrow> u64 \<Rightarrow> memory \<Rightarrow> u64 \<times> memory" where
  "link_chunks 0 cs current m = (current, m)"
| "link_chunks (Suc n) cs current m = link_chunks n cs (current + cs) (m(current := current + cs))"

text \<open>The list of one thread starts behind \<open>current\<close>.\<close>

fun thread_lists :: "nat \<Rightarrow> nat \<Rightarrow> u64 \<Rightarrow> u64 \<Rightarrow> memory \<Rightarrow> u64 list \<times> memory" where
  "thread_lists 0 chunk_per_thread cs current m = ([], m)"
| "thread_lists (Suc n) chunk_per_thread cs current m =
     (let current = current + cs;
          head = current;
          (current, m) = link_chunks (chunk_per_thread - 1) cs current m;
          m = m(current := 0);
          (heads, m) = thread_lists n chunk_per_thread cs current m
      in (head # heads, m))"

text \<open>
  \<open>unshared\<close> is the floating-point computation \<^verbatim>\<open>static_cast<uint32_t>(chunk_num * (1 - shared_ratio))\<close>.  The
  result is the head of the shared list, the heads of the threads' lists and the memory.
\<close>

definition InitFreeLists :: "u64 \<Rightarrow> u64 \<Rightarrow> u32 \<Rightarrow> (u32 \<Rightarrow> u32) \<Rightarrow> u64 \<Rightarrow> memory \<Rightarrow> u64 \<times> u64 list \<times> memory" where
  "InitFreeLists start region_size local_pools unshared cs m =
     (let chunk_num = ucast (region_size div cs) :: u32;
          unshared_chunk_num = unshared chunk_num;
          chunk_per_thread = unshared_chunk_num div local_pools;
          shared_chunk_num = chunk_num - unshared_chunk_num;
          (current, m) = link_chunks (unat shared_chunk_num - 1) cs start m;
          m = m(current := 0);
          (heads, m) = thread_lists (unat local_pools) (unat chunk_per_thread) cs current m
      in (start, heads, m))"

section \<open>Rounding\<close>

lemma bit_length_bounds: "0 < n \<Longrightarrow> 2 ^ (bit_length n - 1) \<le> n \<and> n < 2 ^ bit_length n \<and> 0 < bit_length n"
proof (induction n rule: bit_length.induct)
  case (1 n)
  show ?case
  proof (cases "n div 2 = 0")
    case True
    then have "n = 1" using 1(2) by simp
    moreover have "bit_length 1 = 1" by code_simp
    ultimately show ?thesis by simp
  next
    case False
    note IH = 1(1) [OF _ False [unfolded neq0_conv]]
    have b: "bit_length n = Suc (bit_length (n div 2))" using 1(2) by (subst bit_length.simps) simp
    have "2 ^ (bit_length (n div 2) - 1) \<le> n div 2" "n div 2 < 2 ^ bit_length (n div 2)" "0 < bit_length (n div 2)"
      using IH 1(2) by auto
    then show ?thesis
      unfolding b by (cases "bit_length (n div 2)") (simp_all add: less_eq_div_iff_mult_less_eq div_less_iff_less_mult)
  qed
qed

lemma bit_length_less: "n < 2 ^ k \<Longrightarrow> bit_length n \<le> k"
proof (cases "n = 0")
  case False
  assume n: "n < 2 ^ k"
  have "2 ^ (bit_length n - 1) \<le> n" using bit_length_bounds [of n] False by blast
  then have "2 ^ (bit_length n - 1) < (2 :: nat) ^ k" using n by (rule le_less_trans)
  then have "bit_length n - 1 < k" by (simp add: power_strict_increasing_iff)
  then show ?thesis by simp
qed (simp add: bit_length.simps)

definition clamp_chunk_size :: "u64 \<Rightarrow> u64" where
  "clamp_chunk_size cs = (if cs < kMinChunkSize then kMinChunkSize else if kMaxChunkSize < cs then kMaxChunkSize else cs)"

lemma clamp_shifts: "\<forall>k \<in> set [1..<32]. clamp_chunk_size (if k = 31 then - (2 ^ 31) else 2 ^ k) = 2 ^ min 12 (max 6 k)"
  by code_simp

text \<open>
  For every chunk size from 2 to \<open>2 ^ 31\<close> the aligned size is a power of two between 64 and 4096; up to
  4096 it is not smaller than the size asked for and, above the minimum, less than twice as large.
\<close>

theorem align_chunk_size_bounds:
  assumes "2 \<le> unat c" and "unat c \<le> 2 ^ 31"
  shows "\<exists>k \<in> {6..12}. align_chunk_size c = Some (2 ^ k) \<and>
    (unat c \<le> 4096 \<longrightarrow> unat c \<le> 2 ^ k \<and> (6 < k \<longrightarrow> 2 ^ k < 2 * unat c))"
proof -
  have "1 \<le> c" using assms(1) by (simp add: word_le_nat_alt)
  then have n: "unat (c - 1) = unat c - 1" by (simp add: unat_sub)
  define L where "L = bit_length (unat (c - 1))"
  have L: "2 ^ (L - 1) \<le> unat c - 1" "unat c - 1 < 2 ^ L" "0 < L"
    using bit_length_bounds [of "unat c - 1"] assms(1) n by (simp_all add: L_def)
  have L31: "L \<le> 31" unfolding L_def n by (rule bit_length_less) (use assms in simp)
  have "unat (c - 1) \<noteq> 0" using n assms(1) by simp
  then have "c - 1 \<noteq> 0" by (simp only: unat_eq_0) simp
  then have "round_chunk_size c = Some (if L = 31 then - (2 ^ 31) else 2 ^ L)"
    using L31 by (simp add: round_chunk_size_def clzll_def L_def)
  moreover have "L \<in> set [1..<32]" using L(3) L31 by simp
  ultimately have a: "align_chunk_size c = Some (2 ^ min 12 (max 6 L))"
    using clamp_shifts by (simp add: align_chunk_size_def clamp_chunk_size_def)
  have "unat c \<le> 2 ^ max 6 L" "6 < L \<Longrightarrow> 2 ^ L < 2 * unat c"
  proof -
    have "unat c \<le> 2 ^ L" using L(2) by linarith
    also have "(2 :: nat) ^ L \<le> 2 ^ max 6 L" by (intro power_increasing) auto
    finally show "unat c \<le> 2 ^ max 6 L" .
    show "2 ^ L < 2 * unat c" if "6 < L" using L(1,3) assms(1) by (cases L) auto
  qed
  moreover have "L \<le> 12" if "unat c \<le> 4096"
    unfolding L_def n by (rule bit_length_less) (use that assms(1) in simp)
  ultimately show ?thesis using a by (intro bexI [of _ "min 12 (max 6 L)"]) (auto simp: min_def max_def)
qed

theorem align_chunk_size_bounds_witness: "\<exists>k \<in> {6..12}. align_chunk_size 1000 = Some (2 ^ k) \<and> 1000 \<le> (2 :: nat) ^ k"
  using align_chunk_size_bounds [of 1000] by auto

section \<open>The free lists divide the region\<close>

text \<open>Chunk number \<open>k\<close> of the region.\<close>

definition chunk_at :: "u64 \<Rightarrow> u64 \<Rightarrow> nat \<Rightarrow> u64" where
  "chunk_at start cs k = start + of_nat k * cs"

definition chunks :: "u64 \<Rightarrow> u64 \<Rightarrow> nat \<Rightarrow> nat \<Rightarrow> u64 list" where
  "chunks start cs i j = map (chunk_at start cs) [i..<j]"

text \<open>\<open>n\<close> chunks fit the address space behind \<open>start\<close>.\<close>

definition room :: "u64 \<Rightarrow> u64 \<Rightarrow> nat \<Rightarrow> bool" where
  "room start cs n \<longleftrightarrow> start \<noteq> 0 \<and> cs \<noteq> 0 \<and> unat start + n * unat cs \<le> 2 ^ 64"

lemma unat_chunk_at:
  assumes "room start cs n" and "k < n"
  shows "unat (chunk_at start cs k) = unat start + k * unat cs"
proof -
  have "0 < unat cs" using assms(1) by (simp add: room_def unat_gt_0)
  then have "k * unat cs < n * unat cs" using assms(2) by simp
  then have b: "unat start + k * unat cs < 2 ^ 64" using assms(1) unfolding room_def by linarith
  have "chunk_at start cs k = of_nat (unat start + k * unat cs)" by (simp add: chunk_at_def)
  then show ?thesis using b by (simp only: unsigned_of_nat) (simp add: take_bit_nat_eq_self)
qed

lemma chunk_at_inj: "room start cs n \<Longrightarrow> inj_on (chunk_at start cs) {..<n}"
proof (rule inj_onI)
  fix i j
  assume r: "room start cs n" and "i \<in> {..<n}" "j \<in> {..<n}" and e: "chunk_at start cs i = chunk_at start cs j"
  then have "unat start + i * unat cs = unat start + j * unat cs"
    by (metis unat_chunk_at lessThan_iff)
  moreover have "0 < unat cs" using r by (simp add: room_def unat_gt_0)
  ultimately show "i = j" by simp
qed

lemma chunk_at_nonzero: "room start cs n \<Longrightarrow> k < n \<Longrightarrow> chunk_at start cs k \<noteq> 0"
  using unat_chunk_at [of start cs n k] by (auto simp: room_def unat_eq_0)

lemma chunk_at_step: "chunk_at start cs k + cs = chunk_at start cs (Suc k)"
  by (simp add: chunk_at_def algebra_simps)

text \<open>Linking \<open>n + 1\<close> chunks from chunk \<open>i\<close> on, and what it leaves alone.\<close>

lemma link_chunks_list:
  assumes "room start cs N" and "i + n < N"
  shows "\<exists>m'. link_chunks n cs (chunk_at start cs i) m = (chunk_at start cs (i + n), m') \<and>
    chain (m'(chunk_at start cs (i + n) := 0)) (chunk_at start cs i) (chunks start cs i (Suc (i + n))) \<and>
    (\<forall>a. a \<notin> chunk_at start cs ` {i..<i + n} \<longrightarrow> m' a = m a)"
  using assms(2)
proof (induction n arbitrary: i m)
  case 0
  then show ?case using chunk_at_nonzero [OF assms(1), of i] by (simp add: chunks_def)
next
  case (Suc n)
  let ?A = "chunk_at start cs"
  have "Suc i + n < N" using Suc.prems by simp
  from Suc.IH [OF this, of "m(?A i := ?A (Suc i))"] obtain m' where
    l: "link_chunks n cs (?A (Suc i)) (m(?A i := ?A (Suc i))) = (?A (Suc i + n), m')"
    and c: "chain (m'(?A (Suc i + n) := 0)) (?A (Suc i)) (chunks start cs (Suc i) (Suc (Suc i + n)))"
    and f: "\<And>a. a \<notin> ?A ` {Suc i..<Suc i + n} \<Longrightarrow> m' a = (m(?A i := ?A (Suc i))) a"
    by blast
  have inj: "?A i \<noteq> ?A j" if "i < j" "j \<le> i + Suc n" for j
    using inj_onD [OF chunk_at_inj [OF assms(1)], of i j] that Suc.prems by auto
  have "?A i \<notin> ?A ` {Suc i..<Suc i + n}"
  proof
    assume "?A i \<in> ?A ` {Suc i..<Suc i + n}"
    then obtain j where "j \<in> {Suc i..<Suc i + n}" "?A i = ?A j" by blast
    then show False using inj [of j] by simp
  qed
  moreover have "?A i \<noteq> ?A (Suc i + n)" by (rule inj) auto
  ultimately have mi: "(m'(?A (Suc i + n) := 0)) (?A i) = ?A (Suc i)" using f [of "?A i"] by simp
  have "[i..<Suc (i + Suc n)] = i # [Suc i..<Suc (Suc (i + n))]" by (simp add: upt_rec del: upt_Suc)
  then have "chain (m'(?A (i + Suc n) := 0)) (?A i) (chunks start cs i (Suc (i + Suc n)))"
    using c mi chunk_at_nonzero [OF assms(1), of i] Suc.prems by (simp add: chunks_def del: upt_Suc)
  moreover have "m' a = m a" if "a \<notin> ?A ` {i..<i + Suc n}" for a
    using f [of a] that by (auto simp: image_iff)
  moreover have "link_chunks (Suc n) cs (?A i) m = (?A (i + Suc n), m')" using l by (simp add: chunk_at_step)
  ultimately show ?case by blast
qed

text \<open>The lists of \<open>n\<close> threads with \<open>c\<close> chunks each, behind chunk \<open>j\<close>.\<close>

lemma thread_lists_lists:
  assumes "room start cs N" and "0 < c" and "j + n * c < N"
  shows "\<exists>m'. thread_lists n c cs (chunk_at start cs j) m = (map (\<lambda>t. chunk_at start cs (Suc j + t * c)) [0..<n], m') \<and>
    (\<forall>t < n. chain m' (chunk_at start cs (Suc j + t * c)) (chunks start cs (Suc j + t * c) (Suc j + Suc t * c))) \<and>
    (\<forall>a. a \<notin> chunk_at start cs ` {Suc j..<Suc j + n * c} \<longrightarrow> m' a = m a)"
  using assms(3)
proof (induction n arbitrary: j m)
  case (Suc n)
  let ?A = "chunk_at start cs"
  have b: "Suc j + (c - 1) = j + c" "j + c + n * c < N" using assms(2) Suc.prems by (auto simp: algebra_simps)
  obtain m1 where l: "link_chunks (c - 1) cs (?A (Suc j)) m = (?A (j + c), m1)"
    and c1: "chain (m1(?A (j + c) := 0)) (?A (Suc j)) (chunks start cs (Suc j) (Suc (j + c)))"
    and f1: "\<And>a. a \<notin> ?A ` {Suc j..<j + c} \<Longrightarrow> m1 a = m a"
    using link_chunks_list [OF assms(1), of "Suc j" "c - 1" m] b by auto
  let ?m1 = "m1(?A (j + c) := 0)"
  obtain m' where t: "thread_lists n c cs (?A (j + c)) ?m1 = (map (\<lambda>t. ?A (Suc (j + c) + t * c)) [0..<n], m')"
    and c2: "\<And>t. t < n \<Longrightarrow> chain m' (?A (Suc (j + c) + t * c)) (chunks start cs (Suc (j + c) + t * c) (Suc (j + c) + Suc t * c))"
    and f2: "\<And>a. a \<notin> ?A ` {Suc (j + c)..<Suc (j + c) + n * c} \<Longrightarrow> m' a = ?m1 a"
    using Suc.IH [OF b(2), of ?m1] by blast
  have heads: "map (\<lambda>t. ?A (Suc j + t * c)) [0..<Suc n] = ?A (Suc j) # map (\<lambda>t. ?A (Suc (j + c) + t * c)) [0..<n]"
    by (simp add: upt_conv_Cons map_Suc_upt [symmetric] comp_def algebra_simps del: upt_Suc)
  have "chain m' (?A (Suc j)) (chunks start cs (Suc j) (Suc (j + c)))"
  proof (rule chain_cong [OF c1])
    fix a
    assume "a \<in> set (chunks start cs (Suc j) (Suc (j + c)))"
    then obtain k where k: "a = ?A k" "k \<le> j + c" by (auto simp: chunks_def)
    have "a \<notin> ?A ` {Suc (j + c)..<Suc (j + c) + n * c}"
    proof
      assume "a \<in> ?A ` {Suc (j + c)..<Suc (j + c) + n * c}"
      then obtain i where "?A k = ?A i" "j + c < i" "i < Suc (j + c) + n * c" using k(1) by auto
      then show False using inj_onD [OF chunk_at_inj [OF assms(1)], of k i] k(2) b(2) by simp
    qed
    then show "m' a = ?m1 a" by (rule f2)
  qed
  moreover have "chain m' (?A (Suc j + Suc t * c)) (chunks start cs (Suc j + Suc t * c) (Suc j + Suc (Suc t) * c))" if "t < n" for t
    using c2 [OF that] by (simp add: algebra_simps)
  ultimately have "\<forall>t < Suc n. chain m' (?A (Suc j + t * c)) (chunks start cs (Suc j + t * c) (Suc j + Suc t * c))"
    by (auto simp: less_Suc_eq_0_disj)
  moreover have "m' a = m a" if "a \<notin> ?A ` {Suc j..<Suc j + Suc n * c}" for a
  proof -
    have "a \<notin> ?A ` {Suc (j + c)..<Suc (j + c) + n * c}" "a \<notin> ?A ` {Suc j..<j + c}" "a \<noteq> ?A (j + c)"
      using that assms(2) by (auto simp: image_iff)
    then show ?thesis using f1 f2 by simp
  qed
  ultimately show ?case using l t heads by (simp add: chunk_at_step Let_def)
qed simp

lemma thread_lists_max: "thread_lists n c cs current m = thread_lists n (max 1 c) cs current m"
proof -
  have "c - 1 = max 1 c - 1" by simp
  then show ?thesis by (induction n arbitrary: current m) (simp_all only: thread_lists.simps)
qed

text \<open>What \<^verbatim>\<open>InitFreeLists\<close> builds in general: no list is shorter than one chunk.\<close>

lemma InitFreeLists_lists:
  assumes "room start cs (s + unat pools * c)"
    and s: "s = max 1 (unat (ucast (rsz div cs) - unshared (ucast (rsz div cs))))"
    and c: "c = max 1 (unat (unshared (ucast (rsz div cs)) div pools))"
  shows "\<exists>m'. InitFreeLists start rsz pools unshared cs m = (start, map (\<lambda>t. chunk_at start cs (s + t * c)) [0..<unat pools], m') \<and>
    chain m' start (chunks start cs 0 s) \<and>
    (\<forall>t < unat pools. chain m' (chunk_at start cs (s + t * c)) (chunks start cs (s + t * c) (s + Suc t * c))) \<and>
    (\<forall>a. a \<notin> chunk_at start cs ` {..<s + unat pools * c} \<longrightarrow> m' a = m a)"
proof -
  let ?A = "chunk_at start cs" and ?P = "unat pools"
  have s1: "0 < s" "s - 1 = unat (ucast (rsz div cs) - unshared (ucast (rsz div cs))) - 1" and c1: "0 < c"
    using s c by auto
  have A0: "?A 0 = start" by (simp add: chunk_at_def)
  have room1: "0 + (s - 1) < s + ?P * c" using s1(1) by simp
  obtain m1 where l: "link_chunks (s - 1) cs start m = (?A (s - 1), m1)"
    and ch: "chain (m1(?A (s - 1) := 0)) start (chunks start cs 0 s)"
    and f1: "\<And>a. a \<notin> ?A ` {0..<s - 1} \<Longrightarrow> m1 a = m a"
    using link_chunks_list [OF assms(1) room1, of m] s1(1) by (auto simp: A0)
  let ?m1 = "m1(?A (s - 1) := 0)"
  obtain m' where t: "thread_lists ?P c cs (?A (s - 1)) ?m1 = (map (\<lambda>t. ?A (s + t * c)) [0..<?P], m')"
    and ct: "\<forall>t < ?P. chain m' (?A (s + t * c)) (chunks start cs (s + t * c) (s + Suc t * c))"
    and f2: "\<And>a. a \<notin> ?A ` {s..<s + ?P * c} \<Longrightarrow> m' a = ?m1 a"
    using thread_lists_lists [OF assms(1) c1, of "s - 1" ?P ?m1] s1(1) by auto
  have "chain m' start (chunks start cs 0 s)"
  proof (rule chain_cong [OF ch])
    fix a
    assume "a \<in> set (chunks start cs 0 s)"
    then obtain k where k: "a = ?A k" "k < s" by (auto simp: chunks_def)
    have "a \<notin> ?A ` {s..<s + ?P * c}"
    proof
      assume "a \<in> ?A ` {s..<s + ?P * c}"
      then obtain i where "?A k = ?A i" "s \<le> i" "i < s + ?P * c" using k(1) by auto
      then show False using inj_onD [OF chunk_at_inj [OF assms(1)], of k i] k(2) by simp
    qed
    then show "m' a = ?m1 a" by (rule f2)
  qed
  moreover have "m' a = m a" if "a \<notin> ?A ` {..<s + ?P * c}" for a
  proof -
    have "a \<notin> ?A ` {s..<s + ?P * c}" "a \<notin> ?A ` {0..<s - 1}" "a \<noteq> ?A (s - 1)" using that s1(1) by (auto simp: image_iff)
    then show ?thesis using f1 f2 by simp
  qed
  moreover have "InitFreeLists start rsz pools unshared cs m = (start, map (\<lambda>t. ?A (s + t * c)) [0..<?P], m')"
  proof -
    let ?n = "ucast (rsz div cs)"
    have l': "link_chunks (unat (?n - unshared ?n) - 1) cs start m = (?A (s - 1), m1)" using l by (simp only: s1(2))
    have t': "thread_lists ?P (unat (unshared ?n div pools)) cs (?A (s - 1)) ?m1 = (map (\<lambda>t. ?A (s + t * c)) [0..<?P], m')"
      using t thread_lists_max [of ?P "unat (unshared ?n div pools)"] by (simp only: c)
    show ?thesis by (simp only: InitFreeLists_def Let_def l' t' prod.case)
  qed
  ultimately show ?thesis using ct by blast
qed

text \<open>
  C28: \<^verbatim>\<open>InitFreeLists\<close> divides the region: when the region lies within the address space and both the shared part and
  each thread's part have at least one chunk, the shared list and the threads' lists are disjoint ranges of the region's chunks, each linked up
  to its end, and no word outside the region's chunks changes.
\<close>

theorem InitFreeLists_divides:
  fixes unshared :: "u32 \<Rightarrow> u32"
  defines "chunk_num rsz cs \<equiv> ucast ((rsz :: u64) div cs) :: u32"
  assumes "room start cs (unat (chunk_num rsz cs))" and "unshared (chunk_num rsz cs) < chunk_num rsz cs"
    and "0 < unshared (chunk_num rsz cs) div pools"
  shows "\<exists>m'. let s = unat (chunk_num rsz cs) - unat (unshared (chunk_num rsz cs));
                c = unat (unshared (chunk_num rsz cs)) div unat pools in
    InitFreeLists start rsz pools unshared cs m = (start, map (\<lambda>t. chunk_at start cs (s + t * c)) [0..<unat pools], m') \<and>
    0 < s \<and> 0 < c \<and> s + unat pools * c \<le> unat (chunk_num rsz cs) \<and> inj_on (chunk_at start cs) {..<unat (chunk_num rsz cs)} \<and>
    chain m' start (chunks start cs 0 s) \<and>
    (\<forall>t < unat pools. chain m' (chunk_at start cs (s + t * c)) (chunks start cs (s + t * c) (s + Suc t * c))) \<and>
    (\<forall>a. a \<notin> chunk_at start cs ` {..<unat (chunk_num rsz cs)} \<longrightarrow> m' a = m a)"
proof -
  let ?n = "unat (chunk_num rsz cs)" and ?u = "unat (unshared (chunk_num rsz cs))"
  have u: "?u < ?n" using assms(3) by (simp add: word_less_nat_alt)
  have s: "unat (chunk_num rsz cs - unshared (chunk_num rsz cs)) = ?n - ?u"
    using assms(3) by (simp add: unat_sub)
  have c: "unat (unshared (chunk_num rsz cs) div pools) = ?u div unat pools" by (simp add: unat_div_distrib)
  have c0: "0 < ?u div unat pools" using assms(4) unfolding c [symmetric] by (simp add: word_less_nat_alt)
  have le: "?n - ?u + unat pools * (?u div unat pools) \<le> ?n"
    using u times_div_less_eq_dividend [of "unat pools" ?u] by linarith
  then have "(?n - ?u + unat pools * (?u div unat pools)) * unat cs \<le> ?n * unat cs" by (rule mult_le_mono1)
  then have r: "room start cs (?n - ?u + unat pools * (?u div unat pools))"
    using assms(2) unfolding room_def by (meson add_left_mono le_trans)
  have s': "?n - ?u = max 1 (unat (ucast (rsz div cs) - unshared (ucast (rsz div cs))))" using s u by (simp add: chunk_num_def)
  have c': "?u div unat pools = max 1 (unat (unshared (ucast (rsz div cs)) div pools))" using c c0 by (simp add: chunk_num_def)
  obtain m' where m': "InitFreeLists start rsz pools unshared cs m =
        (start, map (\<lambda>t. chunk_at start cs (?n - ?u + t * (?u div unat pools))) [0..<unat pools], m')"
      "chain m' start (chunks start cs 0 (?n - ?u))"
      "\<forall>t < unat pools. chain m' (chunk_at start cs (?n - ?u + t * (?u div unat pools)))
        (chunks start cs (?n - ?u + t * (?u div unat pools)) (?n - ?u + Suc t * (?u div unat pools)))"
    and f: "\<And>a. a \<notin> chunk_at start cs ` {..<?n - ?u + unat pools * (?u div unat pools)} \<Longrightarrow> m' a = m a"
    using InitFreeLists_lists [where unshared = unshared and rsz = rsz, OF r s' c', of m] by blast
  have "m' a = m a" if "a \<notin> chunk_at start cs ` {..<?n}" for a
    using f [of a] that le by (auto simp: image_iff)
  then show ?thesis using m' u c0 le chunk_at_inj [OF assms(2)] unfolding Let_def by auto
qed

theorem InitFreeLists_divides_witness:
  "\<exists>m'. InitFreeLists 4096 512 2 (\<lambda>n. n div 2) 64 (\<lambda>_. 1) = (4096, [chunk_at 4096 64 4, chunk_at 4096 64 6], m') \<and>
     chain m' 4096 (chunks 4096 64 0 4)"
proof -
  let ?n = "ucast ((512 :: u64) div 64) :: u32"
  have "room 4096 64 (unat ?n)" "?n div 2 < ?n" "0 < ?n div 2 div 2" "unat ?n = 8" "unat (?n div 2) = 4" "unat (2 :: u32) = 2"
    by (simp_all add: room_def)
  moreover have "[0..<2] = [0, 1 :: nat]" by (simp add: upt_rec)
  ultimately show ?thesis
    using InitFreeLists_divides [of 4096 64 512 "\<lambda>n. n div 2" 2 "\<lambda>_. 1"] by (simp add: Let_def) blast
qed

lemma chain_last: "chain m p xs \<Longrightarrow> xs \<noteq> [] \<Longrightarrow> m (last xs) = 0"
proof (induction xs arbitrary: p)
  case (Cons x xs)
  then show ?case by (cases xs) auto
qed simp

text \<open>
  C29: With nothing shared (\<^verbatim>\<open>shared_ratio\<close> 0) and a number of chunks that the number of threads divides, so that
  the threads use up all chunks, the shared list still takes the first chunk, every thread's list begins one
  chunk later, and the last one writes its end marker to the word behind the region, provided that the
  address space goes on there.
\<close>

theorem InitFreeLists_overruns:
  assumes "n = unat (ucast ((rsz :: u64) div cs) :: u32)" and "room start cs (Suc n)" and "unat pools dvd n"
    and "0 < n" and "0 < pools"
  shows "\<exists>m'. InitFreeLists start rsz pools (\<lambda>k. k) cs m =
      (start, map (\<lambda>t. chunk_at start cs (1 + t * (n div unat pools))) [0..<unat pools], m') \<and> m' (start + of_nat n * cs) = 0"
proof -
  let ?P = "unat pools"
  have P: "0 < ?P" using assms(5) by (simp add: word_less_nat_alt)
  obtain c where c: "n = ?P * c" using assms(3) by blast
  with assms(4) have c0: "0 < c" by (metis gr0I mult_0_right)
  have c': "c = max 1 (unat ((ucast (rsz div cs) :: u32) div pools))"
    using c c0 P assms(1) by (simp add: unat_div_distrib)
  have r: "room start cs (1 + ?P * c)" using assms(2) c by simp
  from InitFreeLists_lists [where s = 1 and unshared = "\<lambda>k. k", OF r _ c', of m] obtain m' where
    i: "InitFreeLists start rsz pools (\<lambda>k. k) cs m = (start, map (\<lambda>t. chunk_at start cs (1 + t * c)) [0..<?P], m')"
    and ch: "\<forall>t < ?P. chain m' (chunk_at start cs (1 + t * c)) (chunks start cs (1 + t * c) (1 + Suc t * c))"
    by auto
  have e: "Suc (?P - 1) = ?P" using P by simp
  have "chain m' (chunk_at start cs (1 + (?P - 1) * c)) (chunks start cs (1 + (?P - 1) * c) (1 + ?P * c))"
    using ch [rule_format, of "?P - 1"] P e by simp
  moreover have l: "(?P - 1) * c < ?P * c" using P c0 by simp
  then have u: "[1 + (?P - 1) * c..<1 + ?P * c] = [1 + (?P - 1) * c..<?P * c] @ [?P * c]"
    by (metis Suc_leI plus_1_eq_Suc upt_Suc_append)
  then have "chunks start cs (1 + (?P - 1) * c) (1 + ?P * c) \<noteq> []"
    "last (chunks start cs (1 + (?P - 1) * c) (1 + ?P * c)) = chunk_at start cs n"
    unfolding chunks_def u c by simp_all
  ultimately have "m' (chunk_at start cs n) = 0" using chain_last by metis
  moreover have "n div ?P = c" using c P by simp
  ultimately show ?thesis using i by (simp add: chunk_at_def)
qed

theorem InitFreeLists_overruns_witness:
  "\<exists>m'. InitFreeLists 4096 256 2 (\<lambda>k. k) 64 (\<lambda>_. 7) = (4096, [4160, 4288], m') \<and> m' 4352 = 0"
proof -
  have "[0..<2] = [0, 1 :: nat]" by (simp add: upt_rec)
  then show ?thesis using InitFreeLists_overruns [of 4 256 64 4096 2 "\<lambda>_. 7"] by (simp add: room_def chunk_at_def)
qed

end
