(* ===== verification/Manager.thy ===== *)
theory Manager
  imports MemoryPoolThms Connector PortScan Region
begin

text \<open>
  The node's manager (\<^verbatim>\<open>include/rdma/manager.h\<close>): it finds a port, allocates and registers the memory region,
  divides it into free lists, connects every pool to every other node and hands the pools to the threads.
  The listener's thread runs while the manager connects to other nodes; the two share nothing but the
  libraries, and the model runs the listener's loop where the manager waits for it.
\<close>

section \<open>Model\<close>

text \<open>\<open>unshared_of\<close> is the computation with \<^verbatim>\<open>shared_ratio\<close>, see \<open>InitFreeLists\<close>.\<close>

record RdmaConfig =
  cfg_node_id :: u32
  cfg_nodes :: "string list"
  cfg_available_nodes :: u32
  cfg_port :: u16
  cfg_region_size_mb :: u32
  cfg_chunk_size_byte :: u32
  cfg_unshared_of :: "u32 \<Rightarrow> u32"

text \<open>
  All pools of a node live in one memory; a pool in the list has the world of its construction, and
  \<open>GetMemoryPool\<close> returns it with the current one.
\<close>

record 'n Manager =
  m_free_next :: u64
  m_chunk_size :: u64
  thread_pools :: "'n MemoryPool list"
  m_node_id :: u32
  m_port :: port_choice
  m_region :: "region option"
  dev_inited :: bool
  mworld :: "'n world"

abbreviation mmem :: "'n Manager \<Rightarrow> memory" where
  "mmem m \<equiv> w_mem (mworld m)"

definition Manager_new :: "'n world \<Rightarrow> 'n Manager" where
  "Manager_new w = \<lparr>m_free_next = 0, m_chunk_size = 0, thread_pools = [], m_node_id = 0,
     m_port = \<lparr>pc_gid_index = 0, pc_gid = [], pc_lid = 0, pc_ib_port = 0, pc_ctx = None\<rparr>, m_region = None,
     dev_inited = False, mworld = w\<rparr>"

text \<open>Connect pool \<open>j\<close> to node \<open>i\<close>, for the pairs in the list.\<close>

fun connect_all ::
  "'n verbs \<Rightarrow> 'n sockets \<Rightarrow> Node list \<Rightarrow> u32 \<Rightarrow> u32 \<Rightarrow> (nat \<times> nat) list \<Rightarrow> (u32 \<Rightarrow> TargetContext option) \<Rightarrow>
   'n Connector \<Rightarrow> (u32 \<Rightarrow> TargetContext option, 'n Connector) result" where
  "connect_all vb so nodes nid pools [] cl c = Some (Inr (cl, c))"
| "connect_all vb so nodes nid pools ((i, j) # ijs) cl c =
     bnd (Connect vb so (nodes ! i) (nid * pools + of_nat j) c) (\<lambda>t c.
       connect_all vb so nodes nid pools ijs (cl(of_nat i * pools + of_nat j \<mapsto> t)) c)"

text \<open>The targets of pool \<open>i\<close>, one per node; a missing entry of a map is a null pointer.\<close>

definition target_row ::
  "nat \<Rightarrow> u32 \<Rightarrow> u32 \<Rightarrow> nat \<Rightarrow> (u32 \<Rightarrow> TargetContext option) \<Rightarrow> TargetContext \<Rightarrow> (u32 \<Rightarrow> TargetContext option) \<Rightarrow>
   TargetContext option list" where
  "target_row n nid pools i listened loopback connected =
     map (\<lambda>j. listened (of_nat j * pools + of_nat i)) [0..<unat nid] @ [Some loopback] @
     map (\<lambda>j. connected (of_nat j * pools + of_nat i)) [unat nid + 1..<n]"

fun make_pools ::
  "'n verbs \<Rightarrow> nat \<Rightarrow> u32 \<Rightarrow> u32 \<Rightarrow> u64 \<Rightarrow> u32 \<Rightarrow> u64 list \<Rightarrow> (u32 \<Rightarrow> TargetContext option) \<Rightarrow> (u32 \<Rightarrow> TargetContext option) \<Rightarrow>
   nat list \<Rightarrow> 'n Connector \<Rightarrow> ('n MemoryPool list, 'n Connector) result" where
  "make_pools vb n nid pools cs key free_lists listened connected [] c = Some (Inr ([], c))"
| "make_pools vb n nid pools cs key free_lists listened connected (i # is) c =
     bnd (ConnectLoopback vb c) (\<lambda>loopback c.
       let row = target_row n nid pools i listened loopback connected
       in if None \<in> set row then Some (Inl NullTarget)
          else bnd (MemoryPool_new (free_lists ! i) cs (ucast nid) key (map the row) default_buffer_count (cworld c)) (\<lambda>_ p.
               bnd (make_pools vb n nid pools cs key free_lists listened connected is (c\<lparr>cworld := pworld p\<rparr>)) (\<lambda>ps c.
                 Some (Inr (p # ps, c)))))"

definition connect_pairs :: "nat \<Rightarrow> u32 \<Rightarrow> u32 \<Rightarrow> (nat \<times> nat) list" where
  "connect_pairs n nid pools = List.product [unat nid + 1..<n] [0..<unat pools]"

definition InitMemoryPool ::
  "'n verbs \<Rightarrow> 'n sockets \<Rightarrow> Node list \<Rightarrow> u32 \<Rightarrow> u64 list \<Rightarrow> region \<Rightarrow> 'n Manager \<Rightarrow> (unit, 'n Manager) result" where
  "InitMemoryPool vb so nodes pools free_lists mr m =
     (if \<not> unat (m_node_id m) < length nodes then Some (Inl OutOfBounds)
      else let nid = m_node_id m; self = nodes ! unat nid; pc = m_port m;
               l = Listener_new self (sint (pools * nid)) (r_base mr) (r_rkey mr) (pc_lid pc) (pc_gid_index pc) (pc_gid pc) (pc_ib_port pc) (mworld m)
           in bnd (CreateListeningEndpoint so l) (\<lambda>_ l.
              bnd (connect_all vb so nodes nid pools (connect_pairs (length nodes) nid pools) Map.empty
                (Connector_new self (r_base mr) (r_rkey mr) (pc_lid pc) (pc_gid_index pc) (pc_gid pc) (pc_ib_port pc) (lworld l))) (\<lambda>cl c.
              bnd (HandleConnectionRequests vb so (l\<lparr>lworld := cworld c\<rparr>)) (\<lambda>_ l.
              bnd (make_pools vb (length nodes) nid pools (m_chunk_size m) (r_lkey mr) free_lists (GetClients l) cl [0..<unat pools]
                (c\<lparr>cworld := lworld l\<rparr>)) (\<lambda>ps c.
                let c = Connector_ClearCache so (remdups (map n_ip (drop (unat nid + 1) nodes))) c
                in Some (Inr ((), m\<lparr>thread_pools := ps, mworld := cworld c\<rparr>)))))))"

definition Init ::
  "'n verbs \<Rightarrow> 'n sockets \<Rightarrow> region_os \<Rightarrow> device list \<Rightarrow> RdmaConfig \<Rightarrow> u32 \<Rightarrow> 'n Manager \<Rightarrow> (unit, 'n Manager) result" where
  "Init vb so os devs config local_pools m =
     (if \<not> 0 < local_pools then Some (Inl AssertFailed)
      else if dev_inited m then Some (Inr ((), m))
      else if \<not> unat (cfg_node_id config) < length (cfg_nodes config) then Some (Inl AssertFailed)
      else case FindActivePort devs (m_port m) of Inl e \<Rightarrow> Some (Inl e)
      | Inr (found, pc) \<Rightarrow>
        (if \<not> found then Some (Inl NoActivePort)
         else let region_size = ucast (cfg_region_size_mb config) * 1024 * 1024 :: u64
              in case InitMemoryRegion os (ucast (cfg_chunk_size_byte config)) region_size of Inl e \<Rightarrow> Some (Inl e)
              | Inr mr \<Rightarrow>
                (let (shared, free_lists, mem) = InitFreeLists (r_base mr) region_size local_pools (cfg_unshared_of config)
                       (r_chunk_size mr) (mmem m);
                     m = m\<lparr>m_node_id := cfg_node_id config, m_port := pc, m_region := Some mr, m_chunk_size := r_chunk_size mr,
                         m_free_next := shared, mworld := (mworld m)\<lparr>w_mem := mem\<rparr>\<rparr>
                 in if length (cfg_nodes config) < unat (cfg_available_nodes config) then Some (Inl OutOfBounds)
                    else let nodes = map (\<lambda>ip. \<lparr>n_ip = ip, n_port = cfg_port config\<rparr>)
                           (take (unat (cfg_available_nodes config)) (cfg_nodes config))
                         in bnd (InitMemoryPool vb so nodes local_pools free_lists mr m) (\<lambda>_ m.
                              Some (Inr ((), m\<lparr>dev_inited := True\<rparr>))))))"

section \<open>Shared chunks and pools\<close>

definition AllocateShared :: "'n Manager \<Rightarrow> Pointer \<times> 'n Manager" where
  "AllocateShared m =
     (let chunk = m_free_next m
      in if chunk = 0 then (ptr_null, m)
         else (ptr_make (ucast (m_node_id m)) chunk, m\<lparr>m_free_next := mmem m chunk\<rparr>))"

definition FreeShared :: "Pointer \<Rightarrow> 'n Manager \<Rightarrow> 'n Manager" where
  "FreeShared ptr m =
     (let chunk = ptr_address ptr
      in m\<lparr>mworld := (mworld m)\<lparr>w_mem := (mmem m)(chunk := m_free_next m)\<rparr>, m_free_next := chunk\<rparr>)"

definition GetMemoryPool :: "u32 \<Rightarrow> 'n Manager \<Rightarrow> 'n MemoryPool" where
  "GetMemoryPool thread_id m =
     (thread_pools m ! (unat thread_id mod length (thread_pools m)))\<lparr>pworld := mworld m\<rparr>"

definition GetChunkSize :: "'n Manager \<Rightarrow> u64" where
  "GetChunkSize m = m_chunk_size m"

section \<open>The shared allocator\<close>

definition shared_chunks :: "'n Manager \<Rightarrow> u64 list \<Rightarrow> bool" where
  "shared_chunks m cs \<longleftrightarrow> chain (mmem m) (m_free_next m) cs"

interpretation shared: chunk_allocator shared_chunks "\<lambda>m. ucast (m_node_id m)" AllocateShared FreeShared
proof unfold_locales
  show "AllocateShared m = (ptr_null, m)" if "shared_chunks m []" for m :: "'n Manager"
    using that by (simp add: shared_chunks_def AllocateShared_def)
  show "\<exists>m'. AllocateShared m = (ptr_make (ucast (m_node_id m)) c, m') \<and> shared_chunks m' cs \<and>
      ucast (m_node_id m') = (ucast (m_node_id m) :: u16)"
    if "shared_chunks m (c # cs)" for m :: "'n Manager" and c cs
    using that by (auto simp: shared_chunks_def AllocateShared_def Let_def)
  show "shared_chunks (FreeShared q m) (ptr_address q # cs) \<and> ucast (m_node_id (FreeShared q m)) = (ucast (m_node_id m) :: u16)"
    if "shared_chunks m cs" "ptr_address q \<noteq> 0" "ptr_address q \<notin> set cs" for m :: "'n Manager" and q cs
    using that chain_push [of "mmem m" "m_free_next m" cs "ptr_address q"]
    by (simp add: shared_chunks_def FreeShared_def Let_def)
qed

text \<open>
  C31: The shared allocator of a node implements the same contract as the pools': chunks are handed out
  front to back and then null pointers, and a freed chunk is the next one handed out.
\<close>

theorem shared_allocation:
  assumes "chain (mmem m) (m_free_next m) cs"
  shows "(\<exists>m'. allocate_many AllocateShared (length cs) m = (map (ptr_make (ucast (m_node_id m))) cs, m') \<and>
      AllocateShared m' = (ptr_null, m')) \<and>
    (\<forall>q. ptr_address q \<noteq> 0 \<and> ptr_address q \<notin> set cs \<longrightarrow>
      (\<exists>m'. AllocateShared (FreeShared q m) = (ptr_make (ucast (m_node_id m)) (ptr_address q), m') \<and> chain (mmem m') (m_free_next m') cs))"
proof -
  have r: "shared_chunks m cs" using assms by (simp add: shared_chunks_def)
  obtain m' where "allocate_many AllocateShared (length cs) m = (map (ptr_make (ucast (m_node_id m))) cs, m')" "shared_chunks m' []"
    using shared.allocate_many_front [of m cs "[]"] r by auto
  moreover from this(2) have "AllocateShared m' = (ptr_null, m')" by (rule shared.alloc_empty)
  ultimately show ?thesis
    using shared.free_then_alloc [OF r] by (auto simp: shared_chunks_def)
qed

theorem shared_allocation_witness:
  "\<exists>m'. allocate_many AllocateShared 2 ((Manager_new \<lparr>w_mem = (\<lambda>a. if a = 128 then 64 else 0), w_rest = ()\<rparr>)\<lparr>m_free_next := 128, m_node_id := 1\<rparr>) =
     ([ptr_make 1 128, ptr_make 1 64], m') \<and> AllocateShared m' = (ptr_null, m')"
proof -
  let ?m = "(Manager_new \<lparr>w_mem = (\<lambda>a. if a = 128 then 64 else 0), w_rest = ()\<rparr>)\<lparr>m_free_next := 128, m_node_id := 1\<rparr>"
  have "chain (mmem ?m) (m_free_next ?m) [128, 64]" by (simp add: Manager_new_def)
  moreover have "length [128, 64 :: u64] = 2" "ucast (m_node_id ?m) = (1 :: u16)" by simp_all
  ultimately show ?thesis using shared_allocation [of ?m "[128, 64]"] by (simp only: list.map)
qed

section \<open>Connections\<close>

















section \<open>A node of a cluster of three\<close>














end
