(* ===== verification/Rendezvous.thy ===== *)
theory Rendezvous
  imports Prelude
begin

text \<open>
  Two-sided messages between nodes.  \<^verbatim>\<open>MemoryPool::Send\<close> waits for its completion, which comes only when the
  receiver has called \<^verbatim>\<open>MemoryPool::Receive\<close>: sending and receiving happen together.  Each node runs a script
  of such calls.  When all scripts are the views that the nodes have of one global sequence of messages, the
  nodes cannot block each other, and each receives what the sequence says.
\<close>

section \<open>Scripts and their execution\<close>

datatype action = Snd nat | Rcv nat

record 'v network =
  script :: "nat \<Rightarrow> action list"
  received :: "nat \<Rightarrow> (nat \<times> 'v) list"

text \<open>\<open>msg x y k\<close> is the \<open>k\<close>-th message that node \<open>x\<close> sends to node \<open>y\<close>.\<close>

definition taken :: "nat \<Rightarrow> (nat \<times> 'v) list \<Rightarrow> nat" where
  "taken x got = length (filter (\<lambda>m. fst m = x) got)"

inductive rendezvous :: "(nat \<Rightarrow> nat \<Rightarrow> nat \<Rightarrow> 'v) \<Rightarrow> 'v network \<Rightarrow> 'v network \<Rightarrow> bool" for msg where
  meet: "script s x = Snd y # as \<Longrightarrow> script s y = Rcv x # bs \<Longrightarrow> x \<noteq> y \<Longrightarrow>
    rendezvous msg s (s\<lparr>script := (script s)(x := as, y := bs),
      received := (received s)(y := received s y @ [(x, msg x y (taken x (received s y)))])\<rparr>)"

inductive_cases rendezvousE: "rendezvous msg s s'"

definition network_init :: "(nat \<Rightarrow> action list) \<Rightarrow> 'v network" where
  "network_init f = \<lparr>script = f, received = (\<lambda>_. [])\<rparr>"

section \<open>Global sequences\<close>

text \<open>The view of node \<open>x\<close> of a sequence of messages \<open>(sender, receiver)\<close>.\<close>

fun view_of :: "nat \<Rightarrow> (nat \<times> nat) list \<Rightarrow> action list" where
  "view_of x [] = []"
| "view_of x ((a, b) # ms) = (if a = x then Snd b # view_of x ms else if b = x then Rcv a # view_of x ms else view_of x ms)"

fun deliver :: "(nat \<Rightarrow> nat \<Rightarrow> nat \<Rightarrow> 'v) \<Rightarrow> nat \<Rightarrow> (nat \<times> 'v) list \<Rightarrow> action list \<Rightarrow> (nat \<times> 'v) list" where
  "deliver msg x got [] = got"
| "deliver msg x got (Snd y # as) = deliver msg x got as"
| "deliver msg x got (Rcv y # as) = deliver msg x (got @ [(y, msg y x (taken y got))]) as"

definition proper :: "(nat \<times> nat) list \<Rightarrow> bool" where
  "proper ms \<longleftrightarrow> (\<forall>(a, b) \<in> set ms. a \<noteq> b)"

lemma view_of_append: "view_of x (ms @ ns) = view_of x ms @ view_of x ns"
  by (induction x ms rule: view_of.induct) auto

lemma view_of_concat: "view_of x (concat mss) = concat (map (view_of x) mss)"
  by (induction mss) (auto simp: view_of_append)

lemma view_of_none: "\<forall>(a, b) \<in> set ms. a \<noteq> x \<and> b \<noteq> x \<Longrightarrow> view_of x ms = []"
  by (induction x ms rule: view_of.induct) auto

text \<open>The first message that concerns \<open>x\<close> is the first action of its script; two nodes that meet agree on it.\<close>

lemma view_of_split:
  assumes "view_of x ms = act # as"
  obtains ms1 e ms2 where "ms = ms1 @ e # ms2" and "view_of x ms1 = []" and "view_of x ms2 = as" and "view_of x [e] = [act]"
  using assms
proof (induction ms arbitrary: thesis)
  case (Cons m ms)
  show ?case
  proof (cases "view_of x [m] = []")
    case True
    then have "view_of x ms = act # as" using Cons.prems(2) view_of_append [of x "[m]" ms] by simp
    then show ?thesis
      using Cons.IH [of thesis] Cons.prems(1) True view_of_append [of x "[m]"] by (metis append_Cons append_Nil append_self_conv2)
  next
    case False
    then have "view_of x [m] = [act] \<and> view_of x ms = as"
      using Cons.prems(2) by (cases m) (auto split: if_splits)
    then show ?thesis using Cons.prems(1) [of "[]" m ms] by simp
  qed
qed simp

lemma meeting:
  assumes "proper ms" and "view_of x ms = Snd y # as" and "view_of y ms = Rcv x # bs" and "x \<noteq> y"
  shows "\<exists>ms1 ms2. ms = ms1 @ (x, y) # ms2 \<and> view_of x ms1 = [] \<and> view_of y ms1 = [] \<and>
    view_of x ms2 = as \<and> view_of y ms2 = bs"
proof -
  obtain ms1 e ms2 where x: "ms = ms1 @ e # ms2" "view_of x ms1 = []" "view_of x ms2 = as" "view_of x [e] = [Snd y]"
    by (rule view_of_split [OF assms(2)])
  obtain ns1 f ns2 where y: "ms = ns1 @ f # ns2" "view_of y ns1 = []" "view_of y ns2 = bs" "view_of y [f] = [Rcv x]"
    by (rule view_of_split [OF assms(3)])
  have e: "e = (x, y)" using x(4) by (cases e) (auto split: if_splits)
  have f: "f = (x, y)" using y(4) by (cases f) (auto split: if_splits)
  have "\<not> length ms1 < length ns1"
  proof
    assume "length ms1 < length ns1"
    then have "e \<in> set ns1" using x(1) y(1) by (metis append_eq_append_conv_if nth_append nth_append_length nth_mem)
    then have "view_of y ns1 \<noteq> []" unfolding e by (induction ns1) (auto split: if_splits)
    with y(2) show False by simp
  qed
  moreover have "\<not> length ns1 < length ms1"
  proof
    assume "length ns1 < length ms1"
    then have "f \<in> set ms1" using x(1) y(1) by (metis nth_append nth_append_length nth_mem)
    then have "view_of x ms1 \<noteq> []" unfolding f by (induction ms1) (auto split: if_splits)
    with x(2) show False by simp
  qed
  ultimately have "length ms1 = length ns1" by simp
  then have "ms1 = ns1 \<and> ms2 = ns2" using x(1) y(1) by simp
  with x y e show ?thesis by blast
qed

section \<open>No node blocks\<close>

text \<open>\<open>ms\<close> are the messages still to come; what has been received and what is to come make up the whole.\<close>

definition follows :: "(nat \<Rightarrow> nat \<Rightarrow> nat \<Rightarrow> 'v) \<Rightarrow> (nat \<Rightarrow> action list) \<Rightarrow> 'v network \<Rightarrow> (nat \<times> nat) list \<Rightarrow> bool" where
  "follows msg f s ms \<longleftrightarrow> proper ms \<and> (\<forall>x. script s x = view_of x ms) \<and>
     (\<forall>x. deliver msg x (received s x) (view_of x ms) = deliver msg x [] (f x))"

lemma follows_init: "proper ms \<Longrightarrow> (\<And>x. f x = view_of x ms) \<Longrightarrow> follows msg f (network_init f) ms"
  by (simp add: follows_def network_init_def)

lemma follows_step:
  assumes "follows msg f s ms" and "rendezvous msg s s'"
  shows "\<exists>ms'. follows msg f s' ms' \<and> length ms = Suc (length ms')"
  using assms(2)
proof (cases rule: rendezvous.cases)
  case (meet x y as bs)
  have sc: "script s z = view_of z ms" for z using assms(1) by (simp add: follows_def)
  obtain ms1 ms2 where m: "ms = ms1 @ (x, y) # ms2" "view_of x ms1 = []" "view_of y ms1 = []" "view_of x ms2 = as" "view_of y ms2 = bs"
    using meeting [of ms x y as bs] assms(1) meet by (auto simp: follows_def)
  have v: "view_of z (ms1 @ ms2) = (if z = x then as else if z = y then bs else view_of z ms)" for z
    using m meet(4) by (auto simp: view_of_append)
  have yv: "view_of y ms = Rcv x # bs" using meet(3) sc by simp
  have xv: "view_of x ms = Snd y # as" using meet(2) sc by simp
  have "deliver msg z (received s' z) (view_of z (ms1 @ ms2)) = deliver msg z (received s z) (view_of z ms)" for z
    unfolding v using meet(1,4) xv yv by auto
  moreover have "script s' z = view_of z (ms1 @ ms2)" for z unfolding v using meet(1,4) sc by auto
  moreover have "proper (ms1 @ ms2)" using assms(1) m(1) by (auto simp: follows_def proper_def)
  ultimately have "follows msg f s' (ms1 @ ms2)" using assms(1) by (simp add: follows_def)
  then show ?thesis using m(1) by auto
qed

lemma follows_enabled:
  assumes "follows msg f s ms" and "ms \<noteq> []"
  shows "\<exists>s'. rendezvous msg s s'"
proof -
  obtain x y ns where ms: "ms = (x, y) # ns" using assms(2) by (cases ms) auto
  then have "x \<noteq> y" using assms(1) by (simp add: follows_def proper_def)
  moreover have "script s x = Snd y # view_of x ns" "script s y = Rcv x # view_of y ns"
    using assms(1) ms calculation by (simp_all add: follows_def)
  ultimately show ?thesis using rendezvous.meet by metis
qed

lemma follows_run:
  assumes "(rendezvous msg ^^ k) s s'" and "follows msg f s ms"
  shows "\<exists>ms'. follows msg f s' ms' \<and> length ms = k + length ms'"
  using assms
proof (induction k arbitrary: s')
  case (Suc k)
  then obtain s1 where s1: "(rendezvous msg ^^ k) s s1" "rendezvous msg s1 s'" by auto
  obtain ms1 where ms1: "follows msg f s1 ms1" "length ms = k + length ms1" using Suc.IH [OF s1(1) Suc.prems(2)] by blast
  from follows_step [OF ms1(1) s1(2)] show ?case using ms1(2) by auto
qed auto

text \<open>
  Scripts that are views of one sequence of messages: every run can go on until all messages have been
  exchanged, then all scripts are done and every node has received what its script says.
\<close>

lemma views_complete:
  assumes "proper ms" and "\<And>x. f x = view_of x ms" and "(rendezvous msg ^^ k) (network_init f) s"
  shows "k \<le> length ms \<and> (k < length ms \<longrightarrow> (\<exists>s'. rendezvous msg s s')) \<and>
    (k = length ms \<longrightarrow> (\<forall>x. script s x = [] \<and> received s x = deliver msg x [] (f x)))"
proof -
  obtain ns where ns: "follows msg f s ns" "length ms = k + length ns"
    using follows_run [OF assms(3) follows_init [OF assms(1,2)]] by blast
  have "script s x = [] \<and> received s x = deliver msg x [] (f x)" if "ns = []" for x
    using ns(1) that by (simp add: follows_def)
  then show ?thesis using ns(2) follows_enabled [OF ns(1)] by auto
qed

end
