(* ===== verification/UniformRandom.thy ===== *)
theory UniformRandom
  imports Prelude
begin

text \<open>
  The random numbers of the benchmark (\<^verbatim>\<open>include/third_party/foedus/uniform_random.hpp\<close>): a linear congruential
  generator on 64 bits.  \<open>None\<close> stands for a division by zero.
\<close>

unbundle bit_operations_syntax

record UniformRandom =
  seed :: u64

definition next_uint32 :: "UniformRandom \<Rightarrow> u32 \<times> UniformRandom" where
  "next_uint32 r =
     (let s = seed r * 0xD04C3175 + 0x53DA9022
      in (ucast (drop_bit 32 s XOR (s AND 0xFFFFFFFF)), r\<lparr>seed := s\<rparr>))"

definition uniform_within :: "u32 \<Rightarrow> u32 \<Rightarrow> UniformRandom \<Rightarrow> (u32 \<times> UniformRandom) option" where
  "uniform_within from to r =
     (if from = to then Some (from, r)
      else let (v, r') = next_uint32 r
           in if to - from + 1 = 0 then None else Some (from + v mod (to - from + 1), r'))"

partial_function (option) uniform_within_except :: "u32 \<Rightarrow> u32 \<Rightarrow> u32 \<Rightarrow> UniformRandom \<Rightarrow> (u32 \<times> UniformRandom) option" where
  "uniform_within_except from to except r = (case uniform_within from to r of None \<Rightarrow> None
     | Some (v, r') \<Rightarrow> if v \<noteq> except then Some (v, r') else uniform_within_except from to except r')"

text \<open>The only interval with more numbers than \<^verbatim>\<open>uint32_t\<close> can count is the whole range.\<close>

lemma uniform_within_total:
  assumes "from \<le> to" and "\<not> (from = 0 \<and> to = - 1)"
  shows "\<exists>v r'. uniform_within from to r = Some (v, r') \<and> from \<le> v \<and> v \<le> to"
proof (cases "from = to")
  case True
  then show ?thesis by (simp add: uniform_within_def)
next
  case False
  let ?d = "to - from"
  have ft: "unat from \<le> unat to" "unat ?d = unat to - unat from"
    using assms(1) by (simp_all add: word_le_nat_alt unat_sub)
  have "?d \<noteq> - 1"
  proof
    assume d: "?d = - 1"
    then have "unat to - unat from = 2 ^ 32 - 1"
      using ft(2) by (simp add: unsigned_minus_1_eq_mask mask_eq_exp_minus_1)
    moreover have "unat to < 2 ^ 32" using unsigned_less [of to] by simp
    ultimately have "unat from = 0" by simp
    then have "from = 0" by (simp add: unsigned_eq_0_iff)
    with d assms(2) show False by simp
  qed
  then have d: "?d + 1 \<noteq> 0" by (metis add_eq_0_iff add.commute)
  let ?v = "fst (next_uint32 r)"
  have "unat (?d + 1) = unat ?d + 1" using unatSuc [of ?d] d by (simp add: add.commute)
  then have m: "unat (?v mod (?d + 1)) \<le> unat ?d"
    using mod_less_divisor [of "unat ?d + 1" "unat ?v"] by (simp add: unat_mod_distrib)
  then have "unat from + unat (?v mod (?d + 1)) \<le> unat to" using ft by linarith
  moreover have "unat to < 2 ^ 32" using unsigned_less [of to] by simp
  ultimately have "unat (from + ?v mod (?d + 1)) = unat from + unat (?v mod (?d + 1))"
    by (subst unat_add_lem [THEN iffD1]) simp_all
  then have "from \<le> from + ?v mod (?d + 1)" "from + ?v mod (?d + 1) \<le> to"
    using m ft by (simp_all add: word_le_nat_alt)
  then show ?thesis using False d by (auto simp: uniform_within_def Let_def split: prod.split)
qed

lemma uniform_within_whole: "uniform_within 0 (- 1) r = None"
  by (simp add: uniform_within_def split: prod.split)

end
