(* ===== verification/LockTable.thy ===== *)
theory LockTable
  imports Manager Rendezvous UniformRandom LockCommon
begin

text \<open>
  The lock tables of the benchmark (\<^verbatim>\<open>include/benchmark/benchmark.h\<close>): every node allocates its locks from the
  shared free list, clears them, and sends the address of the first one to every other node, which works
  out the addresses of the rest.  Threads then pick locks from both tables at random.
\<close>

section \<open>Model\<close>

text \<open>\<^verbatim>\<open>memset(lock.address(), 0, chunk_size)\<close>, word by word\<close>

fun zero_words :: "nat \<Rightarrow> u64 \<Rightarrow> memory \<Rightarrow> memory" where
  "zero_words 0 a m = m"
| "zero_words (Suc n) a m = zero_words n (a + 8) (m(a := 0))"

definition clear_chunk :: "Pointer \<Rightarrow> 'n Manager \<Rightarrow> 'n Manager" where
  "clear_chunk lock m = m\<lparr>mworld := (mworld m)\<lparr>w_mem :=
     zero_words (unat (GetChunkSize m) div 8) (ptr_address lock) (mmem m)\<rparr>\<rparr>"

text \<open>When the shared list is exhausted a null pointer is cleared, which ends the process.\<close>

fun AllocateLocalLocks :: "nat \<Rightarrow> 'n Manager \<Rightarrow> (Pointer list, 'n Manager) result" where
  "AllocateLocalLocks 0 m = Some (Inr ([], m))"
| "AllocateLocalLocks (Suc n) m =
     (let (lock, m) = AllocateShared m
      in if ptr_address lock = 0 then Some (Inl NullTarget)
         else bnd (AllocateLocalLocks n (clear_chunk lock m)) (\<lambda>locks m. Some (Inr (lock # locks, m))))"

text \<open>The locks of another node, worked out from its first one with a 32-bit product.\<close>

definition lock_table :: "Pointer \<Rightarrow> nat \<Rightarrow> u32 \<Rightarrow> Pointer list" where
  "lock_table lock n csize = map (\<lambda>j. ptr_add lock (ucast (of_nat j * csize))) [0..<n]"

text \<open>The order in which a node talks to the others: with lower ones it receives first.\<close>

definition exchange_script :: "nat \<Rightarrow> nat \<Rightarrow> action list" where
  "exchange_script nodes me = concat (map (\<lambda>i. if i = me then []
     else if me < i then [Snd i, Rcv i] else [Rcv i, Snd i]) [0..<nodes])"

text \<open>
  With the selective distribution only the first \<open>hosts\<close> nodes have locks; they send and the others receive.
  The counters of both loops have 16 bits, the number of hosts 32: the sending loop starts at the truncated
  number.  The receiving loop runs only on a node whose 16-bit number is not below the number of hosts, so
  its counter reaches that number without wrapping around.
\<close>

datatype distribution = Uniform | Selective u32

fun table_script :: "distribution \<Rightarrow> nat \<Rightarrow> nat \<Rightarrow> action list" where
  "table_script Uniform nodes me = exchange_script nodes me"
| "table_script (Selective hosts) nodes me =
     (if me < unat hosts then map Snd [unat (ucast hosts :: u16)..<nodes] else map Rcv [0..<unat hosts])"

text \<open>A call of pool 0.\<close>

definition on_pool0 :: "('n MemoryPool \<Rightarrow> ('a, 'n) pool_result) \<Rightarrow> 'n Manager \<Rightarrow> ('a, 'n Manager) result" where
  "on_pool0 f m = bnd (f (GetMemoryPool 0 m)) (\<lambda>a p.
     Some (Inr (a, m\<lparr>thread_pools := (thread_pools m)[0 := p], mworld := pworld p\<rparr>)))"

text \<open>Every message sent is \<^verbatim>\<open>local_locks[0].raw()\<close>; there is none without locks.\<close>

fun table_message :: "Pointer list \<Rightarrow> u64 option" where
  "table_message [] = None"
| "table_message (lock # locks) = Some (praw lock)"

text \<open>The calls of a script.\<close>

fun run_script :: "'n verbs \<Rightarrow> Pointer list \<Rightarrow> action list \<Rightarrow> 'n Manager \<Rightarrow> (u64 list, 'n Manager) result" where
  "run_script vb locks [] m = Some (Inr ([], m))"
| "run_script vb locks (Snd i # as) m = (case table_message locks of None \<Rightarrow> Some (Inl OutOfBounds)
     | Some v \<Rightarrow> bnd (on_pool0 (Send64 vb (of_nat i) v) m) (\<lambda>_ m. run_script vb locks as m))"
| "run_script vb locks (Rcv i # as) m = bnd (on_pool0 (Receive64 vb (of_nat i)) m) (\<lambda>v m.
     bnd (run_script vb locks as m) (\<lambda>vs m. Some (Inr (v # vs, m))))"

text \<open>The tables of the nodes whose first locks have been received, one after the other.\<close>

definition remote_tables :: "u64 list \<Rightarrow> nat \<Rightarrow> u32 \<Rightarrow> Pointer list" where
  "remote_tables firsts n csize = concat (map (\<lambda>v. lock_table (ptr_of_raw v) n csize) firsts)"

definition ExchangeLockTable ::
  "'n verbs \<Rightarrow> u16 \<Rightarrow> u16 \<Rightarrow> Pointer list \<Rightarrow> 'n Manager \<Rightarrow> (Pointer list, 'n Manager) result" where
  "ExchangeLockTable vb nodes me local_locks m =
     bnd (run_script vb local_locks (exchange_script (unat nodes) (unat me)) m) (\<lambda>firsts m.
       Some (Inr (remote_tables firsts (length local_locks) (ucast (GetChunkSize m)), m)))"

text \<open>The part of the constructor that sets up the tables: local locks, remote locks, percentage of local locks.\<close>

definition Benchmark_tables ::
  "'n verbs \<Rightarrow> string \<Rightarrow> u32 \<Rightarrow> u16 \<Rightarrow> u16 \<Rightarrow> u32 \<Rightarrow> u32 \<Rightarrow> 'n Manager \<Rightarrow> (Pointer list \<times> Pointer list \<times> u32, 'n Manager) result" where
  "Benchmark_tables vb dist lock_hosts nodes me locks_per_node pct m =
     (if dist = ''uniform'' then
        bnd (AllocateLocalLocks (unat locks_per_node) m) (\<lambda>local_locks m.
          bnd (ExchangeLockTable vb nodes me local_locks m) (\<lambda>remote_locks m. Some (Inr ((local_locks, remote_locks, pct), m))))
      else if dist = ''selective'' then
        (let as = table_script (Selective lock_hosts) (unat nodes) (unat me)
         in if ucast me < lock_hosts then
              bnd (AllocateLocalLocks (unat locks_per_node) m) (\<lambda>local_locks m.
                bnd (run_script vb local_locks as m) (\<lambda>_ m. Some (Inr ((local_locks, [], 100), m))))
            else bnd (run_script vb [] as m) (\<lambda>firsts m.
              Some (Inr (([], remote_tables firsts (unat locks_per_node) (ucast (GetChunkSize m)), 0), m))))
      else Some (Inl BadDistribution))"

text \<open>
  One round of a thread: which lock it takes next.  The three generators are advanced independently; an
  empty table makes the upper bound wrap around.
\<close>

record lock_rngs =
  rng :: UniformRandom
  rngl :: UniformRandom
  rngr :: UniformRandom

definition pick :: "Pointer list \<Rightarrow> UniformRandom \<Rightarrow> (Pointer \<times> UniformRandom) option" where
  "pick locks r = (case uniform_within 0 (of_nat (length locks) - 1) r of None \<Rightarrow> None
     | Some (k, r') \<Rightarrow> if unat k < length locks then Some (locks ! unat k, r') else None)"

definition choose_lock ::
  "u32 \<Rightarrow> Pointer list \<Rightarrow> Pointer list \<Rightarrow> lock_rngs \<Rightarrow> ((Pointer \<times> side) \<times> lock_rngs) option" where
  "choose_lock local_percentage local_locks remote_locks r = (case uniform_within 0 99 (rng r) of None \<Rightarrow> None
     | Some (lr, g) \<Rightarrow>
       if lr < local_percentage
       then (case pick local_locks (rngl r) of None \<Rightarrow> None
             | Some (lock, gl) \<Rightarrow> Some ((lock, Local), r\<lparr>rng := g, rngl := gl\<rparr>))
       else (case pick remote_locks (rngr r) of None \<Rightarrow> None
             | Some (lock, gr) \<Rightarrow> Some ((lock, Remote), r\<lparr>rng := g, rngr := gr\<rparr>)))"

section \<open>Allocation\<close>

lemma zero_words_at: "zero_words n a m x = (if \<exists>w < n. x = a + 8 * of_nat w then 0 else m x)"
proof (induction n arbitrary: a m)
  case (Suc n)
  have iff: "(\<exists>w < Suc n. x = a + 8 * of_nat w) \<longleftrightarrow> x = a \<or> (\<exists>w < n. x = a + 8 + 8 * of_nat w)"
    by (auto simp: less_Suc_eq_0_disj algebra_simps)
  show ?case unfolding iff zero_words.simps Suc fun_upd_apply by argo
qed simp

text \<open>\<open>fits\<close>: the first \<open>n\<close> chunks lie in the 48-bit address space and consist of whole words.\<close>

definition fits :: "u64 \<Rightarrow> u64 \<Rightarrow> nat \<Rightarrow> bool" where
  "fits base cs n \<longleftrightarrow> base \<noteq> 0 \<and> 8 \<le> unat cs \<and> unat base + n * unat cs \<le> 2 ^ 48"

lemma fits_room: "fits base cs n \<Longrightarrow> room base cs n"
  by (auto simp: fits_def room_def)

lemma fits_word:
  assumes "fits base cs n" and "k < n" and "w < unat cs div 8"
  shows "unat (chunk_at base cs k + 8 * of_nat w) = unat base + k * unat cs + 8 * w"
proof -
  have w: "8 * w < unat cs" using assms(3) by linarith
  have "Suc k * unat cs \<le> n * unat cs" using assms(2) by (intro mult_le_mono1) simp
  then have sum: "unat base + k * unat cs + 8 * w < 2 ^ 48" using assms(1) w by (simp add: fits_def)
  have "unat (8 * of_nat w :: u64) = 8 * w" using sum by (simp add: unat_word_ariths unsigned_of_nat take_bit_eq_mod)
  then show ?thesis
    using sum unat_chunk_at [OF fits_room [OF assms(1)] assms(2)] by (simp add: unat_word_ariths)
qed

lemma fits_apart:
  assumes "fits base cs n" and "k < n" "w < unat cs div 8" and "k' < n" "w' < unat cs div 8"
    and "chunk_at base cs k + 8 * of_nat w = chunk_at base cs k' + 8 * of_nat w'"
  shows "k = k'"
proof -
  have "unat base + k * unat cs + 8 * w = unat base + k' * unat cs + 8 * w'"
    using fits_word [OF assms(1-3)] fits_word [OF assms(1,4,5)] assms(6) by simp
  then have "k * unat cs + 8 * w = k' * unat cs + 8 * w'" by simp
  moreover have "8 * w < unat cs" "8 * w' < unat cs" using assms(3,5) by linarith+
  ultimately have "(k * unat cs + 8 * w) div unat cs = (k' * unat cs + 8 * w') div unat cs" by simp
  then show ?thesis using \<open>8 * w < unat cs\<close> \<open>8 * w' < unat cs\<close> by simp
qed

lemma ptr_make_chunk:
  assumes "fits base cs n" and "k < n"
  shows "ptr_id (ptr_make nid (chunk_at base cs k)) = nid" and "ptr_address (ptr_make nid (chunk_at base cs k)) = chunk_at base cs k"
proof -
  have "0 < unat cs div 8" using assms(1) by (simp add: fits_def div_greater_zero_iff)
  then have "unat (chunk_at base cs k) = unat base + k * unat cs" using fits_word [OF assms, of 0] by simp
  moreover have "Suc k * unat cs \<le> n * unat cs" using assms(2) by (intro mult_le_mono1) simp
  ultimately have "unat (chunk_at base cs k) < 2 ^ 48" using assms(1) by (simp add: fits_def)
  then have "chunk_at base cs k < 2 ^ 48" by (simp add: word_less_nat_alt)
  then show "ptr_id (ptr_make nid (chunk_at base cs k)) = nid" "ptr_address (ptr_make nid (chunk_at base cs k)) = chunk_at base cs k"
    using ptr_make_fields by blast+
qed

text \<open>Clearing one chunk leaves the other chunks alone.\<close>

lemma clear_chunk_others:
  assumes "fits base cs n" and "k < n" and "m_chunk_size m = cs" and "k' < n" "w' < unat cs div 8" and "k' \<noteq> k"
  shows "mmem (clear_chunk (ptr_make nid (chunk_at base cs k)) m) (chunk_at base cs k' + 8 * of_nat w') =
    mmem m (chunk_at base cs k' + 8 * of_nat w')"
  using fits_apart [OF assms(1,4,5,2)] assms(6) ptr_make_chunk(2) [OF assms(1,2), of nid]
  by (auto simp: clear_chunk_def GetChunkSize_def assms(3) zero_words_at)

lemma clear_chunk_cleared:
  assumes "fits base cs n" and "k < n" and "m_chunk_size m = cs" and "w < unat cs div 8"
  shows "mmem (clear_chunk (ptr_make nid (chunk_at base cs k)) m) (chunk_at base cs k + 8 * of_nat w) = 0"
  using ptr_make_chunk(2) [OF assms(1,2), of nid] assms(4)
  by (auto simp: clear_chunk_def GetChunkSize_def assms(3) zero_words_at)

lemma clear_chunk_fields [simp]:
  "m_node_id (clear_chunk q m) = m_node_id m" "m_chunk_size (clear_chunk q m) = m_chunk_size m"
  "m_free_next (clear_chunk q m) = m_free_next m"
  by (simp_all add: clear_chunk_def)

text \<open>
  \<open>cleared m base cs i j\<close>: the chunks from \<open>i\<close> up to \<open>j\<close> hold zeros only.
\<close>

definition cleared :: "memory \<Rightarrow> u64 \<Rightarrow> u64 \<Rightarrow> nat \<Rightarrow> nat \<Rightarrow> bool" where
  "cleared m base cs i j \<longleftrightarrow> (\<forall>k w. i \<le> k \<longrightarrow> k < j \<longrightarrow> w < unat cs div 8 \<longrightarrow> m (chunk_at base cs k + 8 * of_nat w) = 0)"

lemma allocate_locks:
  assumes "fits base cs N" and "shared_chunks m (chunks base cs i N)" and "i + n \<le> N" and "m_chunk_size m = cs"
    and "cleared (mmem m) base cs 0 i"
  shows "\<exists>m'. AllocateLocalLocks n m =
      Some (Inr (map (\<lambda>k. ptr_make (ucast (m_node_id m)) (chunk_at base cs k)) [i..<i + n], m')) \<and>
    shared_chunks m' (chunks base cs (i + n) N) \<and> cleared (mmem m') base cs 0 (i + n) \<and> m_chunk_size m' = cs"
  using assms(2-5)
proof (induction n arbitrary: i m)
  case (Suc n)
  have i: "i < N" using Suc.prems(2) by simp
  have w0: "0 < unat cs div 8" using assms(1) by (simp add: fits_def div_greater_zero_iff)
  let ?p = "ptr_make (ucast (m_node_id m)) (chunk_at base cs i)"
  have "chunks base cs i N = chunk_at base cs i # chunks base cs (Suc i) N" using i by (simp add: chunks_def upt_conv_Cons)
  then have ch: "m_free_next m = chunk_at base cs i" "chunk_at base cs i \<noteq> 0" "chain (mmem m) (mmem m (chunk_at base cs i)) (chunks base cs (Suc i) N)"
    using Suc.prems(1) by (simp_all add: shared_chunks_def)
  define m1 where "m1 = m\<lparr>m_free_next := mmem m (chunk_at base cs i)\<rparr>"
  have a: "AllocateShared m = (?p, m1)" using ch by (simp add: AllocateShared_def m1_def Let_def)
  let ?m = "clear_chunk ?p m1"
  have m1: "m_chunk_size m1 = cs" "mmem m1 = mmem m" "m_node_id m1 = m_node_id m" using Suc.prems(3) by (simp_all add: m1_def)
  have "chain (mmem ?m) (m_free_next ?m) (chunks base cs (Suc i) N)"
  proof (rule chain_cong)
    show "chain (mmem m) (m_free_next ?m) (chunks base cs (Suc i) N)" using ch(3) by (simp add: m1_def)
    fix x assume "x \<in> set (chunks base cs (Suc i) N)"
    then obtain k where k: "x = chunk_at base cs k" "Suc i \<le> k" "k < N" by (auto simp: chunks_def)
    show "mmem ?m x = mmem m x"
      using clear_chunk_others [OF assms(1) i m1(1) k(3) w0, of "ucast (m_node_id m)"] k(1,2) m1(2) by simp
  qed
  then have s: "shared_chunks ?m (chunks base cs (Suc i) N)" by (simp add: shared_chunks_def)
  have c: "cleared (mmem ?m) base cs 0 (Suc i)"
    unfolding cleared_def
  proof (intro allI impI)
    fix k w assume k: "0 \<le> k" "k < Suc i" "w < unat cs div 8"
    show "mmem ?m (chunk_at base cs k + 8 * of_nat w) = 0"
    proof (cases "k = i")
      case True
      then show ?thesis using clear_chunk_cleared [OF assms(1) i m1(1) k(3)] by simp
    next
      case False
      then have "mmem ?m (chunk_at base cs k + 8 * of_nat w) = mmem m (chunk_at base cs k + 8 * of_nat w)"
        using clear_chunk_others [OF assms(1) i m1(1) _ k(3) False, of "ucast (m_node_id m)"] k(2) i m1(2) by simp
      then show ?thesis using Suc.prems(4) False k(2,3) by (simp add: cleared_def)
    qed
  qed
  obtain m' where "AllocateLocalLocks n ?m = Some (Inr (map (\<lambda>k. ptr_make (ucast (m_node_id ?m)) (chunk_at base cs k)) [Suc i..<Suc i + n], m'))"
      "shared_chunks m' (chunks base cs (Suc i + n) N)" "cleared (mmem m') base cs 0 (Suc i + n)" "m_chunk_size m' = cs"
    using Suc.IH [OF s] Suc.prems(2) m1(1) c by auto
  moreover have "ptr_address ?p \<noteq> 0" using ptr_make_chunk(2) [OF assms(1) i, of "ucast (m_node_id m)"] ch(2) by simp
  moreover have "[i..<i + Suc n] = i # [Suc i..<Suc i + n]" by (simp add: upt_conv_Cons del: upt_Suc)
  ultimately show ?case using a m1 by (simp del: upt_Suc)
qed simp

section \<open>The table that the other nodes compute\<close>

lemma lock_table_entry:
  assumes "fits base cs n" and "j < n" and "j * unat cs < 2 ^ 32"
  shows "ptr_add (ptr_make nid base) (ucast (of_nat j * (ucast cs :: u32))) = ptr_make nid (chunk_at base cs j)"
proof -
  have c0: "chunk_at base cs 0 = base" by (simp add: chunk_at_def)
  have n0: "0 < n" using assms(2) by simp
  note P = ptr_make_chunk [OF assms(1)]
  have "unat (of_nat j * (ucast cs :: u32)) = (j * unat cs) mod 2 ^ 32"
    by (simp add: unat_word_ariths unsigned_of_nat unsigned_ucast_eq take_bit_eq_mod mod_mult_eq)
  then have off: "unat (ucast (of_nat j * (ucast cs :: u32)) :: u64) = j * unat cs"
    using assms(3) by (simp add: unsigned_ucast_eq take_bit_eq_mod)
  have "Suc j * unat cs \<le> n * unat cs" using assms(2) by (intro mult_le_mono1) simp
  then have le: "unat base + j * unat cs < 2 ^ 48" using assms(1) by (simp add: fits_def)
  let ?q = "ptr_add (ptr_make nid base) (ucast (of_nat j * (ucast cs :: u32)))"
  have small: "(ucast (of_nat j * (ucast cs :: u32)) :: u64) < 2 ^ 48" using off le by (simp add: word_less_nat_alt)
  have "ptr_id ?q = nid" "ptr_address ?q = base + ucast (of_nat j * (ucast cs :: u32))"
    using ptr_add_fields [OF small, of "ptr_make nid base"] P [OF n0, of nid, unfolded c0] off le by simp_all
  moreover have "base + ucast (of_nat j * (ucast cs :: u32)) = chunk_at base cs j"
    using off le unat_chunk_at [OF fits_room [OF assms(1)] assms(2)] by (simp add: word_unat_eq_iff unat_word_ariths)
  ultimately show ?thesis using P [OF assms(2), of nid] by (intro ptr_fields_eqI) simp_all
qed

text \<open>
  C37: Set-up of a node's locks: with enough chunks in the shared list the locks are its first chunks, each
  cleared, and the table that every other node works out from the first lock is the same list, provided that
  the locks take up at most \<open>2 ^ 32\<close> bytes.
\<close>

theorem lock_tables_agree:
  assumes "chain (mmem m) (m_free_next m) (chunks base cs 0 N)" and "m_chunk_size m = cs" and "fits base cs N"
    and "0 < n" "n \<le> N" "n * unat cs \<le> 2 ^ 32"
  shows "\<exists>locks m'. AllocateLocalLocks n m = Some (Inr (locks, m')) \<and>
    locks = map (\<lambda>k. ptr_make (ucast (m_node_id m)) (chunk_at base cs k)) [0..<n] \<and>
    lock_table (hd locks) n (ucast (GetChunkSize m')) = locks \<and> cleared (mmem m') base cs 0 n \<and>
    chain (mmem m') (m_free_next m') (chunks base cs n N)"
proof -
  let ?locks = "map (\<lambda>k. ptr_make (ucast (m_node_id m)) (chunk_at base cs k)) [0..<n]"
  obtain m' where m': "AllocateLocalLocks n m = Some (Inr (?locks, m'))" "shared_chunks m' (chunks base cs n N)"
      "cleared (mmem m') base cs 0 n" "m_chunk_size m' = cs"
    using allocate_locks [OF assms(3), of m 0 n] assms(1,2,5) by (auto simp: shared_chunks_def cleared_def)
  have c0: "chunk_at base cs 0 = base" by (simp add: chunk_at_def)
  have "hd ?locks = ptr_make (ucast (m_node_id m)) base" using assms(4) by (simp add: hd_map c0)
  moreover have "j * unat cs < 2 ^ 32" if "j < n" for j
  proof -
    have "Suc j * unat cs \<le> n * unat cs" using that by (intro mult_le_mono1) simp
    moreover have "8 \<le> unat cs" using assms(3) by (simp add: fits_def)
    ultimately show ?thesis using assms(6) by simp
  qed
  ultimately have "lock_table (hd ?locks) n (ucast (GetChunkSize m')) = ?locks"
    using lock_table_entry [OF assms(3)] assms(5) m'(4) by (simp add: lock_table_def GetChunkSize_def)
  then show ?thesis using m' by (auto simp: shared_chunks_def)
qed

theorem lock_tables_agree_witness:
  "\<exists>locks m'. AllocateLocalLocks 2 ((Manager_new \<lparr>w_mem = (\<lambda>a. if a < 4288 then a + 64 else 0), w_rest = ()\<rparr>)
       \<lparr>m_free_next := 4096, m_chunk_size := 64, m_node_id := 3\<rparr>) = Some (Inr (locks, m')) \<and>
     locks = [ptr_make 3 4096, ptr_make 3 4160] \<and> lock_table (hd locks) 2 64 = locks \<and> mmem m' 4160 = 0"
proof -
  let ?m = "(Manager_new \<lparr>w_mem = (\<lambda>a :: u64. if a < 4288 then a + 64 else 0), w_rest = ()\<rparr>)
       \<lparr>m_free_next := 4096, m_chunk_size := 64, m_node_id := 3\<rparr>"
  have "chain (mmem ?m) (m_free_next ?m) (chunks 4096 64 0 4)" by code_simp
  moreover have "m_chunk_size ?m = 64" "fits 4096 64 4" "(0 :: nat) < 2" "(2 :: nat) \<le> 4" "2 * unat (64 :: u64) \<le> 2 ^ 32"
    by (simp_all add: fits_def)
  ultimately obtain locks m' where l: "AllocateLocalLocks 2 ?m = Some (Inr (locks, m'))"
      "locks = map (\<lambda>k. ptr_make (ucast (m_node_id ?m)) (chunk_at 4096 64 k)) [0..<2]"
      "lock_table (hd locks) 2 (ucast (GetChunkSize m')) = locks" "cleared (mmem m') 4096 64 0 2"
    using lock_tables_agree [of ?m 4096 64 4 2] by blast
  have "map (\<lambda>k. ptr_make (ucast (m_node_id ?m)) (chunk_at 4096 64 k)) [0..<2] = [ptr_make 3 4096, ptr_make 3 4160]" by code_simp
  then have locks: "locks = [ptr_make 3 4096, ptr_make 3 4160]" using l(2) by simp
  have "mmem m' (chunk_at 4096 64 1 + 8 * of_nat 0) = 0" by (rule l(4) [unfolded cleared_def, rule_format]) simp_all
  then have "mmem m' 4160 = 0" by (simp add: chunk_at_def)
  moreover have "lock_table (hd [ptr_make 3 4096, ptr_make 3 4160]) 2 64 = [ptr_make 3 4096, ptr_make 3 4160]" by code_simp
  ultimately show ?thesis using l(1) locks by blast
qed

text \<open>
  The product with the chunk size is taken in 32 bits: when the locks of a node take up more than \<open>2 ^ 32\<close>
  bytes, the other nodes find its first lock again where its lock number \<open>2 ^ 32 div chunk_size\<close> is.
\<close>

theorem lock_table_wraps:
  assumes "fits base cs N" and "j < N" and "j < n" and "j * unat cs = 2 ^ 32"
  shows "lock_table (ptr_make nid base) n (ucast cs) ! j = ptr_make nid base \<and>
    ptr_make nid (chunk_at base cs j) \<noteq> ptr_make nid base"
proof -
  have "unat (of_nat j * (ucast cs :: u32)) = (j * unat cs) mod 2 ^ 32"
    by (simp add: unat_word_ariths unsigned_of_nat unsigned_ucast_eq take_bit_eq_mod mod_mult_eq)
  then have "of_nat j * (ucast cs :: u32) = 0" using assms(4) by (simp add: unsigned_eq_0_iff)
  moreover have "lock_table (ptr_make nid base) n (ucast cs) ! j = ptr_add (ptr_make nid base) (ucast (of_nat j * (ucast cs :: u32)))"
    using assms(3) by (simp add: lock_table_def)
  ultimately have t: "lock_table (ptr_make nid base) n (ucast cs) ! j = ptr_make nid base"
    by (simp add: ptr_add_def ptr_of_raw_def)
  have "0 < N" using assms(2) by simp
  moreover have "j \<noteq> 0"
  proof
    assume "j = 0"
    with assms(4) show False by simp
  qed
  ultimately have "chunk_at base cs j \<noteq> chunk_at base cs 0"
    using inj_onD [OF chunk_at_inj [OF fits_room [OF assms(1)]], of j 0] assms(2) by auto
  moreover have "ptr_address (ptr_make nid (chunk_at base cs j)) = chunk_at base cs j"
      "ptr_address (ptr_make nid (chunk_at base cs 0)) = chunk_at base cs 0"
    using ptr_make_chunk(2) [OF assms(1)] assms(2) \<open>0 < N\<close> by blast+
  moreover have "chunk_at base cs 0 = base" by (simp add: chunk_at_def)
  ultimately have "ptr_make nid (chunk_at base cs j) \<noteq> ptr_make nid base" by metis
  with t show ?thesis by blast
qed

theorem lock_table_wraps_witness:
  "lock_table (ptr_make 1 4096) 67108865 64 ! 67108864 = ptr_make 1 4096 \<and>
    ptr_make 1 (chunk_at 4096 64 67108864) \<noteq> ptr_make 1 4096"
proof -
  have "fits 4096 64 67108865" "(67108864 :: nat) < 67108865" "67108864 * unat (64 :: u64) = 2 ^ 32"
    by (simp_all add: fits_def)
  then have "lock_table (ptr_make 1 4096) 67108865 (ucast (64 :: u64)) ! 67108864 = ptr_make 1 4096 \<and>
      ptr_make 1 (chunk_at 4096 64 67108864) \<noteq> ptr_make 1 4096"
    by (intro lock_table_wraps)
  then show ?thesis by simp
qed

section \<open>The exchange of the tables\<close>

text \<open>The messages of all nodes in one order: pair by pair, the lower node first.\<close>

definition exchange_messages :: "nat \<Rightarrow> (nat \<times> nat) list" where
  "exchange_messages n = concat (map (\<lambda>a. concat (map (\<lambda>b. [(a, b), (b, a)]) [Suc a..<n])) [0..<n])"

lemma exchange_proper: "proper (exchange_messages n)"
  by (auto simp: proper_def exchange_messages_def)

lemma view_of_row:
  "view_of x (concat (map (\<lambda>b. [(a, b), (b, a)]) bs)) =
     (if x = a then concat (map (\<lambda>b. [Snd b, if b = a then Snd a else Rcv b]) bs)
      else concat (map (\<lambda>b. if b = x then [Rcv a, Snd a] else []) bs))"
  by (induction bs) auto

lemma concat_single:
  "distinct bs \<Longrightarrow> concat (map (\<lambda>b. if b = x then ys else []) bs) = (if x \<in> set bs then ys else [])"
  by (induction bs) auto

lemma exchange_view:
  assumes "x < n"
  shows "view_of x (exchange_messages n) = exchange_script n x"
proof -
  let ?row = "\<lambda>a. view_of x (concat (map (\<lambda>b. [(a, b), (b, a)]) [Suc a..<n]))"
  have low: "?row a = [Rcv a, Snd a]" if "a < x" for a
    using that assms by (simp add: view_of_row concat_single)
  have mid: "?row x = concat (map (\<lambda>b. [Snd b, Rcv b]) [Suc x..<n])"
  proof -
    have "map (\<lambda>b. [Snd b, if b = x then Snd x else Rcv b]) [Suc x..<n] = map (\<lambda>b. [Snd b, Rcv b]) [Suc x..<n]"
      by (rule map_cong) auto
    then show ?thesis by (simp only: view_of_row simp_thms if_True)
  qed
  have high: "?row a = []" if "x < a" for a using that by (simp add: view_of_row concat_single)
  have split: "[0..<n] = [0..<x] @ x # [Suc x..<n]"
    using assms by (metis le0 less_imp_le_nat upt_add_eq_append upt_conv_Cons le_add_diff_inverse)
  have "view_of x (exchange_messages n) = concat (map ?row [0..<n])"
    by (simp add: exchange_messages_def view_of_concat comp_def)
  also have "\<dots> = concat (map ?row [0..<x]) @ ?row x @ concat (map ?row [Suc x..<n])" unfolding split by simp
  also have "map ?row [0..<x] = map (\<lambda>a. [Rcv a, Snd a]) [0..<x]" by (rule map_cong) (use low in auto)
  also have "map ?row [Suc x..<n] = map (\<lambda>a. []) [Suc x..<n]" by (rule map_cong) (use high in auto)
  also have "concat (map (\<lambda>a. [Rcv a, Snd a]) [0..<x]) @ ?row x @ concat (map (\<lambda>a. []) [Suc x..<n]) = exchange_script n x"
  proof -
    let ?f = "\<lambda>i. if i = x then [] else if x < i then [Snd i, Rcv i] else [Rcv i, Snd i]"
    have e: "map (\<lambda>a. [Rcv a, Snd a]) [0..<x] = map ?f [0..<x]" "map (\<lambda>b. [Snd b, Rcv b]) [Suc x..<n] = map ?f [Suc x..<n]"
      by (auto intro!: map_cong)
    have "concat (map (\<lambda>a. [] :: action list) [Suc x..<n]) = []" by simp
    then show ?thesis unfolding exchange_script_def split mid e by simp
  qed
  finally show ?thesis .
qed

text \<open>What is received in the exchange: one message from every other node, in the order of the nodes.\<close>

lemma deliver_append: "deliver msg x got (as @ bs) = deliver msg x (deliver msg x got as) bs"
  by (induction msg x got as rule: deliver.induct) auto

lemma exchange_received:
  fixes v :: "nat \<Rightarrow> 'v"
  shows "deliver (\<lambda>x y k. v x) me [] (exchange_script n me) = map (\<lambda>i. (i, v i)) (filter (\<lambda>i. i \<noteq> me) [0..<n])"
proof (induction n)
  case (Suc n)
  have "exchange_script (Suc n) me = exchange_script n me @ (if n = me then [] else if me < n then [Snd n, Rcv n] else [Rcv n, Snd n])"
    by (simp add: exchange_script_def)
  then show ?case using Suc by (simp add: deliver_append)
qed (simp add: exchange_script_def)

lemma exchange_outside: "n \<le> x \<Longrightarrow> view_of x (exchange_messages n) = []"
  by (rule view_of_none) (auto simp: exchange_messages_def)

lemma exchange_count: "length (exchange_messages n) = n * (n - 1)"
proof -
  have "length (exchange_messages n) = (\<Sum>a\<leftarrow>[0..<n]. 2 * (n - Suc a))"
    by (simp add: exchange_messages_def length_concat comp_def sum_list_triv mult_2)
  also have "\<dots> = 2 * (\<Sum>a\<in>{0..<n}. n - Suc a)" by (simp add: sum_list_distinct_conv_sum_set sum_distrib_left)
  also have "(\<Sum>a\<in>{0..<n}. n - Suc a) = (\<Sum>a\<in>{0..<n}. a)" 
    using sum.nat_diff_reindex [of "\<lambda>a. a" n] by (simp add: lessThan_atLeast0)
  also have "2 * (\<Sum>a\<in>{0..<n}. a) = n * (n - 1)" by (induction n) (auto simp: algebra_simps)
  finally show ?thesis .
qed

text \<open>The messages of either distribution, and the nodes from which a node gets locks.\<close>

fun table_messages :: "distribution \<Rightarrow> nat \<Rightarrow> (nat \<times> nat) list" where
  "table_messages Uniform n = exchange_messages n"
| "table_messages (Selective hosts) n = concat (map (\<lambda>a. map (Pair a) [unat hosts..<n]) [0..<unat hosts])"

fun table_sources :: "distribution \<Rightarrow> nat \<Rightarrow> nat \<Rightarrow> nat list" where
  "table_sources Uniform n x = filter (\<lambda>i. i \<noteq> x) [0..<n]"
| "table_sources (Selective hosts) n x = (if x < unat hosts then [] else [0..<unat hosts])"

fun table_count :: "distribution \<Rightarrow> nat \<Rightarrow> nat" where
  "table_count Uniform n = n * (n - 1)"
| "table_count (Selective hosts) n = unat hosts * (n - unat hosts)"

text \<open>There are at most as many hosts as nodes can be numbered.\<close>

fun hosts_numbered :: "distribution \<Rightarrow> bool" where
  "hosts_numbered Uniform = True"
| "hosts_numbered (Selective hosts) = (unat hosts < 2 ^ 16)"

lemma hosts_numbered_loop: "hosts_numbered (Selective hosts) \<Longrightarrow> unat (ucast hosts :: u16) = unat hosts"
  by (simp add: unsigned_ucast_eq take_bit_nat_eq_self)

lemma table_count_messages: "length (table_messages d n) = table_count d n"
  by (cases d) (simp_all add: exchange_count length_concat comp_def sum_list_triv)

lemma table_proper: "proper (table_messages d n)"
proof (cases d)
  case Uniform
  then show ?thesis using exchange_proper by simp
next
  case (Selective hosts)
  then show ?thesis by (auto simp: proper_def)
qed

lemma view_of_fan:
  "view_of x (map (Pair a) bs) = (if a = x then map Snd bs else map (\<lambda>_. Rcv a) (filter (\<lambda>b. b = x) bs))"
  by (induction bs) auto

lemma filter_single: "distinct bs \<Longrightarrow> filter (\<lambda>b. b = x) bs = (if x \<in> set bs then [x] else [])"
  by (induction bs) auto

lemma selective_view:
  assumes "x < n" and "hosts_numbered (Selective hosts)"
  shows "view_of x (table_messages (Selective hosts) n) = table_script (Selective hosts) n x"
proof -
  let ?h = "unat hosts"
  let ?row = "\<lambda>a. view_of x (map (Pair a) [?h..<n])"
  have v: "view_of x (table_messages (Selective hosts) n) = concat (map ?row [0..<?h])"
    by (simp add: view_of_concat comp_def)
  note t = table_script.simps(2) hosts_numbered_loop [OF assms(2)]
  show ?thesis
  proof (cases "x < ?h")
    case True
    have e: "map ?row [0..<?h] = map (\<lambda>a. if a = x then map Snd [?h..<n] else []) [0..<?h]"
      by (rule map_cong) (use True in \<open>auto simp: view_of_fan filter_single\<close>)
    show ?thesis unfolding v e t using True by (simp add: concat_single)
  next
    case False
    have e: "map ?row [0..<?h] = map (\<lambda>a. [Rcv a]) [0..<?h]"
      by (rule map_cong) (use False assms in \<open>auto simp: view_of_fan filter_single\<close>)
    show ?thesis unfolding v e t using False by (simp add: concat_map_singleton)
  qed
qed

lemma table_view:
  assumes "hosts_numbered d"
  shows "(if x < n then table_script d n x else []) = view_of x (table_messages d n)"
proof (cases "x < n")
  case True
  show ?thesis
  proof (cases d)
    case Uniform
    then show ?thesis using True exchange_view [OF True] by simp
  next
    case (Selective hosts)
    then show ?thesis using True selective_view [OF True, of hosts] assms by simp
  qed
next
  case False
  have "view_of x (table_messages d n) = []"
    using False exchange_outside [of n x] by (cases d) (auto intro!: view_of_none)
  with False show ?thesis by simp
qed

lemma deliver_sends: "deliver msg x got (map Snd ys) = got"
  by (induction ys) auto

lemma deliver_receives: "deliver (\<lambda>x y k. v x) me got (map Rcv ys) = got @ map (\<lambda>i. (i, v i)) ys"
  by (induction ys arbitrary: got) auto

lemma table_received:
  "deliver (\<lambda>x y k. v x) x [] (table_script d n x) = map (\<lambda>i. (i, v i)) (table_sources d n x)"
  by (cases d) (auto simp: exchange_received deliver_sends deliver_receives)

lemma table_sender:
  assumes "hosts_numbered d" and "Snd y \<in> set (table_script d n x)" and "x < n"
  shows "y < n \<and> x \<in> set (table_sources d n y)"
proof (cases d)
  case Uniform
  then show ?thesis using assms(2,3) by (auto simp: exchange_script_def split: if_splits)
next
  case (Selective hosts)
  then show ?thesis using assms hosts_numbered_loop [of hosts] by (auto split: if_splits)
qed

lemma table_message_hd: "locks \<noteq> [] \<Longrightarrow> table_message locks = Some (praw (hd locks))"
  by (cases locks) simp_all

text \<open>What the tables received mean: the locks worked out from the first lock of every source.\<close>

lemma remote_tables_received:
  "remote_tables (map (\<lambda>i. praw (hd (locks i))) xs) nl csize = concat (map (\<lambda>i. lock_table (hd (locks i)) nl csize) xs)"
proof -
  have "ptr_of_raw (praw q) = q" for q by (simp add: ptr_of_raw_def)
  then show ?thesis by (simp add: remote_tables_def comp_def)
qed

text \<open>
  C38: The distribution of the lock tables among \<open>n\<close> nodes cannot block, neither the uniform one nor the selective
  one with fewer than \<open>2 ^ 16\<close> hosts, when every node that others get locks from has a lock.  A node sends its first
  lock.  As long as messages are outstanding two nodes can go on, and in the end every node is done, has the
  first lock of every node it is to get locks from, in the order of the nodes, and works out from them the
  tables of these nodes.
\<close>

theorem tables_distributed:
  fixes locks :: "nat \<Rightarrow> Pointer list"
  defines "msg \<equiv> (\<lambda>x y k :: nat. the (table_message (locks x)))"
  assumes "hosts_numbered d" and "\<forall>x < n. \<forall>i \<in> set (table_sources d n x). locks i \<noteq> []"
    and "(rendezvous msg ^^ k) (network_init (\<lambda>x. if x < n then table_script d n x else [])) s"
  shows "(\<forall>x < n. \<forall>y. Snd y \<in> set (table_script d n x) \<longrightarrow> run_script vb (locks x) [Snd y] m =
      bnd (on_pool0 (Send64 vb (of_nat y) (praw (hd (locks x)))) m) (\<lambda>_ m'. Some (Inr ([], m')))) \<and>
    k \<le> table_count d n \<and> (k < table_count d n \<longrightarrow> (\<exists>s'. rendezvous msg s s')) \<and>
    (k = table_count d n \<longrightarrow> (\<forall>x < n. script s x = [] \<and>
       received s x = map (\<lambda>i. (i, praw (hd (locks i)))) (table_sources d n x) \<and>
       remote_tables (map snd (received s x)) nl csize = concat (map (\<lambda>i. lock_table (hd (locks i)) nl csize) (table_sources d n x))))"
proof -
  have sent: "run_script vb (locks x) [Snd y] m =
      bnd (on_pool0 (Send64 vb (of_nat y) (praw (hd (locks x)))) m) (\<lambda>_ m'. Some (Inr ([], m')))"
    if "x < n" "Snd y \<in> set (table_script d n x)" for x y
  proof -
    have "run_script vb (locks x) [] = (\<lambda>m'. Some (Inr ([], m')))" by (intro ext) simp
    then show ?thesis using table_sender [OF assms(2) that(2,1)] assms(3) by (auto simp: table_message_hd)
  qed
  have "received s x = map (\<lambda>i. (i, praw (hd (locks i)))) (table_sources d n x)" if "x < n" "k = table_count d n" for x
  proof -
    have "received s x = map (\<lambda>i. (i, the (table_message (locks i)))) (table_sources d n x)"
      using views_complete [OF table_proper table_view [OF assms(2)] assms(4)] that
      unfolding table_count_messages msg_def by (simp add: table_received)
    also have "\<dots> = map (\<lambda>i. (i, praw (hd (locks i)))) (table_sources d n x)"
      using assms(3) that(1) by (auto simp: table_message_hd)
    finally show ?thesis .
  qed
  moreover have "map snd (map (\<lambda>i. (i, praw (hd (locks i)))) xs) = map (\<lambda>i. praw (hd (locks i))) xs" for xs :: "nat list"
    by simp
  ultimately show ?thesis
    using views_complete [OF table_proper table_view [OF assms(2)] assms(4)] sent
    unfolding table_count_messages by (simp add: remote_tables_received comp_def)
qed

text \<open>Three nodes, of which node 0 is the host: after two messages the others have its table.\<close>

theorem tables_distributed_witness:
  "\<exists>s. (rendezvous (\<lambda>x y k. the (table_message ((\<lambda>_. [ptr_make 0 4096, ptr_make 0 4160]) x))) ^^ 2)
      (network_init (\<lambda>x. if x < 3 then table_script (Selective 1) 3 x else [])) s \<and>
     remote_tables (map snd (received s 2)) 2 64 = lock_table (ptr_make 0 4096) 2 64"
proof -
  let ?locks = "\<lambda>_ :: nat. [ptr_make 0 4096, ptr_make 0 4160]"
  let ?msg = "\<lambda>x y k :: nat. the (table_message (?locks x))"
  let ?s0 = "network_init (\<lambda>x. if x < 3 then table_script (Selective 1) 3 x else [])"
  have h: "hosts_numbered (Selective 1)" "\<forall>x < 3. \<forall>i \<in> set (table_sources (Selective 1) 3 x). ?locks i \<noteq> []"
    "table_count (Selective 1) 3 = 2" and node2: "(2 :: nat) < 3" by simp_all
  note T = conjunct2 [OF tables_distributed [where locks = ?locks, OF h(1,2)], unfolded h(3)]
  have 0: "(rendezvous ?msg ^^ 0) ?s0 ?s0" by simp
  from T [OF this] obtain s1 where s1: "rendezvous ?msg ?s0 s1" by fastforce
  then have 1: "(rendezvous ?msg ^^ 1) ?s0 s1" by auto
  from T [OF this] obtain s2 where s2: "rendezvous ?msg s1 s2" by fastforce
  have "(rendezvous ?msg ^^ 2) ?s0 s2" using s1 s2 by (auto simp: numeral_2_eq_2)
  moreover from T [OF this, of 2 64]
  have "remote_tables (map snd (received s2 2)) 2 64 =
      concat (map (\<lambda>i. lock_table (hd (?locks i)) 2 64) (table_sources (Selective 1) 3 2))"
    using node2 by blast
  then have "remote_tables (map snd (received s2 2)) 2 64 = lock_table (ptr_make 0 4096) 2 64" by simp
  ultimately show ?thesis by blast
qed

section \<open>The choice of locks\<close>

lemma pick_total:
  assumes "locks \<noteq> []" and "length locks < 2 ^ 32"
  shows "\<exists>lock r'. pick locks r = Some (lock, r') \<and> lock \<in> set locks"
proof -
  let ?n = "of_nat (length locks) :: u32"
  have n: "unat ?n = length locks" using assms(2) by (simp add: unsigned_of_nat take_bit_nat_eq_self)
  then have "?n \<noteq> 0" using assms(1) by (metis length_0_conv unat_0)
  then have "?n - 1 \<noteq> - 1" "unat (?n - 1) = length locks - 1" using n by (simp_all add: unat_minus_one)
  moreover from this obtain k r' where k: "uniform_within 0 (?n - 1) r = Some (k, r')" "k \<le> ?n - 1"
    using uniform_within_total [of 0 "?n - 1" r] by auto
  moreover have "0 < length locks" using assms(1) by simp
  ultimately have "unat k < length locks" unfolding word_le_nat_alt by linarith
  then show ?thesis using k(1) by (simp add: pick_def)
qed

text \<open>
  A thread always gets a lock, from its own node's table or from the other nodes' as the percentage says,
  when the tables it may have to use are not empty.
\<close>

theorem choose_lock_total:
  assumes "local_locks \<noteq> [] \<or> pct = 0" and "remote_locks \<noteq> [] \<or> 100 \<le> pct"
    and "length local_locks < 2 ^ 32" and "length remote_locks < 2 ^ 32"
  shows "\<exists>lock sd r'. choose_lock pct local_locks remote_locks r = Some ((lock, sd), r') \<and>
    lock \<in> set (if sd = Local then local_locks else remote_locks)"
proof -
  obtain lr g where lr: "uniform_within 0 99 (rng r) = Some (lr, g)" "lr \<le> 99"
    using uniform_within_total [of 0 99 "rng r"] by auto
  show ?thesis
  proof (cases "lr < pct")
    case True
    then have "local_locks \<noteq> []" using assms(1) by auto
    from pick_total [OF this assms(3), of "rngl r"] show ?thesis using lr True by (auto simp: choose_lock_def)
  next
    case False
    have "\<not> 100 \<le> pct"
    proof
      assume "100 \<le> pct"
      moreover have "pct \<le> 99" using False lr(2) by simp
      ultimately show False by (simp add: word_le_nat_alt)
    qed
    then have "remote_locks \<noteq> []" using assms(2) by blast
    from pick_total [OF this assms(4), of "rngr r"] show ?thesis using lr False by (auto simp: choose_lock_def)
  qed
qed

theorem choose_lock_total_witness:
  "\<exists>lock sd r'. choose_lock 100 [ptr_make 0 4096, ptr_make 0 4160] [] \<lparr>rng = \<lparr>seed = 1\<rparr>, rngl = \<lparr>seed = 2\<rparr>, rngr = \<lparr>seed = 3\<rparr>\<rparr> =
     Some ((lock, sd), r') \<and> lock \<in> set (if sd = Local then [ptr_make 0 4096, ptr_make 0 4160] else [])"
  by (rule choose_lock_total) simp_all

text \<open>An empty table is not noticed: the bound wraps around to the whole range.\<close>

lemma pick_empty: "pick [] r = None"
  by (simp add: pick_def uniform_within_whole)

end
