(* ===== verification/BenchResult.thy ===== *)
theory BenchResult
  imports UniformRandom "HOL-Library.Multiset"
begin

text \<open>
  The sample collection of the benchmark (\<^verbatim>\<open>include/benchmark/result.h\<close>): a reservoir of at most \<^verbatim>\<open>max_size_\<close>
  samples with sums and order statistics.  The operations that return floating-point numbers (\<^verbatim>\<open>Mean\<close>,
  \<^verbatim>\<open>Variance\<close> and what is derived from them) are not modelled; the floating-point product in \<^verbatim>\<open>Percentile\<close> is a
  parameter.  \<open>None\<close>: the process is killed by a division by zero.
\<close>

section \<open>Model\<close>

record Result =
  random :: UniformRandom
  max_size :: u32
  number_of_samples :: u32
  samples :: "u64 list"
  sorted_flag :: bool

definition Result_new :: "u32 \<Rightarrow> u32 \<Rightarrow> Result" where
  "Result_new thread_id max_sz = \<lparr>random = \<lparr>seed = ucast thread_id\<rparr>, max_size = max_sz, number_of_samples = 0,
     samples = replicate (unat max_sz) 0, sorted_flag = False\<rparr>"

text \<open>\<^verbatim>\<open>operator<<\<close>\<close>

definition add_sample :: "u64 \<Rightarrow> Result \<Rightarrow> Result option" where
  "add_sample sample r =
     (if max_size r \<le> number_of_samples r then
        (case uniform_within 0 (number_of_samples r - 1) (random r) of None \<Rightarrow> None
         | Some (k, rnd) \<Rightarrow> Some (r\<lparr>random := rnd,
             samples := (if k < max_size r then (samples r)[unat k := sample] else samples r),
             number_of_samples := number_of_samples r + 1\<rparr>))
      else Some (r\<lparr>samples := (samples r)[unat (number_of_samples r) := sample],
        number_of_samples := number_of_samples r + 1\<rparr>))"

fun add_samples :: "u64 list \<Rightarrow> Result \<Rightarrow> Result option" where
  "add_samples [] r = Some r"
| "add_samples (x # xs) r = (case add_sample x r of None \<Rightarrow> None | Some r' \<Rightarrow> add_samples xs r')"

definition Reset :: "Result \<Rightarrow> Result" where
  "Reset r = r\<lparr>number_of_samples := 0\<rparr>"

definition clip :: "Result \<Rightarrow> Result" where
  "clip r = (if max_size r < number_of_samples r then r\<lparr>number_of_samples := max_size r\<rparr> else r)"

definition Sum :: "Result \<Rightarrow> u64 \<times> Result" where
  "Sum r = (if number_of_samples r = 0 then (0, r)
     else let r = clip r in (fold (\<lambda>x sum. sum + x) (take (unat (number_of_samples r)) (samples r)) 0, r))"

text \<open>\<^verbatim>\<open>operator+=\<close>\<close>

definition add_result :: "Result \<Rightarrow> Result \<Rightarrow> Result option" where
  "add_result r other = add_samples (take (unat (min (max_size other) (number_of_samples other))) (samples other)) r"

definition Sort :: "Result \<Rightarrow> Result" where
  "Sort r = (if number_of_samples r = 0 then r
     else let r = (if max_size r < number_of_samples r then r\<lparr>number_of_samples := max_size r, sorted_flag := False\<rparr> else r)
          in if sorted_flag r then r
             else let n = unat (number_of_samples r)
                  in r\<lparr>samples := sort (take n (samples r)) @ drop n (samples r), sorted_flag := True\<rparr>)"

text \<open>
  \<open>in_range\<close>: the percentile is between 0 and 100; \<open>idx n\<close>: \<^verbatim>\<open>static_cast<uint32_t>(n * (percentile / 100))\<close>.
\<close>

definition Percentile :: "bool \<Rightarrow> (u32 \<Rightarrow> u32) \<Rightarrow> Result \<Rightarrow> u64 \<times> Result" where
  "Percentile in_range idx r =
     (if number_of_samples r = 0 \<or> \<not> in_range then (0, r)
      else let r = Sort (clip r)
           in (samples r ! unat (min (idx (number_of_samples r)) (number_of_samples r - 1)), r))"

definition Max_sample :: "Result \<Rightarrow> u64 \<times> Result" where
  "Max_sample r = (if number_of_samples r = 0 then (0, r)
     else let r = Sort r in (samples r ! unat (number_of_samples r - 1), r))"

definition Min_sample :: "Result \<Rightarrow> u64 \<times> Result" where
  "Min_sample r = (if number_of_samples r = 0 then (0, r) else let r = Sort r in (samples r ! 0, r))"

definition Size :: "Result \<Rightarrow> u32" where
  "Size r = min (number_of_samples r) (max_size r)"

section \<open>Filling\<close>

text \<open>\<open>holds r xs\<close>: the reservoir has the samples \<open>xs\<close>, all of them, and has not been sorted.\<close>

definition holds :: "Result \<Rightarrow> u64 list \<Rightarrow> bool" where
  "holds r xs \<longleftrightarrow> length (samples r) = unat (max_size r) \<and> unat (number_of_samples r) = length xs \<and>
     length xs \<le> unat (max_size r) \<and> take (length xs) (samples r) = xs \<and> \<not> sorted_flag r"

lemma holds_new: "holds (Result_new t m) []"
  by (simp add: holds_def Result_new_def)

lemma unat_Suc_32: "unat n < unat m \<Longrightarrow> unat (n + 1) = Suc (unat n)" for n m :: u32
proof -
  assume "unat n < unat m"
  moreover have "unat m < 2 ^ 32" using unsigned_less [of m] by simp
  ultimately have "unat n + unat (1 :: u32) < 2 ^ LENGTH(32)" by simp
  then show ?thesis by (simp add: unat_add_lem [THEN iffD1])
qed

lemma holds_add:
  assumes "holds r xs" and "length xs < unat (max_size r)"
  shows "\<exists>r'. add_sample x r = Some r' \<and> holds r' (xs @ [x]) \<and> max_size r' = max_size r"
proof -
  have n: "unat (number_of_samples r) < unat (max_size r)" "length xs = unat (number_of_samples r)"
    using assms by (simp_all add: holds_def)
  have "\<not> max_size r \<le> number_of_samples r" using n(1) by (simp add: word_le_nat_alt)
  moreover have "unat (number_of_samples r + 1) = Suc (unat (number_of_samples r))" by (rule unat_Suc_32 [OF n(1)])
  ultimately show ?thesis
    using assms n by (auto simp: add_sample_def holds_def take_Suc_conv_app_nth)
qed

lemma holds_fill:
  "holds r xs \<Longrightarrow> length xs + length ys \<le> unat (max_size r) \<Longrightarrow>
     \<exists>r'. add_samples ys r = Some r' \<and> holds r' (xs @ ys) \<and> max_size r' = max_size r"
proof (induction ys arbitrary: r xs)
  case (Cons y ys)
  obtain r1 where r1: "add_sample y r = Some r1" "holds r1 (xs @ [y])" "max_size r1 = max_size r"
    using holds_add [OF Cons.prems(1), of y] Cons.prems(2) by auto
  from Cons.IH [OF r1(2)] show ?case using r1 Cons.prems(2) by auto
qed auto

section \<open>Order statistics\<close>

lemma holds_clip: "holds r xs \<Longrightarrow> clip r = r"
  by (auto simp: holds_def clip_def word_less_nat_alt)

lemma holds_Sort:
  assumes "holds r xs" and "xs \<noteq> []"
  shows "Sort r = r\<lparr>samples := sort xs @ drop (length xs) (samples r), sorted_flag := True\<rparr>"
proof -
  have "number_of_samples r \<noteq> 0" using assms by (auto simp: holds_def)
  moreover have "\<not> max_size r < number_of_samples r" using assms(1) by (simp add: holds_def word_less_nat_alt)
  ultimately show ?thesis using assms(1) by (auto simp: holds_def Sort_def Let_def)
qed

lemma fold_plus_sum_list: "fold (\<lambda>x sum. sum + x) xs (a :: u64) = a + sum_list xs"
  by (induction xs arbitrary: a) (simp_all add: algebra_simps)

lemma sort_nth: "i < length xs \<Longrightarrow> sort xs ! i \<in> set xs" for xs :: "u64 list"
  using nth_mem [of i "sort xs"] by simp

lemma sort_rank: "y \<in> set xs \<Longrightarrow> \<exists>i < length xs. sort xs ! i = y" for xs :: "u64 list"
proof -
  assume "y \<in> set xs"
  then have "y \<in> set (sort xs)" by simp
  then show ?thesis unfolding in_set_conv_nth by simp
qed

lemma sorted_last_Max: "xs \<noteq> [] \<Longrightarrow> sort xs ! (length xs - 1) = Max (set xs)" for xs :: "u64 list"
proof (rule Max_eqI [symmetric])
  assume ne: "xs \<noteq> []"
  then show "sort xs ! (length xs - 1) \<in> set xs" by (intro sort_nth) simp
  show "y \<le> sort xs ! (length xs - 1)" if "y \<in> set xs" for y
    using sort_rank [OF that] by (auto intro!: sorted_nth_mono)
qed simp

lemma sorted_first_Min: "xs \<noteq> [] \<Longrightarrow> sort xs ! 0 = Min (set xs)" for xs :: "u64 list"
proof (rule Min_eqI [symmetric])
  assume ne: "xs \<noteq> []"
  then show "sort xs ! 0 \<in> set xs" by (intro sort_nth) simp
  show "sort xs ! 0 \<le> y" if "y \<in> set xs" for y
    using sort_rank [OF that] by (auto intro!: sorted_nth_mono)
qed simp

lemma unat_pred_32: "n \<noteq> 0 \<Longrightarrow> unat (n - 1) = unat n - 1" for n :: u32
  by (metis unat_minus_one)

lemma unat_min_32: "unat (min a b) = min (unat a) (unat b)" for a b :: u32
  by (simp add: min_def word_le_nat_alt)

text \<open>
  C40: A new collection that has been filled with at least one and at most \<^verbatim>\<open>max_size_\<close> samples and has not been
  queried before reports them exactly, whichever query comes first: their number, their sum modulo
  \<open>2 ^ 64\<close>, the largest, the smallest, and for a percentile the sample at its rank in ascending order, the last
  one when the rank is too large.
\<close>

theorem statistics_exact:
  assumes "length xs \<le> unat m" and "xs \<noteq> []"
  shows "\<exists>r. add_samples xs (Result_new t m) = Some r \<and> unat (Size r) = length xs \<and> fst (Sum r) = sum_list xs \<and>
    fst (Max_sample r) = Max (set xs) \<and> fst (Min_sample r) = Min (set xs) \<and>
    fst (Percentile True idx r) = sort xs ! min (unat (idx (number_of_samples r))) (length xs - 1)"
proof -
  obtain r where r: "add_samples xs (Result_new t m) = Some r" "holds r xs"
    using holds_fill [OF holds_new, of xs t m] assms(1) by (auto simp: Result_new_def)
  have n: "number_of_samples r \<noteq> 0" "unat (number_of_samples r) = length xs" using r(2) assms(2) by (auto simp: holds_def)
  have p: "unat (number_of_samples r - 1) = length xs - 1" using unat_pred_32 [OF n(1)] n(2) by simp
  have lt: "length xs - 1 < length xs" using assms(2) by (cases xs) auto
  note S = holds_Sort [OF r(2) assms(2)] and C = holds_clip [OF r(2)]
  have "unat (Size r) = length xs" using r(2) by (simp add: Size_def unat_min_32 holds_def)
  moreover have "fst (Sum r) = sum_list xs" using r(2) n by (simp add: Sum_def C fold_plus_sum_list holds_def)
  moreover have "fst (Max_sample r) = Max (set xs)"
    using n p lt sorted_last_Max [OF assms(2)] by (simp add: Max_sample_def S nth_append)
  moreover have "fst (Min_sample r) = Min (set xs)"
    using n lt sorted_first_Min [OF assms(2)] assms(2) by (simp add: Min_sample_def S nth_append)
  moreover have "fst (Percentile True idx r) = sort xs ! min (unat (idx (number_of_samples r))) (length xs - 1)"
    using n p lt by (simp add: Percentile_def C S unat_min_32 nth_append min_less_iff_disj)
  ultimately show ?thesis using r(1) by blast
qed

theorem statistics_exact_witness:
  "\<exists>r. add_samples [5, 9, 2] (Result_new 1 4) = Some r \<and> fst (Sum r) = 16 \<and> fst (Max_sample r) = 9 \<and>
     fst (Min_sample r) = 2 \<and> fst (Percentile True (\<lambda>n. n div 2) r) = 5"
proof -
  have m: "Max (set [5, 9, 2 :: u64]) = 9" "Min (set [5, 9, 2 :: u64]) = 2" "sort [5, 9, 2 :: u64] = [2, 5, 9]" by code_simp+
  obtain r where r: "add_samples [5, 9, 2] (Result_new 1 4) = Some r" "fst (Sum r) = sum_list [5, 9, 2]"
      "fst (Max_sample r) = Max (set [5, 9, 2])" "fst (Min_sample r) = Min (set [5, 9, 2])" "unat (Size r) = length [5, 9, 2 :: u64]"
      "fst (Percentile True (\<lambda>n. n div 2) r) = sort [5, 9, 2] ! min (unat (number_of_samples r div 2)) (length [5, 9, 2 :: u64] - 1)"
    using statistics_exact [of "[5, 9, 2]" 4 1 "\<lambda>n. n div 2"] by auto
  have "number_of_samples (the (add_samples [5, 9, 2] (Result_new 1 4))) = 3" by code_simp
  then have "number_of_samples r = 3" using r(1) by simp
  then show ?thesis using r m by (simp add: unat_div_distrib)
qed

section \<open>The reservoir\<close>

text \<open>\<open>sampled r xs\<close>: \<open>xs\<close> have been added, and every slot in use has one of them.\<close>

definition sampled :: "Result \<Rightarrow> u64 list \<Rightarrow> bool" where
  "sampled r xs \<longleftrightarrow> max_size r \<noteq> 0 \<and> length (samples r) = unat (max_size r) \<and> unat (number_of_samples r) = length xs \<and>
     (\<forall>i < min (length xs) (unat (max_size r)). samples r ! i \<in> set xs)"

lemma sampled_new: "m \<noteq> 0 \<Longrightarrow> sampled (Result_new t m) []"
  by (simp add: sampled_def Result_new_def)

text \<open>Once the reservoir is full the slot is drawn among as many numbers as there have been samples.\<close>

lemma slot_drawn:
  assumes "max_size r \<le> number_of_samples r" and "max_size r \<noteq> 0"
  shows "\<exists>k rnd. uniform_within 0 (number_of_samples r - 1) (random r) = Some (k, rnd) \<and> unat k < unat (number_of_samples r)"
proof -
  have n: "number_of_samples r \<noteq> 0" using assms by auto
  then have "number_of_samples r - 1 \<noteq> - 1" by simp
  then obtain k rnd where k: "uniform_within 0 (number_of_samples r - 1) (random r) = Some (k, rnd)" "k \<le> number_of_samples r - 1"
    using uniform_within_total [of 0 "number_of_samples r - 1" "random r"] by auto
  have "unat (number_of_samples r) \<noteq> 0" using n by (simp add: unsigned_eq_0_iff)
  then have "unat k < unat (number_of_samples r)" using k(2) unat_pred_32 [OF n] by (simp add: word_le_nat_alt)
  with k(1) show ?thesis by blast
qed

lemma sampled_add:
  assumes s: "sampled r xs" and l: "Suc (length xs) < 2 ^ 32"
  shows "\<exists>r'. add_sample x r = Some r' \<and> sampled r' (xs @ [x])"
proof -
  have n: "unat (number_of_samples r) = length xs" using s by (simp add: sampled_def)
  then have "unat (number_of_samples r) + unat (1 :: u32) < 2 ^ LENGTH(32)" using l by simp
  then have n': "unat (number_of_samples r + 1) = Suc (length xs)" using n by (simp add: unat_add_lem [THEN iffD1])
  show ?thesis
  proof (cases "max_size r \<le> number_of_samples r")
    case False
    then have lt: "length xs < unat (max_size r)" using n by (simp add: word_le_nat_alt)
    have "sampled (r\<lparr>samples := (samples r)[length xs := x], number_of_samples := number_of_samples r + 1\<rparr>) (xs @ [x])"
      using s n' lt by (auto simp: sampled_def nth_list_update)
    then show ?thesis using False n by (simp add: add_sample_def)
  next
    case True
    then have full: "unat (max_size r) \<le> length xs" using n by (simp add: word_le_nat_alt)
    obtain k rnd where k: "uniform_within 0 (number_of_samples r - 1) (random r) = Some (k, rnd)"
      using slot_drawn [OF True] s by (auto simp: sampled_def)
    have "sampled (r\<lparr>random := rnd, samples := (if k < max_size r then (samples r)[unat k := x] else samples r),
        number_of_samples := number_of_samples r + 1\<rparr>) (xs @ [x])"
      using s n' full by (auto simp: sampled_def nth_list_update word_less_nat_alt)
    then show ?thesis using True k by (simp add: add_sample_def)
  qed
qed

lemma sampled_fill:
  "sampled r xs \<Longrightarrow> length xs + length ys < 2 ^ 32 \<Longrightarrow> \<exists>r'. add_samples ys r = Some r' \<and> sampled r' (xs @ ys)"
proof (induction ys arbitrary: r xs)
  case (Cons y ys)
  obtain r1 where r1: "add_sample y r = Some r1" "sampled r1 (xs @ [y])"
    using sampled_add [OF Cons.prems(1), of y] Cons.prems(2) by auto
  from Cons.IH [OF r1(2)] show ?case using r1 Cons.prems(2) by auto
qed auto

text \<open>
  A collection with room for at least one sample takes up to \<open>2 ^ 32 - 1\<close> of them without an error, counts
  them, and keeps only values that have been added.
\<close>

theorem reservoir_sound:
  assumes "m \<noteq> 0" and "length xs < 2 ^ 32"
  shows "\<exists>r. add_samples xs (Result_new t m) = Some r \<and> unat (number_of_samples r) = length xs \<and>
    set (take (unat (Size r)) (samples r)) \<subseteq> set xs"
proof -
  obtain r where r: "add_samples xs (Result_new t m) = Some r" "sampled r xs"
    using sampled_fill [OF sampled_new [OF assms(1)], of xs t] assms(2) by auto
  have "set (take (unat (Size r)) (samples r)) \<subseteq> set xs"
    using r(2) by (auto simp: sampled_def Size_def unat_min_32 in_set_conv_nth)
  then show ?thesis using r by (auto simp: sampled_def)
qed

theorem reservoir_sound_witness:
  "\<exists>r. add_samples [7, 8, 9] (Result_new 1 2) = Some r \<and> unat (number_of_samples r) = 3 \<and>
     set (take (unat (Size r)) (samples r)) \<subseteq> {7, 8, 9}"
  using reservoir_sound [of 2 "[7, 8, 9]" 1] by (simp add: numeral_3_eq_3)

text \<open>
  The first sample beyond the capacity always replaces another one: the slot is drawn among \<open>max_size\<close>
  numbers, where a uniform reservoir draws among one more.
\<close>

lemma first_overflow_kept:
  assumes "sampled r xs" and "number_of_samples r = max_size r" and "add_sample x r = Some r'"
  shows "x \<in> set (samples r')"
proof -
  have le: "max_size r \<le> number_of_samples r" "max_size r \<noteq> 0" using assms(1,2) by (simp_all add: sampled_def)
  obtain k rnd where k: "uniform_within 0 (number_of_samples r - 1) (random r) = Some (k, rnd)" "unat k < unat (number_of_samples r)"
    using slot_drawn [OF le] by blast
  then have "k < max_size r" "unat k < length (samples r)" using assms(1,2) by (simp_all add: word_less_nat_alt sampled_def)
  then show ?thesis using assms(3) le(1) k(1) by (auto simp: add_sample_def set_update_memI)
qed

text \<open>
  The largest sample is wrong once samples are added after an order statistic has been taken: \<^verbatim>\<open>operator<<\<close>
  does not reset \<^verbatim>\<open>sorted_\<close>, so the collection is not sorted again and the last sample added is reported.
\<close>

theorem stale_maximum:
  "\<exists>r0 r1 r2. add_samples [3, 5] (Result_new 0 4) = Some r0 \<and> Max_sample r0 = (5, r1) \<and> add_sample 1 r1 = Some r2 \<and>
     take 3 (samples r2) = [3, 5, 1] \<and> fst (Max_sample r2) = 1"
proof -
  let ?r0 = "the (add_samples [3, 5] (Result_new 0 4))"
  let ?r1 = "snd (Max_sample ?r0)"
  let ?r2 = "the (add_sample 1 ?r1)"
  have "add_samples [3, 5] (Result_new 0 4) = Some ?r0" by code_simp
  moreover have "Max_sample ?r0 = (5, ?r1)" by code_simp
  moreover have "add_sample 1 ?r1 = Some ?r2" by code_simp
  moreover have "take 3 (samples ?r2) = [3, 5, 1]" by code_simp
  moreover have "fst (Max_sample ?r2) = 1" by code_simp
  ultimately show ?thesis by blast
qed

text \<open>A collection without room fails on the first sample.\<close>

lemma no_room: "add_sample x (Result_new t 0) = None"
  by (simp add: add_sample_def Result_new_def uniform_within_whole)

end
