(* ===== verification/Tally.thy ===== *)
theory Tally
  imports LockTable BenchResult
begin

text \<open>
  Gathering the results of a benchmark run on node 0 (\<^verbatim>\<open>Benchmark::TallyResults\<close> of
  \<^verbatim>\<open>include/benchmark/benchmark.h\<close>).  Every other node sends only to node 0 and each call of \<^verbatim>\<open>Send\<close> waits
  for its receiver, so what node 0 may receive from a node is the queue of messages that this node has yet to
  send; \<open>None\<close>: node 0 waits for a message that never comes, or the process is killed by a division by zero.
\<close>

section \<open>Model\<close>

text \<open>\<^verbatim>\<open>counts_\<close> and \<^verbatim>\<open>latencies_\<close>: first the local, then the remote locks, each by thread.\<close>

record node_results =
  counts :: "u64 list list"
  latencies :: "Result list list"

text \<open>What a node other than 0 sends.\<close>

fun count_messages :: "distribution \<Rightarrow> nat \<Rightarrow> nat \<Rightarrow> node_results \<Rightarrow> u64 list" where
  "count_messages Uniform me n_threads res = concat (map (\<lambda>i. map (\<lambda>j. counts res ! i ! j) [0..<n_threads]) [0..<2])"
| "count_messages (Selective hosts) me n_threads res =
     (if me < unat hosts then map (\<lambda>j. counts res ! 0 ! j) [0..<n_threads] else map (\<lambda>j. counts res ! 1 ! j) [0..<n_threads])"

definition latency_message :: "Result \<Rightarrow> u64 list" where
  "latency_message r = ucast (Size r) # map (\<lambda>j. samples r ! j) [0..<unat (Size r)]"

definition tally_messages :: "distribution \<Rightarrow> nat \<Rightarrow> nat \<Rightarrow> node_results \<Rightarrow> u64 list" where
  "tally_messages d me n_threads res = 0 # count_messages d me n_threads res @
     concat (map (\<lambda>k. concat (map (\<lambda>i. latency_message (latencies res ! k ! i)) [0..<n_threads])) [0..<2])"

text \<open>What node 0 does.\<close>

type_synonym inbox = "nat \<Rightarrow> u64 list"

definition recv :: "nat \<Rightarrow> inbox \<Rightarrow> (u64 \<times> inbox) option" where
  "recv i q = (case q i of [] \<Rightarrow> None | v # vs \<Rightarrow> Some (v, q(i := vs)))"

text \<open>The same calls for one node after the other\<close>

fun gather :: "(nat \<Rightarrow> 'r \<Rightarrow> inbox \<Rightarrow> ('r \<times> inbox) option) \<Rightarrow> nat list \<Rightarrow> 'r \<Rightarrow> inbox \<Rightarrow> ('r \<times> inbox) option" where
  "gather f [] r q = Some (r, q)"
| "gather f (i # is) r q = Option.bind (f i r q) (\<lambda>(r, q). gather f is r q)"

definition synchronise :: "nat \<Rightarrow> unit \<Rightarrow> inbox \<Rightarrow> (unit \<times> inbox) option" where
  "synchronise i u q = Option.bind (recv i q) (\<lambda>(_, q). Some (u, q))"

fun receive_into :: "nat \<Rightarrow> nat \<Rightarrow> Result \<Rightarrow> inbox \<Rightarrow> (Result \<times> inbox) option" where
  "receive_into i 0 r q = Some (r, q)"
| "receive_into i (Suc n) r q = Option.bind (recv i q) (\<lambda>(v, q).
     Option.bind (add_sample v r) (\<lambda>r. receive_into i n r q))"

definition both :: "(Result \<Rightarrow> inbox \<Rightarrow> (Result \<times> inbox) option) \<Rightarrow> Result \<times> Result \<Rightarrow> inbox \<Rightarrow> ((Result \<times> Result) \<times> inbox) option" where
  "both f t q = Option.bind (f (fst t) q) (\<lambda>(r0, q). Option.bind (f (snd t) q) (\<lambda>(r1, q). Some ((r0, r1), q)))"

fun throughput :: "distribution \<Rightarrow> u16 \<Rightarrow> u32 \<Rightarrow> node_results \<Rightarrow> inbox \<Rightarrow> ((Result \<times> Result) \<times> inbox) option" where
  "throughput Uniform nodes n_threads res q =
     (let total_threads = ucast nodes * n_threads; n = unat n_threads
      in Option.bind (add_samples (map (\<lambda>j. counts res ! 0 ! j) [0..<n]) (Result_new 0 total_threads)) (\<lambda>r0.
         Option.bind (add_samples (map (\<lambda>j. counts res ! 1 ! j) [0..<n]) (Result_new 0 total_threads)) (\<lambda>r1.
           gather (\<lambda>i. both (receive_into i n)) [1..<unat nodes] (r0, r1) q)))"
| "throughput (Selective hosts) nodes n_threads res q =
     (let total_threads = ucast nodes * n_threads; local_threads = hosts * n_threads; n = unat n_threads
      in Option.bind (add_samples (map (\<lambda>j. counts res ! 0 ! j) [0..<n]) (Result_new 0 local_threads)) (\<lambda>r0.
         Option.bind (gather (\<lambda>i. receive_into i n) [1..<unat hosts] r0 q) (\<lambda>(r0, q).
         Option.bind (gather (\<lambda>i. receive_into i n) [unat hosts..<unat nodes] (Result_new 0 (total_threads - local_threads)) q) (\<lambda>(r1, q).
           Some ((r0, r1), q)))))"

fun add_results :: "Result list \<Rightarrow> Result \<Rightarrow> Result option" where
  "add_results [] r = Some r"
| "add_results (x # xs) r = Option.bind (add_result r x) (add_results xs)"

fun receive_latencies :: "nat \<Rightarrow> nat \<Rightarrow> Result \<Rightarrow> inbox \<Rightarrow> (Result \<times> inbox) option" where
  "receive_latencies i 0 r q = Some (r, q)"
| "receive_latencies i (Suc n) r q = Option.bind (recv i q) (\<lambda>(v, q).
     Option.bind (receive_into i (unat (ucast v :: u32)) r q) (\<lambda>(r, q). receive_latencies i n r q))"

definition latency :: "u16 \<Rightarrow> u32 \<Rightarrow> u32 \<Rightarrow> node_results \<Rightarrow> inbox \<Rightarrow> ((Result \<times> Result) \<times> inbox) option" where
  "latency nodes n_threads sample_number res q =
     (let room = ucast nodes * n_threads * sample_number; n = unat n_threads
      in Option.bind (add_results (map (\<lambda>j. latencies res ! 0 ! j) [0..<n]) (Result_new 0 room)) (\<lambda>r0.
         Option.bind (add_results (map (\<lambda>j. latencies res ! 1 ! j) [0..<n]) (Result_new 0 room)) (\<lambda>r1.
           gather (\<lambda>i. both (receive_latencies i n)) [1..<unat nodes] (r0, r1) q)))"

definition TallyResults ::
  "distribution \<Rightarrow> u16 \<Rightarrow> u32 \<Rightarrow> u32 \<Rightarrow> node_results \<Rightarrow> inbox \<Rightarrow> ((Result \<times> Result) \<times> (Result \<times> Result) \<times> inbox) option" where
  "TallyResults d nodes n_threads sample_number res q =
     Option.bind (gather synchronise [1..<unat nodes] () q) (\<lambda>(_, q).
     Option.bind (throughput d nodes n_threads res q) (\<lambda>(t, q).
     Option.bind (latency nodes n_threads sample_number res q) (\<lambda>(l, q). Some (t, l, q))))"

section \<open>Well-formed results\<close>

text \<open>What \<^verbatim>\<open>Run\<close> leaves behind: an entry for each kind of lock and each thread.\<close>

definition results_ok :: "nat \<Rightarrow> u32 \<Rightarrow> node_results \<Rightarrow> bool" where
  "results_ok n sample_number res \<longleftrightarrow> (\<forall>k < 2. length (counts res ! k) = n \<and> length (latencies res ! k) = n \<and>
     (\<forall>r \<in> set (latencies res ! k). max_size r = sample_number \<and> length (samples r) = unat sample_number))"

definition kept :: "Result \<Rightarrow> u64 list" where
  "kept r = take (unat (Size r)) (samples r)"

definition all_kept :: "Result list \<Rightarrow> u64 list" where
  "all_kept rs = concat (map kept rs)"

lemma map_nth_upt: "length xs = n \<Longrightarrow> map (\<lambda>j. xs ! j) [0..<n] = xs"
  by (metis map_nth)

lemma kept_length:
  assumes "length (samples r) = unat (max_size r)"
  shows "length (kept r) = unat (Size r)" and "length (kept r) \<le> unat (max_size r)"
  using assms by (simp_all add: kept_def Size_def unat_min_32)

lemma latency_message_kept:
  assumes "length (samples r) = unat (max_size r)"
  shows "latency_message r = of_nat (length (kept r)) # kept r"
proof -
  have "unat (Size r) \<le> length (samples r)" using assms by (simp add: Size_def unat_min_32)
  then have "map (\<lambda>j. samples r ! j) [0..<unat (Size r)] = kept r"
    by (simp add: kept_def list_eq_iff_nth_eq)
  moreover have "ucast (Size r) = (of_nat (length (kept r)) :: u64)"
    using kept_length(1) [OF assms] by (simp add: word_unat_eq_iff unsigned_ucast_eq unsigned_of_nat)
  ultimately show ?thesis by (simp add: latency_message_def)
qed

lemma all_kept_bound:
  "\<forall>r \<in> set rs. max_size r = sn \<and> length (samples r) = unat sn \<Longrightarrow> length (all_kept rs) \<le> length rs * unat sn"
proof (induction rs)
  case (Cons r rs)
  then have "length (kept r) \<le> unat sn" using kept_length(2) [of r] by simp
  then show ?case using Cons by (simp add: all_kept_def)
qed (simp add: all_kept_def)

section \<open>Receiving\<close>

lemma recv_Cons: "q i = v # vs \<Longrightarrow> recv i q = Some (v, q(i := vs))"
  by (simp add: recv_def)

lemma receive_into_prefix:
  "q i = xs @ rest \<Longrightarrow> holds r ys \<Longrightarrow> length ys + length xs \<le> unat (max_size r) \<Longrightarrow>
     \<exists>r'. receive_into i (length xs) r q = Some (r', q(i := rest)) \<and> holds r' (ys @ xs) \<and> max_size r' = max_size r"
proof (induction xs arbitrary: q r ys)
  case Nil
  then show ?case by (auto simp: fun_upd_idem)
next
  case (Cons x xs)
  obtain r1 where r1: "add_sample x r = Some r1" "holds r1 (ys @ [x])" "max_size r1 = max_size r"
    using holds_add [OF Cons.prems(2), of x] Cons.prems(3) by auto
  let ?q = "q(i := xs @ rest)"
  have "\<exists>r'. receive_into i (length xs) r1 ?q = Some (r', ?q(i := rest)) \<and> holds r' ((ys @ [x]) @ xs) \<and> max_size r' = max_size r1"
    by (rule Cons.IH) (use Cons.prems(3) r1 in simp_all)
  then obtain r' where r': "receive_into i (length xs) r1 ?q = Some (r', q(i := rest))" "holds r' (ys @ x # xs)" "max_size r' = max_size r"
    using r1(3) unfolding fun_upd_upd append_assoc append_Cons append_Nil by metis
  have "receive_into i (length (x # xs)) r q = Some (r', q(i := rest))"
    using Cons.prems(1) r1(1) r'(1) by (simp add: recv_Cons)
  with r'(2,3) show ?case by blast
qed

lemma receive_latencies_prefix:
  "q i = concat (map latency_message rs) @ rest \<Longrightarrow> \<forall>r \<in> set rs. length (samples r) = unat (max_size r) \<Longrightarrow>
     holds r ys \<Longrightarrow> length ys + length (all_kept rs) \<le> unat (max_size r) \<Longrightarrow>
     \<exists>r'. receive_latencies i (length rs) r q = Some (r', q(i := rest)) \<and> holds r' (ys @ all_kept rs) \<and> max_size r' = max_size r"
proof (induction rs arbitrary: q r ys)
  case Nil
  then show ?case by (auto simp: fun_upd_idem all_kept_def)
next
  case (Cons x rs)
  have sz: "length (samples x) = unat (max_size x)" using Cons.prems(2) by simp
  let ?rest = "concat (map latency_message rs) @ rest"
  have q: "q i = of_nat (length (kept x)) # kept x @ ?rest"
    using Cons.prems(1) by (simp add: latency_message_kept [OF sz])
  have lt: "length (kept x) < 2 ^ 32" using kept_length(1) [OF sz] unsigned_less [of "Size x"] by simp
  then have n: "unat (ucast (of_nat (length (kept x)) :: u64) :: u32) = length (kept x)"
    by (simp add: unsigned_ucast_eq unsigned_of_nat take_bit_nat_eq_self)
  let ?q = "q(i := kept x @ ?rest)"
  have "\<exists>r1. receive_into i (length (kept x)) r ?q = Some (r1, ?q(i := ?rest)) \<and> holds r1 (ys @ kept x) \<and> max_size r1 = max_size r"
    by (rule receive_into_prefix) (use Cons.prems(3,4) in \<open>simp_all add: all_kept_def\<close>)
  then obtain r1 where r1: "receive_into i (length (kept x)) r ?q = Some (r1, ?q(i := ?rest))" "holds r1 (ys @ kept x)" "max_size r1 = max_size r"
    by blast
  have "\<exists>r'. receive_latencies i (length rs) r1 (?q(i := ?rest)) = Some (r', ?q(i := ?rest, i := rest)) \<and>
      holds r' ((ys @ kept x) @ all_kept rs) \<and> max_size r' = max_size r1"
    by (rule Cons.IH) (use Cons.prems(2,4) r1(2,3) in \<open>simp_all add: all_kept_def\<close>)
  then obtain r' where r': "receive_latencies i (length rs) r1 (?q(i := ?rest)) = Some (r', q(i := rest))"
      "holds r' (ys @ all_kept (x # rs))" "max_size r' = max_size r"
    using r1(3) unfolding fun_upd_upd append_assoc by (auto simp: all_kept_def)
  have "receive_latencies i (length (x # rs)) r q = Some (r', q(i := rest))"
    using r1(1) r'(1) by (simp add: recv_Cons [of q i, OF q] n)
  with r'(2,3) show ?case by blast
qed

lemma add_results_holds:
  "holds r ys \<Longrightarrow> length ys + length (all_kept rs) \<le> unat (max_size r) \<Longrightarrow>
     \<exists>r'. add_results rs r = Some r' \<and> holds r' (ys @ all_kept rs) \<and> max_size r' = max_size r"
proof (induction rs arbitrary: r ys)
  case (Cons x rs)
  have "add_result r x = add_samples (kept x) r" by (simp add: add_result_def kept_def Size_def min.commute)
  moreover obtain r1 where r1: "add_samples (kept x) r = Some r1" "holds r1 (ys @ kept x)" "max_size r1 = max_size r"
    using holds_fill [OF Cons.prems(1), of "kept x"] Cons.prems(2) by (auto simp: all_kept_def)
  moreover obtain r' where "add_results rs r1 = Some r'" "holds r' ((ys @ kept x) @ all_kept rs)" "max_size r' = max_size r1"
    using Cons.IH [OF r1(2)] Cons.prems(2) r1(3) by (auto simp: all_kept_def)
  ultimately show ?case by (simp add: all_kept_def)
qed (simp add: all_kept_def)

section \<open>Gathering\<close>

text \<open>One step per node is enough: it turns the messages \<open>msgs i\<close> into \<open>rest i\<close> and extends what is known of the result.\<close>

lemma gather_nodes:
  assumes step: "\<And>pre i post r q. js = pre @ i # post \<Longrightarrow> I pre r \<Longrightarrow> q i = msgs i \<Longrightarrow>
      \<exists>r'. f i r q = Some (r', q(i := rest i)) \<and> I (pre @ [i]) r'"
    and "distinct js" and "\<forall>i \<in> set js. q i = msgs i" and "I [] r"
  shows "\<exists>r'. gather f js r q = Some (r', \<lambda>i. if i \<in> set js then rest i else q i) \<and> I js r'"
proof -
  have "\<exists>r'. gather f is r q = Some (r', \<lambda>i. if i \<in> set is then rest i else q i) \<and> I js r'"
    if "js = pre @ is" "I pre r" "\<forall>i \<in> set is. q i = msgs i" for pre "is" r q
    using that
  proof (induction "is" arbitrary: pre r q)
    case (Cons i "is")
    obtain r1 where r1: "f i r q = Some (r1, q(i := rest i))" "I (pre @ [i]) r1"
      using step [OF Cons.prems(1,2), of q] Cons.prems(3) by auto
    have i: "i \<notin> set is" using assms(2) Cons.prems(1) by simp
    then have "\<forall>j \<in> set is. (q(i := rest i)) j = msgs j" using Cons.prems(3) by simp
    then obtain r' where r': "gather f is r1 (q(i := rest i)) =
        Some (r', \<lambda>j. if j \<in> set is then rest j else (q(i := rest i)) j)" "I js r'"
      using Cons.IH [OF _ r1(2)] Cons.prems(1) unfolding append_assoc append_Cons append_Nil by blast
    have "(\<lambda>j. if j \<in> set is then rest j else (q(i := rest i)) j) = (\<lambda>j. if j \<in> set (i # is) then rest j else q j)"
      using i by (auto simp: fun_eq_iff)
    with r1(1) r' show ?case by auto
  qed auto
  from this [of "[]" js r q] assms(3,4) show ?thesis by simp
qed

lemma synchronise_nodes:
  assumes "distinct js" and "\<forall>i \<in> set js. q i = v i # rest i"
  shows "gather synchronise js () q = Some ((), \<lambda>i. if i \<in> set js then rest i else q i)"
proof -
  have "\<exists>r'. gather synchronise js () q = Some (r', \<lambda>i. if i \<in> set js then rest i else q i) \<and> True"
    by (rule gather_nodes [where msgs = "\<lambda>i. v i # rest i"]) (use assms in \<open>simp_all add: synchronise_def recv_Cons\<close>)
  then show ?thesis by simp
qed

text \<open>\<open>exactly cap ys r\<close>: exactly \<open>ys\<close> in a collection with room for \<open>cap\<close>.\<close>

definition exactly :: "nat \<Rightarrow> u64 list \<Rightarrow> Result \<Rightarrow> bool" where
  "exactly cap ys r \<longleftrightarrow> holds r ys \<and> unat (max_size r) = cap"

lemma exactly_new: "exactly (unat cap) [] (Result_new t cap)"
  by (simp add: exactly_def holds_new) (simp add: Result_new_def)

lemma exactly_receive:
  assumes "q i = xs @ rest" and "exactly cap ys r" and "length (ys @ xs) \<le> cap" and "length xs = n"
  shows "\<exists>r'. receive_into i n r q = Some (r', q(i := rest)) \<and> exactly cap (ys @ xs) r'"
  using receive_into_prefix [of q i xs rest r ys] assms by (auto simp: exactly_def)

lemma exactly_latencies:
  assumes "q i = concat (map latency_message rs) @ rest" and "exactly cap ys r" and "length (ys @ all_kept rs) \<le> cap" and "length rs = n"
    and "\<forall>r \<in> set rs. length (samples r) = unat (max_size r)"
  shows "\<exists>r'. receive_latencies i n r q = Some (r', q(i := rest)) \<and> exactly cap (ys @ all_kept rs) r'"
  using receive_latencies_prefix [of q i rs rest r ys] assms by (auto simp: exactly_def)

lemma exactly_both:
  assumes "\<And>r q. q i = a @ b @ rest \<Longrightarrow> P r \<Longrightarrow> \<exists>r'. f r q = Some (r', q(i := b @ rest)) \<and> P' r'"
    and "\<And>r q. q i = b @ rest \<Longrightarrow> Q r \<Longrightarrow> \<exists>r'. f r q = Some (r', q(i := rest)) \<and> Q' r'"
    and "q i = a @ b @ rest" and "P (fst t)" and "Q (snd t)"
  shows "\<exists>t'. both f t q = Some (t', q(i := rest)) \<and> P' (fst t') \<and> Q' (snd t')"
proof -
  obtain r0 where r0: "f (fst t) q = Some (r0, q(i := b @ rest))" "P' r0" using assms(1) [of q] assms(3,4) by blast
  obtain r1 where r1: "f (snd t) (q(i := b @ rest)) = Some (r1, q(i := b @ rest, i := rest))" "Q' r1"
    using assms(2) [of "q(i := b @ rest)" "snd t"] assms(5) by (metis fun_upd_same)
  have "both f t q = Some ((r0, r1), q(i := rest))" using r0(1) r1(1) by (simp add: both_def)
  with r0(2) r1(2) show ?thesis by auto
qed

lemma concat_bound: "\<forall>i \<in> set is. length (f i) \<le> m \<Longrightarrow> length (concat (map f is)) \<le> length is * m"
  by (induction "is") auto

lemma prefix_room:
  assumes "js = pre @ i # post" and "\<forall>i \<in> set js. length (f i) \<le> m" and "length ys + length js * m \<le> cap"
  shows "length ((ys @ concat (map f pre)) @ f i) \<le> cap"
proof -
  have "length (concat (map f (pre @ [i]))) \<le> length (pre @ [i]) * m" by (rule concat_bound) (use assms(1,2) in auto)
  moreover have "length (pre @ [i]) * m \<le> length js * m" using assms(1) by (intro mult_le_mono1) simp
  ultimately show ?thesis using assms(3) by simp
qed

lemma gather_counts:
  assumes "distinct js" and q: "\<forall>i \<in> set js. q i = c i @ rest i" and n: "\<forall>i \<in> set js. length (c i) = n"
    and r: "exactly cap ys r" and room: "length ys + length js * n \<le> cap"
  shows "\<exists>r'. gather (\<lambda>i. receive_into i n) js r q = Some (r', \<lambda>i. if i \<in> set js then rest i else q i) \<and>
    exactly cap (ys @ concat (map c js)) r'"
proof (rule gather_nodes [where msgs = "\<lambda>i. c i @ rest i" and I = "\<lambda>pre r. exactly cap (ys @ concat (map c pre)) r"])
  fix pre i post and r :: Result and q :: inbox
  assume *: "js = pre @ i # post" "exactly cap (ys @ concat (map c pre)) r" "q i = c i @ rest i"
  have "length ((ys @ concat (map c pre)) @ c i) \<le> cap" by (rule prefix_room [OF *(1) _ room]) (use n in simp)
  moreover have "length (c i) = n" using n *(1) by simp
  ultimately show "\<exists>r'. receive_into i n r q = Some (r', q(i := rest i)) \<and> exactly cap (ys @ concat (map c (pre @ [i]))) r'"
    using exactly_receive [where q = q and i = i, OF *(3,2)] by simp
qed (use assms in simp_all)

text \<open>\<open>reads g cap i m v\<close>: reading the messages \<open>m\<close> from node \<open>i\<close> adds the samples \<open>v\<close> while there is room.\<close>

definition reads :: "(Result \<Rightarrow> inbox \<Rightarrow> (Result \<times> inbox) option) \<Rightarrow> nat \<Rightarrow> nat \<Rightarrow> u64 list \<Rightarrow> u64 list \<Rightarrow> bool" where
  "reads g cap i m v \<longleftrightarrow> (\<forall>r q ys rest. q i = m @ rest \<longrightarrow> exactly cap ys r \<longrightarrow> length (ys @ v) \<le> cap \<longrightarrow>
     (\<exists>r'. g r q = Some (r', q(i := rest)) \<and> exactly cap (ys @ v) r'))"

lemma readsD:
  "reads g cap i m v \<Longrightarrow> q i = m @ rest \<Longrightarrow> exactly cap ys r \<Longrightarrow> length (ys @ v) \<le> cap \<Longrightarrow>
     \<exists>r'. g r q = Some (r', q(i := rest)) \<and> exactly cap (ys @ v) r'"
  unfolding reads_def by blast

lemma reads_counts: "length xs = n \<Longrightarrow> reads (receive_into i n) cap i xs xs"
  unfolding reads_def using exactly_receive by blast

lemma reads_latencies:
  "length rs = n \<Longrightarrow> \<forall>r \<in> set rs. length (samples r) = unat (max_size r) \<Longrightarrow>
     reads (receive_latencies i n) cap i (concat (map latency_message rs)) (all_kept rs)"
  unfolding reads_def using exactly_latencies by blast

lemma gather_both:
  assumes "distinct js" and q: "\<forall>i \<in> set js. q i = m i @ m' i @ rest i"
    and reads: "\<forall>i \<in> set js. reads (g i) cap i (m i) (v i)" "\<forall>i \<in> set js. reads (g i) cap i (m' i) (v' i)"
    and n: "\<forall>i \<in> set js. length (v i) \<le> n" "\<forall>i \<in> set js. length (v' i) \<le> n"
    and r: "exactly cap ys (fst t)" "exactly cap ys' (snd t)"
    and room: "length ys + length js * n \<le> cap" "length ys' + length js * n \<le> cap"
  shows "\<exists>t'. gather (\<lambda>i. both (g i)) js t q = Some (t', \<lambda>i. if i \<in> set js then rest i else q i) \<and>
    exactly cap (ys @ concat (map v js)) (fst t') \<and> exactly cap (ys' @ concat (map v' js)) (snd t')"
proof (rule gather_nodes [where msgs = "\<lambda>i. m i @ m' i @ rest i" and
    I = "\<lambda>pre t. exactly cap (ys @ concat (map v pre)) (fst t) \<and> exactly cap (ys' @ concat (map v' pre)) (snd t)"])
  fix pre i post and t :: "Result \<times> Result" and q :: inbox
  assume *: "js = pre @ i # post" "q i = m i @ m' i @ rest i"
    and t: "exactly cap (ys @ concat (map v pre)) (fst t) \<and> exactly cap (ys' @ concat (map v' pre)) (snd t)"
  have i: "reads (g i) cap i (m i) (v i)" "reads (g i) cap i (m' i) (v' i)" using reads *(1) by simp_all
  have "\<exists>t'. both (g i) t q = Some (t', q(i := rest i)) \<and>
      exactly cap ((ys @ concat (map v pre)) @ v i) (fst t') \<and> exactly cap ((ys' @ concat (map v' pre)) @ v' i) (snd t')"
    by (intro exactly_both [where a = "m i" and b = "m' i" and P = "exactly cap (ys @ concat (map v pre))"
        and Q = "exactly cap (ys' @ concat (map v' pre))"] readsD [OF i(1)] readsD [OF i(2)])
      (use t *(2) prefix_room [OF *(1) n(1) room(1)] prefix_room [OF *(1) n(2) room(2)] in simp_all)
  then show "\<exists>t'. both (g i) t q = Some (t', q(i := rest i)) \<and>
      exactly cap (ys @ concat (map v (pre @ [i]))) (fst t') \<and> exactly cap (ys' @ concat (map v' (pre @ [i]))) (snd t')"
    by simp
qed (use assms in simp_all)

section \<open>The tally\<close>

text \<open>The nodes that use local and remote locks.\<close>

fun local_nodes :: "distribution \<Rightarrow> nat \<Rightarrow> nat list" where
  "local_nodes Uniform n = [0..<n]"
| "local_nodes (Selective hosts) n = [0..<unat hosts]"

fun remote_nodes :: "distribution \<Rightarrow> nat \<Rightarrow> nat list" where
  "remote_nodes Uniform n = [0..<n]"
| "remote_nodes (Selective hosts) n = [unat hosts..<n]"

fun hosts_within :: "distribution \<Rightarrow> nat \<Rightarrow> bool" where
  "hosts_within Uniform n = True"
| "hosts_within (Selective hosts) n = (0 < unat hosts \<and> unat hosts \<le> n)"

definition latency_rows :: "nat \<Rightarrow> node_results \<Rightarrow> u64 list" where
  "latency_rows n res = concat (map (\<lambda>k. concat (map (\<lambda>i. latency_message (latencies res ! k ! i)) [0..<n])) [0..<2])"

lemma results_counts: "results_ok n sn res \<Longrightarrow> k < 2 \<Longrightarrow> map (\<lambda>j. counts res ! k ! j) [0..<n] = counts res ! k"
  by (rule map_nth_upt) (simp add: results_ok_def)

lemma results_latencies: "results_ok n sn res \<Longrightarrow> k < 2 \<Longrightarrow> map (\<lambda>j. latencies res ! k ! j) [0..<n] = latencies res ! k"
  by (rule map_nth_upt) (simp add: results_ok_def)

lemma latency_rows_messages:
  assumes "results_ok n sn res"
  shows "latency_rows n res = concat (map latency_message (latencies res ! 0)) @ concat (map latency_message (latencies res ! 1))"
proof -
  have "map (\<lambda>i. latency_message (latencies res ! k ! i)) [0..<n] = map latency_message (latencies res ! k)" if "k < 2" for k
    using arg_cong [OF results_latencies [OF assms that], of "map latency_message"] by (simp add: comp_def)
  from this [of 0] this [of 1] show ?thesis by (simp add: latency_rows_def numeral_2_eq_2)
qed

lemma unat_times_32: "unat a * unat b < 2 ^ 32 \<Longrightarrow> unat (a * b) = unat a * unat b" for a b :: u32
  by (simp add: unat_word_ariths)

lemma unat_nodes: "unat (ucast nodes :: u32) = unat nodes" for nodes :: u16
proof -
  have "unat nodes < 2 ^ 16" using unsigned_less [of nodes] by simp
  then show ?thesis by (simp add: unsigned_ucast_eq take_bit_nat_eq_self)
qed

lemma exactly_results:
  assumes "exactly cap ys r" and "length (ys @ all_kept rs) \<le> cap"
  shows "\<exists>r'. add_results rs r = Some r' \<and> exactly cap (ys @ all_kept rs) r'"
  using add_results_holds [of r ys rs] assms by (auto simp: exactly_def)

lemma exactly_samples:
  assumes "exactly cap ys r" and "length (ys @ xs) \<le> cap"
  shows "\<exists>r'. add_samples xs r = Some r' \<and> exactly cap (ys @ xs) r'"
  using holds_fill [of r ys xs] assms by (auto simp: exactly_def)

lemma upt_from_0: "0 < n \<Longrightarrow> [0..<n] = 0 # [1..<n]"
  by (simp add: upt_conv_Cons)

lemma latency_gathered:
  assumes n0: "0 < unat nodes" and sz: "unat nodes * unat nt * unat sn < 2 ^ 32" "unat nodes * unat nt < 2 ^ 32"
    and ok: "\<forall>i < unat nodes. results_ok (unat nt) sn (res i)"
    and q: "\<forall>i \<in> set [1..<unat nodes]. q i = latency_rows (unat nt) (res i)"
  shows "\<exists>l. latency nodes nt sn (res 0) q = Some (l, \<lambda>i. if i \<in> set [1..<unat nodes] then [] else q i) \<and>
    holds (fst l) (concat (map (\<lambda>i. all_kept (latencies (res i) ! 0)) [0..<unat nodes])) \<and>
    holds (snd l) (concat (map (\<lambda>i. all_kept (latencies (res i) ! 1)) [0..<unat nodes]))"
proof -
  let ?room = "ucast nodes * nt * sn" and ?n = "unat nt" and ?js = "[1..<unat nodes]"
  let ?v = "\<lambda>k i. all_kept (latencies (res i) ! k)"
  let ?cap = "unat nodes * ?n * unat sn"
  have cap: "unat ?room = ?cap" using sz by (simp add: unat_times_32 unat_nodes)
  have v: "length (?v k i) \<le> ?n * unat sn" if "i < unat nodes" "k < 2" for k i
  proof -
    have "length (latencies (res i) ! k) = ?n" using ok that by (simp add: results_ok_def)
    then show ?thesis using all_kept_bound [of "latencies (res i) ! k" sn] ok that by (simp add: results_ok_def)
  qed
  have "unat nodes = Suc (length ?js)" using n0 by simp
  then have c: "?cap = ?n * unat sn + length ?js * (?n * unat sn)" by (metis mult.assoc mult_Suc)
  have first: "\<exists>r. add_results (latencies (res 0) ! k) (Result_new 0 ?room) = Some r \<and> exactly ?cap (?v k 0) r" if "k < 2" for k
    using exactly_results [OF exactly_new [of ?room 0, unfolded cap], of "latencies (res 0) ! k"] v [OF n0 that] c by simp
  obtain r0 r1 where r0: "add_results (latencies (res 0) ! 0) (Result_new 0 ?room) = Some r0" "exactly ?cap (?v 0 0) r0"
    and r1: "add_results (latencies (res 0) ! 1) (Result_new 0 ?room) = Some r1" "exactly ?cap (?v 1 0) r1"
    using first [of 0] first [of 1] by auto
  have reads: "\<forall>i \<in> set ?js. reads (receive_latencies i ?n) ?cap i (concat (map latency_message (latencies (res i) ! k))) (?v k i)"
    if "k < 2" for k using ok that by (auto intro!: reads_latencies simp: results_ok_def)
  have "\<exists>t'. gather (\<lambda>i. both (receive_latencies i ?n)) ?js (r0, r1) q = Some (t', \<lambda>i. if i \<in> set ?js then [] else q i) \<and>
      exactly ?cap (?v 0 0 @ concat (map (?v 0) ?js)) (fst t') \<and> exactly ?cap (?v 1 0 @ concat (map (?v 1) ?js)) (snd t')"
  proof (rule gather_both [OF _ _ reads [of 0] reads [of 1]])
    show "\<forall>i \<in> set ?js. q i = concat (map latency_message (latencies (res i) ! 0)) @ concat (map latency_message (latencies (res i) ! 1)) @ []"
    proof
      fix i assume "i \<in> set ?js"
      then show "q i = concat (map latency_message (latencies (res i) ! 0)) @ concat (map latency_message (latencies (res i) ! 1)) @ []"
        using q ok latency_rows_messages [of ?n sn "res i"] by simp
    qed
    show "\<forall>i \<in> set ?js. length (?v 0 i) \<le> ?n * unat sn" "\<forall>i \<in> set ?js. length (?v 1 i) \<le> ?n * unat sn" using v by simp_all
    show "length (?v 0 0) + length ?js * (?n * unat sn) \<le> ?cap" "length (?v 1 0) + length ?js * (?n * unat sn) \<le> ?cap"
      using v [OF n0, of 0] v [OF n0, of 1] c by simp_all
  qed (use r0(2) r1(2) in simp_all)
  then obtain l where "gather (\<lambda>i. both (receive_latencies i ?n)) ?js (r0, r1) q = Some (l, \<lambda>i. if i \<in> set ?js then [] else q i)"
    and "holds (fst l) (?v 0 0 @ concat (map (?v 0) ?js))" "holds (snd l) (?v 1 0 @ concat (map (?v 1) ?js))"
    unfolding exactly_def by blast
  moreover have "\<forall>k < 2. map (\<lambda>j. latencies (res 0) ! k ! j) [0..<?n] = latencies (res 0) ! k"
    using ok n0 results_latencies by blast
  ultimately show ?thesis using r0(1) r1(1) upt_from_0 [OF n0] by (simp add: latency_def Let_def del: upt_Suc)
qed

text \<open>The counts: all of every kind in the uniform distribution, one kind of every node in the selective one.\<close>

lemma throughput_uniform:
  assumes n0: "0 < unat nodes" and sz: "unat nodes * unat nt < 2 ^ 32" and ok: "\<forall>i < unat nodes. results_ok (unat nt) sn (res i)"
    and q: "\<forall>i \<in> set [1..<unat nodes]. q i = count_messages Uniform i (unat nt) (res i) @ rest i"
  shows "\<exists>t. throughput Uniform nodes nt (res 0) q = Some (t, \<lambda>i. if i \<in> set [1..<unat nodes] then rest i else q i) \<and>
    holds (fst t) (concat (map (\<lambda>i. counts (res i) ! 0) [0..<unat nodes])) \<and>
    holds (snd t) (concat (map (\<lambda>i. counts (res i) ! 1) [0..<unat nodes]))"
proof -
  let ?room = "ucast nodes * nt :: u32" and ?n = "unat nt" and ?js = "[1..<unat nodes]"
  let ?v = "\<lambda>k i. counts (res i) ! k"
  let ?cap = "unat nodes * ?n"
  have cap: "unat ?room = ?cap" using sz by (simp add: unat_times_32 unat_nodes)
  have v: "length (?v k i) = ?n" if "i < unat nodes" "k < 2" for k i using ok that by (simp add: results_ok_def)
  have "unat nodes = Suc (length ?js)" using n0 by simp
  then have c: "?cap = ?n + length ?js * ?n" by (metis mult_Suc)
  have first: "\<exists>r. add_samples (?v k 0) (Result_new 0 ?room) = Some r \<and> exactly ?cap (?v k 0) r" if "k < 2" for k
    using exactly_samples [OF exactly_new [of ?room 0, unfolded cap], of "?v k 0"] v [OF n0 that] c by simp
  obtain r0 r1 where r0: "add_samples (?v 0 0) (Result_new 0 ?room) = Some r0" "exactly ?cap (?v 0 0) r0"
    and r1: "add_samples (?v 1 0) (Result_new 0 ?room) = Some r1" "exactly ?cap (?v 1 0) r1"
    using first [of 0] first [of 1] by auto
  have reads: "\<forall>i \<in> set ?js. reads (receive_into i ?n) ?cap i (?v k i) (?v k i)" if "k < 2" for k
    using v that by (auto intro!: reads_counts)
  have row: "map (\<lambda>j. ?v k i ! j) [0..<?n] = ?v k i" if "i < unat nodes" "k < 2" for k i
    using ok that results_counts by blast
  have "\<exists>t'. gather (\<lambda>i. both (receive_into i ?n)) ?js (r0, r1) q = Some (t', \<lambda>i. if i \<in> set ?js then rest i else q i) \<and>
      exactly ?cap (?v 0 0 @ concat (map (?v 0) ?js)) (fst t') \<and> exactly ?cap (?v 1 0 @ concat (map (?v 1) ?js)) (snd t')"
  proof (rule gather_both [OF _ _ reads [of 0] reads [of 1]])
    show "\<forall>i \<in> set ?js. q i = ?v 0 i @ ?v 1 i @ rest i"
      using q row [of _ 0] row [of _ 1] by (simp add: numeral_2_eq_2)
    show "\<forall>i \<in> set ?js. length (?v 0 i) \<le> ?n" "\<forall>i \<in> set ?js. length (?v 1 i) \<le> ?n" using v by simp_all
    show "length (?v 0 0) + length ?js * ?n \<le> ?cap" "length (?v 1 0) + length ?js * ?n \<le> ?cap"
      using v [OF n0, of 0] v [OF n0, of 1] c by simp_all
  qed (use r0(2) r1(2) in simp_all)
  then obtain t where "gather (\<lambda>i. both (receive_into i ?n)) ?js (r0, r1) q = Some (t, \<lambda>i. if i \<in> set ?js then rest i else q i)"
    and "holds (fst t) (?v 0 0 @ concat (map (?v 0) ?js))" "holds (snd t) (?v 1 0 @ concat (map (?v 1) ?js))"
    unfolding exactly_def by blast
  then show ?thesis
    using r0(1) r1(1) upt_from_0 [OF n0] row [OF n0, of 0] row [OF n0, of 1] by (simp add: Let_def del: upt_Suc)
qed

lemma throughput_selective:
  assumes h: "0 < unat hosts" "unat hosts \<le> unat nodes" and sz: "unat nodes * unat nt < 2 ^ 32"
    and ok: "\<forall>i < unat nodes. results_ok (unat nt) sn (res i)"
    and q: "\<forall>i \<in> set [1..<unat nodes]. q i = count_messages (Selective hosts) i (unat nt) (res i) @ rest i"
  shows "\<exists>t. throughput (Selective hosts) nodes nt (res 0) q = Some (t, \<lambda>i. if i \<in> set [1..<unat nodes] then rest i else q i) \<and>
    holds (fst t) (concat (map (\<lambda>i. counts (res i) ! 0) [0..<unat hosts])) \<and>
    holds (snd t) (concat (map (\<lambda>i. counts (res i) ! 1) [unat hosts..<unat nodes]))"
proof -
  let ?total = "ucast nodes * nt :: u32" and ?loc = "hosts * nt" and ?n = "unat nt"
  let ?v = "\<lambda>k i. counts (res i) ! k" and ?h = "unat hosts" and ?N = "unat nodes"
  have le: "?h * ?n \<le> ?N * ?n" using h(2) by simp
  have total: "unat ?total = ?N * ?n" using sz by (simp add: unat_times_32 unat_nodes)
  have loc: "unat ?loc = ?h * ?n" using sz le by (intro unat_times_32) linarith
  have rem: "unat (?total - ?loc) = (?N - ?h) * ?n"
    using le total loc by (simp add: unat_sub word_le_nat_alt diff_mult_distrib)
  have v: "length (?v k i) = ?n" if "i < ?N" "k < 2" for k i using ok that by (simp add: results_ok_def)
  have row: "map (\<lambda>j. ?v k i ! j) [0..<?n] = ?v k i" if "i < ?N" "k < 2" for k i using ok that results_counts by blast
  have N0: "0 < ?N" using h by simp
  have "?h = Suc (length [1..<?h])" using h(1) by simp
  then have c: "?h * ?n = ?n + length [1..<?h] * ?n" by (metis mult_Suc)
  obtain r0 where r0: "add_samples (?v 0 0) (Result_new 0 ?loc) = Some r0" "exactly (?h * ?n) (?v 0 0) r0"
    using exactly_samples [OF exactly_new [of ?loc 0, unfolded loc], of "?v 0 0"] v [OF N0, of 0] c by auto
  let ?q1 = "\<lambda>i. if i \<in> set [1..<?h] then rest i else q i"
  have "\<exists>r. gather (\<lambda>i. receive_into i ?n) [1..<?h] r0 q = Some (r, ?q1) \<and> exactly (?h * ?n) (?v 0 0 @ concat (map (?v 0) [1..<?h])) r"
    by (rule gather_counts) (use q h row [of _ 0] v r0(2) c in simp_all)
  then obtain s0 where s0: "gather (\<lambda>i. receive_into i ?n) [1..<?h] r0 q = Some (s0, ?q1)"
    "holds s0 (?v 0 0 @ concat (map (?v 0) [1..<?h]))" unfolding exactly_def by blast
  have "\<exists>r. gather (\<lambda>i. receive_into i ?n) [?h..<?N] (Result_new 0 (?total - ?loc)) ?q1 =
      Some (r, \<lambda>i. if i \<in> set [?h..<?N] then rest i else ?q1 i) \<and> exactly ((?N - ?h) * ?n) ([] @ concat (map (?v 1) [?h..<?N])) r"
    by (rule gather_counts) (use q h row [of _ 1] v exactly_new [of "?total - ?loc" 0, unfolded rem] in simp_all)
  then obtain s1 where s1: "gather (\<lambda>i. receive_into i ?n) [?h..<?N] (Result_new 0 (?total - ?loc)) ?q1 =
      Some (s1, \<lambda>i. if i \<in> set [?h..<?N] then rest i else ?q1 i)" "holds s1 (concat (map (?v 1) [?h..<?N]))"
    unfolding exactly_def by auto
  have e: "(\<lambda>i. if i \<in> set [?h..<?N] then rest i else ?q1 i) = (\<lambda>i. if i \<in> set [1..<?N] then rest i else q i)"
    using h by (auto simp: fun_eq_iff)
  have "throughput (Selective hosts) nodes nt (res 0) q = Some ((s0, s1), \<lambda>i. if i \<in> set [1..<?N] then rest i else q i)"
    using r0(1) s0(1) s1(1) e row [OF N0, of 0] by (simp add: Let_def del: upt_Suc)
  then show ?thesis using s0(2) s1(2) upt_from_0 [OF h(1)] by simp
qed

text \<open>
  C39: Tallying is exact: node 0 gets every message that the other nodes send, no more and no fewer, and ends up
  with the counts of all threads that used local locks and of all that used remote ones, in the order of
  nodes and threads, and with all latencies that the threads have kept, as long as the capacities can be
  counted in 32 bits and the selective distribution has between one host and all nodes.
\<close>

theorem tally_exact:
  assumes "0 < unat nodes" and "hosts_within d (unat nodes)"
    and "unat nodes * unat nt * unat sn < 2 ^ 32" and "unat nodes * unat nt < 2 ^ 32"
    and "\<forall>i < unat nodes. results_ok (unat nt) sn (res i)"
  shows "\<exists>t l. TallyResults d nodes nt sn (res 0)
      (\<lambda>i. if i \<in> {1..<unat nodes} then tally_messages d i (unat nt) (res i) else []) = Some (t, l, \<lambda>i. []) \<and>
    holds (fst t) (concat (map (\<lambda>i. counts (res i) ! 0) (local_nodes d (unat nodes)))) \<and>
    holds (snd t) (concat (map (\<lambda>i. counts (res i) ! 1) (remote_nodes d (unat nodes)))) \<and>
    holds (fst l) (concat (map (\<lambda>i. all_kept (latencies (res i) ! 0)) [0..<unat nodes])) \<and>
    holds (snd l) (concat (map (\<lambda>i. all_kept (latencies (res i) ! 1)) [0..<unat nodes]))"
proof -
  let ?js = "[1..<unat nodes]" and ?n = "unat nt"
  let ?q = "\<lambda>i. if i \<in> {1..<unat nodes} then tally_messages d i ?n (res i) else []"
  let ?q1 = "\<lambda>i. if i \<in> set ?js then count_messages d i ?n (res i) @ latency_rows ?n (res i) else ?q i"
  let ?q2 = "\<lambda>i. if i \<in> set ?js then latency_rows ?n (res i) else ?q1 i"
  have s: "gather synchronise ?js () ?q = Some ((), ?q1)"
    by (rule synchronise_nodes [where v = "\<lambda>_. 0"]) (simp_all add: tally_messages_def latency_rows_def)
  have "\<exists>t. throughput d nodes nt (res 0) ?q1 = Some (t, ?q2) \<and>
      holds (fst t) (concat (map (\<lambda>i. counts (res i) ! 0) (local_nodes d (unat nodes)))) \<and>
      holds (snd t) (concat (map (\<lambda>i. counts (res i) ! 1) (remote_nodes d (unat nodes))))"
  proof (cases d)
    case Uniform
    show ?thesis unfolding Uniform local_nodes.simps remote_nodes.simps
      by (rule throughput_uniform [OF assms(1,4,5)]) simp
  next
    case (Selective hosts)
    show ?thesis unfolding Selective local_nodes.simps remote_nodes.simps
      by (rule throughput_selective [OF _ _ assms(4,5)]) (use assms(2) Selective in simp_all)
  qed
  then obtain t where t: "throughput d nodes nt (res 0) ?q1 = Some (t, ?q2)"
    "holds (fst t) (concat (map (\<lambda>i. counts (res i) ! 0) (local_nodes d (unat nodes))))"
    "holds (snd t) (concat (map (\<lambda>i. counts (res i) ! 1) (remote_nodes d (unat nodes))))" by blast
  have "\<exists>l. latency nodes nt sn (res 0) ?q2 = Some (l, \<lambda>i. if i \<in> set ?js then [] else ?q2 i) \<and>
      holds (fst l) (concat (map (\<lambda>i. all_kept (latencies (res i) ! 0)) [0..<unat nodes])) \<and>
      holds (snd l) (concat (map (\<lambda>i. all_kept (latencies (res i) ! 1)) [0..<unat nodes]))"
    by (rule latency_gathered [OF assms(1,3,4,5)]) simp
  then obtain l where l: "latency nodes nt sn (res 0) ?q2 = Some (l, \<lambda>i. if i \<in> set ?js then [] else ?q2 i)"
    "holds (fst l) (concat (map (\<lambda>i. all_kept (latencies (res i) ! 0)) [0..<unat nodes]))"
    "holds (snd l) (concat (map (\<lambda>i. all_kept (latencies (res i) ! 1)) [0..<unat nodes]))" by blast
  have e: "(\<lambda>i. if i \<in> set ?js then [] else ?q2 i) = (\<lambda>i. [])" by (auto simp: fun_eq_iff)
  have "TallyResults d nodes nt sn (res 0) ?q = Some (t, l, \<lambda>i. [])"
    unfolding TallyResults_def s Option.bind.bind_lunit prod.case t(1) l(1) e ..
  with t(2,3) l(2,3) show ?thesis by blast
qed

text \<open>Two nodes with one thread each and room for two latencies; node 0 hosts the locks.\<close>

definition demo_samples :: "u32 \<Rightarrow> u64 list \<Rightarrow> Result" where
  "demo_samples n xs = (Result_new 0 2)\<lparr>number_of_samples := n, samples := xs\<rparr>"

definition demo_results :: "nat \<Rightarrow> node_results" where
  "demo_results i =
     (if i = 0 then \<lparr>counts = [[7], [0]], latencies = [[demo_samples 3 [11, 12]], [demo_samples 0 [0, 0]]]\<rparr>
      else \<lparr>counts = [[0], [5]], latencies = [[demo_samples 0 [0, 0]], [demo_samples 1 [13, 0]]]\<rparr>)"

lemma demo_results_ok: "results_ok 1 2 (demo_results i)"
  by (auto simp: results_ok_def less_2_cases_iff demo_results_def demo_samples_def Result_new_def)

lemma demo_results_kept:
  "concat (map (\<lambda>i. all_kept (latencies (demo_results i) ! 0)) [0, 1]) = [11, 12]"
  "concat (map (\<lambda>i. all_kept (latencies (demo_results i) ! 1)) [0, 1]) = [13]"
  "concat (map (\<lambda>i. counts (demo_results i) ! 0) [0]) = [7]" "concat (map (\<lambda>i. counts (demo_results i) ! 1) [1]) = [5]"
  by code_simp+

theorem tally_exact_witness:
  "\<exists>t l. TallyResults (Selective 1) 2 1 2 (demo_results 0)
      (\<lambda>i. if i \<in> {1..<2} then tally_messages (Selective 1) i 1 (demo_results i) else []) = Some (t, l, \<lambda>i. []) \<and>
     holds (fst t) [7] \<and> holds (snd t) [5] \<and> holds (fst l) [11, 12] \<and> holds (snd l) [13]"
proof -
  have u: "unat (2 :: u16) = 2" "unat (1 :: u32) = 1" "[0..<2] = [0, 1]" "local_nodes (Selective 1) 2 = [0]" "remote_nodes (Selective 1) 2 = [1]"
    by code_simp+
  have "0 < unat (2 :: u16)" "hosts_within (Selective 1) (unat (2 :: u16))" "unat (2 :: u16) * unat (1 :: u32) * unat (2 :: u32) < 2 ^ 32"
    "unat (2 :: u16) * unat (1 :: u32) < 2 ^ 32" "\<forall>i < unat (2 :: u16). results_ok (unat (1 :: u32)) 2 (demo_results i)"
    using demo_results_ok by simp_all
  from tally_exact [OF this] show ?thesis unfolding u demo_results_kept .
qed

end
