(* ===== verification/Spec2Isabelle.thy ===== *)
theory Spec2Isabelle
  imports FARLockProgress FARLockWordSim FARLockGProgress ALockLive McsLock PoolLocks Tally
begin

text \<open>
  A verification library for FARLock, an asymmetric RDMA lock, and for the code the repository builds
  around it.

  \<^bold>\<open>The program.\<close>  A cluster of nodes shares memory by RDMA.  On each node \<^verbatim>\<open>Manager\<close> allocates and registers
  a memory region, divides it into chunks, connects the node to every other node with \<^verbatim>\<open>Connector\<close> and
  \<^verbatim>\<open>Listener\<close>, and gives every thread a \<^verbatim>\<open>MemoryPool\<close>: a free list of chunks, a ring of landing buffers, and
  the one-sided operations \<^verbatim>\<open>Read\<close>, \<^verbatim>\<open>Write\<close>, \<^verbatim>\<open>CompareAndSwap\<close>, \<^verbatim>\<open>FetchAndAdd\<close> and \<^verbatim>\<open>Exchange\<close>.  A lock is a word or
  a cache line in such a region.  Threads on the lock's own node access it with CPU instructions, all
  others through their pool.  The lock handlers (\<^verbatim>\<open>FARLockHandler\<close>, \<^verbatim>\<open>FARLockGHandler\<close> and the spin, ticket, MCS
  and ALock handlers they are compared with) implement \<^verbatim>\<open>Lock\<close>, \<^verbatim>\<open>Unlock\<close> and \<^verbatim>\<open>IsLocked\<close> on top.  The benchmark allocates
  locks on the nodes, tells the nodes about each other's locks, lets every thread take random locks, and
  gathers the results on node 0.

  \<^bold>\<open>Lock protocols.\<close>
  \<^item> \<open>Prelude\<close>: machine integers, thread names, positions in waiting lines, lines of outstanding tickets.
  \<^item> \<open>Interleaving\<close>: runs of a step function under an arbitrary schedule and the contracts
    \<open>lock_protocol\<close> (mutual exclusion) and \<open>fifo_protocol\<close> (first come, first served), proved once and
    interpreted by every lock.
  \<^item> \<open>Draining\<close>: the contract \<open>draining\<close> (deadlock freedom), interpreted by FARLock, FARLockG and the ALock.
  \<^item> \<open>McsQueue\<close>, \<open>CohortQueue\<close>, \<open>Peterson\<close>, \<open>BatchLine\<close>: linked queues of descriptors; the pair of
    queues of a lock with two cohorts; Peterson's algorithm with non-atomic 16-byte transfers; lines in
    which a ticket is shared by a batch.
  \<^item> \<open>LockCommon\<close>: constants and configuration (\<^verbatim>\<open>include/locks/common.h\<close>).
  \<^item> \<open>FARLock\<close> models \<^verbatim>\<open>include/locks/farlock.h\<close>.  \<open>FARLockInv\<close>, \<open>FARLockStep\<close> and \<open>FARLockTicket\<close> hold its
    invariant and the proof that every step keeps it; \<open>FARLockThms\<close> mutual exclusion, order of entry and
    \<^verbatim>\<open>IsLocked\<close>; \<open>FARLockLive\<close> and \<open>FARLockProgress\<close> deadlock freedom.
  \<^item> \<open>FARLockWords\<close> models \<^verbatim>\<open>farlock.h\<close> once more, on the words of the cluster's memory: the offsets of the
    fields, the pointers of both queues as they are stored, the chunks of the constructor.  \<open>Refining\<close> is the
    contract \<open>step_refinement\<close> between words and names, \<open>FARLockWordSim\<close> its proof.
  \<^item> \<open>FARLockG\<close> models \<^verbatim>\<open>include/locks/farlockg.h\<close>; \<open>FARLockGInv\<close> holds its invariant,
    \<open>FARLockGEffect\<close> the effect of each step, \<open>FARLockGStep\<close>, \<open>FARLockGPeterson\<close>, \<open>FARLockGTicket\<close> and
    \<open>FARLockGUnlock\<close> the proof that the steps of joining, of Peterson's algorithm, of passing tickets on and
    of releasing keep it; \<open>FARLockGThms\<close> mutual exclusion, order of entry and what a budget of zero does;
    \<open>FARLockGBatch\<close> the length of batches; \<open>FARLockGLive\<close> and \<open>FARLockGProgress\<close> deadlock freedom.
  \<^item> \<open>ALock\<close> models \<^verbatim>\<open>a_lock.h\<close> of \<^verbatim>\<open>include/third_party/locks\<close> and its wrapper \<^verbatim>\<open>include/locks/a_lock_wrap.h\<close>;
    \<open>ALockInv\<close> holds its invariant (queues with budgets, Peterson's algorithm with the tails as flags),
    \<open>ALockThms\<close> its proof, mutual exclusion and order of entry, \<open>ALockLive\<close> the bounds of the budgets and
    deadlock freedom.
  \<^item> \<open>TicketLock\<close>, \<open>SpinLock\<close>, \<open>McsLock\<close> model \<^verbatim>\<open>rdma_ticket_lock.h\<close>, \<^verbatim>\<open>rdma_spin_lock.h\<close> and
    \<^verbatim>\<open>rdma_mcs_lock.h\<close> of \<^verbatim>\<open>include/third_party/locks\<close> as interleaved steps.

  A protocol is a function \<open>step t s\<close>: the next access of thread \<open>t\<close> to shared memory, or to a word of its
  own descriptor that another thread accesses.  A reachable state is the result of any finite schedule.
  CPU atomics and RDMA atomics on the same word are not atomic with respect to each other: the remote
  fetch-and-add of \<^verbatim>\<open>next_ticket_\<close> is a read and a later write, and so is the remote compare-and-swap of the
  ALock's \<^verbatim>\<open>victim\<close>.  A 16-byte RDMA transfer is two steps in
  address order.  \<^verbatim>\<open>IsLocked\<close> reads two words, each in a state of its own.  Memory is sequentially consistent.  A failed assertion ends the process, so the thread
  takes no further step.

  \<^bold>\<open>Memory and connections.\<close>
  \<^item> \<open>Pointers\<close>: the packed pointers \<^verbatim>\<open>rdma::Pointer\<close> and \<^verbatim>\<open>rdma_ptr\<close>.
  \<^item> \<open>Verbs\<close>: the verbs library and the sockets as records of functions over an arbitrary world \<open>'n\<close>, the
    result type (\<open>None\<close>: the call never returns; \<open>Inl\<close>: an error that ends the process; \<open>Inr\<close>: a result), and
    the functions of \<^verbatim>\<open>include/rdma/utils.h\<close> that create and connect queue pairs.
  \<^item> \<open>FreeList\<close> and \<open>WordMemory\<close>: the contracts \<open>chunk_allocator\<close> and \<open>word_memory\<close>.
  \<^item> \<open>MemoryPool\<close>, \<open>MemoryPoolThms\<close>: \<^verbatim>\<open>include/rdma/memory_pool.h\<close> and what it promises; the pool interprets
    both contracts.
  \<^item> \<open>PoolLocks\<close>: the spin and ticket locks as the calls of the pool they really are; each round of the loops
    of \<^verbatim>\<open>Lock\<close>, the draw of a ticket and \<^verbatim>\<open>Unlock\<close> refine the steps of the interleaved models.
  \<^item> \<open>Listener\<close>, \<open>Connector\<close>: the two ends of connection set-up, and what both know of each other after a
    handshake between them.
  \<^item> \<open>MemInfo\<close>, \<open>PortScan\<close>, \<open>Region\<close>, \<open>Manager\<close>: the parts of \<^verbatim>\<open>include/rdma/manager.h\<close>.

  Memory is a function from addresses to 64-bit words, accessed at multiples of 8.  Loops that wait for the
  network are \<open>partial_function (option)\<close>; where the network answers they are proved to return
  (\<open>Exchange_served\<close> and its neighbours).  The definitions have no fuel; \<open>cas_rounds\<close>, the loop of \<^verbatim>\<open>Exchange\<close> cut off
  after a number of rounds, only serves to count its compare-and-swaps.

  \<^bold>\<open>Benchmark.\<close>
  \<^item> \<open>UniformRandom\<close>: the generator of \<^verbatim>\<open>uniform_random.hpp\<close>.
  \<^item> \<open>Rendezvous\<close>: nodes that run scripts of \<^verbatim>\<open>Send\<close> and \<^verbatim>\<open>Receive\<close> calls; scripts that are views of one sequence of
    messages do not block.
  \<^item> \<open>LockTable\<close>: the lock tables, their exchange and the choice of locks in \<^verbatim>\<open>include/benchmark/benchmark.h\<close>;
    the synchronisation in the destructor runs the script of the exchange, too.
  \<^item> \<open>BenchResult\<close>: the sample collections of \<^verbatim>\<open>include/benchmark/result.h\<close>.
  \<^item> \<open>Tally\<close>: \<^verbatim>\<open>TallyResults\<close>.

  \<^bold>\<open>What is shown.\<close>  For FARLock: mutual exclusion, entry in ticket order, first come first served within a
  cohort, deadlock freedom while fewer than \<open>2 ^ 64 - 1\<close> tickets have been drawn, what \<^verbatim>\<open>IsLocked\<close> answers; the
  words in memory simulate this protocol when every structure has its own cache line, so that mutual exclusion
  and the order of entry hold there, too.  For FARLockG with positive budgets: mutual exclusion, first come
  first served within a cohort, deadlock freedom, and that a ticket serves no more threads than the budget; with
  a budget of zero it deadlocks.  For the ALock: mutual exclusion for all budgets, first come first served
  within a cohort and, with positive budgets, deadlock freedom and the bounds of the budget.  For the MCS,
  ticket and spin locks: mutual exclusion and, for the first two, order of entry.  For the pool: the allocator
  refines a list of chunks, the remote operations change exactly the word they address and return what they
  should, and the invariant is kept.  For set-up: every pool gets a target for every node, each from the
  connection that belongs there, the listener ends only when as many different clients are connected as it
  expects, the two ends of a connection know each other's region, the free lists divide the region when every
  list has a chunk, and the errors on the way.  For the benchmark: all nodes compute the same lock tables and
  their exchange does not block, a new collection that has been filled but not beyond its capacity reports its
  samples exactly, and the tally gets the samples of all threads.

  \<^bold>\<open>Assumptions.\<close>  Assertions are active, as in the Debug build.  The verbs and socket libraries are parameters;
  a theorem that needs them to behave states it (\<open>serves\<close>, \<open>net_ok\<close>, \<open>linked\<close>), with a concrete instance in the
  witness.  The listener's thread is run where the manager waits for it.  The product with the \<^verbatim>\<open>double\<close>
  \<^verbatim>\<open>shared_ratio\<close> is a parameter.

  \<^bold>\<open>Not modelled.\<close>  Logging, printing, destructors and the singleton accessor (output and object lifetime
  only); the configuration file and the command line; the threads, clocks and floating-point statistics of
  the benchmark; random numbers other than \<^verbatim>\<open>uniform_within\<close> and \<^verbatim>\<open>uniform_within_except\<close>; the
  vendored JSON and logging libraries, which are third-party code.
\<close>

end
